(* ===== verification/Chronicle_Prelude.thy ===== *)
theory Chronicle_Prelude
  imports Main "HOL-Library.Word" "HOL-Library.AList" "HOL-Library.Sublist"
begin

text \<open>
  The vocabulary shared by the models of the chronicle.rs components: Rust's machine integers as
  words of their width (the program is built with \<^verbatim>\<open>cargo build --release\<close>, whose arithmetic
  wraps), \<^verbatim>\<open>Range<u32>\<close>, \<^verbatim>\<open>HashMap\<close> as an association list with distinct keys, the results of
  fallible code, the interface of the third-party \<^verbatim>\<open>lru::LruCache\<close>, and the lemmas on them that
  the component theories share.
\<close>

section \<open>Integers, identifiers, results\<close>

type_synonym u8 = "8 word"
type_synonym u16 = "16 word"
type_synonym u32 = "32 word"
type_synonym u64 = "64 word"
type_synonym u128 = "128 word"
type_synonym usize = "64 word"

text \<open>A \<^verbatim>\<open>MessageId\<close> is 32 bytes; it is read as one big-endian value, so \<^verbatim>\<open>MessageId::null()\<close> is 0
  and \<^verbatim>\<open>as_ref()[0]\<close> is the top byte.\<close>

type_synonym message_id = "256 word"

definition first_byte :: "message_id \<Rightarrow> u8" where
  "first_byte m = ucast (drop_bit 248 m)"

text \<open>A panic (\<^verbatim>\<open>unwrap\<close> or \<^verbatim>\<open>expect\<close> on nothing, division by zero) is told apart from an
  \<^verbatim>\<open>anyhow::Error\<close> that the caller gets as a value.\<close>

datatype failure = Panic | Failed string

type_synonym 'a result = "failure + 'a"

text \<open>Sequencing of fallible steps.\<close>

definition rbind :: "'a result \<Rightarrow> ('a \<Rightarrow> 'b result) \<Rightarrow> 'b result" where
  "rbind r k = (case r of Inl e \<Rightarrow> Inl e | Inr x \<Rightarrow> k x)"

lemma rbind_simps [simp]: "rbind (Inl e) k = Inl e" "rbind (Inr x) k = k x"
  by (simp_all add: rbind_def)

lemma rbind_Inr_iff: "rbind r k = Inr y \<longleftrightarrow> (\<exists>x. r = Inr x \<and> k x = Inr y)"
  by (cases r) auto

text \<open>
  A step of an actor that may return an \<^verbatim>\<open>anyhow::Error\<close> which its event loop only logs: the state
  is kept as it was when the error was returned.
\<close>

type_synonym 's step = "(string option \<times> 's) result"

definition step_then :: "'s step \<Rightarrow> ('s \<Rightarrow> 's step) \<Rightarrow> 's step" where
  "step_then r k = rbind r (\<lambda>(e, s). case e of None \<Rightarrow> k s | Some m \<Rightarrow> Inr (Some m, s))"

lemma step_then_simps [simp]:
  "step_then (Inl e) k = Inl e" "step_then (Inr (None, s)) k = k s"
  "step_then (Inr (Some m, s)) k = Inr (Some m, s)"
  by (simp_all add: step_then_def)

lemma step_then_Inr_iff:
  "step_then r k = Inr y \<longleftrightarrow> (\<exists>s. r = Inr (None, s) \<and> k s = Inr y) \<or> (\<exists>m s. r = Inr (Some m, s) \<and> y = (Some m, s))"
  by (auto simp: step_then_def rbind_Inr_iff split: option.splits)

definition u32_max :: u32 where "u32_max = - 1"

definition i32_max :: u32 where "i32_max = 0x7FFFFFFF"

named_theorems range_simps \<open>arithmetic of half-open word ranges below a known bound\<close>
named_theorems hm_simps \<open>lookups in hash maps after an update\<close>

section \<open>Word arithmetic without wrap-around\<close>

lemma word_succ_le_iff [range_simps]:
  fixes x y z :: "'a::len word"
  shows "x < y \<Longrightarrow> x + 1 \<le> z \<longleftrightarrow> x < z"
  by unat_arith

lemma word_less_succ_iff [range_simps]:
  fixes x y z :: "'a::len word"
  shows "x < y \<Longrightarrow> z < x + 1 \<longleftrightarrow> z \<le> x"
  by (metis linorder_not_le word_succ_le_iff)

lemma word_less_succ [range_simps]:
  fixes x y :: "'a::len word"
  shows "x < y \<Longrightarrow> x < x + 1"
  by (simp add: word_less_succ_iff)

lemma word_succ_ne [simp]:
  fixes x :: "'a::len word"
  shows "x + 1 \<noteq> x" "x \<noteq> x + 1"
  by simp_all

lemma unat_succ:
  fixes x y :: "'a::len word"
  shows "x < y \<Longrightarrow> unat (x + 1) = Suc (unat x)"
  by unat_arith

lemma unat_pred:
  fixes x y :: "'a::len word"
  shows "y < x \<Longrightarrow> unat (x - 1) = unat x - 1"
  by unat_arith

lemma word_pred_less:
  fixes x y :: "'a::len word"
  shows "y < x \<Longrightarrow> x - 1 < x"
  by unat_arith

section \<open>Half-open ranges of milestone indices\<close>

text \<open>Rust's \<^verbatim>\<open>Range<u32>\<close>: \<open>rstart\<close> included, \<open>rend\<close> not. It is also the iterator that
  \<^verbatim>\<open>range.next()\<close> advances.\<close>

record u32_range =
  rstart :: u32
  rend :: u32

abbreviation Range :: "u32 \<Rightarrow> u32 \<Rightarrow> u32_range" where
  "Range a b \<equiv> \<lparr>rstart = a, rend = b\<rparr>"

definition range_contains :: "u32_range \<Rightarrow> u32 \<Rightarrow> bool" where
  "range_contains r x \<longleftrightarrow> rstart r \<le> x \<and> x < rend r"

definition range_next :: "u32_range \<Rightarrow> u32 option \<times> u32_range" where
  "range_next r = (if rstart r < rend r
                   then (Some (rstart r), r\<lparr>rstart := rstart r + 1\<rparr>) else (None, r))"

definition range_set :: "u32_range \<Rightarrow> u32 set" where
  "range_set r = {rstart r ..< rend r}"

definition ranges_set :: "u32_range list \<Rightarrow> u32 set" where
  "ranges_set rs = (\<Union>r\<in>set rs. range_set r)"

text \<open>The elements a range still yields, in order.\<close>

definition range_list :: "u32_range \<Rightarrow> u32 list" where
  "range_list r = map of_nat [unat (rstart r) ..< unat (rend r)]"

lemma range_contains_set: "range_contains r x \<longleftrightarrow> x \<in> range_set r"
  by (simp add: range_contains_def range_set_def)

lemma range_set_Range [simp]: "range_set (Range a b) = {a ..< b}"
  by (simp add: range_set_def)

lemma ranges_set_simps [simp]:
  "ranges_set [] = {}"
  "ranges_set (r # rs) = range_set r \<union> ranges_set rs"
  "ranges_set (rs @ rs') = ranges_set rs \<union> ranges_set rs'"
  by (auto simp: ranges_set_def)

lemma range_list_Nil: "rend r \<le> rstart r \<Longrightarrow> range_list r = []"
  by (simp add: range_list_def word_le_nat_alt)

lemma range_list_Cons:
  assumes "rstart r < rend r"
  shows "range_list r = rstart r # range_list (r\<lparr>rstart := rstart r + 1\<rparr>)"
proof -
  have "unat (rstart r) < unat (rend r)"
    using assms by (simp add: word_less_nat_alt)
  then show ?thesis
    using unat_succ [OF assms] by (simp add: range_list_def upt_conv_Cons)
qed

lemma range_next_list:
  "range_next r = (None, r') \<longleftrightarrow> range_list r = [] \<and> r' = r"
  "range_next r = (Some x, r') \<Longrightarrow> range_list r = x # range_list r'"
proof -
  show "range_next r = (None, r') \<longleftrightarrow> range_list r = [] \<and> r' = r"
    by (auto simp: range_next_def range_list_Nil range_list_Cons not_less)
  show "range_next r = (Some x, r') \<Longrightarrow> range_list r = x # range_list r'"
    by (auto simp: range_next_def range_list_Cons split: if_splits)
qed

lemma set_range_list: "set (range_list r) = range_set r"
proof -
  have "set (range_list r) = (of_nat :: nat \<Rightarrow> u32) ` {unat (rstart r) ..< unat (rend r)}"
    by (simp add: range_list_def)
  also have "\<dots> = range_set r"
  proof (intro set_eqI iffI)
    fix x :: u32 assume "x \<in> of_nat ` {unat (rstart r) ..< unat (rend r)}"
    then obtain n where n: "x = of_nat n" "unat (rstart r) \<le> n" "n < unat (rend r)"
      by auto
    then have "unat x = n"
      by (metis of_nat_inverse order_less_trans unsigned_less)
    with n show "x \<in> range_set r"
      by (simp add: range_set_def word_le_nat_alt word_less_nat_alt)
  next
    fix x :: u32 assume "x \<in> range_set r"
    then have "unat x \<in> {unat (rstart r) ..< unat (rend r)}"
      by (simp add: range_set_def word_le_nat_alt word_less_nat_alt)
    then show "x \<in> of_nat ` {unat (rstart r) ..< unat (rend r)}"
      by (metis imageI of_nat_unat ucast_id)
  qed
  finally show ?thesis .
qed

lemma length_range_list: "length (range_list r) = unat (rend r) - unat (rstart r)"
  by (simp add: range_list_def)

lemma sorted_range_list: "sorted_wrt (<) (range_list r)"
proof (induction "length (range_list r)" arbitrary: r)
  case 0
  then show ?case by simp
next
  case (Suc n)
  then have lt: "rstart r < rend r"
    by (metis linorder_not_less list.size(3) nat.distinct(1) range_list_Nil)
  then have eq: "range_list r = rstart r # range_list (r\<lparr>rstart := rstart r + 1\<rparr>)"
    by (rule range_list_Cons)
  with Suc have "sorted_wrt (<) (range_list (r\<lparr>rstart := rstart r + 1\<rparr>))" by simp
  then show ?case
    using lt by (auto simp: eq set_range_list range_set_def range_simps)
qed

section \<open>Hash maps\<close>

text \<open>
  \<^verbatim>\<open>std::collections::HashMap\<close> as the list of its entries. The order of the list is the order of
  the map's iterator, which Rust leaves open; no property below depends on it. Every map the
  code builds keeps its keys distinct (\<open>hm_ok\<close>).
\<close>

type_synonym ('k, 'v) hmap = "('k \<times> 'v) list"

abbreviation hm_get :: "('k, 'v) hmap \<Rightarrow> 'k \<Rightarrow> 'v option" where
  "hm_get m k \<equiv> map_of m k"

abbreviation hm_insert :: "'k \<Rightarrow> 'v \<Rightarrow> ('k, 'v) hmap \<Rightarrow> ('k, 'v) hmap" where
  "hm_insert k v m \<equiv> AList.update k v m"

abbreviation hm_remove :: "'k \<Rightarrow> ('k, 'v) hmap \<Rightarrow> ('k, 'v) hmap" where
  "hm_remove k m \<equiv> AList.delete k m"

definition hm_contains :: "('k, 'v) hmap \<Rightarrow> 'k \<Rightarrow> bool" where
  "hm_contains m k \<longleftrightarrow> map_of m k \<noteq> None"

text \<open>\<^verbatim>\<open>entry(k).or_insert_with(f)\<close>: keep an existing entry.\<close>

definition hm_or_insert :: "'k \<Rightarrow> 'v \<Rightarrow> ('k, 'v) hmap \<Rightarrow> ('k, 'v) hmap" where
  "hm_or_insert k v m = (if map_of m k = None then AList.update k v m else m)"

definition hm_ok :: "('k, 'v) hmap \<Rightarrow> bool" where
  "hm_ok m \<longleftrightarrow> distinct (map fst m)"

abbreviation hm_keys :: "('k, 'v) hmap \<Rightarrow> 'k set" where
  "hm_keys m \<equiv> fst ` set m"

lemma hm_get_insert [simp, hm_simps]: "map_of (AList.update k v m) k' = (if k' = k then Some v else map_of m k')"
  by (simp add: update_conv')

lemma hm_get_remove [simp, hm_simps]: "map_of (AList.delete k m) k' = (if k' = k then None else map_of m k')"
  by (simp add: delete_conv')

lemma hm_get_or_insert [simp, hm_simps]:
  "map_of (hm_or_insert k v m) k' =
     (if k' = k then Some (case map_of m k of None \<Rightarrow> v | Some w \<Rightarrow> w) else map_of m k')"
  by (auto simp: hm_or_insert_def split: option.splits)

lemma hm_ok_simps [simp, intro]:
  "hm_ok []"
  "hm_ok m \<Longrightarrow> hm_ok (AList.update k v m)"
  "hm_ok m \<Longrightarrow> hm_ok (AList.delete k m)"
  "hm_ok m \<Longrightarrow> hm_ok (hm_or_insert k v m)"
  by (simp_all add: hm_ok_def hm_or_insert_def distinct_update distinct_delete)

lemma hm_keys_insert [simp]: "hm_keys (AList.update k v m) = insert k (hm_keys m)"
  by (induction m) auto

lemma hm_keys_remove [simp]: "hm_keys (AList.delete k m) = hm_keys m - {k}"
  by (auto simp: AList.delete_eq)

lemma hm_keys_dom: "hm_keys m = dom (map_of m)"
  by (simp add: dom_map_of_conv_image_fst)

lemma hm_contains_keys: "hm_contains m k \<longleftrightarrow> k \<in> hm_keys m"
  by (simp add: hm_contains_def map_of_eq_None_iff)

lemma length_hm: "hm_ok m \<Longrightarrow> length m = card (hm_keys m)"
  by (metis hm_ok_def distinct_card length_map list.set_map)

section \<open>The LRU cache interface\<close>

text \<open>
  \<^verbatim>\<open>lru::LruCache\<close> is a third-party container, so its operations are a parameter of the components
  that use it. \<open>lru_peek\<close> is its (recency-preserving) lookup, in terms of which the documented
  behaviour is stated: \<^verbatim>\<open>get\<close> and \<^verbatim>\<open>get_mut\<close> only change recency, a write through \<^verbatim>\<open>get_mut\<close>
  changes that entry, \<^verbatim>\<open>put\<close> stores the entry and may evict others, \<^verbatim>\<open>pop\<close> removes the entry.
\<close>

record ('c, 'k, 'v) lru_api =
  lru_peek :: "'c \<Rightarrow> 'k \<Rightarrow> 'v option"
  lru_touch :: "'c \<Rightarrow> 'k \<Rightarrow> 'c"
  lru_put :: "'c \<Rightarrow> 'k \<Rightarrow> 'v \<Rightarrow> 'c"
  lru_pop :: "'c \<Rightarrow> 'k \<Rightarrow> 'c"

definition lru_get :: "('c, 'k, 'v) lru_api \<Rightarrow> 'c \<Rightarrow> 'k \<Rightarrow> 'v option \<times> 'c" where
  "lru_get api c k = (lru_peek api c k, lru_touch api c k)"

definition lru_laws :: "('c, 'k, 'v) lru_api \<Rightarrow> bool" where
  "lru_laws api \<longleftrightarrow>
     (\<forall>c k k'. lru_peek api (lru_touch api c k) k' = lru_peek api c k') \<and>
     (\<forall>c k v. lru_peek api (lru_put api c k v) k = Some v) \<and>
     (\<forall>c k k' v. k' \<noteq> k \<longrightarrow> lru_peek api (lru_put api c k v) k' \<in> {None, lru_peek api c k'}) \<and>
     (\<forall>c k k'. lru_peek api (lru_pop api c k) k' = (if k' = k then None else lru_peek api c k'))"

text \<open>A cache that never evicts meets the laws: a hash map.\<close>

definition unbounded_lru :: "(('k, 'v) hmap, 'k, 'v) lru_api" where
  "unbounded_lru = \<lparr>lru_peek = map_of, lru_touch = (\<lambda>c k. c), lru_put = (\<lambda>c k v. AList.update k v c),
     lru_pop = (\<lambda>c k. AList.delete k c)\<rparr>"

lemma unbounded_lru_laws: "lru_laws unbounded_lru"
  by (simp add: lru_laws_def unbounded_lru_def)

end
