(* ===== verification/Tangle_Types.thy ===== *)
theory Tangle_Types
  imports Chronicle_Prelude
begin

text \<open>
  The messages of the tangle, as far as the program inspects them, and the storage objects built
  from them. The \<^verbatim>\<open>bee_message\<close> types are third-party: of their enums the model has the variants that
  the source matches on and one variant for the rest, of their structs the fields that the source
  reads. \<^verbatim>\<open>MessageMetadata\<close>, \<^verbatim>\<open>LedgerInclusionState\<close>, \<^verbatim>\<open>FullMessage\<close> and the \<^verbatim>\<open>transactions\<close> row data are
  those of \<^verbatim>\<open>chronicle-storage/src/access/types.rs\<close>.
\<close>

section \<open>Messages\<close>

type_synonym transaction_id = "256 word"
type_synonym milestone_id = "256 word"
type_synonym ed25519_address = "256 word"

record output_id =
  oi_transaction_id :: transaction_id
  oi_index :: u16

datatype input_t = Utxo output_id | TreasuryIn milestone_id | OtherInput

datatype output_t =
    SignatureLockedSingle ed25519_address u64
  | SignatureLockedDustAllowance ed25519_address u64
  | TreasuryOut u64
  | OtherOutput

text \<open>An unlock block is stored and returned, never inspected: its packed bytes.\<close>

type_synonym unlock_block = "u8 list"

record milestone_payload =
  mp_index :: u32
  mp_timestamp :: u64
  mp_parents :: "message_id list"

datatype payload =
    Indexation_P "u8 list" "u8 list"
  | Transaction_P "input_t list" "output_t list" "payload option" "unlock_block list"
  | Milestone_P milestone_payload
  | Other_P

record message =
  msg_parents :: "message_id list"
  msg_payload :: "payload option"
  msg_nonce :: u64

section \<open>Metadata\<close>

datatype ledger_inclusion_state = Conflicting | Included | NoTransaction

record message_metadata =
  md_message_id :: message_id
  md_parent_message_ids :: "message_id list"
  md_is_solid :: bool
  md_referenced_by :: "u32 option"
  md_inclusion_state :: "ledger_inclusion_state option"
  md_should_promote :: "bool option"
  md_should_reattach :: "bool option"

datatype full_message = FullMessage message message_metadata

fun fm_message :: "full_message \<Rightarrow> message" where
  "fm_message (FullMessage m md) = m"

fun fm_metadata :: "full_message \<Rightarrow> message_metadata" where
  "fm_metadata (FullMessage m md) = md"

fun fm_message_id :: "full_message \<Rightarrow> message_id" where
  "fm_message_id (FullMessage m md) = md_message_id md"

fun fm_ref_ms :: "full_message \<Rightarrow> u32 option" where
  "fm_ref_ms (FullMessage m md) = md_referenced_by md"

text \<open>\<^verbatim>\<open>MilestoneMessage\<close> of the solidifier: a milestone's message with its payload.\<close>

record milestone_message =
  mm_message_id :: message_id
  mm_payload :: milestone_payload
  mm_message :: message
  mm_metadata :: "message_metadata option"

section \<open>The \<^verbatim>\<open>transactions\<close> row data\<close>

record unlock_data =
  ud_input_tx_id :: transaction_id
  ud_input_index :: u16
  ud_unlock_block :: unlock_block

datatype input_data = UtxoData output_id unlock_block | TreasuryData milestone_id

datatype transaction_data = TInput input_data | TOutput output_t | TUnlock unlock_data

datatype transaction_variant = VInput | VOutput | VUnlock

section \<open>Sources of milestone data\<close>

datatype created_by = Incoming | Expected | Syncer_C

fun created_by_u8 :: "created_by \<Rightarrow> u8" where
  "created_by_u8 Incoming = 0"
| "created_by_u8 Expected = 1"
| "created_by_u8 Syncer_C = 2"

end
