(* ===== verification/Sync_Data.thy ===== *)
theory Sync_Data
  imports Chronicle_Prelude
begin

text \<open>
  The database sync data: \<^verbatim>\<open>SyncData\<close> of \<^verbatim>\<open>chronicle-broker/src/types.rs\<close>, with the rows of the
  sync table (\<^verbatim>\<open>SyncRecord\<close>), the pager over result pages, the scan that sorts the milestones of a
  sync range into completed, synced but unlogged and missing ones, and the operations that hand
  out the lowest block of work to the syncer.
\<close>

section \<open>Data\<close>

text \<open>\<^verbatim>\<open>SyncRange\<close> of \<^verbatim>\<open>chronicle-common/src/lib.rs\<close> and its default.\<close>

record sync_range =
  sr_from :: u32
  sr_to :: u32

definition default_sync_range :: sync_range where
  "default_sync_range = \<lparr>sr_from = 1, sr_to = i32_max\<rparr>"

definition sync_range_of_range :: "u32_range \<Rightarrow> sync_range" where
  "sync_range_of_range r = \<lparr>sr_from = rstart r, sr_to = rend r\<rparr>"

record sync_record =
  milestone_index :: u32
  synced_by :: "u8 option"
  logged_by :: "u8 option"

record sync_data =
  completed :: "u32_range list"
  synced_but_unlogged :: "u32_range list"
  gaps :: "u32_range list"

definition default_sync_data :: sync_data where
  "default_sync_data = \<lparr>completed = [], synced_but_unlogged = [], gaps = []\<rparr>"

section \<open>The pager\<close>

text \<open>\<^verbatim>\<open>PagedSyncData\<close>: a queue of row iterators; \<^verbatim>\<open>next\<close> drops the pages that have become empty.\<close>

type_synonym page_rows = "sync_record list"

definition add_next_page :: "page_rows list \<Rightarrow> page_rows \<Rightarrow> page_rows list" where
  "add_next_page pages p = pages @ [p]"

fun paged_next :: "page_rows list \<Rightarrow> sync_record option \<times> page_rows list" where
  "paged_next [] = (None, [])"
| "paged_next ([] # ps) = paged_next ps"
| "paged_next ((r # rs) # ps) = (Some r, rs # ps)"

lemma paged_next_concat:
  "paged_next pages = (None, ps) \<Longrightarrow> concat pages = []"
  "paged_next pages = (Some r, ps) \<Longrightarrow> concat pages = r # concat ps"
  by (induction pages rule: paged_next.induct) auto

section \<open>Sorting rows into ranges\<close>

definition proceed :: "u32_range list \<Rightarrow> u32 \<Rightarrow> bool \<Rightarrow> u32_range list" where
  "proceed ranges mi check =
     (let end_ms = mi + 1 in
      case ranges of
        [] \<Rightarrow> ranges @ [Range mi end_ms]
      | _ \<Rightarrow> (if check \<and> rstart (last ranges) = end_ms
              then butlast ranges @ [(last ranges)\<lparr>rstart := mi\<rparr>]
              else ranges @ [Range mi end_ms]))"

definition process_gaps :: "sync_data \<Rightarrow> u32 \<Rightarrow> u32 \<Rightarrow> sync_data" where
  "process_gaps sd pre_ms mi =
     (let gap_start = mi + 1 in
      if gap_start \<noteq> pre_ms then sd\<lparr>gaps := gaps sd @ [Range gap_start pre_ms]\<rparr> else sd)"

definition process_rest :: "sync_data \<Rightarrow> u8 option \<Rightarrow> u32 \<Rightarrow> u8 option \<Rightarrow> sync_data" where
  "process_rest sd lb mi pre_lb =
     (if lb \<noteq> None
      then sd\<lparr>completed := proceed (completed sd) mi (pre_lb \<noteq> None)\<rparr>
      else sd\<lparr>synced_but_unlogged := proceed (synced_but_unlogged sd) mi (pre_lb = None)\<rparr>)"

text \<open>The loop over the remaining rows of \<^verbatim>\<open>try_fetch\<close>; \<open>pre_ms\<close> and \<open>pre_lb\<close> belong to the
  row before.\<close>

function scan_rows :: "sync_data \<Rightarrow> u32 \<Rightarrow> u8 option \<Rightarrow> page_rows list \<Rightarrow> sync_data \<times> u32" where
  "scan_rows sd pre_ms pre_lb pages =
     (case paged_next pages of
        (None, _) \<Rightarrow> (sd, pre_ms)
      | (Some r, pages') \<Rightarrow>
          (let sd = process_gaps sd pre_ms (milestone_index r);
               sd = process_rest sd (logged_by r) (milestone_index r) pre_lb
           in scan_rows sd (milestone_index r) (logged_by r) pages'))"
  by pat_completeness auto
termination
  by (relation "measure (\<lambda>(_, _, _, pages). length (concat pages))")
     (auto dest!: paged_next_concat(2) [OF sym] simp: paged_next_concat(2))

declare scan_rows.simps [simp del]

definition sort_rows :: "sync_range \<Rightarrow> page_rows list \<Rightarrow> sync_data" where
  "sort_rows sr pages =
     (case paged_next pages of
        (Some r, pages') \<Rightarrow>
          (let sd = process_gaps default_sync_data (sr_to sr) (milestone_index r);
               sd = process_rest sd (logged_by r) (milestone_index r) None;
               (sd, pre_ms) = scan_rows sd (milestone_index r) (logged_by r) pages'
           in process_gaps sd pre_ms (sr_from sr - 1))
      | (None, _) \<Rightarrow> process_gaps default_sync_data (sr_to sr) (sr_from sr - 1))"

section \<open>Fetching\<close>

text \<open>
  A page of the sync table as the driver (scylla-rs) decodes it: its rows, whether the server
  has more pages, and the paging state for the next query.
\<close>

record sync_page =
  pg_rows :: "sync_record list"
  pg_more :: bool
  pg_state :: "u8 list option"

text \<open>\<^verbatim>\<open>RowsDecoder<SyncRange, Iter<SyncRecord>>\<close> of \<^verbatim>\<open>chronicle-storage/src/access/select.rs\<close>: a
  page without rows is no result, whatever the server says about more pages.\<close>

definition decode_sync_page :: "sync_page \<Rightarrow> sync_page option" where
  "decode_sync_page p = (if pg_rows p = [] then None else Some p)"

text \<open>
  The receive loop of \<^verbatim>\<open>try_fetch\<close>. \<open>build\<close> is the third-party request builder (\<open>Some e\<close> when
  \<^verbatim>\<open>build()\<close> fails on that paging state). The list holds what the workers send on the channel, a
  page or an error; \<open>None\<close> is a fetch that still waits, since the sender is kept alive by the loop.
\<close>

fun recv_pages ::
  "(u8 list option \<Rightarrow> failure option) \<Rightarrow> (failure + sync_page) list \<Rightarrow> page_rows list \<Rightarrow>
     page_rows list result option" where
  "recv_pages build [] pages = None"
| "recv_pages build (Inl e # rx) pages = Some (Inl e)"
| "recv_pages build (Inr raw # rx) pages =
     (case decode_sync_page raw of
        None \<Rightarrow> Some (Inr pages)
      | Some p \<Rightarrow>
          (if pg_more p
           then (case build (pg_state p) of
                   Some e \<Rightarrow> Some (Inl e)
                 | None \<Rightarrow> recv_pages build rx (add_next_page pages (pg_rows p)))
           else Some (Inr (add_next_page pages (pg_rows p)))))"

definition try_fetch ::
  "(u8 list option \<Rightarrow> failure option) \<Rightarrow> sync_range \<Rightarrow> (failure + sync_page) list \<Rightarrow>
     sync_data result option" where
  "try_fetch build sr rx =
     (case build None of
        Some e \<Rightarrow> Some (Inl e)
      | None \<Rightarrow>
          (case recv_pages build rx [] of
             None \<Rightarrow> None
           | Some (Inl e) \<Rightarrow> Some (Inl e)
           | Some (Inr pages) \<Rightarrow> Some (Inr (sort_rows sr pages))))"

section \<open>Handing out work\<close>

text \<open>\<^verbatim>\<open>Vec::pop\<close> on the lists of ranges.\<close>

definition vec_pop :: "'a list \<Rightarrow> 'a option \<times> 'a list" where
  "vec_pop xs = (if xs = [] then (None, []) else (Some (last xs), butlast xs))"

definition vec_last :: "'a list \<Rightarrow> 'a option" where
  "vec_last xs = (if xs = [] then None else Some (last xs))"

definition take_lowest_gap :: "sync_data \<Rightarrow> u32_range option \<times> sync_data" where
  "take_lowest_gap sd = (case vec_pop (gaps sd) of (r, g) \<Rightarrow> (r, sd\<lparr>gaps := g\<rparr>))"

definition take_lowest_unlogged :: "sync_data \<Rightarrow> u32_range option \<times> sync_data" where
  "take_lowest_unlogged sd =
     (case vec_pop (synced_but_unlogged sd) of (r, u) \<Rightarrow> (r, sd\<lparr>synced_but_unlogged := u\<rparr>))"

definition take_lowest_gap_or_unlogged :: "sync_data \<Rightarrow> u32_range option \<times> sync_data" where
  "take_lowest_gap_or_unlogged sd =
     (case (vec_last (gaps sd), vec_last (synced_but_unlogged sd)) of
        (Some gap, Some unlogged) \<Rightarrow>
          (if rstart gap < rstart unlogged then take_lowest_gap sd else take_lowest_unlogged sd)
      | (Some _, None) \<Rightarrow> take_lowest_gap sd
      | (None, Some _) \<Rightarrow> take_lowest_unlogged sd
      | (None, None) \<Rightarrow> (None, sd))"

definition get_lowest_gap_or_unlogged :: "sync_data \<Rightarrow> u32_range option" where
  "get_lowest_gap_or_unlogged sd =
     (case (vec_last (gaps sd), vec_last (synced_but_unlogged sd)) of
        (Some gap, Some unlogged) \<Rightarrow>
          (if rstart gap < rstart unlogged then Some gap else Some unlogged)
      | (Some gap, None) \<Rightarrow> Some gap
      | (None, Some unlogged) \<Rightarrow> Some unlogged
      | (None, None) \<Rightarrow> None)"

abbreviation work_left :: "sync_data \<Rightarrow> nat" where
  "work_left sd \<equiv> length (gaps sd) + length (synced_but_unlogged sd)"

lemma get_take_lowest:
  "get_lowest_gap_or_unlogged sd = fst (take_lowest_gap_or_unlogged sd)"
  by (simp add: get_lowest_gap_or_unlogged_def take_lowest_gap_or_unlogged_def vec_last_def
      take_lowest_gap_def take_lowest_unlogged_def vec_pop_def)

lemma take_lowest_work_left:
  "take_lowest_gap_or_unlogged sd = (Some r, sd') \<Longrightarrow> work_left sd' < work_left sd"
  by (auto simp: take_lowest_gap_or_unlogged_def vec_last_def take_lowest_gap_def
      take_lowest_unlogged_def vec_pop_def split: if_splits option.splits)

text \<open>The loop of \<^verbatim>\<open>take_lowest_uncomplete\<close>: it extends the block while the next lowest range
  starts where the block ends.\<close>

function extend_uncomplete :: "u32_range \<Rightarrow> sync_data \<Rightarrow> u32_range \<times> sync_data" where
  "extend_uncomplete pre sd =
     (case get_lowest_gap_or_unlogged sd of
        Some next \<Rightarrow>
          (if rstart next = rend pre
           then extend_uncomplete (pre\<lparr>rend := rend next\<rparr>) (snd (take_lowest_gap_or_unlogged sd))
           else (pre, sd))
      | None \<Rightarrow> (pre, sd))"
  by pat_completeness auto
termination
proof (relation "measure (\<lambda>(_, sd). work_left sd)", simp_all only: in_measure split_conv wf_measure)
  fix pre sd "next"
  assume "get_lowest_gap_or_unlogged sd = Some next"
  then obtain sd' where "take_lowest_gap_or_unlogged sd = (Some next, sd')"
    by (metis get_take_lowest prod.collapse)
  then show "work_left (snd (take_lowest_gap_or_unlogged sd)) < work_left sd"
    by (simp add: take_lowest_work_left)
qed

declare extend_uncomplete.simps [simp del]

definition take_lowest_uncomplete :: "sync_data \<Rightarrow> u32_range option \<times> sync_data" where
  "take_lowest_uncomplete sd =
     (case take_lowest_gap_or_unlogged sd of
        (Some pre, sd) \<Rightarrow> (case extend_uncomplete pre sd of (r, sd) \<Rightarrow> (Some r, sd))
      | (None, sd) \<Rightarrow> (None, sd))"

section \<open>The scan sorts the milestones of the range\<close>

text \<open>Descending, pairwise separated, non-empty ranges: the shape of the three lists.\<close>

definition desc_ranges :: "u32_range list \<Rightarrow> bool" where
  "desc_ranges rs \<longleftrightarrow> sorted_wrt (\<lambda>a b. rend b < rstart a) rs \<and> (\<forall>r\<in>set rs. rstart r < rend r)"

lemma desc_ranges_Nil [simp]: "desc_ranges []" "desc_ranges [r] \<longleftrightarrow> rstart r < rend r"
  by (simp_all add: desc_ranges_def)

lemma desc_ranges_snoc [simp]:
  "desc_ranges (rs @ [r]) \<longleftrightarrow>
     desc_ranges rs \<and> rstart r < rend r \<and> (\<forall>a\<in>set rs. rend r < rstart a)"
  by (auto simp: desc_ranges_def sorted_wrt_append)

lemma proceed_snoc:
  "proceed [] mi check = [Range mi (mi + 1)]"
  "proceed (rs @ [r]) mi check =
     (if check \<and> rstart r = mi + 1 then rs @ [r\<lparr>rstart := mi\<rparr>] else rs @ [r, Range mi (mi + 1)])"
  by (cases rs; simp add: proceed_def Let_def)+

lemma proceed_correct:
  assumes "desc_ranges rs" and above: "\<forall>r\<in>set rs. pre \<le> rstart r" and lt: "mi < pre"
    and chk: "pre \<in> ranges_set rs \<Longrightarrow> check"
  shows "desc_ranges (proceed rs mi check)"
    and "ranges_set (proceed rs mi check) = insert mi (ranges_set rs)"
    and "\<forall>r\<in>set (proceed rs mi check). mi \<le> rstart r"
proof -
  have "desc_ranges (proceed rs mi check) \<and> ranges_set (proceed rs mi check) = insert mi (ranges_set rs)
     \<and> (\<forall>r\<in>set (proceed rs mi check). mi \<le> rstart r)"
  proof (cases rs rule: rev_cases)
    case Nil
    then show ?thesis using lt by (auto simp: proceed_snoc range_simps)
  next
    case (snoc xs r)
    have r: "rstart r < rend r" "pre \<le> rstart r" "\<forall>a\<in>set xs. rend r < rstart a"
      and xs: "desc_ranges xs" "\<forall>a\<in>set xs. pre \<le> rstart a"
      using assms snoc by auto
    show ?thesis
    proof (cases "rstart r = mi + 1")
      case True
      then have "pre = mi + 1"
        by (metis antisym lt order_refl r(2) word_succ_le_iff)
      then have "check" using chk True r snoc by (auto simp: range_set_def)
      moreover have "insert mi {mi + 1 ..< rend r} = {mi ..< rend r}"
        using lt r True by (auto simp: range_simps)
      ultimately show ?thesis using True r xs lt snoc
        by (auto simp: proceed_snoc range_set_def desc_ranges_snoc range_simps)
    next
      case False
      then have "mi + 1 < rstart r" using r(2) lt
        by (metis order_le_less order_less_le_trans word_succ_le_iff)
      then show ?thesis using False r xs lt snoc
        apply (simp add: proceed_snoc)
        using desc_ranges_snoc[of "xs @ [r]" "Range mi (mi+1)"]
        by (auto simp: range_set_def range_simps)
    qed
  qed
  then show "desc_ranges (proceed rs mi check)"
    and "ranges_set (proceed rs mi check) = insert mi (ranges_set rs)"
    and "\<forall>r\<in>set (proceed rs mi check). mi \<le> rstart r" by auto
qed

text \<open>Rows strictly below \<open>pre\<close> and strictly descending, none below \<open>lo\<close>.\<close>

definition desc_rows :: "u32 \<Rightarrow> u32 \<Rightarrow> sync_record list \<Rightarrow> bool" where
  "desc_rows lo pre rows \<longleftrightarrow>
     sorted_wrt (\<lambda>a b. milestone_index b < milestone_index a) rows \<and>
     (\<forall>r\<in>set rows. lo \<le> milestone_index r \<and> milestone_index r < pre)"

lemma desc_rows_Cons:
  "desc_rows lo pre (r # rows) \<longleftrightarrow>
     lo \<le> milestone_index r \<and> milestone_index r < pre \<and> desc_rows lo (milestone_index r) rows"
  by (auto simp: desc_rows_def)

definition scan_inv :: "u32 \<Rightarrow> sync_data \<Rightarrow> u32 \<Rightarrow> u8 option \<Rightarrow> u32 set \<Rightarrow> u32 set \<Rightarrow> bool" where
  "scan_inv to_ms sd pre lb L U \<longleftrightarrow>
     desc_ranges (completed sd) \<and> desc_ranges (synced_but_unlogged sd) \<and> desc_ranges (gaps sd) \<and>
     ranges_set (completed sd) = L \<and> ranges_set (synced_but_unlogged sd) = U \<and>
     ranges_set (gaps sd) = {pre ..< to_ms} - (L \<union> U) \<and> L \<union> U \<subseteq> {pre ..< to_ms} \<and>
     (\<forall>r\<in>set (completed sd). pre \<le> rstart r) \<and>
     (\<forall>r\<in>set (synced_but_unlogged sd). pre \<le> rstart r) \<and>
     (\<forall>r\<in>set (gaps sd). pre < rstart r) \<and>
     (pre \<in> L \<longrightarrow> lb \<noteq> None) \<and> (pre \<in> U \<longrightarrow> lb = None) \<and> pre \<le> to_ms"

lemma scan_inv_init: "scan_inv to_ms default_sync_data to_ms None {} {}"
  by (simp add: scan_inv_def default_sync_data_def)

lemma process_gaps_correct:
  assumes "desc_ranges (gaps sd)" and "\<forall>r\<in>set (gaps sd). pre < rstart r" and "mi < pre"
  shows "desc_ranges (gaps (process_gaps sd pre mi))"
    and "ranges_set (gaps (process_gaps sd pre mi)) = {mi + 1 ..< pre} \<union> ranges_set (gaps sd)"
    and "\<forall>r\<in>set (gaps (process_gaps sd pre mi)). mi < rstart r"
    and "completed (process_gaps sd pre mi) = completed sd"
    and "synced_but_unlogged (process_gaps sd pre mi) = synced_but_unlogged sd"
  using assms
  by (auto simp: process_gaps_def Let_def range_simps order_le_neq_trans dest: order_less_trans)


lemma split_range_minus:
  fixes lo mid hi :: "'a::linorder"
  assumes "S \<subseteq> {mid ..< hi}" and "lo \<le> mid" and "mid \<le> hi"
  shows "{lo ..< mid} \<union> ({mid ..< hi} - S) = {lo ..< hi} - S"
proof -
  have "x \<notin> S" if "x < mid" for x
    using assms(1) that by (meson atLeastLessThan_iff leD subsetD)
  then show ?thesis using assms(2,3) by (auto dest: order_less_le_trans order_le_less_trans)
qed

lemma scan_sets:
  fixes m pre to_ms :: u32
  assumes S: "S \<subseteq> {pre ..< to_ms}" and "m < pre" and "pre \<le> to_ms"
  shows "{m + 1 ..< pre} \<union> ({pre ..< to_ms} - S) = {m ..< to_ms} - insert m S"
    and "insert m S \<subseteq> {m ..< to_ms}" and "m \<notin> S"
proof -
  have m: "{m + 1 ..< pre} = {m ..< pre} - {m}"
    using assms(2) by (auto simp: word_succ_le_iff [OF assms(2)])
  have "{m ..< pre} \<union> ({pre ..< to_ms} - S) = {m ..< to_ms} - S"
    using assms by (intro split_range_minus) auto
  moreover have "m \<notin> {pre ..< to_ms}" using assms(2) by (simp add: not_le)
  ultimately show "{m + 1 ..< pre} \<union> ({pre ..< to_ms} - S) = {m ..< to_ms} - insert m S"
    unfolding m by blast
  have "{pre ..< to_ms} \<subseteq> {m ..< to_ms}" "m \<in> {m ..< to_ms}" using assms(2,3) by auto
  then show "insert m S \<subseteq> {m ..< to_ms}" using S by blast
  show "m \<notin> S" using S assms(2) by (meson atLeastLessThan_iff leD subsetD)
qed

lemma scan_step:
  assumes inv: "scan_inv to_ms sd pre lb L U" and lt: "milestone_index r < pre"
  shows "scan_inv to_ms
     (process_rest (process_gaps sd pre (milestone_index r)) (logged_by r) (milestone_index r) lb)
     (milestone_index r) (logged_by r)
     (if logged_by r \<noteq> None then insert (milestone_index r) L else L)
     (if logged_by r \<noteq> None then U else insert (milestone_index r) U)"
proof -
  define m where "m = milestone_index r"
  have lt: "m < pre" using lt by (simp add: m_def)
  have LU: "L \<union> U \<subseteq> {pre ..< to_ms}" and le: "pre \<le> to_ms"
    using inv by (auto simp: scan_inv_def)
  note sets = scan_sets [OF LU lt le]
  define sd1 where "sd1 = process_gaps sd pre m"
  have g: "desc_ranges (gaps sd1)" "ranges_set (gaps sd1) = {m ..< to_ms} - insert m (L \<union> U)"
    "\<forall>r\<in>set (gaps sd1). m < rstart r" "completed sd1 = completed sd"
    "synced_but_unlogged sd1 = synced_but_unlogged sd"
    using process_gaps_correct [of sd pre m] inv lt sets(1) by (simp_all add: scan_inv_def sd1_def)
  have c: "desc_ranges (completed sd)" "ranges_set (completed sd) = L"
    "\<forall>r\<in>set (completed sd). pre \<le> rstart r" "pre \<in> L \<Longrightarrow> lb \<noteq> None"
    and u: "desc_ranges (synced_but_unlogged sd)" "ranges_set (synced_but_unlogged sd) = U"
    "\<forall>r\<in>set (synced_but_unlogged sd). pre \<le> rstart r" "pre \<in> U \<Longrightarrow> lb = None"
    using inv by (auto simp: scan_inv_def)
  have le': "m \<le> to_ms" and up: "\<And>x. pre \<le> x \<Longrightarrow> m \<le> x" using lt le by auto
  have "scan_inv to_ms (process_rest sd1 (logged_by r) m lb) m (logged_by r)
     (if logged_by r \<noteq> None then insert m L else L) (if logged_by r \<noteq> None then U else insert m U)"
  proof (cases "logged_by r")
    case None
    have "desc_ranges (proceed (synced_but_unlogged sd) m (lb = None))"
      "ranges_set (proceed (synced_but_unlogged sd) m (lb = None)) = insert m U"
      "\<forall>r\<in>set (proceed (synced_but_unlogged sd) m (lb = None)). m \<le> rstart r"
      using proceed_correct [of "synced_but_unlogged sd" pre m "lb = None"] u lt by auto
    then show ?thesis
      using None c g sets(2,3) le' up by (auto simp: scan_inv_def process_rest_def)
  next
    case (Some b)
    have "desc_ranges (proceed (completed sd) m (lb \<noteq> None))"
      "ranges_set (proceed (completed sd) m (lb \<noteq> None)) = insert m L"
      "\<forall>r\<in>set (proceed (completed sd) m (lb \<noteq> None)). m \<le> rstart r"
      using proceed_correct [of "completed sd" pre m "lb \<noteq> None"] c lt by auto
    then show ?thesis
      using Some u g sets(2,3) le' up by (auto simp: scan_inv_def process_rest_def)
  qed
  then show ?thesis unfolding m_def sd1_def .
qed

text \<open>The milestones of the logged and of the unlogged rows.\<close>

definition logged_ms :: "sync_record list \<Rightarrow> u32 set" where
  "logged_ms rows = milestone_index ` {r \<in> set rows. logged_by r \<noteq> None}"

definition unlogged_ms :: "sync_record list \<Rightarrow> u32 set" where
  "unlogged_ms rows = milestone_index ` {r \<in> set rows. logged_by r = None}"

lemma ms_Cons:
  "logged_ms (r # rows) = (if logged_by r \<noteq> None then insert (milestone_index r) else id) (logged_ms rows)"
  "unlogged_ms (r # rows) = (if logged_by r \<noteq> None then id else insert (milestone_index r)) (unlogged_ms rows)"
  by (auto simp: logged_ms_def unlogged_ms_def)

lemma scan_rows_inv:
  assumes "scan_inv to_ms sd pre lb L U" and "desc_rows lo pre (concat pages)" and "lo \<le> pre"
  shows "\<exists>lb'. scan_inv to_ms (fst (scan_rows sd pre lb pages)) (snd (scan_rows sd pre lb pages)) lb'
           (L \<union> logged_ms (concat pages)) (U \<union> unlogged_ms (concat pages)) \<and>
         lo \<le> snd (scan_rows sd pre lb pages)"
  using assms
proof (induction sd pre lb pages arbitrary: L U rule: scan_rows.induct)
  case (1 sd pre lb pages)
  show ?case
  proof (cases "paged_next pages")
    case (Pair ro ps)
    show ?thesis
    proof (cases ro)
      case None
      with Pair have "concat pages = []" using paged_next_concat(1) by blast
      then have "logged_ms (concat pages) = {}" "unlogged_ms (concat pages) = {}"
        unfolding logged_ms_def unlogged_ms_def by (simp_all only: list.set(1)) auto
      moreover have "scan_rows sd pre lb pages = (sd, pre)"
        using Pair None by (simp add: scan_rows.simps [of sd])
      ultimately show ?thesis using "1.prems"(1,3) by auto
    next
      case (Some r)
      with Pair have eq: "concat pages = r # concat ps" by (simp add: paged_next_concat(2))
      define sd1 where "sd1 = process_gaps sd pre (milestone_index r)"
      define sd2 where "sd2 = process_rest sd1 (logged_by r) (milestone_index r) lb"
      have rows: "lo \<le> milestone_index r" "milestone_index r < pre"
        "desc_rows lo (milestone_index r) (concat ps)"
        using "1.prems"(2) by (simp_all add: eq desc_rows_Cons)
      have run: "scan_rows sd pre lb pages = scan_rows sd2 (milestone_index r) (logged_by r) ps"
        using Pair Some by (simp add: scan_rows.simps [of sd] sd1_def sd2_def)
      note step = scan_step [OF "1.prems"(1) rows(2)]
      show ?thesis
        using "1.IH" [OF Pair [symmetric] Some sd1_def sd2_def step [folded sd1_def, folded sd2_def] rows(3,1)]
        by (auto simp: run eq ms_Cons)
    qed
  qed
qed

lemma sort_rows_eq:
  "sort_rows sr pages =
     (case scan_rows default_sync_data (sr_to sr) None pages of
        (sd, pre_ms) \<Rightarrow> process_gaps sd pre_ms (sr_from sr - 1))"
  by (simp add: sort_rows_def scan_rows.simps [of default_sync_data] Let_def
      split: prod.splits option.splits)

definition ms_partition :: "sync_range \<Rightarrow> sync_record list \<Rightarrow> sync_data \<Rightarrow> bool" where
  "ms_partition sr rows sd \<longleftrightarrow>
     ranges_set (completed sd) = logged_ms rows \<and>
     ranges_set (synced_but_unlogged sd) = unlogged_ms rows \<and>
     ranges_set (gaps sd) = {sr_from sr ..< sr_to sr} - milestone_index ` set rows \<and>
     desc_ranges (completed sd) \<and> desc_ranges (synced_but_unlogged sd) \<and> desc_ranges (gaps sd)"

lemma ms_union: "logged_ms rows \<union> unlogged_ms rows = milestone_index ` set rows"
  unfolding logged_ms_def unlogged_ms_def image_Un [symmetric] by (rule arg_cong) blast

lemma sort_rows_partition:
  assumes "desc_rows (sr_from sr) (sr_to sr) (concat pages)" and "sr_from sr \<le> sr_to sr"
  shows "ms_partition sr (concat pages) (sort_rows sr pages)"
proof -
  obtain sd pre where run: "scan_rows default_sync_data (sr_to sr) None pages = (sd, pre)"
    by (metis surj_pair)
  let ?L = "logged_ms (concat pages)" and ?U = "unlogged_ms (concat pages)"
  obtain lb where inv: "scan_inv (sr_to sr) sd pre lb ?L ?U" and lo: "sr_from sr \<le> pre"
    using scan_rows_inv [OF scan_inv_init assms] run by auto
  have gaps': "gaps (process_gaps sd pre (sr_from sr - 1)) =
      (if sr_from sr \<noteq> pre then gaps sd @ [Range (sr_from sr) pre] else gaps sd)"
    and same: "completed (process_gaps sd pre (sr_from sr - 1)) = completed sd"
      "synced_but_unlogged (process_gaps sd pre (sr_from sr - 1)) = synced_but_unlogged sd"
    by (simp_all add: process_gaps_def Let_def)
  have sub: "?L \<union> ?U \<subseteq> {pre ..< sr_to sr}" and le: "pre \<le> sr_to sr"
    and g: "desc_ranges (gaps sd)" "\<forall>r\<in>set (gaps sd). pre < rstart r"
    and gs: "ranges_set (gaps sd) = {pre ..< sr_to sr} - (?L \<union> ?U)"
    using inv by (simp_all add: scan_inv_def)
  have "ranges_set (gaps (process_gaps sd pre (sr_from sr - 1)))
      = {sr_from sr ..< pre} \<union> ({pre ..< sr_to sr} - (?L \<union> ?U))"
    using gs by (auto simp: gaps')
  then have "ranges_set (gaps (process_gaps sd pre (sr_from sr - 1)))
      = {sr_from sr ..< sr_to sr} - (?L \<union> ?U)"
    using split_range_minus [OF sub lo le] by simp
  moreover have "desc_ranges (gaps (process_gaps sd pre (sr_from sr - 1)))"
    using g lo by (auto simp: gaps')
  ultimately show ?thesis
    using inv by (simp add: run sort_rows_eq ms_partition_def same scan_inv_def ms_union)
qed
section \<open>Fetch\<close>

text \<open>The rows the fetch has read when its receive loop stops: the loop stops at the first page
  without rows or without more pages.\<close>

fun read_rows :: "sync_page list \<Rightarrow> sync_record list" where
  "read_rows [] = []"
| "read_rows (p # ps) =
     (if pg_rows p = [] then [] else pg_rows p @ (if pg_more p then read_rows ps else []))"

fun ends :: "sync_page list \<Rightarrow> bool" where
  "ends [] = False"
| "ends (p # ps) = (pg_rows p = [] \<or> \<not> pg_more p \<or> ends ps)"

lemma recv_pages_ok:
  assumes "\<And>st. build st = None" and "ends ps"
  shows "\<exists>pages'. recv_pages build (map Inr ps) pages = Some (Inr pages') \<and>
           concat pages' = concat pages @ read_rows ps"
  using assms(2)
proof (induction ps arbitrary: pages)
  case (Cons p ps)
  then show ?case
    using Cons.IH [of "pages @ [pg_rows p]"]
    by (auto simp: decode_sync_page_def add_next_page_def assms(1))
qed simp

lemma recv_pages_error:
  "\<not> ends ps \<Longrightarrow> (\<And>st. build st = None) \<Longrightarrow>
     recv_pages build (map Inr ps @ Inl e # rx) pages = Some (Inl e)"
  by (induction ps arbitrary: pages) (auto simp: decode_sync_page_def)

lemma recv_pages_stop:
  "pg_rows p = [] \<Longrightarrow>
     recv_pages build (map Inr (ps @ p # qs)) pages = recv_pages build (map Inr (ps @ [p])) pages"
  by (induction ps arbitrary: pages) (auto simp: decode_sync_page_def split: option.splits)

section \<open>Work\<close>

definition todo :: "sync_data \<Rightarrow> u32 set" where
  "todo sd = ranges_set (gaps sd) \<union> ranges_set (synced_but_unlogged sd)"

definition sync_data_ok :: "sync_data \<Rightarrow> bool" where
  "sync_data_ok sd \<longleftrightarrow> desc_ranges (gaps sd) \<and> desc_ranges (synced_but_unlogged sd) \<and>
     ranges_set (gaps sd) \<inter> ranges_set (synced_but_unlogged sd) = {}"

lemma desc_ranges_last:
  assumes "desc_ranges rs" and "rs \<noteq> []"
  shows "desc_ranges (butlast rs)" and "rstart (last rs) < rend (last rs)"
    and "ranges_set rs = range_set (last rs) \<union> ranges_set (butlast rs)"
    and "x \<in> ranges_set (butlast rs) \<Longrightarrow> rend (last rs) < x"
proof -
  obtain xs r where rs: "rs = xs @ [r]" using assms(2) by (metis rev_exhaust)
  show "desc_ranges (butlast rs)" and "rstart (last rs) < rend (last rs)"
    and "ranges_set rs = range_set (last rs) \<union> ranges_set (butlast rs)"
    and "x \<in> ranges_set (butlast rs) \<Longrightarrow> rend (last rs) < x"
    using assms(1) by (auto simp: rs ranges_set_def range_set_def dest: order_less_le_trans)
qed

lemma range_start_in: "rstart r < rend r \<Longrightarrow> rstart r \<in> range_set r"
  by (simp add: range_set_def)

lemma take_lowest_gap_spec:
  assumes "sync_data_ok sd" and "take_lowest_gap sd = (Some r, sd')"
  shows "sync_data_ok sd'" and "rstart r < rend r"
    and "ranges_set (gaps sd) = range_set r \<union> ranges_set (gaps sd')"
    and "x \<in> ranges_set (gaps sd') \<Longrightarrow> rend r < x"
    and "synced_but_unlogged sd' = synced_but_unlogged sd"
  using assms desc_ranges_last [of "gaps sd"]
  by (auto simp: take_lowest_gap_def vec_pop_def sync_data_ok_def split: if_splits)

lemma take_lowest_unlogged_spec:
  assumes "sync_data_ok sd" and "take_lowest_unlogged sd = (Some r, sd')"
  shows "sync_data_ok sd'" and "rstart r < rend r"
    and "ranges_set (synced_but_unlogged sd) = range_set r \<union> ranges_set (synced_but_unlogged sd')"
    and "x \<in> ranges_set (synced_but_unlogged sd') \<Longrightarrow> rend r < x"
    and "gaps sd' = gaps sd"
  using assms desc_ranges_last [of "synced_but_unlogged sd"]
  by (auto simp: take_lowest_unlogged_def vec_pop_def sync_data_ok_def split: if_splits)

lemma desc_ranges_above:
  assumes "desc_ranges rs" and "rs \<noteq> []" and "x \<in> ranges_set rs"
  shows "rstart (last rs) \<le> x"
  using desc_ranges_last [OF assms(1,2)] assms(3) by (fastforce simp: range_set_def)

lemma lowest_below:
  assumes "desc_ranges rs" and "rs \<noteq> []" and "rstart r < rstart (last rs)"
    and "range_set r \<inter> ranges_set rs = {}" and "x \<in> ranges_set rs"
  shows "rend r \<le> x"
proof -
  have "rstart (last rs) \<in> ranges_set rs"
    using desc_ranges_last(2,3) [OF assms(1,2)] range_start_in by blast
  then have "rstart (last rs) \<notin> range_set r" using assms(4) by blast
  then have "rend r \<le> rstart (last rs)" using assms(3) by (auto simp: range_set_def)
  also have "\<dots> \<le> x" by (rule desc_ranges_above [OF assms(1,2,5)])
  finally show ?thesis .
qed


lemma take_lowest_spec:
  assumes ok: "sync_data_ok sd" and eq: "take_lowest_gap_or_unlogged sd = (Some r, sd')"
  shows "sync_data_ok sd' \<and> rstart r < rend r \<and> todo sd = range_set r \<union> todo sd' \<and>
    (\<forall>x\<in>todo sd'. rend r \<le> x)"
proof -
  let ?G = "gaps sd" and ?U = "synced_but_unlogged sd"
  have d: "desc_ranges ?G" "desc_ranges ?U" "ranges_set ?G \<inter> ranges_set ?U = {}"
    using ok by (simp_all add: sync_data_ok_def)
  have gap: ?thesis if t: "take_lowest_gap sd = (Some r, sd')"
    and c: "?U = [] \<or> rstart r < rstart (last ?U)"
  proof -
    note spec = take_lowest_gap_spec [OF ok t]
    have "range_set r \<inter> ranges_set ?U = {}" using d(3) spec(3) by blast
    then have "rend r \<le> x" if "x \<in> ranges_set ?U" for x
      using c lowest_below [of ?U r x] d that by fastforce
    then show ?thesis using spec by (auto simp: todo_def dest: order.strict_implies_order)
  qed
  have unl: ?thesis if t: "take_lowest_unlogged sd = (Some r, sd')"
    and c: "?G = [] \<or> rstart r < rstart (last ?G)"
  proof -
    note spec = take_lowest_unlogged_spec [OF ok t]
    have "range_set r \<inter> ranges_set ?G = {}" using d(3) spec(3) by blast
    then have "rend r \<le> x" if "x \<in> ranges_set ?G" for x
      using c lowest_below [of ?G r x] d that by fastforce
    then show ?thesis using spec by (auto simp: todo_def dest: order.strict_implies_order)
  qed
  have ne: "rstart (last ?G) \<noteq> rstart (last ?U)" if "?G \<noteq> []" "?U \<noteq> []"
    using desc_ranges_last(2,3) [OF d(1) that(1)] desc_ranges_last(2,3) [OF d(2) that(2)] d(3)
    by (metis UnI1 disjoint_iff range_start_in)
  show ?thesis
    using eq gap unl ne
    by (auto simp: take_lowest_gap_or_unlogged_def vec_last_def take_lowest_gap_def
        take_lowest_unlogged_def vec_pop_def split: if_splits)
qed

lemma take_lowest_None:
  "take_lowest_gap_or_unlogged sd = (None, sd') \<Longrightarrow> sd' = sd \<and> todo sd = {}"
  by (auto simp: take_lowest_gap_or_unlogged_def vec_last_def take_lowest_gap_def todo_def
      take_lowest_unlogged_def vec_pop_def split: if_splits)

lemma extend_uncomplete_spec:
  assumes "sync_data_ok sd" and "rstart pre < rend pre" and "\<forall>x\<in>todo sd. rend pre \<le> x"
    and "extend_uncomplete pre sd = (r, sd')"
  shows "sync_data_ok sd' \<and> rstart r = rstart pre \<and> rend pre \<le> rend r \<and>
    range_set pre \<union> todo sd = range_set r \<union> todo sd' \<and> (\<forall>x\<in>todo sd'. rend r < x)"
  using assms
proof (induction pre sd rule: extend_uncomplete.induct)
  case (1 pre sd)
  obtain ro sd1 where t: "take_lowest_gap_or_unlogged sd = (ro, sd1)" by fastforce
  show ?case
  proof (cases ro)
    case None
    then show ?thesis using "1.prems" t take_lowest_None [of sd sd1]
      by (auto simp: extend_uncomplete.simps [of pre sd] get_take_lowest)
  next
    case (Some n)
    then have spec: "sync_data_ok sd1" "rstart n < rend n" "todo sd = range_set n \<union> todo sd1"
      "\<forall>x\<in>todo sd1. rend n \<le> x"
      using take_lowest_spec [OF "1.prems"(1)] t by auto
    have n: "rend pre \<le> rstart n" using "1.prems"(3) spec(2,3) range_start_in by blast
    show ?thesis
    proof (cases "rstart n = rend pre")
      case True
      have r: "extend_uncomplete (pre\<lparr>rend := rend n\<rparr>) sd1 = (r, sd')"
        using "1.prems"(4) t Some True
        by (simp add: extend_uncomplete.simps [of pre sd] get_take_lowest)
      have "rstart pre < rend n" using True spec(2) "1.prems"(2) by simp
      moreover have "range_set (pre\<lparr>rend := rend n\<rparr>) = range_set pre \<union> range_set n"
        using True spec(2) "1.prems"(2) by (auto simp: range_set_def)
      ultimately show ?thesis
        using "1.IH" [of n] t Some True spec r
        by (auto simp: get_take_lowest)
    next
      case False
      then have "rend pre < rstart n" using n by simp
      moreover have "rstart n \<le> x" if "x \<in> todo sd" for x
        using that spec by (force simp: range_set_def)
      ultimately show ?thesis
        using False "1.prems" t Some
        by (fastforce simp: extend_uncomplete.simps [of pre sd] get_take_lowest)
    qed
  qed
qed


section \<open>The contract of a source of work\<close>

text \<open>
  What the syncer relies on when it asks the sync data for the next range: the range is a block of
  milestones still to do, below all the rest, that cannot be prolonged (its end is not to do), and
  no answer means that nothing is left.
\<close>

locale work_source =
  fixes take_work :: "'s \<Rightarrow> u32_range option \<times> 's"
    and left :: "'s \<Rightarrow> u32 set"
    and well_formed :: "'s \<Rightarrow> bool"
  assumes none: "well_formed s \<Longrightarrow> take_work s = (None, s') \<Longrightarrow> left s = {} \<and> s' = s"
    and some: "well_formed s \<Longrightarrow> take_work s = (Some r, s') \<Longrightarrow>
      well_formed s' \<and> rstart r < rend r \<and> left s = range_set r \<union> left s' \<and>
      (\<forall>x\<in>left s'. rend r < x)"
begin

inductive takes :: "'s \<Rightarrow> u32_range list \<Rightarrow> 's \<Rightarrow> bool" where
  takes_none: "takes s [] s"
| takes_some: "take_work s = (Some r, s') \<Longrightarrow> takes s' rs s'' \<Longrightarrow> takes s (r # rs) s''"

lemma takes_correct:
  assumes "takes s rs s'" and "well_formed s"
  shows "well_formed s' \<and> left s = ranges_set rs \<union> left s' \<and>
    sorted_wrt (\<lambda>a b. rend a < rstart b) rs \<and> (\<forall>r\<in>set rs. rstart r < rend r) \<and>
    (\<forall>r\<in>set rs. \<forall>x\<in>left s'. rend r < x)"
  using assms
proof (induction rule: takes.induct)
  case (takes_some s r s' rs s'')
  then have r: "well_formed s'" "rstart r < rend r" "left s = range_set r \<union> left s'"
    "\<forall>x\<in>left s'. rend r < x"
    using some [of s r s'] by auto
  with takes_some have rs: "left s' = ranges_set rs \<union> left s''" "\<forall>q\<in>set rs. rstart q < rend q"
    by auto
  have "rend r < rstart q" if "q \<in> set rs" for q
    using r(4) rs that range_start_in by (fastforce simp: ranges_set_def)
  then show ?case using takes_some r rs by auto
qed simp

lemma left_progress:
  assumes "well_formed s" and "take_work s = (Some r, s')"
  shows "card (left s') < card (left s)"
proof -
  have "rstart r \<in> left s" "rstart r \<notin> left s'" "left s' \<subseteq> left s"
    using some [OF assms] range_start_in by (auto dest: order_less_trans)
  then have "left s' \<subset> left s" by blast
  then show ?thesis by (rule psubset_card_mono [OF finite])
qed

lemma takes_all:
  "well_formed s \<Longrightarrow> \<exists>rs s'. takes s rs s' \<and> take_work s' = (None, s')"
proof (induction "card (left s)" arbitrary: s rule: less_induct)
  case less
  obtain ro s' where t: "take_work s = (ro, s')" by fastforce
  show ?case
  proof (cases ro)
    case None
    then show ?thesis using none [OF less.prems] t takes_none by metis
  next
    case (Some r)
    then show ?thesis
      using less.hyps [OF left_progress [OF less.prems]] some [OF less.prems] t takes_some by metis
  qed
qed

end

lemma take_lowest_uncomplete_spec:
  assumes "sync_data_ok sd" and "take_lowest_uncomplete sd = (Some r, sd')"
  shows "sync_data_ok sd' \<and> rstart r < rend r \<and> todo sd = range_set r \<union> todo sd' \<and>
    (\<forall>x\<in>todo sd'. rend r < x)"
proof -
  obtain pre sd1 where t: "take_lowest_gap_or_unlogged sd = (Some pre, sd1)"
    and e: "extend_uncomplete pre sd1 = (r, sd')"
    using assms(2) by (auto simp: take_lowest_uncomplete_def split: prod.splits option.splits)
  have "sync_data_ok sd1" "rstart pre < rend pre" "\<forall>x\<in>todo sd1. rend pre \<le> x"
    "todo sd = range_set pre \<union> todo sd1"
    using take_lowest_spec [OF assms(1) t] by auto
  then show ?thesis using extend_uncomplete_spec [OF _ _ _ e] by auto
qed

interpretation uncomplete: work_source take_lowest_uncomplete todo sync_data_ok
  by unfold_locales
    (auto simp: take_lowest_uncomplete_def dest: take_lowest_uncomplete_spec take_lowest_None
      split: prod.splits option.splits)

interpretation only_gaps: work_source take_lowest_gap "\<lambda>sd. ranges_set (gaps sd)" sync_data_ok
proof unfold_locales
  fix s s'
  assume "take_lowest_gap s = (None, s')"
  then show "ranges_set (gaps s) = {} \<and> s' = s"
    by (auto simp: take_lowest_gap_def vec_pop_def split: if_splits)
next
  fix s r s'
  assume "sync_data_ok s" and "take_lowest_gap s = (Some r, s')"
  from take_lowest_gap_spec [OF this]
  show "sync_data_ok s' \<and> rstart r < rend r \<and>
    ranges_set (gaps s) = range_set r \<union> ranges_set (gaps s') \<and> (\<forall>x\<in>ranges_set (gaps s'). rend r < x)"
    by blast
qed


section \<open>Properties of the sync data\<close>

lemma ms_partition_ok:
  assumes "ms_partition sr rows sd" and "desc_rows lo hi rows"
  shows "sync_data_ok sd" and "todo sd = ({sr_from sr ..< sr_to sr} - milestone_index ` set rows) \<union> unlogged_ms rows"
  using assms by (auto simp: ms_partition_def sync_data_ok_def todo_def unlogged_ms_def)

lemma desc_rows_ms:
  assumes "desc_rows lo hi rows"
  shows "logged_ms rows \<inter> unlogged_ms rows = {}" and "milestone_index ` set rows \<subseteq> {lo ..< hi}"
proof -
  show "milestone_index ` set rows \<subseteq> {lo ..< hi}" using assms by (auto simp: desc_rows_def)
  have "sorted_wrt (\<lambda>a b. milestone_index b < milestone_index a) rows \<Longrightarrow>
    inj_on milestone_index (set rows)"
    by (induction rows) auto
  then have inj: "inj_on milestone_index (set rows)" using assms by (simp add: desc_rows_def)
  show "logged_ms rows \<inter> unlogged_ms rows = {}"
    unfolding logged_ms_def unlogged_ms_def
    by (subst inj_on_image_Int [OF inj, symmetric]) auto
qed

lemma todo_fetched:
  assumes "ms_partition sr rows sd" and "desc_rows (sr_from sr) (sr_to sr) rows"
  shows "todo sd = {sr_from sr ..< sr_to sr} - logged_ms rows"
proof -
  have "(R - A) \<union> U = R - L" if "L \<inter> U = {}" "A \<subseteq> R" "L \<union> U = A" for L U A R :: "u32 set"
    using that by blast
  from this [OF desc_rows_ms [OF assms(2)] ms_union] show ?thesis
    unfolding ms_partition_ok(2) [OF assms] .
qed

text \<open>
  C1. When every request can be built and the pages hold, up to the point where the driver's last
  page (or an empty one) ends the fetch, rows of the sync range in the table's clustering order
  (milestone index descending), then \<^verbatim>\<open>try_fetch\<close> returns sync data that sorts the milestones of the
  range exactly: the completed ranges hold the logged rows, \<^verbatim>\<open>synced_but_unlogged\<close> the rows without
  \<^verbatim>\<open>logged_by\<close>, the gaps every milestone without a row, each list as non-empty ranges, descending
  and never adjacent.
\<close>

theorem try_fetch_partitions:
  assumes "\<And>st. build st = None" and "ends ps"
    and "desc_rows (sr_from sr) (sr_to sr) (read_rows ps)" and "sr_from sr \<le> sr_to sr"
  shows "\<exists>sd. try_fetch build sr (map Inr ps) = Some (Inr sd) \<and> ms_partition sr (read_rows ps) sd"
proof -
  obtain pages where "recv_pages build (map Inr ps) [] = Some (Inr pages)"
    and "concat pages = read_rows ps"
    using recv_pages_ok [of build ps "[]"] assms(1,2) by auto
  then show ?thesis
    using sort_rows_partition [of sr pages] assms by (simp add: try_fetch_def)
qed

definition wit_pages :: "sync_page list" where
  "wit_pages =
     [\<lparr>pg_rows = [\<lparr>milestone_index = 9, synced_by = Some 1, logged_by = None\<rparr>,
                 \<lparr>milestone_index = 7, synced_by = Some 1, logged_by = Some 0\<rparr>],
       pg_more = True, pg_state = Some [1]\<rparr>,
      \<lparr>pg_rows = [\<lparr>milestone_index = 6, synced_by = None, logged_by = Some 0\<rparr>],
       pg_more = False, pg_state = None\<rparr>]"

lemma try_fetch_partitions_witness:
  "\<exists>sd. try_fetch (\<lambda>_. None) \<lparr>sr_from = 5, sr_to = 11\<rparr> (map Inr wit_pages) = Some (Inr sd) \<and>
     ms_partition \<lparr>sr_from = 5, sr_to = 11\<rparr> (read_rows wit_pages) sd"
  by (rule try_fetch_partitions) (simp_all add: wit_pages_def desc_rows_def)

text \<open>
  C36. \<^verbatim>\<open>take_lowest_uncomplete\<close> on the sync data of the rows of a sync range hands out the lowest
  maximal block of milestones that are not logged: everything of the range below the block is
  logged, nothing in the block is, the block ends at a logged milestone or at the end of the range,
  and the sync data keeps exactly the rest.
\<close>

theorem lowest_uncomplete_block:
  assumes "desc_rows (sr_from sr) (sr_to sr) (concat pages)" and "sr_from sr \<le> sr_to sr"
    and "take_lowest_uncomplete (sort_rows sr pages) = (Some r, sd')"
  shows "rstart r < rend r \<and>
    range_set r \<subseteq> {sr_from sr ..< sr_to sr} - logged_ms (concat pages) \<and>
    {sr_from sr ..< rstart r} \<subseteq> logged_ms (concat pages) \<and>
    (rend r \<in> logged_ms (concat pages) \<or> rend r = sr_to sr) \<and>
    todo sd' = {rend r <..< sr_to sr} - logged_ms (concat pages)"
proof -
  note part = sort_rows_partition [OF assms(1,2)]
  let ?L = "logged_ms (concat pages)"
  have ok: "sync_data_ok (sort_rows sr pages)"
    and todo: "todo (sort_rows sr pages) = {sr_from sr ..< sr_to sr} - ?L"
    using ms_partition_ok(1) [OF part assms(1)] todo_fetched [OF part assms(1)] by auto
  have sp: "rstart r < rend r" "{sr_from sr ..< sr_to sr} - ?L = range_set r \<union> todo sd'"
    "\<forall>x\<in>todo sd'. rend r < x"
    using uncomplete.some [OF ok assms(3)] todo by auto
  have in_iff: "(sr_from sr \<le> x \<and> x < sr_to sr \<and> x \<notin> ?L) = (rstart r \<le> x \<and> x < rend r \<or> x \<in> todo sd')" for x
    using sp(2) by (auto simp: range_set_def set_eq_iff)
  have lo: "sr_from sr \<le> rstart r" using in_iff [of "rstart r"] sp(1) by auto
  have "rstart r < sr_to sr" using in_iff [of "rstart r"] sp(1) by auto
  then have hi: "rend r \<le> sr_to sr" using in_iff [of "sr_to sr"] by (auto simp: not_le [symmetric])
  have below: "x \<in> ?L" if "sr_from sr \<le> x" "x < rstart r" for x
  proof (rule ccontr)
    assume "x \<notin> ?L"
    moreover have "x < rend r" using that(2) sp(1) by (rule order_less_trans)
    moreover have "x < sr_to sr" using \<open>x < rend r\<close> hi by (rule order_less_le_trans)
    ultimately have "rstart r \<le> x \<or> x \<in> todo sd'" using in_iff [of x] that(1) by blast
    then show False using that(2) sp(3) \<open>x < rend r\<close> by (meson leD order_less_asym)
  qed
  have "rend r \<notin> todo sd'" using sp(3) by blast
  then have top: "rend r \<in> ?L \<or> rend r = sr_to sr"
    using in_iff [of "rend r"] lo hi sp(1) by force
  have rest: "x \<in> todo sd' \<longleftrightarrow> rend r < x \<and> x < sr_to sr \<and> x \<notin> ?L" for x
  proof
    show "x \<in> todo sd' \<Longrightarrow> rend r < x \<and> x < sr_to sr \<and> x \<notin> ?L"
      using in_iff [of x] sp(3) by blast
    assume x: "rend r < x \<and> x < sr_to sr \<and> x \<notin> ?L"
    then have "sr_from sr \<le> x" using lo sp(1) by (meson le_less_trans less_imp_le)
    then show "x \<in> todo sd'" using in_iff [of x] x by (meson order_less_asym)
  qed
  have "range_set r \<subseteq> {sr_from sr ..< sr_to sr} - ?L" unfolding sp(2) by (rule Un_upper1)
  moreover have "{sr_from sr ..< rstart r} \<subseteq> ?L" using below by auto
  moreover have "todo sd' = {rend r <..< sr_to sr} - ?L"
    by (intro set_eqI) (simp only: rest greaterThanLessThan_iff Diff_iff conj_assoc)
  ultimately show ?thesis using sp(1) top by (intro conjI)
qed

lemma lowest_uncomplete_block_witness:
  "(5::u32) < 6 \<and>
    {5 ..< 6} \<subseteq> {5 ..< 11} - logged_ms (concat (map pg_rows wit_pages)) \<and>
    {5 ..< 5} \<subseteq> logged_ms (concat (map pg_rows wit_pages)) \<and>
    (6 \<in> logged_ms (concat (map pg_rows wit_pages)) \<or> 6 = (11::u32)) \<and>
    {8, 9, 10} = {6 <..< 11} - logged_ms (concat (map pg_rows wit_pages))"
proof -
  let ?sr = "\<lparr>sr_from = 5, sr_to = 11\<rparr>" and ?pages = "map pg_rows wit_pages"
  let ?rest = "\<lparr>completed = [Range 6 8], synced_but_unlogged = [Range 9 10],
    gaps = [Range 10 11, Range 8 9]\<rparr>"
  have "desc_rows (sr_from ?sr) (sr_to ?sr) (concat ?pages)" "sr_from ?sr \<le> sr_to ?sr"
    and "take_lowest_uncomplete (sort_rows ?sr ?pages) = (Some (Range 5 6), ?rest)"
    by code_simp+
  from lowest_uncomplete_block [OF this] have "(5::u32) < 6 \<and>
    {5 ..< 6} \<subseteq> {5 ..< 11} - logged_ms (concat (map pg_rows wit_pages)) \<and>
    {5 ..< 5} \<subseteq> logged_ms (concat (map pg_rows wit_pages)) \<and>
    (6 \<in> logged_ms (concat (map pg_rows wit_pages)) \<or> 6 = (11::u32)) \<and>
    todo ?rest = {6 <..< 11} - logged_ms (concat (map pg_rows wit_pages))"
    by simp
  moreover have "todo ?rest = {8, 9, 10}" by code_simp
  ultimately show ?thesis by simp
qed

text \<open>
  A page without rows ends the fetch even when the server announces more pages
  (\<^verbatim>\<open>SyncRecord\<close>'s row decoder turns it into no result): whatever the workers would send after it,
  the fetch returns the same sync data, so every row of the later pages is reported as a gap.
\<close>

lemma empty_page_ends_fetch:
  assumes "pg_rows p = []"
  shows "try_fetch build sr (map Inr (ps @ p # qs)) = try_fetch build sr (map Inr (ps @ [p]))"
  by (simp only: try_fetch_def recv_pages_stop [OF assms, of build ps qs])

lemma empty_page_ends_fetch_witness:
  "try_fetch (\<lambda>_. None) \<lparr>sr_from = 5, sr_to = 11\<rparr>
     (map Inr ([] @ \<lparr>pg_rows = [], pg_more = True, pg_state = Some [1]\<rparr> # wit_pages))
   = Some (Inr \<lparr>completed = [], synced_but_unlogged = [], gaps = [Range 5 11]\<rparr>)"
proof -
  let ?p = "\<lparr>pg_rows = [], pg_more = True, pg_state = Some [1]\<rparr>"
  have "try_fetch (\<lambda>_. None) \<lparr>sr_from = 5, sr_to = 11\<rparr> (map Inr ([] @ ?p # wit_pages))
      = try_fetch (\<lambda>_. None) \<lparr>sr_from = 5, sr_to = 11\<rparr> (map Inr ([] @ [?p]))"
    by (rule empty_page_ends_fetch) simp
  also have "\<dots> = Some (Inr \<lparr>completed = [], synced_but_unlogged = [], gaps = [Range 5 11]\<rparr>)"
    by code_simp
  finally show ?thesis .
qed

end
