(* ===== verification/Analytics_Data.thy ===== *)
theory Analytics_Data
  imports Sync_Data
begin

text \<open>
  The analytics data: \<^verbatim>\<open>AnalyticsData\<close> and \<^verbatim>\<open>AnalyticData\<close> of \<^verbatim>\<open>chronicle-broker/src/types.rs\<close>, the
  per-milestone \<^verbatim>\<open>AnalyticRecord\<close> of \<^verbatim>\<open>chronicle-storage/src/access/types.rs\<close>, and the paged fetch
  that accumulates the records of adjacent milestones.
\<close>

section \<open>Data\<close>

record analytic_record =
  ar_milestone_index :: u32
  ar_message_count :: u32
  ar_transaction_count :: u32
  ar_transferred_tokens :: u64

record analytic_data =
  ad_range :: u32_range
  ad_message_count :: u128
  ad_transaction_count :: u128
  ad_transferred_tokens :: u128

record analytics_data =
  analytics :: "analytic_data list"

definition analytic_data_from :: "analytic_record \<Rightarrow> analytic_data" where
  "analytic_data_from r =
     \<lparr>ad_range = Range (ar_milestone_index r) (ar_milestone_index r + 1),
      ad_message_count = ucast (ar_message_count r),
      ad_transaction_count = ucast (ar_transaction_count r),
      ad_transferred_tokens = ucast (ar_transferred_tokens r)\<rparr>"

section \<open>Accumulation\<close>

abbreviation ad_start :: "analytic_data \<Rightarrow> u32" where
  "ad_start a \<equiv> rstart (ad_range a)"

definition ad_acc :: "analytic_data \<Rightarrow> analytic_record \<Rightarrow> analytic_data" where
  "ad_acc a r =
     \<lparr>ad_range = (ad_range a)\<lparr>rstart := ad_start a - 1\<rparr>,
      ad_message_count = ad_message_count a + ucast (ar_message_count r),
      ad_transaction_count = ad_transaction_count a + ucast (ar_transaction_count r),
      ad_transferred_tokens = ad_transferred_tokens a + ucast (ar_transferred_tokens r)\<rparr>"

definition add_analytic_data :: "analytic_data \<Rightarrow> analytics_data \<Rightarrow> analytics_data" where
  "add_analytic_data a ad = ad\<lparr>analytics := analytics ad @ [a]\<rparr>"

definition try_pop_recent :: "analytics_data \<Rightarrow> analytic_data option \<times> analytics_data" where
  "try_pop_recent ad = (case vec_pop (analytics ad) of (a, rest) \<Rightarrow> (a, ad\<lparr>analytics := rest\<rparr>))"

definition process_record ::
  "analytic_data \<Rightarrow> analytic_record \<Rightarrow> analytics_data \<Rightarrow> analytic_data \<times> analytics_data" where
  "process_record a r ad =
     (if ad_start a - 1 = ar_milestone_index r
      then (ad_acc a r, ad)
      else (analytic_data_from r, add_analytic_data a ad))"

fun process_records ::
  "analytic_data \<Rightarrow> analytic_record list \<Rightarrow> analytics_data \<Rightarrow> analytics_data" where
  "process_records a [] ad = add_analytic_data a ad"
| "process_records a (r # rs) ad =
     (case process_record a r ad of (a, ad) \<Rightarrow> process_records a rs ad)"

definition process_page :: "analytic_record \<Rightarrow> analytic_record list \<Rightarrow> analytics_data \<Rightarrow> analytics_data" where
  "process_page r rs ad =
     (case try_pop_recent ad of
        (Some a, ad) \<Rightarrow> (case process_record a r ad of (a, ad) \<Rightarrow> process_records a rs ad)
      | (None, ad) \<Rightarrow> process_records (analytic_data_from r) rs ad)"

definition try_trigger :: "analytic_record list \<Rightarrow> analytics_data \<Rightarrow> analytics_data" where
  "try_trigger rows ad = (case rows of [] \<Rightarrow> ad | r # rs \<Rightarrow> process_page r rs ad)"

section \<open>Fetching\<close>

record analytic_page =
  ap_rows :: "analytic_record list"
  ap_more :: bool
  ap_state :: "u8 list option"

text \<open>\<^verbatim>\<open>RowsDecoder<SyncRange, Iter<AnalyticRecord>>\<close>: an empty page is kept when more follow.\<close>

definition decode_analytic_page :: "analytic_page \<Rightarrow> analytic_page option" where
  "decode_analytic_page p = (if ap_rows p = [] \<and> \<not> ap_more p then None else Some p)"

text \<open>\<^verbatim>\<open>query_analytics_table\<close> fails only when the third-party \<^verbatim>\<open>build()\<close> does; the receive loop is as
  in \<open>recv_pages\<close>, with the rows accumulated page by page.\<close>

fun analytic_loop ::
  "(u8 list option \<Rightarrow> failure option) \<Rightarrow> (failure + analytic_page) list \<Rightarrow> analytics_data \<Rightarrow>
     analytics_data result option" where
  "analytic_loop build [] ad = None"
| "analytic_loop build (Inl e # rx) ad = Some (Inl e)"
| "analytic_loop build (Inr raw # rx) ad =
     (case decode_analytic_page raw of
        None \<Rightarrow> Some (Inr ad)
      | Some p \<Rightarrow>
          (if ap_more p
           then (case build (ap_state p) of
                   Some e \<Rightarrow> Some (Inl e)
                 | None \<Rightarrow> analytic_loop build rx (try_trigger (ap_rows p) ad))
           else Some (Inr (try_trigger (ap_rows p) ad))))"

definition fetch_analytics ::
  "(u8 list option \<Rightarrow> failure option) \<Rightarrow> (failure + analytic_page) list \<Rightarrow>
     analytics_data result option" where
  "fetch_analytics build rx =
     (case build None of
        Some e \<Rightarrow> Some (Inl e)
      | None \<Rightarrow> analytic_loop build rx \<lparr>analytics = []\<rparr>)"

section \<open>Paging does not matter\<close>

text \<open>One record at a time, whatever page it comes in.\<close>

definition add_record :: "analytic_data list \<Rightarrow> analytic_record \<Rightarrow> analytic_data list" where
  "add_record as r =
     (if as \<noteq> [] \<and> ad_start (last as) - 1 = ar_milestone_index r
      then butlast as @ [ad_acc (last as) r] else as @ [analytic_data_from r])"

lemma add_record_simps:
  "add_record [] r = [analytic_data_from r]"
  "add_record (as @ [a]) r =
     (if ad_start a - 1 = ar_milestone_index r then as @ [ad_acc a r]
      else as @ [a, analytic_data_from r])"
  by (simp_all add: add_record_def)

lemma process_records_foldl:
  "analytics (process_records a rs ad) = foldl add_record (analytics ad @ [a]) rs"
  by (induction rs arbitrary: a ad)
     (auto simp: add_analytic_data_def process_record_def add_record_simps)

lemma try_trigger_foldl: "analytics (try_trigger rows ad) = foldl add_record (analytics ad) rows"
  by (cases "analytics ad" rule: rev_cases; cases rows)
     (auto simp: try_trigger_def process_page_def try_pop_recent_def vec_pop_def
        process_records_foldl process_record_def add_analytic_data_def add_record_simps)

fun read_analytic_rows :: "analytic_page list \<Rightarrow> analytic_record list" where
  "read_analytic_rows [] = []"
| "read_analytic_rows (p # ps) = ap_rows p @ (if ap_more p then read_analytic_rows ps else [])"

lemma analytic_loop_ok:
  assumes "\<And>st. build st = None" and "\<exists>p\<in>set ps. \<not> ap_more p"
  shows "\<exists>ad'. analytic_loop build (map Inr ps) ad = Some (Inr ad') \<and>
           analytics ad' = foldl add_record (analytics ad) (read_analytic_rows ps)"
  using assms(2)
proof (induction ps arbitrary: ad)
  case (Cons p ps)
  then show ?case
    using Cons.IH [of "try_trigger (ap_rows p) ad"]
    by (auto simp: decode_analytic_page_def assms(1) try_trigger_foldl)
qed simp

section \<open>What the ranges and counters hold\<close>

definition rows_in :: "u32_range \<Rightarrow> analytic_record list \<Rightarrow> analytic_record list" where
  "rows_in rng rows = filter (\<lambda>r. range_contains rng (ar_milestone_index r)) rows"

definition word_total :: "(analytic_record \<Rightarrow> 'a::len word) \<Rightarrow> analytic_record list \<Rightarrow> u128" where
  "word_total f rows = sum_list (map (\<lambda>r. ucast (f r)) rows)"

definition counts_ok :: "analytic_record list \<Rightarrow> analytic_data \<Rightarrow> bool" where
  "counts_ok rows a \<longleftrightarrow>
     ad_message_count a = word_total ar_message_count (rows_in (ad_range a) rows) \<and>
     ad_transaction_count a = word_total ar_transaction_count (rows_in (ad_range a) rows) \<and>
     ad_transferred_tokens a = word_total ar_transferred_tokens (rows_in (ad_range a) rows)"

definition desc_records :: "u32 \<Rightarrow> analytic_record list \<Rightarrow> bool" where
  "desc_records hi rows \<longleftrightarrow>
     sorted_wrt (\<lambda>a b. ar_milestone_index b < ar_milestone_index a) rows \<and>
     (\<forall>r\<in>set rows. ar_milestone_index r < hi)"

definition acc_inv :: "analytic_record list \<Rightarrow> analytic_data list \<Rightarrow> bool" where
  "acc_inv rows as \<longleftrightarrow>
     desc_ranges (map ad_range as) \<and>
     ranges_set (map ad_range as) = ar_milestone_index ` set rows \<and>
     (\<forall>a\<in>set as. counts_ok rows a) \<and>
     (as \<noteq> [] \<longrightarrow> (\<forall>a\<in>set as. ad_start (last as) \<le> ad_start a))"

lemma rows_in_above:
  assumes "ar_milestone_index r < rstart rng"
  shows "rows_in rng (rows @ [r]) = rows_in rng rows"
  using assms by (simp add: rows_in_def range_contains_def not_le)

lemma counts_ok_above:
  "counts_ok rows a \<Longrightarrow> ar_milestone_index r < ad_start a \<Longrightarrow> counts_ok (rows @ [r]) a"
  by (simp add: counts_ok_def rows_in_above)

lemma word_total_snoc: "word_total f (rows @ [r]) = word_total f rows + ucast (f r)"
  by (simp add: word_total_def)

lemma counts_ok_acc:
  assumes c: "counts_ok rows a" and m: "ad_start a = ar_milestone_index r + 1"
    and lt: "ar_milestone_index r < ad_start a" "ad_start a < rend (ad_range a)"
    and above: "\<forall>q\<in>set rows. ar_milestone_index r < ar_milestone_index q"
  shows "counts_ok (rows @ [r]) (ad_acc a r)"
proof -
  have "range_contains (ad_range (ad_acc a r)) (ar_milestone_index q) =
      range_contains (ad_range a) (ar_milestone_index q)" if "q \<in> set rows" for q
    using above that m lt(1) by (auto simp: range_contains_def ad_acc_def word_succ_le_iff)
  then have "rows_in (ad_range (ad_acc a r)) rows = rows_in (ad_range a) rows"
    by (auto simp: rows_in_def intro!: filter_cong)
  moreover have "range_contains (ad_range (ad_acc a r)) (ar_milestone_index r)"
    using lt m by (auto simp: range_contains_def ad_acc_def)
  ultimately have "rows_in (ad_range (ad_acc a r)) (rows @ [r]) = rows_in (ad_range a) rows @ [r]"
    by (simp add: rows_in_def)
  with c show ?thesis
    by (simp add: counts_ok_def word_total_snoc ad_acc_def del: filter_append)
qed

lemma counts_ok_from:
  assumes "\<forall>q\<in>set rows. ar_milestone_index r < ar_milestone_index q" "ar_milestone_index r < hi"
  shows "counts_ok (rows @ [r]) (analytic_data_from r)"
proof -
  have "rows_in (Range (ar_milestone_index r) (ar_milestone_index r + 1)) rows = []"
    using assms by (auto simp: rows_in_def range_contains_def filter_empty_conv word_less_succ_iff)
  then have "rows_in (Range (ar_milestone_index r) (ar_milestone_index r + 1)) (rows @ [r]) = [r]"
    using assms(2) by (simp add: rows_in_def range_contains_def word_less_succ_iff)
  then show ?thesis
    by (simp add: counts_ok_def analytic_data_from_def word_total_def)
qed

lemma acc_inv_step:
  assumes inv: "acc_inv rows as" and above: "\<forall>q\<in>set rows. ar_milestone_index r < ar_milestone_index q"
    and hi: "ar_milestone_index r < hi"
  shows "acc_inv (rows @ [r]) (add_record as r)"
proof (cases as rule: rev_cases)
  case Nil
  then show ?thesis using inv hi counts_ok_from [OF above hi]
    by (auto simp: acc_inv_def add_record_simps analytic_data_from_def word_less_succ word_less_succ_iff)
next
  case (snoc xs a)
  let ?m = "ar_milestone_index r"
  have d: "desc_ranges (map ad_range xs)" "ad_start a < rend (ad_range a)"
    "\<forall>x\<in>set xs. rend (ad_range a) < ad_start x"
    and rs: "ranges_set (map ad_range xs) \<union> range_set (ad_range a) = ar_milestone_index ` set rows"
    and cnt: "\<forall>x\<in>set xs. counts_ok rows x" "counts_ok rows a"
    using inv snoc by (auto simp: acc_inv_def)
  have "ad_start a \<in> ar_milestone_index ` set rows"
    using rs range_start_in [OF d(2)] by blast
  then have lt: "?m < ad_start a" using above by auto
  have cnt': "\<forall>x\<in>set xs. counts_ok (rows @ [r]) x"
    using cnt(1) d lt by (fastforce intro: counts_ok_above dest: order_less_trans)
  show ?thesis
  proof (cases "ad_start a - 1 = ?m")
    case True
    then have m: "ad_start a = ?m + 1" by (metis diff_add_cancel)
    have "range_set (ad_range (ad_acc a r)) = insert ?m (range_set (ad_range a))"
      using lt d(2) by (auto simp: range_set_def ad_acc_def m word_succ_le_iff [OF lt])
    then show ?thesis
      using True cnt' counts_ok_acc [OF cnt(2) m lt d(2) above] d rs lt
      by (auto simp: acc_inv_def snoc add_record_simps ad_acc_def)
  next
    case False
    then have m: "?m + 1 \<noteq> ad_start a" by (metis add_diff_cancel_right')
    then have "?m + 1 < ad_start a" using lt by (meson order_le_neq_trans word_succ_le_iff)
    then show ?thesis
      using False cnt' counts_ok_from [OF above hi] counts_ok_above [OF cnt(2) lt] d rs lt
        desc_ranges_snoc [of "map ad_range xs @ [ad_range a]" "Range ?m (?m + 1)"]
      by (auto simp: acc_inv_def snoc add_record_simps analytic_data_from_def word_less_succ [OF lt]
          word_less_succ_iff [OF lt])
  qed
qed

lemma foldl_acc_inv: "desc_records hi rows \<Longrightarrow> acc_inv rows (foldl add_record [] rows)"
proof (induction rows rule: rev_induct)
  case Nil
  then show ?case by (simp add: acc_inv_def)
next
  case (snoc r rows)
  then have "desc_records hi rows" "\<forall>q\<in>set rows. ar_milestone_index r < ar_milestone_index q"
    "ar_milestone_index r < hi"
    by (auto simp: desc_records_def sorted_wrt_append)
  then show ?case using snoc acc_inv_step [of rows _ r hi] by simp
qed

section \<open>The counters do not wrap\<close>

lemma desc_distinct: "sorted_wrt (\<lambda>a b. b < (a::'a::order)) xs \<Longrightarrow> distinct xs"
  by (induction xs) auto

lemma desc_records_length:
  assumes "desc_records hi rows"
  shows "length rows < 2 ^ 32"
proof -
  have "sorted_wrt (\<lambda>a b. b < a) (map ar_milestone_index rows)"
    using assms by (simp add: desc_records_def sorted_wrt_map)
  then have "distinct (map ar_milestone_index rows)"
    by (rule desc_distinct)
  then have "length rows = card (ar_milestone_index ` set rows)"
    by (metis distinct_card length_map list.set_map)
  moreover have "unat ` ar_milestone_index ` set rows \<subseteq> {..< unat hi}"
    using assms by (auto simp: desc_records_def word_less_nat_alt)
  then have "card (unat ` ar_milestone_index ` set rows) \<le> unat hi"
    by (metis card_lessThan card_mono finite_lessThan)
  moreover have "card (unat ` ar_milestone_index ` set rows) = card (ar_milestone_index ` set rows)"
    by (intro card_image inj_onI) (simp only: word_unat_eq_iff)
  moreover have "unat hi < 2 ^ 32" using unsigned_less [of hi] by simp
  ultimately show ?thesis by linarith
qed

lemma unat_word_total:
  fixes f :: "analytic_record \<Rightarrow> 'a::len word"
  assumes "length rows < 2 ^ 32" and "LENGTH('a) \<le> 64"
  shows "unat (word_total f rows) = sum_list (map (\<lambda>r. unat (f r)) rows)"
proof -
  have small: "unat (f r) < 2 ^ 64" for r
  proof -
    have "unat (f r) < 2 ^ LENGTH('a)" by (rule unsigned_less)
    also have "\<dots> \<le> (2::nat) ^ 64" using assms(2) by (intro power_increasing) auto
    finally show ?thesis .
  qed
  have "unat (word_total f rows) = sum_list (map (\<lambda>r. unat (f r)) rows) \<and>
      sum_list (map (\<lambda>r. unat (f r)) rows) \<le> length rows * 2 ^ 64"
    using assms(1)
  proof (induction rows rule: rev_induct)
    case (snoc r rows)
    let ?s = "sum_list (map (\<lambda>r. unat (f r)) rows)"
    have ih: "unat (word_total f rows) = ?s" "?s \<le> length rows * 2 ^ 64"
      using snoc by auto
    have c: "unat (ucast (f r) :: u128) = unat (f r)"
      using small [of r] by (simp add: unsigned_ucast_eq take_bit_nat_eq_self)
    have "?s + unat (f r) \<le> Suc (length rows) * 2 ^ 64"
      using ih(2) small [of r] by simp
    also have "\<dots> \<le> 2 ^ 32 * 2 ^ 64"
      using snoc.prems by (intro mult_right_mono) auto
    finally have "?s + unat (f r) \<le> 2 ^ 96" by simp
    then have "unat (word_total f (rows @ [r])) = ?s + unat (f r)"
      using ih(1) c by (subst word_total_snoc, subst unat_add_lem [THEN iffD1]) auto
    then show ?case using ih(2) small [of r] by simp
  qed (simp add: word_total_def)
  then show ?thesis by blast
qed


section \<open>Properties of the analytics data\<close>

definition nat_total :: "(analytic_record \<Rightarrow> 'a::len word) \<Rightarrow> analytic_record list \<Rightarrow> nat" where
  "nat_total f rows = sum_list (map (\<lambda>r. unat (f r)) rows)"

definition analytics_correct :: "analytic_record list \<Rightarrow> analytics_data \<Rightarrow> bool" where
  "analytics_correct rows ad \<longleftrightarrow>
     desc_ranges (map ad_range (analytics ad)) \<and>
     ranges_set (map ad_range (analytics ad)) = ar_milestone_index ` set rows \<and>
     (\<forall>a\<in>set (analytics ad).
        unat (ad_message_count a) = nat_total ar_message_count (rows_in (ad_range a) rows) \<and>
        unat (ad_transaction_count a) = nat_total ar_transaction_count (rows_in (ad_range a) rows) \<and>
        unat (ad_transferred_tokens a) = nat_total ar_transferred_tokens (rows_in (ad_range a) rows))"

text \<open>
  C4. When every request can be built and some page is the last, \<^verbatim>\<open>AnalyticsData::try_fetch\<close> on
  pages (empty ones among them) whose rows come in descending milestone order returns one entry per
  maximal run of adjacent milestones: the ranges are separated, cover exactly the milestones of the
  rows, and each counter is the sum, without wrap-around, of the records in its range.
\<close>

theorem fetch_analytics_correct:
  assumes "\<And>st. build st = None" and "\<exists>p\<in>set ps. \<not> ap_more p"
    and "desc_records hi (read_analytic_rows ps)"
  shows "\<exists>ad. fetch_analytics build (map Inr ps) = Some (Inr ad) \<and>
           analytics_correct (read_analytic_rows ps) ad"
proof -
  let ?rows = "read_analytic_rows ps"
  obtain ad where run: "analytic_loop build (map Inr ps) \<lparr>analytics = []\<rparr> = Some (Inr ad)"
    and ad: "analytics ad = foldl add_record [] ?rows"
    using analytic_loop_ok [of build ps "\<lparr>analytics = []\<rparr>"] assms(1,2) by auto
  have inv: "acc_inv ?rows (analytics ad)"
    unfolding ad by (rule foldl_acc_inv [OF assms(3)])
  have "length (rows_in rng ?rows) < 2 ^ 32" for rng
    using desc_records_length [OF assms(3)] by (simp add: rows_in_def le_less_trans [OF length_filter_le])
  note total = unat_word_total [OF this]
  have "analytics_correct ?rows ad"
    using inv by (simp add: total analytics_correct_def acc_inv_def counts_ok_def nat_total_def)
  with run show ?thesis using assms(1) by (simp add: fetch_analytics_def)
qed

definition wit_analytic :: "analytic_page list" where
  "wit_analytic =
     [\<lparr>ap_rows = [\<lparr>ar_milestone_index = 9, ar_message_count = 4, ar_transaction_count = 1,
        ar_transferred_tokens = 70\<rparr>], ap_more = True, ap_state = Some [1]\<rparr>,
      \<lparr>ap_rows = [], ap_more = True, ap_state = Some [2]\<rparr>,
      \<lparr>ap_rows = [\<lparr>ar_milestone_index = 8, ar_message_count = 3, ar_transaction_count = 0,
        ar_transferred_tokens = 0\<rparr>], ap_more = False, ap_state = None\<rparr>]"

lemma fetch_analytics_correct_witness:
  "\<exists>ad. fetch_analytics (\<lambda>_. None) (map Inr wit_analytic) = Some (Inr ad) \<and>
     analytics_correct (read_analytic_rows wit_analytic) ad"
  by (rule fetch_analytics_correct [where hi = 10]) (simp_all add: wit_analytic_def desc_records_def)

end
