(* ===== verification/Milestone_Data.thy ===== *)
theory Milestone_Data
  imports Tangle_Types Analytics_Data "HOL-Library.Multiset"
begin

text \<open>
  \<^verbatim>\<open>MilestoneData\<close> of \<^verbatim>\<open>chronicle-broker/src/types.rs\<close>, the messages of one milestone cone while the
  solidifier collects them, with its analytic record; and the heap of \<^verbatim>\<open>Ascending<MilestoneData>\<close>
  (\<^verbatim>\<open>chronicle-broker/src/syncer/mod.rs\<close>) from which the syncer and the archiver take the lowest
  milestone first.
\<close>

section \<open>Milestone data\<close>

record milestone_data =
  ms_index :: u32
  ms_milestone :: "milestone_payload option"
  ms_messages :: "(message_id, full_message) hmap"
  ms_pending :: "(message_id, unit) hmap"
  ms_created_by :: created_by

definition new_milestone_data :: "u32 \<Rightarrow> created_by \<Rightarrow> milestone_data" where
  "new_milestone_data i c =
     \<lparr>ms_index = i, ms_milestone = None, ms_messages = [], ms_pending = [], ms_created_by = c\<rparr>"

definition set_milestone :: "milestone_payload \<Rightarrow> milestone_data \<Rightarrow> milestone_data" where
  "set_milestone p md = md\<lparr>ms_milestone := Some p\<rparr>"

definition milestone_exist :: "milestone_data \<Rightarrow> bool" where
  "milestone_exist md \<longleftrightarrow> ms_milestone md \<noteq> None"

definition add_full_message :: "full_message \<Rightarrow> milestone_data \<Rightarrow> milestone_data" where
  "add_full_message fm md = md\<lparr>ms_messages := hm_insert (fm_message_id fm) fm (ms_messages md)\<rparr>"

definition remove_from_pending :: "message_id \<Rightarrow> milestone_data \<Rightarrow> milestone_data" where
  "remove_from_pending i md = md\<lparr>ms_pending := hm_remove i (ms_pending md)\<rparr>"

definition check_if_completed :: "milestone_data \<Rightarrow> bool" where
  "check_if_completed md \<longleftrightarrow> ms_pending md = [] \<and> milestone_exist md"

section \<open>The analytic record\<close>

text \<open>The three accumulators of \<^verbatim>\<open>get_analytic_record\<close>, at their widths; the release build wraps.\<close>

record analytic_acc =
  ac_messages :: u32
  ac_transactions :: u32
  ac_tokens :: u64

fun acc_outputs :: "output_t list \<Rightarrow> u64 \<Rightarrow> u64 result" where
  "acc_outputs [] t = Inr t"
| "acc_outputs (SignatureLockedSingle a v # os) t = acc_outputs os (t + v)"
| "acc_outputs (SignatureLockedDustAllowance a v # os) t = acc_outputs os (t + v)"
| "acc_outputs (TreasuryOut v # os) t =
     Inl (Failed ''Unexpected Output variant in transaction payload'')"
| "acc_outputs (OtherOutput # os) t =
     Inl (Failed ''Unexpected Output variant in transaction payload'')"

definition acc_message :: "full_message \<Rightarrow> analytic_acc \<Rightarrow> analytic_acc result" where
  "acc_message fm ac =
     (let ac = ac\<lparr>ac_messages := ac_messages ac + 1\<rparr> in
      if md_inclusion_state (fm_metadata fm) = Some Included
      then (case msg_payload (fm_message fm) of
              Some (Transaction_P ins outs p ubs) \<Rightarrow>
                (case acc_outputs outs (ac_tokens ac) of
                   Inl e \<Rightarrow> Inl e
                 | Inr t \<Rightarrow> Inr (ac\<lparr>ac_transactions := ac_transactions ac + 1, ac_tokens := t\<rparr>))
            | _ \<Rightarrow> Inr ac)
      else Inr ac)"

fun acc_messages :: "(message_id \<times> full_message) list \<Rightarrow> analytic_acc \<Rightarrow> analytic_acc result" where
  "acc_messages [] ac = Inr ac"
| "acc_messages ((i, fm) # ms) ac =
     (case acc_message fm ac of Inl e \<Rightarrow> Inl e | Inr ac \<Rightarrow> acc_messages ms ac)"

definition get_analytic_record :: "milestone_data \<Rightarrow> analytic_record result" where
  "get_analytic_record md =
     (if \<not> check_if_completed md
      then Inl (Failed ''cannot get analytics for uncompleted milestone data'')
      else (case acc_messages (ms_messages md) \<lparr>ac_messages = 0, ac_transactions = 0, ac_tokens = 0\<rparr> of
              Inl e \<Rightarrow> Inl e
            | Inr ac \<Rightarrow> Inr \<lparr>ar_milestone_index = ms_index md, ar_message_count = ac_messages ac,
                ar_transaction_count = ac_transactions ac, ar_transferred_tokens = ac_tokens ac\<rparr>))"

text \<open>What the record should hold: the outputs of the included transactions.\<close>

definition included_outputs :: "full_message \<Rightarrow> output_t list option" where
  "included_outputs fm =
     (if md_inclusion_state (fm_metadata fm) = Some Included
      then (case msg_payload (fm_message fm) of
              Some (Transaction_P ins outs p ubs) \<Rightarrow> Some outs | _ \<Rightarrow> None)
      else None)"

fun output_amount :: "output_t \<Rightarrow> u64 option" where
  "output_amount (SignatureLockedSingle a v) = Some v"
| "output_amount (SignatureLockedDustAllowance a v) = Some v"
| "output_amount (TreasuryOut v) = None"
| "output_amount OtherOutput = None"

definition all_outputs :: "(message_id \<times> full_message) list \<Rightarrow> output_t list" where
  "all_outputs ms = concat (List.map_filter (\<lambda>(i, fm). included_outputs fm) ms)"

definition nat_amount :: "output_t list \<Rightarrow> nat" where
  "nat_amount os = sum_list (map (\<lambda>out. case output_amount out of Some v \<Rightarrow> unat v | None \<Rightarrow> 0) os)"

lemma acc_outputs_eq:
  "acc_outputs os t =
     (if None \<in> output_amount ` set os
      then Inl (Failed ''Unexpected Output variant in transaction payload'')
      else Inr (t + of_nat (nat_amount os)))"
proof (induction os arbitrary: t)
  case (Cons a os)
  then show ?case by (cases a) (auto simp: nat_amount_def add.assoc)
qed (simp add: nat_amount_def)

lemma nat_amount_append [simp]: "nat_amount (xs @ ys) = nat_amount xs + nat_amount ys"
  by (simp add: nat_amount_def)

lemma all_outputs_simps [simp]:
  "all_outputs [] = []"
  "all_outputs ((i, fm) # ms) =
     (case included_outputs fm of None \<Rightarrow> all_outputs ms | Some os \<Rightarrow> os @ all_outputs ms)"
  by (simp_all add: all_outputs_def List.map_filter_def split: option.splits)

definition tx_count :: "(message_id \<times> full_message) list \<Rightarrow> nat" where
  "tx_count ms = length (filter (\<lambda>(i, fm). included_outputs fm \<noteq> None) ms)"

lemma acc_message_eq:
  "acc_message fm ac =
     (case included_outputs fm of
        None \<Rightarrow> Inr (ac\<lparr>ac_messages := ac_messages ac + 1\<rparr>)
      | Some os \<Rightarrow>
          (if None \<in> output_amount ` set os
           then Inl (Failed ''Unexpected Output variant in transaction payload'')
           else Inr \<lparr>ac_messages = ac_messages ac + 1, ac_transactions = ac_transactions ac + 1,
                  ac_tokens = ac_tokens ac + of_nat (nat_amount os)\<rparr>))"
  by (cases ac)
     (auto simp: acc_message_def included_outputs_def Let_def acc_outputs_eq
      split: option.splits payload.splits)

lemma acc_messages_eq:
  "acc_messages ms ac =
     (if None \<in> output_amount ` set (all_outputs ms)
      then Inl (Failed ''Unexpected Output variant in transaction payload'')
      else Inr \<lparr>ac_messages = ac_messages ac + of_nat (length ms),
             ac_transactions = ac_transactions ac + of_nat (tx_count ms),
             ac_tokens = ac_tokens ac + of_nat (nat_amount (all_outputs ms))\<rparr>)"
proof (induction ms arbitrary: ac)
  case Nil
  then show ?case by (cases ac) (simp add: tx_count_def nat_amount_def)
next
  case (Cons p ms)
  obtain i fm where p: "p = (i, fm)" by fastforce
  show ?case
    by (cases "included_outputs fm")
       (auto simp: p acc_message_eq Cons.IH tx_count_def image_Un add.assoc)
qed

text \<open>
  C5. The analytic record of milestone data is computed exactly when the data is complete and every
  output of an included transaction carries an amount; it then counts all messages, the included
  transactions and the sum of their outputs' amounts, modulo the widths of the three counters.
\<close>

theorem get_analytic_record_correct:
  "case get_analytic_record md of
     Inl e \<Rightarrow> (if check_if_completed md
       then None \<in> output_amount ` set (all_outputs (ms_messages md)) else True)
   | Inr r \<Rightarrow>
       check_if_completed md \<and> None \<notin> output_amount ` set (all_outputs (ms_messages md)) \<and>
       ar_milestone_index r = ms_index md \<and>
       unat (ar_message_count r) = length (ms_messages md) mod 2 ^ 32 \<and>
       unat (ar_transaction_count r) = tx_count (ms_messages md) mod 2 ^ 32 \<and>
       unat (ar_transferred_tokens r) = nat_amount (all_outputs (ms_messages md)) mod 2 ^ 64"
  by (simp add: get_analytic_record_def acc_messages_eq unat_of_nat)

section \<open>The ascending heap\<close>

text \<open>
  \<^verbatim>\<open>BinaryHeap<Ascending<MilestoneData>>\<close>: \<^verbatim>\<open>pop\<close> removes an element with the lowest milestone
  index; of several such the model takes the one first in the list, Rust leaves it open.
\<close>

fun pop_min :: "('a \<Rightarrow> 'k::linorder) \<Rightarrow> 'a list \<Rightarrow> ('a \<times> 'a list) option" where
  "pop_min key [] = None"
| "pop_min key (x # xs) =
     (case pop_min key xs of
        None \<Rightarrow> Some (x, [])
      | Some (y, ys) \<Rightarrow> if key x \<le> key y then Some (x, xs) else Some (y, x # ys))"

definition heap_push :: "'a \<Rightarrow> 'a list \<Rightarrow> 'a list" where
  "heap_push x xs = xs @ [x]"

abbreviation asc_pop :: "milestone_data list \<Rightarrow> (milestone_data \<times> milestone_data list) option" where
  "asc_pop \<equiv> pop_min ms_index"

definition asc_peek :: "milestone_data list \<Rightarrow> milestone_data option" where
  "asc_peek xs = map_option fst (asc_pop xs)"

lemma pop_min_None [simp]: "pop_min key xs = None \<longleftrightarrow> xs = []"
  by (cases xs) (auto split: option.splits)

lemma pop_min_Some:
  "pop_min key xs = Some (y, ys) \<Longrightarrow> mset xs = add_mset y (mset ys) \<and> (\<forall>z\<in>set ys. key y \<le> key z)"
proof (induction xs arbitrary: y ys)
  case (Cons x xs)
  show ?case
  proof (cases "pop_min key xs")
    case None
    then show ?thesis using Cons.prems by auto
  next
    case (Some p)
    then obtain z zs where p: "pop_min key xs = Some (z, zs)" by (cases p) auto
    note ih = Cons.IH [OF p]
    then have "set xs = insert z (set zs)" by (metis set_mset_add_mset_insert set_mset_mset)
    then show ?thesis using Cons.prems p ih by (auto split: if_splits)
  qed
qed simp

lemma pop_min_length: "pop_min key xs = Some (y, ys) \<Longrightarrow> length xs = Suc (length ys)"
  by (metis pop_min_Some size_add_mset size_mset)

lemma pop_min_set: "pop_min key xs = Some (y, ys) \<Longrightarrow> set xs = insert y (set ys)"
  by (metis pop_min_Some set_mset_add_mset_insert set_mset_mset)

lemma heap_push_mset [simp]: "mset (heap_push x xs) = add_mset x (mset xs)" "set (heap_push x xs) = insert x (set xs)"
  by (auto simp: heap_push_def)

locale min_heap =
  fixes push :: "'a \<Rightarrow> 'h \<Rightarrow> 'h" and pop :: "'h \<Rightarrow> ('a \<times> 'h) option"
    and elems :: "'h \<Rightarrow> 'a multiset" and key :: "'a \<Rightarrow> 'k::linorder"
  assumes push_elems: "elems (push x h) = add_mset x (elems h)"
    and pop_none: "pop h = None \<longleftrightarrow> elems h = {#}"
    and pop_some: "pop h = Some (x, h') \<Longrightarrow> elems h = add_mset x (elems h') \<and> (\<forall>y\<in>#elems h'. key x \<le> key y)"
begin

inductive drains :: "'h \<Rightarrow> 'a list \<Rightarrow> 'h \<Rightarrow> bool" where
  drains_none: "drains h [] h"
| drains_some: "pop h = Some (x, h') \<Longrightarrow> drains h' xs h'' \<Longrightarrow> drains h (x # xs) h''"

lemma drains_sorted:
  "drains h xs h' \<Longrightarrow> sorted (map key xs) \<and> elems h = mset xs + elems h' \<and>
     (\<forall>x\<in>set xs. \<forall>y\<in>#elems h'. key x \<le> key y)"
  by (induction rule: drains.induct) (auto dest!: pop_some)

end

interpretation asc: min_heap heap_push asc_pop mset ms_index
  by unfold_locales (auto dest: pop_min_Some)

lemma asc_peek_pop:
  "asc_peek xs = Some md \<Longrightarrow> \<exists>ys. asc_pop xs = Some (md, ys)"
  "asc_peek xs = None \<longleftrightarrow> xs = []"
  by (auto simp: asc_peek_def)

end
