(* ===== verification/Archiver.thy ===== *)
theory Archiver
  imports Milestone_Data
begin

text \<open>
  The archiver (\<^verbatim>\<open>chronicle-broker/src/archiver/\<close>): it appends complete milestone data, one line
  each, to write-ahead log files that hold consecutive milestones, closes a file at its upper
  limit or at the size limit, and keeps the incoming milestones in order with a heap.

  The file system is a map from file names to lines. I/O may fail: every fallible operation
  consumes one entry of \<open>faults\<close>, \<open>True\<close> being a failure; an exhausted list means no more failures.
  The rows that are sent to the sync table are recorded in \<open>w_sync_rows\<close>.
\<close>

section \<open>Files\<close>

datatype log_name = PartName u32 | LogName u32 u32

text \<open>One serialised line; a failed write may leave a partial one.\<close>

datatype log_line = Line milestone_data | Partial

record world =
  w_fs :: "(log_name, log_line list) hmap"
  w_sync_rows :: "sync_record list"
  w_faults :: "bool list"

definition io_ok :: "world \<Rightarrow> bool \<times> world" where
  "io_ok w = (case w_faults w of [] \<Rightarrow> (True, w) | b # bs \<Rightarrow> (\<not> b, w\<lparr>w_faults := bs\<rparr>))"

definition file_lines :: "world \<Rightarrow> log_name \<Rightarrow> log_line list" where
  "file_lines w n = (case hm_get (w_fs w) n of None \<Rightarrow> [] | Some ls \<Rightarrow> ls)"

record log_file =
  lf_len :: u64
  lf_filename :: log_name
  lf_from :: u32
  lf_to :: u32
  lf_upper :: u32
  lf_corrupted :: bool
  lf_finished :: bool

definition log_create :: "u32 \<Rightarrow> u32 option \<Rightarrow> world \<Rightarrow> log_file result \<times> world" where
  "log_create mi opt_upper w =
     (case io_ok w of
        (False, w) \<Rightarrow> (Inl (Failed ''Unable to create log file''), w)
      | (True, w) \<Rightarrow>
          (Inr \<lparr>lf_len = 0, lf_filename = PartName mi, lf_from = mi, lf_to = mi,
             lf_upper = (case opt_upper of None \<Rightarrow> u32_max | Some u \<Rightarrow> u),
             lf_corrupted = False, lf_finished = False\<rparr>,
           w\<lparr>w_fs := hm_or_insert (PartName mi) [] (w_fs w)\<rparr>))"

definition log_finish :: "log_file \<Rightarrow> world \<Rightarrow> unit result \<times> log_file \<times> world" where
  "log_finish lf w =
     (case (io_ok w, hm_get (w_fs w) (lf_filename lf)) of
        ((True, w), Some ls) \<Rightarrow>
          (let w = w\<lparr>w_fs := hm_insert (LogName (lf_from lf) (lf_to lf)) ls
                       (hm_remove (lf_filename lf) (w_fs w))\<rparr> in
           case io_ok w of
             (False, w) \<Rightarrow> (Inl (Failed ''sync_all''), lf\<lparr>lf_corrupted := True\<rparr>, w)
           | (True, w) \<Rightarrow> (Inr (), lf, w))
      | ((_, w), _) \<Rightarrow> (Inl (Failed ''rename''), lf\<lparr>lf_corrupted := True\<rparr>, w))"

text \<open>\<open>line_len md\<close> is the byte length of the serialised line (serde_json is third-party).\<close>

definition append_line ::
  "(milestone_data \<Rightarrow> u64) \<Rightarrow> log_file \<Rightarrow> milestone_data \<Rightarrow> world \<Rightarrow> unit result \<times> log_file \<times> world" where
  "append_line line_len lf md w =
     (case io_ok w of
        (False, w) \<Rightarrow>
          (Inl (Failed ''Unable to append milestone data line into the log file''),
           lf\<lparr>lf_corrupted := True\<rparr>,
           w\<lparr>w_fs := hm_insert (lf_filename lf) (file_lines w (lf_filename lf) @ [Partial]) (w_fs w)\<rparr>)
      | (True, w) \<Rightarrow>
          (Inr (), lf\<lparr>lf_to := lf_to lf + 1, lf_len := lf_len lf + line_len md\<rparr>,
           w\<lparr>w_fs := hm_insert (lf_filename lf) (file_lines w (lf_filename lf) @ [Line md]) (w_fs w)\<rparr>))"

abbreviation lf_range :: "log_file \<Rightarrow> u32_range" where
  "lf_range l \<equiv> Range (lf_from l) (lf_to l)"

definition milestones_range :: "log_file \<Rightarrow> u32" where
  "milestones_range lf = lf_to lf - lf_from lf"

section \<open>State\<close>

record archiver =
  logs :: "log_file list"
  max_log_size :: u64
  cleanup :: "u32 list"
  processed :: "u32_range list"
  ar_heap :: "milestone_data list"
  solidifiers_count :: u8
  next_ms :: u32

definition new_archiver :: "u64 option \<Rightarrow> u8 \<Rightarrow> archiver" where
  "new_archiver max_size n =
     \<lparr>logs = [], max_log_size = (case max_size of None \<Rightarrow> ucast u32_max | Some s \<Rightarrow> s),
      cleanup = [], processed = [], ar_heap = [], solidifiers_count = n, next_ms = 0\<rparr>"

fun find_index :: "('a \<Rightarrow> bool) \<Rightarrow> 'a list \<Rightarrow> nat option" where
  "find_index P [] = None"
| "find_index P (x # xs) = (if P x then Some 0 else map_option Suc (find_index P xs))"

definition remove_nth :: "nat \<Rightarrow> 'a list \<Rightarrow> 'a list" where
  "remove_nth i xs = take i xs @ drop (Suc i) xs"

section \<open>Operations\<close>

text \<open>\<^verbatim>\<open>sort_by(|a, b| b.start.cmp(&a.start))\<close>: stable and descending.\<close>

definition push_to_processed :: "log_file \<Rightarrow> archiver \<Rightarrow> archiver" where
  "push_to_processed lf st =
     st\<lparr>processed := sort_key (\<lambda>r. u32_max - rstart r) (processed st @ [lf_range lf])\<rparr>"

definition arch_append ::
  "(milestone_data \<Rightarrow> u64) \<Rightarrow> log_file \<Rightarrow> milestone_data \<Rightarrow> u32 \<Rightarrow> world \<Rightarrow> unit result \<times> log_file \<times> world" where
  "arch_append line_len lf md mi w =
     (case append_line line_len lf md w of
        (Inl e, lf, w) \<Rightarrow> (Inl e, lf, w)
      | (Inr _, lf, w) \<Rightarrow>
          (case io_ok w of
             (False, w) \<Rightarrow> (Inl (Failed ''build''), lf, w)
           | (True, w) \<Rightarrow>
               (Inr (), lf, w\<lparr>w_sync_rows := w_sync_rows w @
                  [\<lparr>milestone_index = mi, synced_by = None, logged_by = Some 0\<rparr>]\<rparr>)))"

definition finish_log_file :: "log_file \<Rightarrow> world \<Rightarrow> unit result \<times> log_file \<times> world" where
  "finish_log_file lf w =
     (case log_finish lf w of
        (Inl e, lf, w) \<Rightarrow> (Inl e, lf, w)
      | (Inr _, lf, w) \<Rightarrow> (Inr (), lf\<lparr>lf_finished := True\<rparr>, w))"

text \<open>The reverse walk of \<^verbatim>\<open>create_and_append\<close> that caps each lower file at the start of the next.\<close>

fun trim_logs ::
  "u32 \<Rightarrow> log_file list \<Rightarrow> u32 list \<Rightarrow> world \<Rightarrow> unit result \<times> log_file list \<times> u32 list \<times> world" where
  "trim_logs pf [] cl w = (Inr (), [], cl, w)"
| "trim_logs pf (l # ls) cl w =
     (let l = (if pf < lf_upper l then l\<lparr>lf_upper := pf\<rparr> else l) in
      if lf_upper l = lf_to l \<and> \<not> lf_finished l
      then (case finish_log_file l w of
              (Inl e, l, w) \<Rightarrow> (Inl e, l # ls, cl @ [lf_from l], w)
            | (Inr _, l, w) \<Rightarrow>
                (case trim_logs (lf_from l) ls (cl @ [lf_from l]) w of
                   (r, ls, cl, w) \<Rightarrow> (r, l # ls, cl, w)))
      else (case trim_logs (lf_from l) ls cl w of (r, ls, cl, w) \<Rightarrow> (r, l # ls, cl, w)))"

definition trim_uppers :: "archiver \<Rightarrow> world \<Rightarrow> unit result \<times> archiver \<times> world" where
  "trim_uppers st w =
     (case rev (logs st) of
        [] \<Rightarrow> (Inr (), st, w)
      | prev # ls \<Rightarrow>
          (case trim_logs (lf_from prev) ls (cleanup st) w of
             (r, ls, cl, w) \<Rightarrow> (r, st\<lparr>logs := rev (prev # ls), cleanup := cl\<rparr>, w)))"

definition create_and_append ::
  "(milestone_data \<Rightarrow> u64) \<Rightarrow> u32 \<Rightarrow> milestone_data \<Rightarrow> u32 option \<Rightarrow> archiver \<Rightarrow> world \<Rightarrow>
     unit result \<times> archiver \<times> world" where
  "create_and_append line_len mi md opt_upper st w =
     (case log_create mi opt_upper w of
        (Inl e, w) \<Rightarrow> (Inl e, st, w)
      | (Inr lf, w) \<Rightarrow>
          (case arch_append line_len lf md mi w of
             (Inl e, _, w) \<Rightarrow> (Inl e, st, w)
           | (Inr _, lf, w) \<Rightarrow>
               (if lf_upper lf = lf_to lf
                then (case finish_log_file lf w of
                        (Inl e, _, w) \<Rightarrow> (Inl e, st, w)
                      | (Inr _, lf, w) \<Rightarrow> (Inr (), push_to_processed lf st, w))
                else trim_uppers (st\<lparr>logs := sort_key lf_from (logs st @ [lf])\<rparr>) w)))"

text \<open>The loop that removes the finished files; \<^verbatim>\<open>position(..).unwrap()\<close> may panic.\<close>

fun remove_finished :: "u32 list \<Rightarrow> archiver \<Rightarrow> unit result \<times> archiver" where
  "remove_finished [] st = (Inr (), st\<lparr>cleanup := []\<rparr>)"
| "remove_finished (from # cl) st =
     (case find_index (\<lambda>l. lf_from l = from) (logs st) of
        None \<Rightarrow> (Inl Panic, st\<lparr>cleanup := rev cl\<rparr>)
      | Some i \<Rightarrow>
          remove_finished cl
            (push_to_processed (logs st ! i) (st\<lparr>logs := remove_nth i (logs st)\<rparr>)))"

definition run_cleanup :: "archiver \<Rightarrow> world \<Rightarrow> unit result \<times> archiver \<times> world" where
  "run_cleanup st w = (case remove_finished (rev (cleanup st)) st of (r, st) \<Rightarrow> (r, st, w))"

definition is_processed :: "archiver \<Rightarrow> u32 \<Rightarrow> bool" where
  "is_processed st mi \<longleftrightarrow> (\<exists>r\<in>set (processed st). range_contains r mi)"

text \<open>Sequencing of fallible steps (the \<^verbatim>\<open>?\<close> operator).\<close>

definition then_run ::
  "unit result \<times> archiver \<times> world \<Rightarrow> (archiver \<Rightarrow> world \<Rightarrow> unit result \<times> archiver \<times> world) \<Rightarrow>
     unit result \<times> archiver \<times> world" where
  "then_run s k = (case s of (Inl e, st, w) \<Rightarrow> (Inl e, st, w) | (Inr _, st, w) \<Rightarrow> k st w)"

text \<open>Finish the file at position \<open>i\<close>, which has been put on the cleanup list.\<close>

definition finish_at :: "nat \<Rightarrow> archiver \<Rightarrow> world \<Rightarrow> unit result \<times> archiver \<times> world" where
  "finish_at i st w =
     (let st = st\<lparr>cleanup := cleanup st @ [lf_from (logs st ! i)]\<rparr> in
      case finish_log_file (logs st ! i) w of (r, lf, w) \<Rightarrow> (r, st\<lparr>logs := (logs st)[i := lf]\<rparr>, w))"

definition handle_milestone_data ::
  "(milestone_data \<Rightarrow> u64) \<Rightarrow> milestone_data \<Rightarrow> u32 option \<Rightarrow> archiver \<Rightarrow> world \<Rightarrow>
     unit result \<times> archiver \<times> world" where
  "handle_milestone_data line_len md opt_upper st w =
     (let mi = ms_index md in
      then_run
        (case find_index (\<lambda>l. lf_to l = mi \<and> mi < lf_upper l) (logs st) of
           Some i \<Rightarrow>
             (let lf = logs st ! i in
              if line_len md + lf_len lf < max_log_size st
              then (case arch_append line_len lf md mi w of
                      (r, lf, w) \<Rightarrow>
                        then_run (r, st\<lparr>logs := (logs st)[i := lf]\<rparr>, w)
                          (\<lambda>st w. if lf_upper lf = lf_to lf then finish_at i st w else (Inr (), st, w)))
              else then_run (finish_at i st w)
                     (\<lambda>st w. if is_processed st mi then (Inr (), st, w)
                             else create_and_append line_len mi md (Some (lf_upper lf)) st w))
         | None \<Rightarrow>
             (if is_processed st mi then (Inr (), st, w)
              else create_and_append line_len mi md opt_upper st w))
        run_cleanup)"

definition close_log_file :: "u32 \<Rightarrow> archiver \<Rightarrow> world \<Rightarrow> unit result \<times> archiver \<times> world" where
  "close_log_file mi st w =
     (case find_index (\<lambda>l. lf_to l = mi) (logs st) of
        None \<Rightarrow> (Inr (), st, w)
      | Some i \<Rightarrow>
          (case finish_log_file (logs st ! i) w of
             (Inl e, lf, w) \<Rightarrow> (Inl e, st\<lparr>logs := (logs st)[i := lf]\<rparr>, w)
           | (Inr _, lf, w) \<Rightarrow>
               (Inr (), push_to_processed lf (st\<lparr>logs := remove_nth i (logs st)\<rparr>), w)))"

section \<open>Events\<close>

datatype archiver_event = ArMilestoneData milestone_data "u32 option" | ArClose u32

text \<open>The loop that empties the heap of incoming milestone data as far as it is in order.\<close>

function drain_incoming ::
  "(milestone_data \<Rightarrow> u64) \<Rightarrow> u32 option \<Rightarrow> archiver \<Rightarrow> world \<Rightarrow> unit result \<times> archiver \<times> world" where
  "drain_incoming line_len opt_upper st w =
     (case asc_pop (ar_heap st) of
        None \<Rightarrow> (Inr (), st, w)
      | Some (md, heap) \<Rightarrow>
          (let st1 = st\<lparr>ar_heap := heap\<rparr> in
           if next_ms st = ms_index md
           then (case handle_milestone_data line_len md opt_upper st1 w of
                   (Inl e, st2, w) \<Rightarrow> (Inl e, st2, w)
                 | (Inr _, st2, w) \<Rightarrow>
                     drain_incoming line_len opt_upper
                       (st2\<lparr>ar_heap := heap, next_ms := next_ms st + 1\<rparr>) w)
           else if next_ms st < ms_index md
           then (if unat (solidifiers_count st) < length heap
                 then (case close_log_file (next_ms st) st1 w of
                         (Inl e, st2, w) \<Rightarrow> (Inl e, st2, w)
                       | (Inr _, st2, w) \<Rightarrow>
                           (case handle_milestone_data line_len md opt_upper st2 w of
                              (Inl e, st3, w) \<Rightarrow> (Inl e, st3, w)
                            | (Inr _, st3, w) \<Rightarrow>
                                drain_incoming line_len opt_upper
                                  (st3\<lparr>ar_heap := heap, next_ms := ms_index md + 1\<rparr>) w))
                 else (Inr (), st1\<lparr>ar_heap := heap_push md heap\<rparr>, w))
           else drain_incoming line_len opt_upper st1 w))"
  by pat_completeness auto
termination
  by (relation "measure (\<lambda>(_, _, st, _). length (ar_heap st))") (auto dest: pop_min_length)

declare drain_incoming.simps [simp del]

definition handle_archiver_event ::
  "(milestone_data \<Rightarrow> u64) \<Rightarrow> archiver_event \<Rightarrow> archiver \<Rightarrow> world \<Rightarrow> unit result \<times> archiver \<times> world" where
  "handle_archiver_event line_len ev st w =
     (case ev of
        ArClose mi \<Rightarrow> (if mi < next_ms st then close_log_file mi st w else (Inr (), st, w))
      | ArMilestoneData md opt_upper \<Rightarrow>
          (if ms_created_by md \<noteq> Syncer_C
           then drain_incoming line_len opt_upper (st\<lparr>ar_heap := heap_push md (ar_heap st)\<rparr>) w
           else if ms_index md < next_ms st
           then handle_milestone_data line_len md opt_upper st w
           else if ms_index md = next_ms st
           then then_run (handle_milestone_data line_len md None st w)
                  (\<lambda>st w. (Inr (), st\<lparr>next_ms := next_ms st + 1\<rparr>, w))
           else (Inr (), st\<lparr>ar_heap := heap_push md (ar_heap st)\<rparr>, w)))"

text \<open>The event loop: an error aborts it. Terminating finishes the files in progress.\<close>

fun archiver_loop ::
  "(milestone_data \<Rightarrow> u64) \<Rightarrow> archiver_event list \<Rightarrow> archiver \<Rightarrow> world \<Rightarrow> unit result \<times> archiver \<times> world" where
  "archiver_loop line_len [] st w = (Inr (), st, w)"
| "archiver_loop line_len (ev # evs) st w =
     then_run (handle_archiver_event line_len ev st w) (archiver_loop line_len evs)"

fun finish_all :: "log_file list \<Rightarrow> world \<Rightarrow> log_file list \<times> world" where
  "finish_all [] w = ([], w)"
| "finish_all (l # ls) w =
     (case log_finish l w of (_, l, w) \<Rightarrow> (case finish_all ls w of (ls, w) \<Rightarrow> (l # ls, w)))"

definition archiver_terminating :: "archiver \<Rightarrow> world \<Rightarrow> archiver \<times> world" where
  "archiver_terminating st w = (case finish_all (logs st) w of (ls, w) \<Rightarrow> (st\<lparr>logs := ls\<rparr>, w))"

section \<open>What the files hold\<close>

fun line_index :: "log_line \<Rightarrow> u32 option" where
  "line_index (Line md) = Some (ms_index md)"
| "line_index Partial = None"

text \<open>The file holds one complete line for each milestone of the range, in order.\<close>

definition has_lines :: "(log_name, log_line list) hmap \<Rightarrow> log_name \<Rightarrow> u32_range \<Rightarrow> bool" where
  "has_lines fs n r \<longleftrightarrow>
     (\<exists>ls. hm_get fs n = Some ls \<and> map line_index ls = map Some (range_list r))"

definition file_of :: "log_file \<Rightarrow> log_name" where
  "file_of l = (if lf_finished l then LogName (lf_from l) (lf_to l) else PartName (lf_from l))"

text \<open>How many files hold the milestone.\<close>

definition covers :: "log_file multiset \<Rightarrow> u32_range multiset \<Rightarrow> u32 \<Rightarrow> nat" where
  "covers L P x = size {#r \<in># image_mset lf_range L + P. range_contains r x#}"

definition files_inv ::
  "log_file multiset \<Rightarrow> u32_range multiset \<Rightarrow> u32 list \<Rightarrow> (log_name, log_line list) hmap \<Rightarrow> bool" where
  "files_inv L P C fs \<longleftrightarrow>
     (\<forall>l\<in>#L. lf_from l < lf_to l \<and> lf_filename l = PartName (lf_from l) \<and>
        has_lines fs (file_of l) (lf_range l)) \<and>
     (\<forall>r\<in>#P. rstart r < rend r \<and> has_lines fs (LogName (rstart r) (rend r)) r) \<and>
     (\<forall>x. covers L P x \<le> 1) \<and>
     (\<forall>k. hm_get fs (PartName k) \<noteq> None \<longrightarrow> (\<exists>l\<in>#L. \<not> lf_finished l \<and> lf_from l = k)) \<and>
     mset C = image_mset lf_from (filter_mset lf_finished L)"

lemma range_list_snoc:
  assumes "a < b" and "b < c"
  shows "range_list (Range a (b + 1)) = range_list (Range a b) @ [b]"
proof -
  have "unat a < unat b" "unat (b + 1) = Suc (unat b)"
    using assms unat_succ [of b c] by (auto simp: word_less_nat_alt)
  then show ?thesis by (simp add: range_list_def)
qed

lemma io_ok_no_faults [simp]: "w_faults w = [] \<Longrightarrow> io_ok w = (True, w)"
  by (simp add: io_ok_def)

lemma covers_simps [simp]:
  "covers (add_mset l L) P x = covers L P x + (if range_contains (lf_range l) x then 1 else 0)"
  "covers L (add_mset r P) x = covers L P x + (if range_contains r x then 1 else 0)"
  by (simp_all add: covers_def)

lemma covers_zero: "covers L P x = 0 \<longleftrightarrow>
    (\<forall>l\<in>#L. \<not> range_contains (lf_range l) x) \<and> (\<forall>r\<in>#P. \<not> range_contains r x)"
  by (auto simp: covers_def simp flip: set_mset_eq_empty_iff)

lemma start_contained: "rstart r < rend r \<Longrightarrow> range_contains r (rstart r)"
  by (simp add: range_contains_def)

lemma starts_unique:
  assumes "files_inv (add_mset l L) P C fs"
  shows "l' \<in># L \<Longrightarrow> lf_from l' \<noteq> lf_from l" and "r \<in># P \<Longrightarrow> rstart r \<noteq> lf_from l"
proof -
  have "lf_from l < lf_to l" "covers (add_mset l L) P (lf_from l) \<le> 1"
    using assms by (auto simp: files_inv_def)
  then have "covers L P (lf_from l) = 0" by (auto simp: range_contains_def)
  then have none: "\<And>l'. l' \<in># L \<Longrightarrow> \<not> range_contains (lf_range l') (lf_from l)"
    "\<And>r. r \<in># P \<Longrightarrow> \<not> range_contains r (lf_from l)"
    by (auto simp: covers_zero)
  show "l' \<in># L \<Longrightarrow> lf_from l' \<noteq> lf_from l"
    using none(1) [of l'] assms by (auto simp: files_inv_def range_contains_def)
  show "r \<in># P \<Longrightarrow> rstart r \<noteq> lf_from l"
    using none(2) [of r] assms by (auto simp: files_inv_def range_contains_def)
qed

lemma finish_log_file_ok:
  assumes inv: "files_inv (add_mset l L) P C (w_fs w)" and nf: "\<not> lf_finished l" and w: "w_faults w = []"
  shows "\<exists>w'. finish_log_file l w = (Inr (), l\<lparr>lf_finished := True\<rparr>, w') \<and> w_faults w' = [] \<and>
    w_sync_rows w' = w_sync_rows w \<and>
    files_inv (add_mset (l\<lparr>lf_finished := True\<rparr>) L) P (C @ [lf_from l]) (w_fs w')"
proof -
  let ?n = "LogName (lf_from l) (lf_to l)" and ?p = "PartName (lf_from l)"
  obtain ls where ls: "hm_get (w_fs w) ?p = Some ls" "map line_index ls = map Some (range_list (lf_range l))"
    and fn: "lf_filename l = ?p" and lt: "lf_from l < lf_to l"
    using inv nf by (auto simp: files_inv_def has_lines_def file_of_def)
  let ?fs = "hm_insert ?n ls (hm_remove ?p (w_fs w))"
  have run: "finish_log_file l w = (Inr (), l\<lparr>lf_finished := True\<rparr>, w\<lparr>w_fs := ?fs\<rparr>)"
    using w ls fn by (simp add: finish_log_file_def log_finish_def Let_def)
  note uniq = starts_unique [OF inv]
  have other: "has_lines ?fs (file_of l') (lf_range l')" if "l' \<in># L" for l'
    using uniq(1) [OF that] inv that by (auto simp: files_inv_def has_lines_def file_of_def)
  have proc: "has_lines ?fs (LogName (rstart r) (rend r)) r" if "r \<in># P" for r
    using uniq(2) [OF that] inv that by (auto simp: files_inv_def has_lines_def)
  have "has_lines ?fs (file_of (l\<lparr>lf_finished := True\<rparr>)) (lf_range l)"
    using ls by (simp add: has_lines_def file_of_def)
  moreover have "\<exists>l'\<in>#L. \<not> lf_finished l' \<and> lf_from l' = k" if "hm_get ?fs (PartName k) \<noteq> None" for k
    using inv that by (fastforce simp: files_inv_def split: if_splits)
  ultimately have "files_inv (add_mset (l\<lparr>lf_finished := True\<rparr>) L) P (C @ [lf_from l]) ?fs"
    using inv nf other proc by (auto simp: files_inv_def)
  with run w show ?thesis by simp
qed


lemma files_inv_upper:
  "files_inv (add_mset (l\<lparr>lf_upper := u\<rparr>) L) P C fs \<longleftrightarrow> files_inv (add_mset l L) P C fs"
  by (simp add: files_inv_def file_of_def)

lemma finish_adds_nothing:
  "covers (add_mset (l\<lparr>lf_finished := b\<rparr>) L) P x = covers (add_mset l L) P x"
  by simp

lemma append_line_ok:
  assumes inv: "files_inv (add_mset l L) P C (w_fs w)" and nf: "\<not> lf_finished l" and w: "w_faults w = []"
    and mi: "lf_to l = ms_index md" and fresh: "covers (add_mset l L) P (ms_index md) = 0"
    and hi: "ms_index md < u32_max"
  shows "\<exists>w'. arch_append line_len l md (ms_index md) w =
      (Inr (), l\<lparr>lf_to := lf_to l + 1, lf_len := lf_len l + line_len md\<rparr>, w') \<and>
    w_faults w' = [] \<and>
    w_sync_rows w' = w_sync_rows w @ [\<lparr>milestone_index = ms_index md, synced_by = None, logged_by = Some 0\<rparr>] \<and>
    files_inv (add_mset (l\<lparr>lf_to := lf_to l + 1, lf_len := lf_len l + line_len md\<rparr>) L) P C (w_fs w')"
    (is "\<exists>w'. _ = (Inr (), ?l, w') \<and> _")
proof -
  let ?p = "PartName (lf_from l)"
  obtain ls where ls: "hm_get (w_fs w) ?p = Some ls" "map line_index ls = map Some (range_list (lf_range l))"
    and fn: "lf_filename l = ?p" and lt: "lf_from l < lf_to l"
    using inv nf by (auto simp: files_inv_def has_lines_def file_of_def)
  let ?fs = "hm_insert ?p (ls @ [Line md]) (w_fs w)"
  note uniq = starts_unique [OF inv]
  have snoc: "range_list (Range (lf_from l) (lf_to l + 1)) = range_list (lf_range l) @ [ms_index md]"
    using lt hi mi by (simp add: range_list_snoc)
  have other: "has_lines ?fs (file_of l') (lf_range l')" if "l' \<in># L" for l'
    using uniq(1) [OF that] inv that by (auto simp: files_inv_def has_lines_def file_of_def)
  have "has_lines ?fs (LogName (rstart r) (rend r)) r" if "r \<in># P" for r
    using inv that by (auto simp: files_inv_def has_lines_def)
  moreover have "has_lines ?fs (file_of ?l) (lf_range ?l)"
    using ls nf snoc by (simp add: has_lines_def file_of_def)
  moreover have "lf_from l < lf_to l + 1"
    using lt hi mi by (simp add: word_less_succ_iff)
  moreover have "covers (add_mset ?l L) P x = covers (add_mset l L) P x + (if x = ms_index md then 1 else 0)" for x
    using lt hi mi fresh by (auto simp: range_contains_def word_less_succ_iff)
  then have "covers (add_mset ?l L) P x \<le> 1" for x
    using fresh inv by (auto simp: files_inv_def)
  moreover have "\<exists>l'\<in>#add_mset ?l L. \<not> lf_finished l' \<and> lf_from l' = k" if "hm_get ?fs (PartName k) \<noteq> None" for k
  proof (cases "k = lf_from l")
    case False
    then have "\<exists>l'\<in>#add_mset l L. \<not> lf_finished l' \<and> lf_from l' = k"
      using inv that by (auto simp: files_inv_def)
    with False show ?thesis by auto
  qed (use nf in auto)
  ultimately have "files_inv (add_mset ?l L) P C ?fs"
    using inv other fn nf by (simp add: files_inv_def)
  then show ?thesis
    using w fn ls by (simp add: arch_append_def append_line_def file_lines_def)
qed


lemma create_ok:
  assumes inv: "files_inv L P C (w_fs w)" and w: "w_faults w = []"
    and fresh: "covers L P (ms_index md) = 0" and hi: "ms_index md < u32_max"
  shows "\<exists>lf w1 w2. log_create (ms_index md) u w = (Inr lf, w1) \<and>
    arch_append line_len lf md (ms_index md) w1 =
      (Inr (), lf\<lparr>lf_to := ms_index md + 1, lf_len := lf_len lf + line_len md\<rparr>, w2) \<and>
    w_faults w2 = [] \<and> lf_from lf = ms_index md \<and> \<not> lf_finished lf \<and>
    w_sync_rows w2 = w_sync_rows w @ [\<lparr>milestone_index = ms_index md, synced_by = None, logged_by = Some 0\<rparr>] \<and>
    files_inv (add_mset (lf\<lparr>lf_to := ms_index md + 1, lf_len := lf_len lf + line_len md\<rparr>) L) P C (w_fs w2)"
proof -
  let ?mi = "ms_index md" and ?p = "PartName (ms_index md)"
  let ?lf = "\<lparr>lf_len = 0, lf_filename = ?p, lf_from = ?mi, lf_to = ?mi,
    lf_upper = (case u of None \<Rightarrow> u32_max | Some u \<Rightarrow> u), lf_corrupted = False, lf_finished = False\<rparr>"
  let ?l = "?lf\<lparr>lf_to := ?mi + 1, lf_len := lf_len ?lf + line_len md\<rparr>"
  have none: "hm_get (w_fs w) ?p = None"
  proof (rule ccontr)
    assume "hm_get (w_fs w) ?p \<noteq> None"
    then obtain l where "l \<in># L" "lf_from l = ?mi" using inv unfolding files_inv_def by blast
    moreover have "range_contains (lf_range l) (lf_from l)"
      using inv \<open>l \<in># L\<close> by (simp add: files_inv_def range_contains_def)
    ultimately show False using fresh by (auto simp: covers_zero)
  qed
  let ?w1 = "w\<lparr>w_fs := hm_or_insert ?p [] (w_fs w)\<rparr>"
  let ?fs = "hm_insert ?p [Line md] (hm_or_insert ?p [] (w_fs w))"
  let ?w2 = "w\<lparr>w_fs := ?fs, w_sync_rows := w_sync_rows w @
     [\<lparr>milestone_index = ?mi, synced_by = None, logged_by = Some 0\<rparr>]\<rparr>"
  have c: "log_create ?mi u w = (Inr ?lf, ?w1)" using w by (simp add: log_create_def)
  have a: "arch_append line_len ?lf md ?mi ?w1 = (Inr (), ?l, ?w2)"
    using w none by (simp add: arch_append_def append_line_def file_lines_def)
  have get: "hm_get ?fs n = (if n = ?p then Some [Line md] else hm_get (w_fs w) n)" for n
    by (simp add: hm_or_insert_def)
  have keep: "has_lines ?fs n r" if "has_lines (w_fs w) n r" for n r
    using that none by (auto simp: has_lines_def get)
  have lt: "?mi < ?mi + 1" using hi by (simp add: word_less_succ)
  then have "range_list (Range ?mi (?mi + 1)) = [?mi]"
    by (subst range_list_Cons) (simp_all add: range_list_Nil)
  then have new: "has_lines ?fs (file_of ?l) (lf_range ?l)"
    by (simp add: has_lines_def get file_of_def)
  have cov: "covers (add_mset ?l L) P x = covers L P x + (if x = ?mi then 1 else 0)" for x
    using hi by (auto simp: range_contains_def word_less_succ_iff)
  then have "covers (add_mset ?l L) P x \<le> 1" for x
    using fresh inv by (auto simp: files_inv_def)
  then have "files_inv (add_mset ?l L) P C ?fs"
    using inv keep new lt unfolding files_inv_def by (auto simp: get split: if_splits)
  then show ?thesis using c a w by (intro exI [of _ ?lf] exI [of _ ?w1] exI [of _ ?w2]) simp
qed

lemma process_ok:
  assumes "files_inv (add_mset l L) P C fs" and "lf_finished l" and "mset C = add_mset (lf_from l) (mset C')"
  shows "files_inv L (add_mset (lf_range l) P) C' fs"
  using assms by (auto simp: files_inv_def file_of_def)

lemma files_inv_mset: "mset C = mset C' \<Longrightarrow> files_inv L P C fs \<longleftrightarrow> files_inv L P C' fs"
  by (simp add: files_inv_def)

lemma find_index_Some: "find_index Q xs = Some i \<Longrightarrow> i < length xs \<and> Q (xs ! i)"
  by (induction xs arbitrary: i) (auto split: if_splits)

lemma find_index_None: "find_index Q xs = None \<longleftrightarrow> (\<forall>x\<in>set xs. \<not> Q x)"
  by (induction xs) auto

lemma mset_remove_nth: "i < length xs \<Longrightarrow> mset xs = add_mset (xs ! i) (mset (remove_nth i xs))"
  by (metis id_take_nth_drop mset.simps(2) mset_append remove_nth_def union_mset_add_mset_right)

lemma mset_list_update: "i < length xs \<Longrightarrow> mset (xs[i := y]) = add_mset y (mset (remove_nth i xs))"
  using mset_remove_nth [of i xs] by (simp add: mset_update)

lemma mset_push_to_processed [simp]:
  "mset (processed (push_to_processed l st)) = add_mset (lf_range l) (mset (processed st))"
  "logs (push_to_processed l st) = logs st" "cleanup (push_to_processed l st) = cleanup st"
  "ar_heap (push_to_processed l st) = ar_heap st" "next_ms (push_to_processed l st) = next_ms st"
  "max_log_size (push_to_processed l st) = max_log_size st"
  "solidifiers_count (push_to_processed l st) = solidifiers_count st"
  by (simp_all add: push_to_processed_def)

lemma trim_logs_ok:
  assumes "files_inv (mset ls + L) P C (w_fs w)" and "w_faults w = []"
  shows "\<exists>ls' C' w'. trim_logs pf ls C w = (Inr (), ls', C', w') \<and> w_faults w' = [] \<and>
    w_sync_rows w' = w_sync_rows w \<and> files_inv (mset ls' + L) P C' (w_fs w') \<and>
    map lf_range ls' = map lf_range ls"
  using assms
proof (induction ls arbitrary: pf L C w)
  case (Cons l ls)
  define k where "k = (if pf < lf_upper l then l\<lparr>lf_upper := pf\<rparr> else l)"
  have k: "lf_range k = lf_range l" "lf_from k = lf_from l"
    by (simp_all add: k_def)
  have inv: "files_inv (add_mset k (mset ls + L)) P C (w_fs w)"
    using Cons.prems(1) by (simp add: k_def files_inv_upper)
  show ?case
  proof (cases "lf_upper k = lf_to k \<and> \<not> lf_finished k")
    case True
    then obtain w1 where f: "finish_log_file k w = (Inr (), k\<lparr>lf_finished := True\<rparr>, w1)"
      "w_faults w1 = []" "w_sync_rows w1 = w_sync_rows w"
      "files_inv (add_mset (k\<lparr>lf_finished := True\<rparr>) (mset ls + L)) P (C @ [lf_from k]) (w_fs w1)"
      using finish_log_file_ok [OF inv _ Cons.prems(2)] by blast
    then show ?thesis
      using Cons.IH [of "add_mset (k\<lparr>lf_finished := True\<rparr>) L" "C @ [lf_from k]" w1 "lf_from k"] True k
      by (auto simp: k_def [symmetric] Let_def)
  next
    case False
    then show ?thesis
      using Cons.IH [of "add_mset k L" C w "lf_from k"] inv Cons.prems(2) k
      by (auto simp: k_def [symmetric] Let_def)
  qed
qed simp

definition same_frame :: "archiver \<Rightarrow> archiver \<Rightarrow> bool" where
  "same_frame st st' \<longleftrightarrow> ar_heap st' = ar_heap st \<and> next_ms st' = next_ms st \<and>
     max_log_size st' = max_log_size st \<and> solidifiers_count st' = solidifiers_count st"

lemma remove_finished_ok:
  assumes "files_inv (mset (logs st)) (mset (processed st)) C fs"
  shows "\<exists>st'. remove_finished C st = (Inr (), st') \<and> cleanup st' = [] \<and> same_frame st st' \<and>
    files_inv (mset (logs st')) (mset (processed st')) [] fs \<and>
    covers (mset (logs st')) (mset (processed st')) = covers (mset (logs st)) (mset (processed st))"
  using assms
proof (induction C arbitrary: st)
  case Nil
  then show ?case by (simp add: same_frame_def)
next
  case (Cons c C)
  let ?L = "mset (logs st)" and ?P = "mset (processed st)"
  have "c \<in># image_mset lf_from (filter_mset lf_finished ?L)"
    using Cons.prems unfolding files_inv_def by (metis list.set_intros(1) set_mset_mset)
  then obtain l where l: "l \<in> set (logs st)" "lf_finished l" "lf_from l = c" by auto
  then obtain i where i: "find_index (\<lambda>l. lf_from l = c) (logs st) = Some i"
    using find_index_None [of "\<lambda>l. lf_from l = c" "logs st"] by (cases "find_index (\<lambda>l. lf_from l = c) (logs st)") auto
  let ?k = "logs st ! i" and ?rest = "remove_nth i (logs st)"
  have ik: "i < length (logs st)" "lf_from ?k = c" using find_index_Some [OF i] by auto
  have split: "?L = add_mset ?k (mset ?rest)" by (rule mset_remove_nth [OF ik(1)])
  have inv: "files_inv (add_mset ?k (mset ?rest)) ?P (c # C) fs" using Cons.prems split by simp
  have "l \<in># add_mset ?k (mset ?rest)" using l(1) split by (metis set_mset_mset)
  then have "l = ?k"
    using starts_unique(1) [OF inv, of l] l(3) ik(2) by auto
  then have fin: "lf_finished ?k" using l by simp
  let ?st = "push_to_processed ?k (st\<lparr>logs := ?rest\<rparr>)"
  have "files_inv (mset (logs ?st)) (mset (processed ?st)) C fs"
    using process_ok [OF inv fin, of C] ik(2) by simp
  from Cons.IH [OF this] show ?case
    using i split by (auto simp: same_frame_def fun_eq_iff)
qed


section \<open>Handling one milestone\<close>

abbreviation arch_covers :: "archiver \<Rightarrow> u32 \<Rightarrow> nat" where
  "arch_covers st \<equiv> covers (mset (logs st)) (mset (processed st))"

abbreviation arch_files :: "archiver \<Rightarrow> world \<Rightarrow> bool" where
  "arch_files st w \<equiv> files_inv (mset (logs st)) (mset (processed st)) (cleanup st) (w_fs w)"

text \<open>Between two events nothing waits for cleanup.\<close>

definition arch_ok :: "archiver \<Rightarrow> world \<Rightarrow> bool" where
  "arch_ok st w \<longleftrightarrow> arch_files st w \<and> cleanup st = [] \<and> w_faults w = []"

lemma arch_okD:
  assumes "arch_ok st w"
  shows "arch_files st w" and "files_inv (mset (logs st)) (mset (processed st)) [] (w_fs w)"
    and "cleanup st = []" and "w_faults w = []"
  using assms unfolding arch_ok_def by (simp_all only:) auto

lemma arch_ok_iff:
  "arch_ok st w \<longleftrightarrow> files_inv (mset (logs st)) (mset (processed st)) [] (w_fs w) \<and>
     cleanup st = [] \<and> w_faults w = []"
  unfolding arch_ok_def by metis

abbreviation sync_row :: "u32 \<Rightarrow> sync_record" where
  "sync_row mi \<equiv> \<lparr>milestone_index = mi, synced_by = None, logged_by = Some 0\<rparr>"

text \<open>The outcome of a step that archives the milestones of \<open>new\<close>, once each.\<close>

definition archived :: "u32 list \<Rightarrow> archiver \<Rightarrow> world \<Rightarrow> archiver \<Rightarrow> world \<Rightarrow> bool" where
  "archived new st w st' w' \<longleftrightarrow>
     arch_files st' w' \<and> w_faults w' = [] \<and> same_frame st st' \<and>
     w_sync_rows w' = w_sync_rows w @ map sync_row new \<and>
     (\<forall>x. arch_covers st' x = arch_covers st x + count_list new x)"

lemma same_frame_refl [simp]: "same_frame st st"
  by (simp add: same_frame_def)

lemma same_frame_trans: "same_frame a b \<Longrightarrow> same_frame b c \<Longrightarrow> same_frame a c"
  by (simp add: same_frame_def)

lemma archived_trans:
  assumes "archived xs st w st1 w1" and "archived ys st1 w1 st2 w2"
  shows "archived (xs @ ys) st w st2 w2"
  using assms by (auto simp: archived_def dest: same_frame_trans)

lemma cleanup_ok:
  assumes "archived new st w st1 w1"
  shows "\<exists>st2. run_cleanup st1 w1 = (Inr (), st2, w1) \<and> archived new st w st2 w1 \<and> cleanup st2 = []"
proof -
  have "files_inv (mset (logs st1)) (mset (processed st1)) (rev (cleanup st1)) (w_fs w1)"
    using assms files_inv_mset [of "rev (cleanup st1)" "cleanup st1"] by (simp add: archived_def)
  from remove_finished_ok [OF this] obtain st2
    where "remove_finished (rev (cleanup st1)) st1 = (Inr (), st2)" "cleanup st2 = []" "same_frame st1 st2"
      "files_inv (mset (logs st2)) (mset (processed st2)) [] (w_fs w1)" "arch_covers st2 = arch_covers st1"
    by blast
  then show ?thesis
    using assms by (auto simp: run_cleanup_def archived_def dest: same_frame_trans)
qed

lemma unfinished:
  assumes "arch_ok st w" and "l \<in> set (logs st)"
  shows "\<not> lf_finished l"
  using assms by (auto simp: arch_ok_def files_inv_def filter_mset_eq_conv)

lemma finish_at_ok:
  assumes inv: "arch_files st w" and w: "w_faults w = []" and i: "i < length (logs st)"
    and nf: "\<not> lf_finished (logs st ! i)"
  shows "\<exists>st' w'. finish_at i st w = (Inr (), st', w') \<and> archived [] st w st' w'"
proof -
  note split = mset_remove_nth [OF i]
  have "files_inv (add_mset (logs st ! i) (mset (remove_nth i (logs st)))) (mset (processed st)) (cleanup st) (w_fs w)"
    using inv split by simp
  from finish_log_file_ok [OF this nf w] obtain w' where
    "finish_log_file (logs st ! i) w = (Inr (), (logs st ! i)\<lparr>lf_finished := True\<rparr>, w')"
    "w_faults w' = []" "w_sync_rows w' = w_sync_rows w"
    "files_inv (add_mset ((logs st ! i)\<lparr>lf_finished := True\<rparr>) (mset (remove_nth i (logs st))))
       (mset (processed st)) (cleanup st @ [lf_from (logs st ! i)]) (w_fs w')"
    by blast
  then show ?thesis
    using i by (auto simp: finish_at_def archived_def same_frame_def mset_list_update split)
qed

lemma create_and_append_ok:
  assumes inv: "arch_files st w" and w: "w_faults w = []"
    and fresh: "arch_covers st (ms_index md) = 0" and hi: "ms_index md < u32_max"
  shows "\<exists>st' w'. create_and_append line_len (ms_index md) md u st w = (Inr (), st', w') \<and>
    archived [ms_index md] st w st' w'"
proof -
  let ?mi = "ms_index md"
  obtain lf0 w1 w2 where c: "log_create ?mi u w = (Inr lf0, w1)"
    and a: "arch_append line_len lf0 md ?mi w1 =
      (Inr (), lf0\<lparr>lf_to := ?mi + 1, lf_len := lf_len lf0 + line_len md\<rparr>, w2)"
    and w2: "w_faults w2 = []" "w_sync_rows w2 = w_sync_rows w @ [sync_row ?mi]"
    and lf0: "lf_from lf0 = ?mi" "\<not> lf_finished lf0"
    and inv2: "files_inv (add_mset (lf0\<lparr>lf_to := ?mi + 1, lf_len := lf_len lf0 + line_len md\<rparr>)
      (mset (logs st))) (mset (processed st)) (cleanup st) (w_fs w2)"
    using create_ok [OF inv w fresh hi] by blast
  define lf where "lf = lf0\<lparr>lf_to := ?mi + 1, lf_len := lf_len lf0 + line_len md\<rparr>"
  have lf: "lf_from lf = ?mi" "lf_to lf = ?mi + 1" "\<not> lf_finished lf"
    using lf0 by (simp_all add: lf_def)
  note inv2 = inv2 [folded lf_def]
  have cov: "covers (add_mset lf (mset (logs st))) P x = covers (mset (logs st)) P x + (if x = ?mi then 1 else 0)" for P x
    using hi lf by (auto simp: range_contains_def word_less_succ_iff)
  show ?thesis
  proof (cases "lf_upper lf = lf_to lf")
    case True
    obtain w3 where f: "finish_log_file lf w2 = (Inr (), lf\<lparr>lf_finished := True\<rparr>, w3)"
      "w_faults w3 = []" "w_sync_rows w3 = w_sync_rows w2"
      "files_inv (add_mset (lf\<lparr>lf_finished := True\<rparr>) (mset (logs st))) (mset (processed st))
        (cleanup st @ [lf_from lf]) (w_fs w3)"
      using finish_log_file_ok [OF inv2 lf(3) w2(1)] by blast
    have "files_inv (mset (logs st)) (add_mset (lf_range lf) (mset (processed st))) (cleanup st) (w_fs w3)"
      using process_ok [OF f(4), of "cleanup st"] by simp
    then show ?thesis
      using c a True f w2 cov [of "{#}"] lf hi
      by (auto simp: create_and_append_def lf_def [symmetric] archived_def same_frame_def
          range_contains_def word_less_succ_iff)
  next
    case False
    let ?st = "st\<lparr>logs := sort_key lf_from (logs st @ [lf])\<rparr>"
    have ne: "rev (logs ?st) \<noteq> []" by (metis Nil_is_rev_conv archiver.select_convs(1) archiver.surjective archiver.update_convs(1) length_0_conv length_sort snoc_eq_iff_butlast)
    then obtain prev ls where r: "rev (logs ?st) = prev # ls" by (cases "rev (logs ?st)") auto
    have m: "add_mset lf (mset (logs st)) = add_mset prev (mset ls)"
      by (metis archiver.select_convs(1) archiver.surjective archiver.update_convs(1) mset.simps(2) mset_append mset_rev mset_sort r union_mset_add_mset_right mset.simps(1) add.right_neutral)
    obtain ls' C' w3 where t: "trim_logs (lf_from prev) ls (cleanup st) w2 = (Inr (), ls', C', w3)"
      "w_faults w3 = []" "w_sync_rows w3 = w_sync_rows w2"
      "files_inv (mset ls' + {#prev#}) (mset (processed st)) C' (w_fs w3)" "map lf_range ls' = map lf_range ls"
      using trim_logs_ok [of ls "{#prev#}" "mset (processed st)" "cleanup st" w2 "lf_from prev"] inv2 w2(1) m by auto
    have "covers (add_mset prev (mset ls')) P x = covers (add_mset prev (mset ls)) P x" for P x
      using t(5) by (simp add: covers_def flip: mset_map)
    then have "covers (add_mset prev (mset ls')) P x = covers (mset (logs st)) P x + (if x = ?mi then 1 else 0)" for P x
      using cov m by metis
    then show ?thesis
      using c a False r t w2 by (auto simp: create_and_append_def lf_def [symmetric] archived_def same_frame_def trim_uppers_def)
  qed
qed


lemma handle_ok:
  assumes ok: "arch_ok st w" and fresh: "arch_covers st (ms_index md) = 0" and hi: "ms_index md < u32_max"
  shows "\<exists>st' w'. handle_milestone_data line_len md u st w = (Inr (), st', w') \<and>
    archived [ms_index md] st w st' w' \<and> cleanup st' = []"
proof -
  let ?mi = "ms_index md"
  note inv = arch_okD(1) [OF ok] and w = arch_okD(4) [OF ok]
  have np: "\<not> is_processed st ?mi" using fresh by (auto simp: is_processed_def covers_zero)
  have steps: "\<exists>st' w'. then_run s run_cleanup = (Inr (), st', w') \<and> archived [?mi] st w st' w' \<and> cleanup st' = []"
    if "\<exists>st1 w1. s = (Inr (), st1, w1) \<and> archived [?mi] st w st1 w1" for s
    using that cleanup_ok by (fastforce simp: then_run_def)
  show ?thesis
  proof (cases "find_index (\<lambda>l. lf_to l = ?mi \<and> ?mi < lf_upper l) (logs st)")
    case None
    then show ?thesis
      unfolding handle_milestone_data_def Let_def using np create_and_append_ok [OF inv w fresh hi]
      by (simp, intro steps)
  next
    case (Some i)
    let ?l = "logs st ! i"
    have i: "i < length (logs st)" "lf_to ?l = ?mi" using find_index_Some [OF Some] by auto
    have nf: "\<not> lf_finished ?l" using unfinished [OF ok] i(1) by simp
    show ?thesis
    proof (cases "line_len md + lf_len ?l < max_log_size st")
      case True
      let ?l' = "?l\<lparr>lf_to := lf_to ?l + 1, lf_len := lf_len ?l + line_len md\<rparr>"
      let ?st = "st\<lparr>logs := (logs st)[i := ?l']\<rparr>"
      note split = mset_remove_nth [OF i(1)]
      obtain w1 where a: "arch_append line_len ?l md ?mi w = (Inr (), ?l', w1)" "w_faults w1 = []"
        "w_sync_rows w1 = w_sync_rows w @ [sync_row ?mi]"
        "files_inv (add_mset ?l' (mset (remove_nth i (logs st)))) (mset (processed st)) (cleanup st) (w_fs w1)"
        using append_line_ok [of ?l "mset (remove_nth i (logs st))" "mset (processed st)" "cleanup st" w md line_len]
          inv nf w i(2) fresh hi split by auto
      have lt: "lf_from ?l < ?mi"
        using inv i nth_mem [OF i(1)] unfolding files_inv_def by (metis set_mset_mset)
      have "covers (mset (logs ?st)) P x = covers (mset (logs st)) P x + count_list [?mi] x" for P x
        using i hi lt by (auto simp: mset_list_update split range_contains_def word_less_succ_iff)
      then have arch: "archived [?mi] st w ?st w1"
        using a i(1) by (simp add: archived_def same_frame_def mset_list_update)
      have "\<exists>st1 w2. (if lf_upper ?l' = lf_to ?l' then finish_at i ?st w1 else (Inr (), ?st, w1)) = (Inr (), st1, w2) \<and>
          archived [?mi] st w st1 w2"
      proof (cases "lf_upper ?l' = lf_to ?l'")
        case True
        obtain st1 w2 where "finish_at i ?st w1 = (Inr (), st1, w2)" "archived [] ?st w1 st1 w2"
          using finish_at_ok [of ?st w1 i] arch a(2) i(1) nf by (auto simp: archived_def)
        then show ?thesis using True archived_trans [OF arch] by fastforce
      qed (use arch in auto)
      from steps [OF this] show ?thesis
        using Some True a by (simp add: handle_milestone_data_def Let_def then_run_def)
    next
      case False
      obtain st1 w1 where f: "finish_at i st w = (Inr (), st1, w1)" "archived [] st w st1 w1"
        using finish_at_ok [OF inv w i(1) nf] by auto
      then have fresh1: "arch_covers st1 ?mi = 0" using fresh by (simp add: archived_def)
      then have np1: "\<not> is_processed st1 ?mi" by (auto simp: is_processed_def covers_zero)
      obtain st2 w2 where "create_and_append line_len ?mi md (Some (lf_upper ?l)) st1 w1 = (Inr (), st2, w2)"
        "archived [?mi] st1 w1 st2 w2"
        using create_and_append_ok [OF _ _ fresh1 hi, of w1 line_len "Some (lf_upper ?l)"] f(2)
        unfolding archived_def by blast
      then have "\<exists>st' w'. then_run (finish_at i st w) (\<lambda>st w. if is_processed st ?mi then (Inr (), st, w)
          else create_and_append line_len ?mi md (Some (lf_upper ?l)) st w) = (Inr (), st', w') \<and>
          archived [?mi] st w st' w'"
        using f np1 archived_trans [OF f(2)] by (fastforce simp: then_run_def)
      from steps [OF this] show ?thesis
        using Some False by (simp add: handle_milestone_data_def Let_def)
    qed
  qed
qed

lemma close_ok:
  assumes ok: "arch_ok st w"
  shows "\<exists>st' w'. close_log_file mi st w = (Inr (), st', w') \<and> archived [] st w st' w' \<and> cleanup st' = []"
proof (cases "find_index (\<lambda>l. lf_to l = mi) (logs st)")
  case None
  then show ?thesis using arch_okD [OF ok] by (simp add: close_log_file_def archived_def)
next
  case (Some i)
  let ?l = "logs st ! i"
  have i: "i < length (logs st)" using find_index_Some [OF Some] by auto
  have nf: "\<not> lf_finished ?l" using unfinished [OF ok] i by simp
  note split = mset_remove_nth [OF i]
  have "files_inv (add_mset ?l (mset (remove_nth i (logs st)))) (mset (processed st)) [] (w_fs w)"
    using arch_okD(2) [OF ok] split by simp
  from finish_log_file_ok [OF this nf arch_okD(4) [OF ok]] obtain w1 where
    f: "finish_log_file ?l w = (Inr (), ?l\<lparr>lf_finished := True\<rparr>, w1)" "w_faults w1 = []" "w_sync_rows w1 = w_sync_rows w"
    "files_inv (add_mset (?l\<lparr>lf_finished := True\<rparr>) (mset (remove_nth i (logs st)))) (mset (processed st))
       ([] @ [lf_from ?l]) (w_fs w1)"
    by blast
  have "files_inv (mset (remove_nth i (logs st))) (add_mset (lf_range ?l) (mset (processed st))) [] (w_fs w1)"
    using process_ok [OF f(4), of "[]"] by simp
  then show ?thesis
    using Some f arch_okD(3) [OF ok] split by (auto simp: close_log_file_def archived_def same_frame_def)
qed


section \<open>Handling events\<close>

text \<open>Everything archived lies below the next incoming milestone.\<close>

definition arch_inv :: "archiver \<Rightarrow> world \<Rightarrow> bool" where
  "arch_inv st w \<longleftrightarrow> arch_ok st w \<and> (\<forall>x. arch_covers st x > 0 \<longrightarrow> x < next_ms st) \<and>
     (\<forall>md\<in>set (ar_heap st). ms_index md < u32_max)"

definition adds :: "u32 list \<Rightarrow> archiver \<Rightarrow> world \<Rightarrow> archiver \<Rightarrow> world \<Rightarrow> bool" where
  "adds new st w st' w' \<longleftrightarrow>
     arch_inv st' w' \<and> w_sync_rows w' = w_sync_rows w @ map sync_row new \<and>
     (\<forall>x. arch_covers st' x = arch_covers st x + count_list new x) \<and> next_ms st \<le> next_ms st'"

lemma adds_trans:
  "adds xs st w st1 w1 \<Longrightarrow> adds ys st1 w1 st2 w2 \<Longrightarrow> adds (xs @ ys) st w st2 w2"
  by (auto simp: adds_def)

lemma adds_handle:
  assumes inv: "arch_inv st w" and h: "ms_index md < u32_max" and fresh: "arch_covers st (ms_index md) = 0"
    and nx: "next_ms st \<le> n" "ms_index md < n" and hp: "\<forall>md\<in>set hs. ms_index md < u32_max"
  shows "\<exists>st' w'. handle_milestone_data line_len md u st w = (Inr (), st', w') \<and>
    adds [ms_index md] st w (st'\<lparr>ar_heap := hs, next_ms := n\<rparr>) w' \<and>
    ar_heap st' = ar_heap st \<and> next_ms st' = next_ms st"
proof -
  obtain st' w' where r: "handle_milestone_data line_len md u st w = (Inr (), st', w')"
    and a: "archived [ms_index md] st w st' w'" "cleanup st' = []"
    using handle_ok [OF _ fresh h] inv unfolding arch_inv_def by blast
  have "arch_ok (st'\<lparr>ar_heap := hs, next_ms := n\<rparr>) w'"
    using a by (simp add: archived_def arch_ok_def)
  moreover have "x < n" if "arch_covers st' x > 0" for x
  proof (cases "x = ms_index md")
    case False
    then have "arch_covers st x > 0" using that a(1) by (auto simp: archived_def)
    then have "x < next_ms st" using inv by (simp add: arch_inv_def)
    then show ?thesis using nx(1) by (rule order_less_le_trans)
  qed (use nx in simp)
  ultimately show ?thesis
    using r a nx hp by (auto simp: adds_def arch_inv_def archived_def same_frame_def)
qed

lemma adds_close:
  assumes inv: "arch_inv st w"
  shows "\<exists>st' w'. close_log_file mi st w = (Inr (), st', w') \<and> adds [] st w st' w' \<and>
    ar_heap st' = ar_heap st \<and> next_ms st' = next_ms st"
proof -
  obtain st' w' where r: "close_log_file mi st w = (Inr (), st', w')"
    and a: "archived [] st w st' w'" "cleanup st' = []"
    using close_ok inv unfolding arch_inv_def by blast
  then have "arch_ok st' w'" by (simp add: archived_def arch_ok_def)
  then show ?thesis using r a inv by (auto simp: adds_def arch_inv_def archived_def same_frame_def)
qed

lemma fresh_next: "arch_inv st w \<Longrightarrow> next_ms st \<le> mi \<Longrightarrow> arch_covers st mi = 0"
  by (metis arch_inv_def gr0I leD)

lemma arch_inv_heap:
  "arch_inv st w \<Longrightarrow> \<forall>md\<in>set hs. ms_index md < u32_max \<Longrightarrow> arch_inv (st\<lparr>ar_heap := hs\<rparr>) w"
  by (simp add: arch_inv_def arch_ok_iff)


lemma drain_cases:
  fixes st w line_len u
  shows "ar_heap st = [] \<Longrightarrow> drain_incoming line_len u st w = (Inr (), st, w)"
    and "asc_pop (ar_heap st) = Some (md, heap) \<Longrightarrow> next_ms st = ms_index md \<Longrightarrow>
      handle_milestone_data line_len md u (st\<lparr>ar_heap := heap\<rparr>) w = (Inr (), st2, w2) \<Longrightarrow>
      drain_incoming line_len u st w =
        drain_incoming line_len u (st2\<lparr>ar_heap := heap, next_ms := next_ms st + 1\<rparr>) w2"
    and "asc_pop (ar_heap st) = Some (md, heap) \<Longrightarrow> next_ms st < ms_index md \<Longrightarrow>
      unat (solidifiers_count st) < length heap \<Longrightarrow>
      close_log_file (next_ms st) (st\<lparr>ar_heap := heap\<rparr>) w = (Inr (), st2, w2) \<Longrightarrow>
      handle_milestone_data line_len md u st2 w2 = (Inr (), st3, w3) \<Longrightarrow>
      drain_incoming line_len u st w =
        drain_incoming line_len u (st3\<lparr>ar_heap := heap, next_ms := ms_index md + 1\<rparr>) w3"
    and "asc_pop (ar_heap st) = Some (md, heap) \<Longrightarrow> next_ms st < ms_index md \<Longrightarrow>
      \<not> unat (solidifiers_count st) < length heap \<Longrightarrow>
      drain_incoming line_len u st w = (Inr (), st\<lparr>ar_heap := heap_push md heap\<rparr>, w)"
    and "asc_pop (ar_heap st) = Some (md, heap) \<Longrightarrow> ms_index md < next_ms st \<Longrightarrow>
      drain_incoming line_len u st w = drain_incoming line_len u (st\<lparr>ar_heap := heap\<rparr>) w"
  by (auto simp: drain_incoming.simps [of line_len u st] Let_def)

text \<open>What the heap held from the next milestone on is archived now or still waits, for a later milestone.\<close>

definition drained :: "archiver \<Rightarrow> u32 list \<Rightarrow> archiver \<Rightarrow> bool" where
  "drained st new st' \<longleftrightarrow>
     (\<forall>x\<in>ms_index ` set (ar_heap st). x < next_ms st \<or> x \<in> set new \<or> x \<in> ms_index ` set (ar_heap st')) \<and>
     (\<forall>x\<in>ms_index ` set (ar_heap st'). next_ms st' < x)"

lemma drained_step:
  assumes "drained st1 new st'" and "ar_heap st1 = heap" and "next_ms st1 = ms_index md + 1"
    and "ms_index md < u32_max" and "set (ar_heap st) = insert md (set heap)" and "\<forall>m\<in>set heap. ms_index md \<le> ms_index m"
  shows "drained st (ms_index md # new) st'"
  using assms by (auto simp: drained_def word_less_succ_iff dest: order_antisym)

lemma drain_ok:
  assumes "arch_inv st w"
  shows "\<exists>new st' w'. drain_incoming line_len u st w = (Inr (), st', w') \<and> adds new st w st' w' \<and>
    sorted_wrt (<) new \<and> (\<forall>x\<in>set new. next_ms st \<le> x \<and> x < next_ms st' \<and> x \<in> ms_index ` set (ar_heap st)) \<and>
    drained st new st'"
  using assms
proof (induction "length (ar_heap st)" arbitrary: st w rule: less_induct)
  case (less st w)
  note inv = less.prems
  show ?case
  proof (cases "asc_pop (ar_heap st)")
    case None
    then show ?thesis
      using inv drain_cases(1) [of st line_len u w] by (auto simp: adds_def drained_def intro!: exI [of _ "[]"])
  next
    case (Some p)
    obtain md heap where p: "p = (md, heap)" by fastforce
    let ?mi = "ms_index md" and ?st1 = "st\<lparr>ar_heap := heap\<rparr>"
    have len: "length heap < length (ar_heap st)" using pop_min_length Some p by fastforce
    have least: "\<forall>m\<in>set heap. ?mi \<le> ms_index m" using pop_min_Some Some p by metis
    have hs: "set (ar_heap st) = insert md (set heap)" using pop_min_set Some p by metis
    then have hi: "?mi < u32_max" and hp: "\<forall>m\<in>set heap. ms_index m < u32_max"
      using inv by (auto simp: arch_inv_def)
    have inv1: "arch_inv ?st1 w" by (rule arch_inv_heap [OF inv hp])
    have nx: "next_ms st < next_ms st + 1" if "next_ms st = ?mi" using hi that by (simp add: word_less_succ)
    consider (eq) "next_ms st = ?mi" | (gap) "next_ms st < ?mi" "unat (solidifiers_count st) < length heap"
      | (wait) "next_ms st < ?mi" "\<not> unat (solidifiers_count st) < length heap" | (old) "?mi < next_ms st"
      by fastforce
    then show ?thesis
    proof cases
      case eq
      obtain st2 w2 where h: "handle_milestone_data line_len md u ?st1 w = (Inr (), st2, w2)"
        "adds [?mi] ?st1 w (st2\<lparr>ar_heap := heap, next_ms := next_ms st + 1\<rparr>) w2" "next_ms st2 = next_ms st"
        using adds_handle [OF inv1 hi _ _ _ hp, of "next_ms st + 1" line_len u] fresh_next [OF inv1, of ?mi] eq nx
        by (auto simp: order_less_imp_le)
      let ?st3 = "st2\<lparr>ar_heap := heap, next_ms := next_ms st + 1\<rparr>"
      have inv3: "arch_inv ?st3 w2" using h(2) by (simp add: adds_def)
      have ih: "\<exists>new st' w'. drain_incoming line_len u ?st3 w2 = (Inr (), st', w') \<and> adds new ?st3 w2 st' w' \<and>
        sorted_wrt (<) new \<and> (\<forall>x\<in>set new. next_ms ?st3 \<le> x \<and> x < next_ms st' \<and> x \<in> ms_index ` set heap) \<and>
        drained ?st3 new st'"
        using less.hyps [of ?st3 w2] len inv3 by simp
      then obtain new st' w' where r: "drain_incoming line_len u ?st3 w2 = (Inr (), st', w')" "adds new ?st3 w2 st' w'"
        "sorted_wrt (<) new" "\<forall>x\<in>set new. next_ms st + 1 \<le> x \<and> x < next_ms st' \<and> x \<in> ms_index ` set heap"
        "drained ?st3 new st'"
        by auto
      have dr: "drained st (?mi # new) st'" by (rule drained_step [OF r(5) _ _ hi hs least]) (simp_all add: eq)
      have "adds ([?mi] @ new) ?st1 w st' w'" by (rule adds_trans [OF h(2) r(2)])
      moreover have "next_ms st < next_ms st'"
        using nx [OF eq] r(2) by (auto simp: adds_def dest: order_less_le_trans)
      moreover have "\<forall>x\<in>set new. next_ms st < x" using r(4) nx [OF eq] by (auto dest: order_less_le_trans)
      ultimately show ?thesis
        using drain_cases(2) [OF Some [unfolded p] eq h(1)] eq r hs dr
        by (intro exI [of _ "?mi # new"] exI [of _ st'] exI [of _ w'])
           (auto simp: adds_def dest: order_less_imp_le)
    next
      case gap
      obtain st2 w2 where c: "close_log_file (next_ms st) ?st1 w = (Inr (), st2, w2)" "adds [] ?st1 w st2 w2"
        "next_ms st2 = next_ms st" "ar_heap st2 = heap"
        using adds_close [OF inv1, of "next_ms st"] by auto
      have inv2: "arch_inv st2 w2" using c(2) by (simp add: adds_def)
      have le: "next_ms st2 \<le> ?mi + 1" "?mi < ?mi + 1" "next_ms st < ?mi + 1"
        using gap(1) hi c(3) by (auto simp: word_less_succ word_less_succ_iff)
           (metis order_less_imp_le order_less_trans word_less_succ)+
      obtain st3 w3 where h: "handle_milestone_data line_len md u st2 w2 = (Inr (), st3, w3)"
        "adds [?mi] st2 w2 (st3\<lparr>ar_heap := heap, next_ms := ?mi + 1\<rparr>) w3"
        using adds_handle [OF inv2 hi _ le(1,2) hp, of line_len u] fresh_next [OF inv2, of ?mi] gap(1) c(3) by auto
      let ?st4 = "st3\<lparr>ar_heap := heap, next_ms := ?mi + 1\<rparr>"
      have inv4: "arch_inv ?st4 w3" using h(2) by (simp add: adds_def)
      have ih: "\<exists>new st' w'. drain_incoming line_len u ?st4 w3 = (Inr (), st', w') \<and> adds new ?st4 w3 st' w' \<and>
        sorted_wrt (<) new \<and> (\<forall>x\<in>set new. next_ms ?st4 \<le> x \<and> x < next_ms st' \<and> x \<in> ms_index ` set heap) \<and>
        drained ?st4 new st'"
        using less.hyps [of ?st4 w3] len inv4 by simp
      then obtain new st' w' where r: "drain_incoming line_len u ?st4 w3 = (Inr (), st', w')" "adds new ?st4 w3 st' w'"
        "sorted_wrt (<) new" "\<forall>x\<in>set new. ?mi + 1 \<le> x \<and> x < next_ms st' \<and> x \<in> ms_index ` set heap"
        "drained ?st4 new st'"
        by auto
      have dr: "drained st (?mi # new) st'" by (rule drained_step [OF r(5) _ _ hi hs least]) simp_all
      have "adds ([] @ [?mi] @ new) ?st1 w st' w'" by (rule adds_trans [OF c(2) adds_trans [OF h(2) r(2)]])
      moreover have "?mi < next_ms st'"
        using le(2) r(2) by (auto simp: adds_def dest: order_less_le_trans)
      moreover have "\<forall>x\<in>set new. ?mi < x" using r(4) le(2) by (auto dest: order_less_le_trans)
      ultimately show ?thesis
        using drain_cases(3) [OF Some [unfolded p] gap c(1) h(1)] gap r hs dr
        by (intro exI [of _ "?mi # new"] exI [of _ st'] exI [of _ w'])
           (auto simp: adds_def dest: order_less_imp_le order_less_trans)
    next
      case wait
      have "arch_inv (st\<lparr>ar_heap := heap_push md heap\<rparr>) w"
        using arch_inv_heap [OF inv, of "heap_push md heap"] hi hp by auto
      then show ?thesis
        using drain_cases(4) [OF Some [unfolded p] wait]
        by (intro exI [of _ "[]"] exI [of _ "st\<lparr>ar_heap := heap_push md heap\<rparr>"] exI [of _ w])
           (use least wait hs in \<open>auto simp: adds_def drained_def\<close>)
    next
      case old
      then have "\<exists>new st' w'. drain_incoming line_len u ?st1 w = (Inr (), st', w') \<and> adds new ?st1 w st' w' \<and>
        sorted_wrt (<) new \<and> (\<forall>x\<in>set new. next_ms ?st1 \<le> x \<and> x < next_ms st' \<and> x \<in> ms_index ` set heap) \<and>
        drained ?st1 new st'"
        using less.hyps [of ?st1 w] len inv1 by simp
      then obtain new st' w' where "drain_incoming line_len u ?st1 w = (Inr (), st', w')" "adds new ?st1 w st' w'"
        "sorted_wrt (<) new" "\<forall>x\<in>set new. next_ms st \<le> x \<and> x < next_ms st' \<and> x \<in> ms_index ` set heap"
        "drained ?st1 new st'"
        by auto
      moreover have "drained st new st'" using calculation(5) hs old by (auto simp: drained_def)
      ultimately show ?thesis using drain_cases(5) [OF Some [unfolded p] old] hs
        by (intro exI [of _ new] exI [of _ st'] exI [of _ w']) (auto simp: adds_def)
    qed
  qed
qed


text \<open>
  What the archiver expects of its senders: indices below the maximum, and of the syncer that a
  milestone it sends again is in a closed file, and not the next one of a file in progress; the
  archiver looks for the milestone only among the closed files, and only when no file continues with it.
\<close>

definition event_fresh :: "archiver_event \<Rightarrow> archiver \<Rightarrow> bool" where
  "event_fresh ev st =
     (case ev of
        ArClose mi \<Rightarrow> True
      | ArMilestoneData md u \<Rightarrow> ms_index md < u32_max \<and>
          (ms_created_by md = Syncer_C \<and> ms_index md < next_ms st \<longrightarrow>
             arch_covers st (ms_index md) = 0 \<or>
             is_processed st (ms_index md) \<and>
             list_all (\<lambda>l. \<not> (lf_to l = ms_index md \<and> ms_index md < lf_upper l)) (logs st)))"

text \<open>A milestone is held when it is in a file or waits in the heap; what waits is still to come, or archived.\<close>

definition held :: "archiver \<Rightarrow> u32 \<Rightarrow> bool" where
  "held st x \<longleftrightarrow> 0 < arch_covers st x \<or> x \<in> ms_index ` set (ar_heap st)"

definition waiting_ok :: "archiver \<Rightarrow> bool" where
  "waiting_ok st \<longleftrightarrow> (\<forall>x\<in>ms_index ` set (ar_heap st). next_ms st \<le> x \<or> 0 < arch_covers st x)"

definition keeps :: "archiver_event \<Rightarrow> archiver \<Rightarrow> archiver \<Rightarrow> bool" where
  "keeps ev st st' \<longleftrightarrow> waiting_ok st' \<and> (\<forall>x. held st x \<longrightarrow> held st' x) \<and>
     (case ev of ArClose mi \<Rightarrow> True
      | ArMilestoneData md u \<Rightarrow> ms_created_by md = Syncer_C \<longrightarrow> held st' (ms_index md))"

lemma keeps_same_heap:
  assumes "adds new st w st' w'" and "ar_heap st' = ar_heap st" and "waiting_ok st"
    and "next_ms st' = next_ms st \<or> next_ms st' = next_ms st + 1 \<and> next_ms st \<in> set new \<and> next_ms st < u32_max"
    and "case ev of ArClose mi \<Rightarrow> True
      | ArMilestoneData md u \<Rightarrow> ms_created_by md = Syncer_C \<longrightarrow> ms_index md \<in> set new \<or> 0 < arch_covers st (ms_index md)"
  shows "keeps ev st st'"
proof -
  have c: "arch_covers st' x = arch_covers st x + count_list new x" for x using assms(1) by (simp add: adds_def)
  have pos: "0 < count_list new x \<longleftrightarrow> x \<in> set new" for x by (metis count_list_0_iff gr0I less_irrefl)
  have "next_ms st' \<le> x \<or> 0 < arch_covers st' x" if "x \<in> ms_index ` set (ar_heap st)" for x
  proof -
    have "next_ms st \<le> x \<or> 0 < arch_covers st x" using assms(3) that by (auto simp: waiting_ok_def)
    moreover have "next_ms st + 1 \<le> x" if "next_ms st < x" using that by (rule inc_le)
    ultimately show ?thesis using assms(4) c [of x] pos [of x] by (cases "x = next_ms st") (auto simp: order_le_less)
  qed
  then show ?thesis
    using assms(2,5) c pos by (auto simp: keeps_def waiting_ok_def held_def split: archiver_event.splits)
qed

lemma keeps_drained:
  assumes "adds new st0 w st' w'" and "drained st0 new st'" and "waiting_ok st"
    and "st0 = st\<lparr>ar_heap := heap_push md (ar_heap st)\<rparr>" and "ms_created_by md \<noteq> Syncer_C"
  shows "keeps (ArMilestoneData md u) st st'"
proof -
  have c: "arch_covers st' x = arch_covers st x + count_list new x" for x using assms(1,4) by (simp add: adds_def)
  have pos: "0 < count_list new x \<longleftrightarrow> x \<in> set new" for x by (metis count_list_0_iff gr0I less_irrefl)
  have "waiting_ok st'" using assms(2) by (auto simp: drained_def waiting_ok_def dest: order_less_imp_le)
  moreover have "held st' x" if "held st x" for x
  proof (cases "0 < arch_covers st x")
    case False
    then have "x \<in> ms_index ` set (ar_heap st)" "\<not> x < next_ms st"
      using that assms(3) by (auto simp: held_def waiting_ok_def)
    then have "x \<in> set new \<or> x \<in> ms_index ` set (ar_heap st')"
      using assms(2,4) unfolding drained_def by fastforce
    then show ?thesis using c [of x] pos [of x] by (auto simp: held_def)
  qed (simp add: held_def c)
  ultimately show ?thesis using assms(5) by (simp add: keeps_def)
qed

text \<open>A milestone of a closed file with which no file in progress continues is not written again.\<close>

lemma handle_processed:
  assumes "arch_ok st w" and "is_processed st (ms_index md)"
    and "list_all (\<lambda>l. \<not> (lf_to l = ms_index md \<and> ms_index md < lf_upper l)) (logs st)"
  shows "handle_milestone_data line_len md u st w = (Inr (), st, w)"
proof -
  have "find_index (\<lambda>l. lf_to l = ms_index md \<and> ms_index md < lf_upper l) (logs st) = None"
    using assms(3) by (simp add: find_index_None list_all_iff)
  then show ?thesis
    using assms(2) arch_okD(3) [OF assms(1)] by (simp add: handle_milestone_data_def then_run_def run_cleanup_def)
qed

lemma processed_covered: "is_processed st x \<Longrightarrow> 0 < arch_covers st x"
  by (metis covers_zero gr0I is_processed_def set_mset_mset)

lemma event_ok:
  assumes inv: "arch_inv st w" and fresh: "event_fresh ev st" and wait: "waiting_ok st"
  shows "\<exists>new st' w'. handle_archiver_event line_len ev st w = (Inr (), st', w') \<and> adds new st w st' w' \<and> keeps ev st st'"
proof (cases ev)
  case (ArClose mi)
  obtain st1 w1 where c: "close_log_file mi st w = (Inr (), st1, w1)" "adds [] st w st1 w1"
    "ar_heap st1 = ar_heap st" "next_ms st1 = next_ms st"
    using adds_close [OF inv, of mi] by blast
  have "keeps ev st st1" using keeps_same_heap [OF c(2,3) wait, of ev] c(4) ArClose by simp
  moreover have "keeps ev st st" using wait ArClose by (simp add: keeps_def)
  ultimately show ?thesis
    using c inv ArClose by (cases "mi < next_ms st") (auto simp: handle_archiver_event_def adds_def intro!: exI [of _ "[]"])
next
  case (ArMilestoneData md u)
  then have hi: "ms_index md < u32_max" using fresh by (simp add: event_fresh_def)
  have hp: "\<forall>m\<in>set (ar_heap st). ms_index m < u32_max" using inv by (simp add: arch_inv_def)
  let ?push = "st\<lparr>ar_heap := heap_push md (ar_heap st)\<rparr>"
  have push: "arch_inv ?push w"
    using arch_inv_heap [OF inv, of "heap_push md (ar_heap st)"] hi hp by auto
  consider (inc) "ms_created_by md \<noteq> Syncer_C"
    | (low) "ms_created_by md = Syncer_C" "ms_index md < next_ms st" "arch_covers st (ms_index md) = 0"
    | (again) "ms_created_by md = Syncer_C" "ms_index md < next_ms st" "is_processed st (ms_index md)"
        "list_all (\<lambda>l. \<not> (lf_to l = ms_index md \<and> ms_index md < lf_upper l)) (logs st)"
    | (eq) "ms_created_by md = Syncer_C" "ms_index md = next_ms st"
    | (high) "ms_created_by md = Syncer_C" "next_ms st < ms_index md"
    using fresh ArMilestoneData by (fastforce simp: event_fresh_def)
  then show ?thesis
  proof cases
    case inc
    from drain_ok [OF push, of line_len u] obtain new st' w' where
      d: "drain_incoming line_len u ?push w = (Inr (), st', w')" "adds new ?push w st' w'" "drained ?push new st'"
      by blast
    have "keeps ev st st'" unfolding ArMilestoneData by (rule keeps_drained [OF d(2,3) wait refl inc])
    then show ?thesis using d inc ArMilestoneData by (auto simp: handle_archiver_event_def adds_def)
  next
    case low
    from adds_handle [OF inv hi low(3) _ low(2) hp, of line_len u] obtain st' w' where
      h: "handle_milestone_data line_len md u st w = (Inr (), st', w')" "ar_heap st' = ar_heap st" "next_ms st' = next_ms st"
      "adds [ms_index md] st w (st'\<lparr>ar_heap := ar_heap st, next_ms := next_ms st\<rparr>) w'"
      by auto
    moreover have "st'\<lparr>ar_heap := ar_heap st, next_ms := next_ms st\<rparr> = st'"
      using h(2,3) by simp
    ultimately have a: "adds [ms_index md] st w st' w'" by simp
    have "keeps ev st st'" using keeps_same_heap [OF a h(2) wait, of ev] h(3) ArMilestoneData by simp
    then show ?thesis using low h(1) a ArMilestoneData by (auto simp: handle_archiver_event_def)
  next
    case again
    have "handle_archiver_event line_len ev st w = (Inr (), st, w)"
      using handle_processed [of st w md line_len u] again inv ArMilestoneData
      by (simp add: handle_archiver_event_def arch_inv_def)
    moreover have a: "adds [] st w st w" using inv by (simp add: adds_def)
    moreover have "keeps ev st st"
      using keeps_same_heap [OF a refl wait, of ev] processed_covered [OF again(3)] ArMilestoneData by simp
    ultimately show ?thesis by blast
  next
    case eq
    have nx: "next_ms st < next_ms st + 1" using hi eq(2) by (simp add: word_less_succ)
    obtain st' w' where
      h: "handle_milestone_data line_len md None st w = (Inr (), st', w')" "ar_heap st' = ar_heap st" "next_ms st' = next_ms st"
      "adds [ms_index md] st w (st'\<lparr>ar_heap := ar_heap st, next_ms := next_ms st + 1\<rparr>) w'"
      using adds_handle [OF inv hi _ _ _ hp, of "next_ms st + 1" line_len None] fresh_next [OF inv, of "ms_index md"] eq nx
      by (auto simp: order_less_imp_le)
    let ?n = "st'\<lparr>next_ms := next_ms st + 1\<rparr>"
    have "st'\<lparr>ar_heap := ar_heap st, next_ms := next_ms st + 1\<rparr> = ?n"
      using h(2,3) by simp
    then have a: "adds [ms_index md] st w ?n w'" using h(4) by simp
    have "keeps ev st ?n" using keeps_same_heap [OF a _ wait, of ev] h(2) eq hi ArMilestoneData by simp
    then show ?thesis
      using eq h a ArMilestoneData by (auto simp: handle_archiver_event_def then_run_def)
  next
    case high
    have "waiting_ok ?push" using wait high(2) by (auto simp: waiting_ok_def order_less_imp_le)
    then have "keeps ev st ?push" using ArMilestoneData by (auto simp: keeps_def held_def)
    then show ?thesis using push high ArMilestoneData
      by (intro exI [of _ "[]"]) (auto simp: handle_archiver_event_def adds_def)
  qed
qed

fun run_fresh :: "(milestone_data \<Rightarrow> u64) \<Rightarrow> archiver_event list \<Rightarrow> archiver \<Rightarrow> world \<Rightarrow> bool" where
  "run_fresh line_len [] st w = True"
| "run_fresh line_len (ev # evs) st w =
     (event_fresh ev st \<and> (case handle_archiver_event line_len ev st w of (_, st, w) \<Rightarrow> run_fresh line_len evs st w))"

lemma loop_ok:
  assumes "arch_inv st w" and "waiting_ok st" and "run_fresh line_len evs st w"
  shows "\<exists>new st' w'. archiver_loop line_len evs st w = (Inr (), st', w') \<and> adds new st w st' w' \<and>
    (\<forall>x. held st x \<longrightarrow> held st' x) \<and>
    (\<forall>md u. ArMilestoneData md u \<in> set evs \<and> ms_created_by md = Syncer_C \<longrightarrow> held st' (ms_index md))"
  using assms
proof (induction evs arbitrary: st w)
  case Nil
  then show ?case by (auto simp: adds_def intro!: exI [of _ "[]"])
next
  case (Cons ev evs)
  then obtain new1 st1 w1 where e: "handle_archiver_event line_len ev st w = (Inr (), st1, w1)" "adds new1 st w st1 w1"
    and k: "keeps ev st st1"
    using event_ok [of st w ev line_len] by auto
  moreover have "arch_inv st1 w1" "waiting_ok st1" using e(2) k by (simp_all add: adds_def keeps_def)
  ultimately obtain new2 st2 w2 where r: "archiver_loop line_len evs st1 w1 = (Inr (), st2, w2)" "adds new2 st1 w1 st2 w2"
    "\<forall>x. held st1 x \<longrightarrow> held st2 x"
    "\<forall>md u. ArMilestoneData md u \<in> set evs \<and> ms_created_by md = Syncer_C \<longrightarrow> held st2 (ms_index md)"
    using Cons.IH [of st1 w1] Cons.prems(3) by auto
  have "held st2 (ms_index md)" if "ArMilestoneData md u \<in> set (ev # evs)" "ms_created_by md = Syncer_C" for md u
    using that r(3,4) k by (cases "ArMilestoneData md u = ev") (auto simp: keeps_def)
  then show ?case using e(1) r(1,3) adds_trans [OF e(2) r(2)] k
    by (intro exI [of _ "new1 @ new2"] exI [of _ st2] exI [of _ w2]) (auto simp: then_run_def keeps_def)
qed

text \<open>The state in which the event loop starts: no log files, the next milestone received.\<close>

definition start_archiver :: "u64 option \<Rightarrow> u8 \<Rightarrow> u32 \<Rightarrow> archiver" where
  "start_archiver mx n first = (new_archiver mx n)\<lparr>next_ms := first\<rparr>"

definition clean_world :: "world \<Rightarrow> bool" where
  "clean_world w \<longleftrightarrow> w_faults w = [] \<and> list_all (\<lambda>(n, _). case n of PartName k \<Rightarrow> False | _ \<Rightarrow> True) (w_fs w)"

lemma clean_world_part: "clean_world w \<Longrightarrow> hm_get (w_fs w) (PartName k) = None"
  by (force simp: clean_world_def list_all_iff map_of_eq_None_iff)

lemma arch_inv_start: "clean_world w \<Longrightarrow> arch_inv (start_archiver mx n first) w"
  by (simp add: arch_inv_def arch_ok_def files_inv_def start_archiver_def new_archiver_def covers_def
      clean_world_part clean_world_def)

lemma waiting_start: "waiting_ok (start_archiver mx n first)"
  by (simp add: waiting_ok_def start_archiver_def new_archiver_def)

lemma distinct_count: "(\<And>x. count_list xs x \<le> 1) \<Longrightarrow> distinct xs"
proof (induction xs)
  case (Cons a xs)
  have "count_list xs a = 0" using Cons.prems [of a] by simp
  then have "a \<notin> set xs" by (simp add: count_list_0_iff)
  moreover have "count_list xs x \<le> 1" for x using Cons.prems [of x] by (auto split: if_splits)
  ultimately show ?case using Cons.IH by simp
qed simp

lemma distinct_count_list: "distinct xs \<Longrightarrow> count_list xs x = (if x \<in> set xs then 1 else 0)"
  by (induction xs) auto

text \<open>What the log files hold after archiving \<open>new\<close>: each of the milestones in exactly one file,
  each file one line per milestone of its range, in order, and one sync row per milestone.\<close>

definition archive_exact :: "u32 list \<Rightarrow> world \<Rightarrow> archiver \<Rightarrow> world \<Rightarrow> bool" where
  "archive_exact new w0 st w \<longleftrightarrow>
     distinct new \<and> w_sync_rows w = w_sync_rows w0 @ map sync_row new \<and>
     (\<forall>x. arch_covers st x = (if x \<in> set new then 1 else 0)) \<and>
     (\<forall>l\<in>set (logs st). has_lines (w_fs w) (PartName (lf_from l)) (lf_range l)) \<and>
     (\<forall>r\<in>set (processed st). has_lines (w_fs w) (LogName (rstart r) (rend r)) r)"

lemma adds_exact:
  assumes "adds new (start_archiver mx n first) w st' w'"
  shows "archive_exact new w st' w'"
proof -
  have inv: "arch_inv st' w'" and c: "\<And>x. arch_covers st' x = count_list new x"
    using assms by (auto simp: adds_def start_archiver_def new_archiver_def covers_def)
  have f: "arch_ok st' w'" using inv by (simp add: arch_inv_def)
  have "arch_covers st' x \<le> 1" for x using arch_okD(2) [OF f] by (simp add: files_inv_def)
  then have d: "distinct new" using c by (intro distinct_count) simp
  have "file_of l = PartName (lf_from l)" if "l \<in> set (logs st')" for l
    using unfinished [OF f that] by (simp add: file_of_def)
  then show ?thesis
    using d c arch_okD(2) [OF f] assms
    by (auto simp: archive_exact_def distinct_count_list files_inv_def adds_def)
qed


definition is_incoming :: "archiver_event \<Rightarrow> bool" where
  "is_incoming ev =
     (case ev of ArClose mi \<Rightarrow> False | ArMilestoneData md u \<Rightarrow> ms_created_by md \<noteq> Syncer_C \<and> ms_index md < u32_max)"

lemma loop_incoming:
  assumes "arch_inv st w" and "list_all is_incoming evs"
  shows "\<exists>new st' w'. archiver_loop line_len evs st w = (Inr (), st', w') \<and> adds new st w st' w' \<and>
    sorted_wrt (<) new \<and> (\<forall>x\<in>set new. next_ms st \<le> x \<and> x < next_ms st')"
  using assms
proof (induction evs arbitrary: st w)
  case Nil
  then show ?case by (auto simp: adds_def intro!: exI [of _ "[]"])
next
  case (Cons ev evs)
  then obtain md u where ev: "ev = ArMilestoneData md u" "ms_created_by md \<noteq> Syncer_C" "ms_index md < u32_max"
    by (auto simp: is_incoming_def split: archiver_event.splits)
  let ?st = "st\<lparr>ar_heap := heap_push md (ar_heap st)\<rparr>"
  have "arch_inv ?st w"
    using arch_inv_heap [OF Cons.prems(1), of "heap_push md (ar_heap st)"] ev(3) Cons.prems(1)
    by (auto simp: arch_inv_def)
  from drain_ok [OF this, of line_len u] obtain new1 st1 w1 where d: "drain_incoming line_len u ?st w = (Inr (), st1, w1)"
    and a1: "adds new1 ?st w st1 w1" "sorted_wrt (<) new1" "\<forall>x\<in>set new1. next_ms st \<le> x \<and> x < next_ms st1"
    by auto
  have e: "handle_archiver_event line_len ev st w = (Inr (), st1, w1)" and a2: "adds new1 st w st1 w1"
    using d a1(1) ev by (auto simp: handle_archiver_event_def adds_def)
  have "arch_inv st1 w1" "next_ms st \<le> next_ms st1" using a2 by (auto simp: adds_def)
  with Cons obtain new2 st2 w2 where r: "archiver_loop line_len evs st1 w1 = (Inr (), st2, w2)" "adds new2 st1 w1 st2 w2"
    "sorted_wrt (<) new2" "\<forall>x\<in>set new2. next_ms st1 \<le> x \<and> x < next_ms st2"
    by force
  have "sorted_wrt (<) (new1 @ new2)"
    using a1(2,3) r(3,4) by (auto simp: sorted_wrt_append dest: order_less_le_trans)
  moreover have "\<forall>x\<in>set (new1 @ new2). next_ms st \<le> x \<and> x < next_ms st2"
    using a1(3) r(2,4) \<open>next_ms st \<le> next_ms st1\<close> by (auto simp: adds_def dest: order_trans order_less_le_trans)
  ultimately show ?case
    using e r adds_trans [OF a2 r(2)]
    by (intro exI [of _ "new1 @ new2"] exI [of _ st2] exI [of _ w2]) (simp add: then_run_def)
qed

lemma finish_all_ok:
  assumes "files_inv (mset ls + L) P C (w_fs w)" and "w_faults w = []" and "\<forall>l\<in>set ls. \<not> lf_finished l"
  shows "\<exists>w'. finish_all ls w = (ls, w') \<and> w_faults w' = [] \<and>
    files_inv (mset (map (\<lambda>l. l\<lparr>lf_finished := True\<rparr>) ls) + L) P (C @ map lf_from ls) (w_fs w')"
  using assms
proof (induction ls arbitrary: L C w)
  case (Cons l ls)
  let ?f = "l\<lparr>lf_finished := True\<rparr>"
  obtain w1 where f: "finish_log_file l w = (Inr (), ?f, w1)" "w_faults w1 = []"
    "files_inv (add_mset ?f (mset ls + L)) P (C @ [lf_from l]) (w_fs w1)"
    using finish_log_file_ok [of l "mset ls + L" P C w] Cons.prems by auto
  have lf: "log_finish l w = (Inr (), l, w1)"
    using f(1) Cons.prems(3)
    by (auto simp: finish_log_file_def log_finish_def Let_def split: prod.splits sum.splits option.splits bool.splits)
  obtain w2 where "finish_all ls w1 = (ls, w2)" "w_faults w2 = []"
    "files_inv (mset (map (\<lambda>l. l\<lparr>lf_finished := True\<rparr>) ls) + add_mset ?f L) P ((C @ [lf_from l]) @ map lf_from ls) (w_fs w2)"
    using Cons.IH [of "add_mset ?f L" "C @ [lf_from l]" w1] f Cons.prems(3) by auto
  then show ?case using lf by auto
qed simp

section \<open>Properties of the archiver\<close>

text \<open>
  C6. Started without log files in a working file system, the archiver processes any sequence of
  events, as long as the syncer does not send again what a file in progress holds, or what a file in
  progress would continue with; a milestone of a closed file may be sent again and is not
  written again. The loop never fails or panics, every archived milestone is in exactly one log
  file, every file (in progress or finished) holds exactly one line for each milestone of its
  range, in order, and the sync table got exactly one row with \<^verbatim>\<open>logged_by = 0\<close> for each of them. Nothing
  that the syncer sends is lost: it has been archived, or waits in the heap.
\<close>

theorem archiver_exact:
  assumes "clean_world w" and "run_fresh line_len evs (start_archiver mx n first) w"
  shows "\<exists>new st' w'. archiver_loop line_len evs (start_archiver mx n first) w = (Inr (), st', w') \<and>
    archive_exact new w st' w' \<and>
    list_all (\<lambda>ev. case ev of ArClose mi \<Rightarrow> True
      | ArMilestoneData md u \<Rightarrow> ms_created_by md \<noteq> Syncer_C \<or> ms_index md \<in> set new \<or> ms_index md \<in> ms_index ` set (ar_heap st')) evs"
proof -
  obtain new st' w' where r: "archiver_loop line_len evs (start_archiver mx n first) w = (Inr (), st', w')"
    and a: "adds new (start_archiver mx n first) w st' w'"
    and h: "\<forall>md u. ArMilestoneData md u \<in> set evs \<and> ms_created_by md = Syncer_C \<longrightarrow> held st' (ms_index md)"
    using loop_ok [OF arch_inv_start [OF assms(1)] waiting_start assms(2)] by blast
  have exact: "archive_exact new w st' w'" by (rule adds_exact [OF a])
  then have iff: "held st' x \<longleftrightarrow> x \<in> set new \<or> x \<in> ms_index ` set (ar_heap st')" for x
    by (simp add: held_def archive_exact_def)
  have "case ev of ArClose mi \<Rightarrow> True
      | ArMilestoneData md u \<Rightarrow> ms_created_by md \<noteq> Syncer_C \<or> ms_index md \<in> set new \<or> ms_index md \<in> ms_index ` set (ar_heap st')"
    if "ev \<in> set evs" for ev
    using that h iff by (simp split: archiver_event.split) blast
  with r exact show ?thesis unfolding list_all_iff by blast
qed

definition wit_ms :: "u32 \<Rightarrow> created_by \<Rightarrow> archiver_event" where
  "wit_ms i c = ArMilestoneData (new_milestone_data i c) None"

definition wit_world :: world where
  "wit_world = \<lparr>w_fs = [], w_sync_rows = [], w_faults = []\<rparr>"

definition wit_archiver_events :: "archiver_event list" where
  "wit_archiver_events = [wit_ms 9 Incoming, wit_ms 8 Expected, wit_ms 5 Syncer_C, ArClose 6, wit_ms 5 Syncer_C]"

lemma archiver_exact_witness:
  "\<exists>new st' w'. archiver_loop (\<lambda>_. 10) wit_archiver_events (start_archiver None 2 8) wit_world = (Inr (), st', w') \<and>
     archive_exact new wit_world st' w' \<and>
     list_all (\<lambda>ev. case ev of ArClose mi \<Rightarrow> True
       | ArMilestoneData md u \<Rightarrow> ms_created_by md \<noteq> Syncer_C \<or> ms_index md \<in> set new \<or> ms_index md \<in> ms_index ` set (ar_heap st')) wit_archiver_events"
  by (rule archiver_exact) code_simp+

text \<open>The assumption is needed: a milestone of a file in progress that is sent again gets a second line.\<close>

lemma resent_in_progress_duplicated:
  "case archiver_loop (\<lambda>_. 10) [wit_ms 8 Incoming, wit_ms 8 Syncer_C] (start_archiver None 2 8) wit_world of
     (r, st, w) \<Rightarrow> r = Inr () \<and> map milestone_index (w_sync_rows w) = [8, 8] \<and>
       map line_index (file_lines w (PartName 8)) = [Some 8, Some 8]"
  by code_simp

text \<open>
  C7. Fed with incoming milestone data only, in any order, with gaps and duplicates, the archiver
  needs no such assumption: no milestone is written twice, none below the first one, and the
  milestones are written in ascending order.
\<close>

theorem archiver_incoming_ascending:
  assumes "clean_world w" and "list_all is_incoming evs"
  shows "\<exists>new st' w'. archiver_loop line_len evs (start_archiver mx n first) w = (Inr (), st', w') \<and>
    archive_exact new w st' w' \<and> sorted_wrt (<) new \<and> list_all (\<lambda>x. first \<le> x \<and> x < next_ms st') new"
proof -
  obtain new st' w' where r: "archiver_loop line_len evs (start_archiver mx n first) w = (Inr (), st', w')"
    "sorted_wrt (<) new" "\<forall>x\<in>set new. first \<le> x \<and> x < next_ms st'"
    and a: "adds new (start_archiver mx n first) w st' w'"
    using loop_incoming [OF arch_inv_start [OF assms(1)] assms(2), of line_len mx n first]
    by (auto simp: start_archiver_def)
  from r adds_exact [OF a] show ?thesis by (auto simp: list_all_iff)
qed

lemma archiver_incoming_ascending_witness:
  "\<exists>new st' w'. archiver_loop (\<lambda>_. 10) [wit_ms 9 Incoming, wit_ms 8 Expected, wit_ms 9 Incoming, wit_ms 12 Incoming]
     (start_archiver None 2 8) wit_world = (Inr (), st', w') \<and> archive_exact new wit_world st' w' \<and>
     sorted_wrt (<) new \<and> list_all (\<lambda>x. 8 \<le> x \<and> x < next_ms st') new"
  by (rule archiver_incoming_ascending) code_simp+

text \<open>
  C8. Terminating after such a run renames every file in progress: no \<^verbatim>\<open>.part\<close> file is left, and every
  range in \<^verbatim>\<open>logs\<close> and \<^verbatim>\<open>processed\<close> has its finished log file with exactly its lines.
\<close>

theorem archiver_terminating_finishes:
  assumes "clean_world w" and "run_fresh line_len evs (start_archiver mx n first) w"
    and "archiver_loop line_len evs (start_archiver mx n first) w = (Inr (), st, w1)"
    and "archiver_terminating st w1 = (st', w')"
  shows "hm_get (w_fs w') (PartName k) = None \<and>
    list_all (\<lambda>l. has_lines (w_fs w') (LogName (lf_from l) (lf_to l)) (lf_range l)) (logs st') \<and>
    list_all (\<lambda>r. has_lines (w_fs w') (LogName (rstart r) (rend r)) r) (processed st')"
proof -
  obtain new where "adds new (start_archiver mx n first) w st w1"
    using loop_ok [OF arch_inv_start [OF assms(1)] waiting_start assms(2)] assms(3) by auto
  then have ok: "arch_ok st w1" by (simp add: adds_def arch_inv_def)
  then have nf: "\<forall>l\<in>set (logs st). \<not> lf_finished l" using unfinished by blast
  from finish_all_ok [of "logs st" "{#}" "mset (processed st)" "[]" w1] arch_okD(2,4) [OF ok] nf
  obtain w2 where f: "finish_all (logs st) w1 = (logs st, w2)"
    "files_inv (mset (map (\<lambda>l. l\<lparr>lf_finished := True\<rparr>) (logs st))) (mset (processed st)) (map lf_from (logs st)) (w_fs w2)"
    by auto
  then have "st' = st" "w' = w2" using assms(4) by (auto simp: archiver_terminating_def)
  moreover have "hm_get (w_fs w2) (PartName k) = None"
    using f(2) by (cases "hm_get (w_fs w2) (PartName k)") (fastforce simp: files_inv_def)+
  ultimately show ?thesis
    using f(2) by (auto simp: files_inv_def file_of_def list_all_iff)
qed


lemma archiver_terminating_finishes_witness:
  "case archiver_loop (\<lambda>_. 10) [wit_ms 8 Incoming, wit_ms 5 Syncer_C] (start_archiver None 2 8) wit_world of
     (r, st, w1) \<Rightarrow> (case archiver_terminating st w1 of (st', w') \<Rightarrow>
       hm_get (w_fs w') (PartName 8) = None \<and>
       list_all (\<lambda>l. has_lines (w_fs w') (LogName (lf_from l) (lf_to l)) (lf_range l)) (logs st') \<and>
       list_all (\<lambda>r. has_lines (w_fs w') (LogName (rstart r) (rend r)) r) (processed st'))"
proof -
  let ?evs = "[wit_ms 8 Incoming, wit_ms 5 Syncer_C]" and ?st = "start_archiver None 2 8"
  obtain r st w1 st' w' where run: "archiver_loop (\<lambda>_. 10) ?evs ?st wit_world = (r, st, w1)"
    and tm: "archiver_terminating st w1 = (st', w')"
    by (metis surj_pair)
  have "fst (archiver_loop (\<lambda>_. 10) ?evs ?st wit_world) = Inr ()" by code_simp
  then have ok: "archiver_loop (\<lambda>_. 10) ?evs ?st wit_world = (Inr (), st, w1)" using run by simp
  have "clean_world wit_world" "run_fresh (\<lambda>_. 10) ?evs ?st wit_world" by code_simp+
  from archiver_terminating_finishes [OF this ok tm, of 8] show ?thesis by (simp only: run tm prod.case)
qed

end
