(* ===== verification/Syncer.thy ===== *)
theory Syncer
  imports Archiver
begin

text \<open>
  The syncer (\<^verbatim>\<open>chronicle-broker/src/syncer/\<close>): it takes ranges of missing or unlogged milestones from
  the sync data, asks the solidifiers for a bounded number of them at a time, puts the answers in
  order with a heap and hands them to the archiver, one log file per range.

  Messages to the other actors are appended to \<open>sy_out\<close> in the order in which they are sent.
\<close>

section \<open>State\<close>

datatype ask_syncer = AskComplete | AskFillGaps | AskUpdateSyncData

datatype syncer_event =
    SyAsk ask_syncer
  | SyMilestoneData milestone_data
  | SyUnreachable u32
  | SyShutdown

text \<open>\<^verbatim>\<open>Active\<close>: how the range in progress was taken, and what is left to ask for.\<close>

datatype work_kind = Complete | FillGaps

datatype syncer_out =
    ToSolidifier u8 u32
  | ToArchiver archiver_event
  | StartPoint u32
  | ScheduleUpdate
  | AlertUnreachable u32

record syncer =
  sy_sync_data :: sync_data
  sy_sync_range :: "sync_range option"
  sy_solidifiers :: "u8 list"
  sy_solidifier_count :: u8
  sy_parallelism :: u8
  sy_active :: "(work_kind \<times> u32_range) option"
  sy_first_ask :: "ask_syncer option"
  sy_archiver :: bool
  sy_heap :: "milestone_data list"
  sy_highest :: u32
  sy_pending :: u32
  sy_eof :: bool
  sy_next :: u32
  sy_skip :: bool
  sy_gap_start :: u32
  sy_gap_end :: u32
  sy_prev_closed :: u32
  sy_oneshot :: bool
  sy_out :: "syncer_out list"

text \<open>\<^verbatim>\<open>SyncerBuilder::build\<close>; the solidifier handles are known by their ids.\<close>

definition new_syncer ::
  "sync_data \<Rightarrow> sync_range option \<Rightarrow> u8 list \<Rightarrow> u8 option \<Rightarrow> ask_syncer option \<Rightarrow> bool \<Rightarrow> bool \<Rightarrow> syncer" where
  "new_syncer sd sr ids par ask arch oneshot =
     \<lparr>sy_sync_data = sd, sy_sync_range = sr, sy_solidifiers = ids,
      sy_solidifier_count = of_nat (length ids),
      sy_parallelism = (case par of None \<Rightarrow> of_nat (length ids) | Some p \<Rightarrow> p),
      sy_active = None, sy_first_ask = ask, sy_archiver = arch, sy_heap = [], sy_highest = 0,
      sy_pending = ucast (of_nat (length ids) :: u8), sy_eof = False, sy_next = 0, sy_skip = False,
      sy_gap_start = 0, sy_gap_end = 0, sy_prev_closed = 0, sy_oneshot = oneshot, sy_out = []\<rparr>"

definition emit :: "syncer_out \<Rightarrow> syncer \<Rightarrow> syncer" where
  "emit m s = s\<lparr>sy_out := sy_out s @ [m]\<rparr>"

definition send_archiver :: "archiver_event \<Rightarrow> syncer \<Rightarrow> syncer" where
  "send_archiver ev s = (if sy_archiver s then emit (ToArchiver ev) s else s)"

section \<open>Requests\<close>

text \<open>\<^verbatim>\<open>request_solidify\<close>: the remainder panics for no solidifier, the \<^verbatim>\<open>unwrap\<close> for an unknown one.\<close>

definition request_solidify :: "u32 \<Rightarrow> syncer \<Rightarrow> syncer result" where
  "request_solidify mi s =
     (if sy_solidifier_count s = 0 then Inl Panic
      else (let i = ucast (mi mod ucast (sy_solidifier_count s)) in
            if i \<in> set (sy_solidifiers s) then Inr (emit (ToSolidifier i mi) s) else Inl Panic))"

definition schedule_update_sync_data :: "syncer \<Rightarrow> syncer" where
  "schedule_update_sync_data s = emit ScheduleUpdate s"

definition sy_close_log_file :: "syncer \<Rightarrow> syncer" where
  "sy_close_log_file s =
     (if sy_prev_closed s \<noteq> sy_gap_start s \<and> sy_gap_start s \<noteq> sy_next s
      then (send_archiver (ArClose (sy_next s)) s)\<lparr>sy_prev_closed := sy_gap_start s\<rparr>
      else s\<lparr>sy_prev_closed := 0\<rparr>)"

definition try_solidify_one_more :: "syncer \<Rightarrow> syncer result" where
  "try_solidify_one_more s =
     (case sy_active s of
        None \<Rightarrow> Inl Panic
      | Some (k, r) \<Rightarrow>
          (case range_next r of
             (None, r) \<Rightarrow> Inr (s\<lparr>sy_active := Some (k, r)\<rparr>)
           | (Some mi, r) \<Rightarrow>
               rbind (request_solidify mi (s\<lparr>sy_active := Some (k, r)\<rparr>))
                 (\<lambda>s. Inr (s\<lparr>sy_pending := sy_pending s + 1\<rparr>))))"

text \<open>The loop of \<^verbatim>\<open>process_more\<close>; the flag says that the range is finished with nothing pending.\<close>

fun request_loop :: "nat \<Rightarrow> work_kind \<Rightarrow> u32_range \<Rightarrow> syncer \<Rightarrow> (bool \<times> syncer) result" where
  "request_loop 0 k r s = Inr (False, s)"
| "request_loop (Suc n) k r s =
     (case range_next r of
        (Some mi, r) \<Rightarrow>
          rbind (request_solidify mi (s\<lparr>sy_active := Some (k, r)\<rparr>))
            (\<lambda>s. request_loop n k r (s\<lparr>sy_pending := sy_pending s + 1\<rparr>))
      | (None, r) \<Rightarrow> Inr (sy_pending s = 0, s))"

definition take_work :: "work_kind \<Rightarrow> sync_data \<Rightarrow> u32_range option \<times> sync_data" where
  "take_work k sd = (case k of Complete \<Rightarrow> take_lowest_uncomplete sd | FillGaps \<Rightarrow> take_lowest_gap sd)"

text \<open>\<^verbatim>\<open>complete\<close> and \<^verbatim>\<open>fill_gaps\<close> up to their last call.\<close>

definition next_range :: "work_kind \<Rightarrow> syncer \<Rightarrow> syncer" where
  "next_range k s =
     (case take_work k (sy_sync_data s) of
        (None, sd) \<Rightarrow> s\<lparr>sy_sync_data := sd\<rparr>
      | (Some gap, sd) \<Rightarrow>
          (let s = s\<lparr>sy_sync_data := sd\<rparr> in
           if rend gap \<noteq> i32_max
           then s\<lparr>sy_next := rstart gap, sy_gap_start := rstart gap, sy_gap_end := rend gap,
                  sy_active := Some (k, gap)\<rparr>
           else if rstart gap < sy_highest s
           then s\<lparr>sy_next := rstart gap, sy_gap_start := rstart gap, sy_gap_end := sy_highest s,
                  sy_active := Some (k, gap\<lparr>rend := sy_highest s\<rparr>)\<rparr>
           else s))"

abbreviation active_size :: "syncer \<Rightarrow> nat" where
  "active_size s \<equiv> 2 * work_left (sy_sync_data s) + (if sy_active s = None then 0 else 1)"

lemma take_uncomplete_work_left:
  "take_lowest_uncomplete sd = (Some r, sd') \<Longrightarrow> work_left sd' < work_left sd"
proof -
  have ext: "extend_uncomplete pre sd = (r, sd') \<Longrightarrow> work_left sd' \<le> work_left sd" for pre sd
  proof (induction pre sd rule: extend_uncomplete.induct)
    case (1 pre sd)
    obtain ro sd1 where t: "take_lowest_gap_or_unlogged sd = (ro, sd1)" by fastforce
    show ?case
    proof (cases ro)
      case None
      then show ?thesis using "1.prems" t
        by (simp add: extend_uncomplete.simps [of pre sd] get_take_lowest)
    next
      case (Some n)
      then have "work_left sd1 < work_left sd" using t take_lowest_work_left by blast
      then show ?thesis using "1.prems" "1.IH" [of n] t Some
        by (auto simp: extend_uncomplete.simps [of pre sd] get_take_lowest split: if_splits)
    qed
  qed
  assume "take_lowest_uncomplete sd = (Some r, sd')"
  then obtain pre sd1 where "take_lowest_gap_or_unlogged sd = (Some pre, sd1)"
    and "extend_uncomplete pre sd1 = (r, sd')"
    by (auto simp: take_lowest_uncomplete_def split: prod.splits option.splits)
  then show ?thesis using ext take_lowest_work_left by (meson order_le_less_trans)
qed

lemma take_work_left: "take_work k sd = (Some r, sd') \<Longrightarrow> work_left sd' < work_left sd"
  by (cases k) (auto simp: take_work_def take_uncomplete_work_left take_lowest_gap_def vec_pop_def
      split: if_splits)

lemma take_work_None: "take_work k sd = (None, sd') \<Longrightarrow> work_left sd' = work_left sd"
  by (cases k)
     (auto simp: take_work_def take_lowest_uncomplete_def take_lowest_gap_def vec_pop_def
      dest: take_lowest_None split: if_splits option.splits prod.splits)

lemma next_range_size: "sy_active s = None \<Longrightarrow> active_size (next_range k s) \<le> 2 * work_left (sy_sync_data s)"
  by (auto simp: next_range_def Let_def dest: take_work_left take_work_None split: prod.splits option.splits)

text \<open>\<^verbatim>\<open>process_more\<close>, with \<^verbatim>\<open>complete\<close>, \<^verbatim>\<open>fill_gaps\<close> and \<^verbatim>\<open>trigger_process_more\<close>, which call it
  again, unfolded in it.\<close>

function process_more :: "syncer \<Rightarrow> syncer result" where
  "process_more s =
     (case sy_active s of
        None \<Rightarrow> Inr (schedule_update_sync_data (s\<lparr>sy_eof := True\<rparr>))
      | Some (k, r) \<Rightarrow>
          (case request_loop (unat (sy_parallelism s)) k r s of
             Inl e \<Rightarrow> Inl e
           | Inr (finished, s1) \<Rightarrow>
               (if finished
                then (let s2 = next_range k ((sy_close_log_file s1)\<lparr>sy_active := None\<rparr>) in
                      if sy_pending s2 = 0 then process_more s2 else Inr s2)
                else Inr s1)))"
  by pat_completeness auto

lemma request_loop_frame:
  "request_loop n k r s = Inr (b, s1) \<Longrightarrow> sy_sync_data s1 = sy_sync_data s"
proof (induction n arbitrary: r s)
  case (Suc n)
  then show ?case
    by (auto simp: request_solidify_def emit_def Let_def rbind_Inr_iff split: prod.splits option.splits if_splits
        dest!: Suc.IH)
qed simp

lemma close_frame [simp]:
  "sy_sync_data (sy_close_log_file s) = sy_sync_data s" "sy_pending (sy_close_log_file s) = sy_pending s"
  "sy_heap (sy_close_log_file s) = sy_heap s" "sy_highest (sy_close_log_file s) = sy_highest s"
  "sy_next (sy_close_log_file s) = sy_next s" "sy_skip (sy_close_log_file s) = sy_skip s"
  "sy_solidifiers (sy_close_log_file s) = sy_solidifiers s"
  "sy_solidifier_count (sy_close_log_file s) = sy_solidifier_count s"
  "sy_parallelism (sy_close_log_file s) = sy_parallelism s"
  "sy_active (sy_close_log_file s) = sy_active s" "sy_gap_start (sy_close_log_file s) = sy_gap_start s"
  "sy_gap_end (sy_close_log_file s) = sy_gap_end s" "sy_archiver (sy_close_log_file s) = sy_archiver s"
  by (simp_all add: sy_close_log_file_def send_archiver_def emit_def)

termination process_more
proof (relation "measure active_size")
  fix s p k r q finished s1 s2
  assume a: "sy_active s = Some p" "(k, r) = p"
    and l: "request_loop (unat (sy_parallelism s)) k r s = Inr q" "(finished, s1) = q"
    and s2: "s2 = next_range k ((sy_close_log_file s1)\<lparr>sy_active := None\<rparr>)"
  have "active_size s2 \<le> 2 * work_left (sy_sync_data s1)"
    unfolding s2 using next_range_size [of "(sy_close_log_file s1)\<lparr>sy_active := None\<rparr>" k] by simp
  also have "sy_sync_data s1 = sy_sync_data s" using l request_loop_frame by blast
  finally show "(s2, s) \<in> measure active_size" using a by simp
qed simp

declare process_more.simps [simp del]

definition trigger_process_more :: "syncer \<Rightarrow> syncer result" where
  "trigger_process_more s = (if sy_pending s = 0 then process_more s else Inr s)"

definition sy_complete :: "syncer \<Rightarrow> syncer result" where
  "sy_complete s = trigger_process_more (next_range Complete s)"

definition fill_gaps :: "syncer \<Rightarrow> syncer result" where
  "fill_gaps s = trigger_process_more (next_range FillGaps s)"

definition complete_or_fillgaps :: "syncer \<Rightarrow> syncer result" where
  "complete_or_fillgaps s =
     (case sy_first_ask s of
        Some AskComplete \<Rightarrow> sy_complete s
      | Some AskFillGaps \<Rightarrow> fill_gaps s
      | _ \<Rightarrow> Inr s)"

section \<open>Answers\<close>

definition consume_range :: "u32_range \<Rightarrow> u32_range" where
  "consume_range r = (if rstart r < rend r then r\<lparr>rstart := rend r\<rparr> else r)"

definition handle_skip :: "syncer \<Rightarrow> syncer result" where
  "handle_skip s =
     (let s = s\<lparr>sy_skip := True\<rparr> in
      if sy_pending s = 0
      then (case sy_active s of
              None \<Rightarrow> Inl Panic
            | Some (k, r) \<Rightarrow>
                Inr (s\<lparr>sy_heap := [], sy_active := Some (k, consume_range r), sy_skip := False\<rparr>))
      else Inr s)"

text \<open>The first milestones, which were not asked for: they go to the archiver in ascending order,
  the file is closed before every gap.\<close>

fun send_first :: "nat \<Rightarrow> u32 \<Rightarrow> syncer \<Rightarrow> u32 \<times> syncer" where
  "send_first 0 nxt s = (nxt, s)"
| "send_first (Suc n) nxt s =
     (case asc_pop (sy_heap s) of
        None \<Rightarrow> (nxt, s)
      | Some (md, heap) \<Rightarrow>
          (let s = s\<lparr>sy_heap := heap\<rparr>;
               s = (if nxt \<noteq> ms_index md
                    then (send_archiver (ArClose nxt) s)\<lparr>sy_highest := ms_index md\<rparr> else s)
           in send_first n (ms_index md + 1) (send_archiver (ArMilestoneData md None) s)))"

text \<open>The loop that hands the next expected milestones to the archiver.\<close>

fun send_expected :: "nat \<Rightarrow> syncer \<Rightarrow> syncer" where
  "send_expected 0 s = s"
| "send_expected (Suc n) s =
     (case asc_pop (sy_heap s) of
        None \<Rightarrow> s
      | Some (md, heap) \<Rightarrow>
          (if sy_next s = ms_index md
           then send_expected n
                  ((send_archiver (ArMilestoneData md (Some (sy_gap_end s))) (s\<lparr>sy_heap := heap\<rparr>))
                     \<lparr>sy_next := sy_next s + 1\<rparr>)
           else s\<lparr>sy_heap := heap_push md heap\<rparr>))"

text \<open>The bounds \<open>length (sy_heap s)\<close> on the loops are the numbers of pops that can succeed.\<close>

definition sy_handle_milestone_data :: "milestone_data \<Rightarrow> syncer \<Rightarrow> syncer result" where
  "sy_handle_milestone_data md s =
     (let s = s\<lparr>sy_pending := sy_pending s - 1, sy_heap := heap_push md (sy_heap s)\<rparr> in
      rbind
        (if sy_highest s = 0 \<and> sy_pending s = 0
         then (case asc_pop (sy_heap s) of
                 None \<Rightarrow> Inl Panic
               | Some (md, heap) \<Rightarrow>
                   (let s = s\<lparr>sy_heap := heap, sy_highest := ms_index md\<rparr>;
                        (nxt, s) = send_first (length heap) (ms_index md + 1)
                                     (send_archiver (ArMilestoneData md None) s)
                    in if sy_oneshot s
                       then complete_or_fillgaps
                              (send_archiver (ArClose nxt) (emit (StartPoint nxt) (s\<lparr>sy_oneshot := False\<rparr>)))
                       else Inl Panic))
         else if sy_highest s \<noteq> 0 \<and> \<not> sy_skip s
         then rbind (try_solidify_one_more s) (\<lambda>s. Inr (send_expected (length (sy_heap s)) s))
         else if sy_skip s then handle_skip s
         else Inr s)
        trigger_process_more)"

definition update_sync :: "(sync_range \<Rightarrow> sync_data option) \<Rightarrow> syncer \<Rightarrow> syncer result" where
  "update_sync fetch s =
     (if sy_eof s
      then (case sy_sync_range s of
              None \<Rightarrow> Inr s
            | Some sr \<Rightarrow>
                (case fetch sr of
                   Some sd \<Rightarrow> complete_or_fillgaps (s\<lparr>sy_sync_data := sd, sy_eof := False\<rparr>)
                 | None \<Rightarrow> Inr (schedule_update_sync_data s)))
      else Inr s)"

text \<open>One turn of the event loop; \<open>fetch\<close> is the outcome of \<^verbatim>\<open>SyncData::try_fetch\<close> (\<open>None\<close> an error).\<close>

definition handle_syncer_event ::
  "(sync_range \<Rightarrow> sync_data option) \<Rightarrow> syncer_event \<Rightarrow> syncer \<Rightarrow> syncer result" where
  "handle_syncer_event fetch ev s =
     (case ev of
        SyAsk ask \<Rightarrow>
          (if sy_active s = None
           then (case ask of
                   AskComplete \<Rightarrow> (if sy_highest s \<noteq> 0 then sy_complete s else Inr (s\<lparr>sy_first_ask := Some ask\<rparr>))
                 | AskFillGaps \<Rightarrow> (if sy_highest s \<noteq> 0 then fill_gaps s else Inr (s\<lparr>sy_first_ask := Some ask\<rparr>))
                 | AskUpdateSyncData \<Rightarrow> update_sync fetch s)
           else Inr s)
      | SyMilestoneData md \<Rightarrow> sy_handle_milestone_data md s
      | SyUnreachable mi \<Rightarrow>
          rbind (handle_skip (emit (AlertUnreachable mi) (s\<lparr>sy_pending := sy_pending s - 1\<rparr>)))
            trigger_process_more
      | SyShutdown \<Rightarrow> Inr s)"

fun syncer_loop ::
  "(sync_range \<Rightarrow> sync_data option) \<Rightarrow> syncer_event list \<Rightarrow> syncer \<Rightarrow> syncer result" where
  "syncer_loop fetch [] s = Inr s"
| "syncer_loop fetch (ev # evs) s =
     (if ev = SyShutdown then Inr s
      else rbind (handle_syncer_event fetch ev s) (syncer_loop fetch evs))"

section \<open>Requests in a well-formed environment\<close>

text \<open>There is a solidifier for every remainder, and at least one request at a time.\<close>

definition sy_env :: "syncer \<Rightarrow> bool" where
  "sy_env s \<longleftrightarrow> sy_solidifier_count s \<noteq> 0 \<and> {..< sy_solidifier_count s} \<subseteq> set (sy_solidifiers s) \<and>
     sy_parallelism s \<noteq> 0"

definition solidifier_of :: "syncer \<Rightarrow> u32 \<Rightarrow> u8" where
  "solidifier_of s mi = ucast (mi mod ucast (sy_solidifier_count s))"

abbreviation ask_out :: "syncer \<Rightarrow> u32 \<Rightarrow> syncer_out" where
  "ask_out s mi \<equiv> ToSolidifier (solidifier_of s mi) mi"

lemma ucast_mod_less:
  fixes c :: u8 and x :: u32
  assumes "c \<noteq> 0"
  shows "(ucast (x mod ucast c) :: u8) < c"
proof -
  have c: "unat (ucast c :: u32) = unat c"
    by (simp add: unsigned_ucast_eq take_bit_nat_eq_self unsigned_less [THEN order_less_le_trans])
  have "0 < unat c" using assms by (simp add: unat_gt_0)
  then have lt: "unat x mod unat c < unat c" by simp
  have "unat c < 2 ^ 8" using unsigned_less [of c] by simp
  with lt have "unat x mod unat c < 2 ^ 8" by linarith
  moreover have "unat (x mod ucast c) = unat x mod unat c" by (simp only: unat_mod c)
  moreover have "unat (ucast (x mod ucast c) :: u8) = take_bit 8 (unat (x mod ucast c))"
    by (simp add: unsigned_ucast_eq)
  ultimately have "unat (ucast (x mod ucast c) :: u8) = unat x mod unat c"
    by (simp add: take_bit_nat_eq_self)
  with lt show ?thesis by (simp add: word_less_nat_alt)
qed

lemma request_solidify_ok:
  "sy_env s \<Longrightarrow> request_solidify mi s = Inr (emit (ask_out s mi) s)"
  using ucast_mod_less [of "sy_solidifier_count s" mi]
  by (auto simp: request_solidify_def sy_env_def solidifier_of_def Let_def)

lemma solidifier_of_cong: "sy_solidifier_count s' = sy_solidifier_count s \<Longrightarrow> solidifier_of s' = solidifier_of s"
  by (simp add: solidifier_of_def fun_eq_iff)

lemma request_loop_eq:
  assumes "sy_env s" and "sy_active s = Some (k, r)" and "rstart r \<le> rend r"
  shows "\<exists>m \<le> n. m \<le> unat (rend r) - unat (rstart r) \<and> (m < n \<longrightarrow> m = unat (rend r) - unat (rstart r)) \<and>
    request_loop n k r s =
      Inr (m < n \<and> sy_pending s + of_nat m = 0,
           s\<lparr>sy_active := Some (k, r\<lparr>rstart := rstart r + of_nat m\<rparr>), sy_pending := sy_pending s + of_nat m,
             sy_out := sy_out s @ map (ask_out s) (range_list (Range (rstart r) (rstart r + of_nat m)))\<rparr>)"
  using assms
proof (induction n arbitrary: r s)
  case 0
  then show ?case by (cases s) (simp add: range_list_Nil)
next
  case (Suc n)
  show ?case
  proof (cases "rstart r < rend r")
    case False
    then have "rstart r = rend r" using Suc.prems(3) by simp
    then show ?thesis using Suc.prems(2)
      by (intro exI [of _ 0]) (simp add: range_next_def range_list_Nil)
  next
    case True
    let ?r = "r\<lparr>rstart := rstart r + 1\<rparr>"
    let ?s = "(emit (ask_out s (rstart r)) (s\<lparr>sy_active := Some (k, ?r)\<rparr>))\<lparr>sy_pending := sy_pending s + 1\<rparr>"
    have step: "request_loop (Suc n) k r s = request_loop n k ?r ?s"
      using True Suc.prems(1)
      by (simp add: range_next_def request_solidify_ok sy_env_def solidifier_of_def emit_def)
    have len: "unat (rend r) - unat (rstart r) = Suc (unat (rend r) - unat (rstart r + 1))"
      using True unat_succ [OF True] by (simp add: word_less_nat_alt)
    have env: "sy_env ?s" using Suc.prems(1) by (simp add: sy_env_def emit_def)
    have act: "sy_active ?s = Some (k, ?r)" by (simp add: emit_def)
    have le: "rstart ?r \<le> rend ?r" using True by (simp add: range_simps)
    obtain m where m: "m \<le> n" "m \<le> unat (rend r) - unat (rstart r + 1)" "m < n \<longrightarrow> m = unat (rend r) - unat (rstart r + 1)"
      and run: "request_loop n k ?r ?s = Inr (m < n \<and> sy_pending ?s + of_nat m = 0,
           ?s\<lparr>sy_active := Some (k, ?r\<lparr>rstart := rstart ?r + of_nat m\<rparr>), sy_pending := sy_pending ?s + of_nat m,
             sy_out := sy_out ?s @ map (ask_out ?s) (range_list (Range (rstart ?r) (rstart ?r + of_nat m)))\<rparr>)"
      using Suc.IH [OF env act le] by auto
    have lt: "rstart r < rstart r + 1 + of_nat m"
    proof -
      have "unat (rstart r + 1) = Suc (unat (rstart r))" by (rule unat_succ [OF True])
      moreover have "unat (rstart r) + 1 + m \<le> unat (rend r)" using m(2) len True by (simp add: word_less_nat_alt)
      moreover have "unat (rend r) < 2 ^ 32" using unsigned_less [of "rend r"] by simp
      ultimately have "unat (rstart r + 1 + of_nat m) = unat (rstart r) + 1 + m"
        by (simp add: unat_word_ariths unat_of_nat)
      then show ?thesis by (simp add: word_less_nat_alt)
    qed
    have "range_list (Range (rstart r) (rstart r + 1 + of_nat m)) =
        rstart r # range_list (Range (rstart r + 1) (rstart r + 1 + of_nat m))"
      using lt by (subst range_list_Cons) simp_all
    then show ?thesis
      using step run m len
      by (intro exI [of _ "Suc m"]) (simp add: solidifier_of_def emit_def add.assoc add.commute add.left_commute)
  qed
qed


section \<open>Messages in a trace\<close>

fun out_asked :: "syncer_out \<Rightarrow> u32 option" where
  "out_asked (ToSolidifier i mi) = Some mi"
| "out_asked (ToArchiver ev) = None"
| "out_asked (StartPoint n) = None"
| "out_asked ScheduleUpdate = None"
| "out_asked (AlertUnreachable n) = None"

definition asked :: "syncer_out list \<Rightarrow> u32 list" where
  "asked outs = List.map_filter out_asked outs"

fun out_archived :: "syncer_out \<Rightarrow> milestone_data option" where
  "out_archived (ToSolidifier i mi) = None"
| "out_archived (ToArchiver ev) = (case ev of ArMilestoneData md u \<Rightarrow> Some md | ArClose mi \<Rightarrow> None)"
| "out_archived (StartPoint n) = None"
| "out_archived ScheduleUpdate = None"
| "out_archived (AlertUnreachable n) = None"

definition to_archive :: "syncer_out list \<Rightarrow> milestone_data list" where
  "to_archive outs = List.map_filter out_archived outs"

lemma asked_simps [simp]:
  "asked [] = []" "asked (xs @ ys) = asked xs @ asked ys"
  "asked (x # xs) = (case out_asked x of None \<Rightarrow> asked xs | Some mi \<Rightarrow> mi # asked xs)"
  "asked (map (ask_out s) mis) = mis"
  by (induction mis) (simp_all add: asked_def List.map_filter_def split: option.splits)

lemma to_archive_simps [simp]:
  "to_archive [] = []" "to_archive (xs @ ys) = to_archive xs @ to_archive ys"
  "to_archive (x # xs) = (case out_archived x of None \<Rightarrow> to_archive xs | Some md \<Rightarrow> md # to_archive xs)"
  "to_archive (map (ask_out s) mis) = []"
  by (induction mis) (simp_all add: to_archive_def List.map_filter_def split: option.splits)

section \<open>The invariant\<close>

abbreviation heap_ms :: "syncer \<Rightarrow> u32 set" where
  "heap_ms s \<equiv> ms_index ` set (sy_heap s)"

text \<open>
  After the first milestones, with \<open>A\<close> the milestones asked for and not answered: as many as
  \<open>sy_pending\<close>; a range in progress always has some; and unless the range is being skipped, they
  and the buffered ones are exactly the milestones between the next one for the archiver and the
  next one to ask for.
\<close>

definition sy_inv :: "syncer \<Rightarrow> u32 set \<Rightarrow> bool" where
  "sy_inv s A \<longleftrightarrow>
     sy_env s \<and> sy_highest s \<noteq> 0 \<and> sync_data_ok (sy_sync_data s) \<and> unat (sy_pending s) = card A \<and>
     (case sy_active s of
        None \<Rightarrow> A = {} \<and> sy_heap s = [] \<and> \<not> sy_skip s
      | Some (k, r) \<Rightarrow>
          A \<noteq> {} \<and> rend r = sy_gap_end s \<and> sy_gap_start s \<le> sy_next s \<and> sy_next s \<le> rstart r \<and>
          rstart r \<le> rend r \<and> sy_gap_start s < sy_gap_end s \<and> A \<subseteq> {sy_next s ..< rstart r} \<and>
          (\<not> sy_skip s \<longrightarrow> A \<union> heap_ms s = {sy_next s ..< rstart r} \<and> A \<inter> heap_ms s = {} \<and>
             distinct (map ms_index (sy_heap s)) \<and> sy_next s \<notin> heap_ms s))"

lemma sy_env_cong:
  "sy_solidifier_count s' = sy_solidifier_count s \<Longrightarrow> sy_solidifiers s' = sy_solidifiers s \<Longrightarrow>
   sy_parallelism s' = sy_parallelism s \<Longrightarrow> sy_env s' \<longleftrightarrow> sy_env s"
  by (simp add: sy_env_def)

text \<open>A range has just been taken and nothing asked for.\<close>

definition fresh_gap :: "syncer \<Rightarrow> bool" where
  "fresh_gap s \<longleftrightarrow> (\<exists>k r. sy_active s = Some (k, r) \<and> rstart r < rend r \<and> sy_next s = rstart r \<and>
     sy_gap_start s = rstart r \<and> sy_gap_end s = rend r)"

text \<open>Nothing pending, nothing buffered.\<close>

definition idle :: "syncer \<Rightarrow> bool" where
  "idle s \<longleftrightarrow> sy_env s \<and> sy_highest s \<noteq> 0 \<and> sync_data_ok (sy_sync_data s) \<and> sy_pending s = 0 \<and>
     sy_heap s = [] \<and> \<not> sy_skip s"

lemma unat_range_add:
  fixes a b :: u32
  assumes "a \<le> b" and "m \<le> unat b - unat a"
  shows "unat (a + of_nat m) = unat a + m" and "a + of_nat m \<le> b" and "a \<le> a + of_nat m"
proof -
  have "unat b < 2 ^ 32" using unsigned_less [of b] by simp
  moreover have "unat a \<le> unat b" using assms(1) by (simp add: word_le_nat_alt)
  ultimately have "unat a + m < 2 ^ 32" "unat a + m \<le> unat b" using assms(2) by auto
  then show "unat (a + of_nat m) = unat a + m"
    by (simp add: unat_word_ariths unat_of_nat)
  with \<open>unat a + m \<le> unat b\<close> show "a + of_nat m \<le> b" "a \<le> a + of_nat m"
    by (simp_all add: word_le_nat_alt)
qed

lemma card_word_range:
  fixes a b :: "'a::len word"
  assumes "a \<le> b"
  shows "card {a ..< b} = unat b - unat a"
proof -
  have "unat ` {a ..< b} = {unat a ..< unat b}"
  proof (intro equalityI subsetI)
    fix n assume "n \<in> {unat a ..< unat b}"
    then have n: "unat (of_nat n :: 'a word) = n"
      by (metis atLeastLessThan_iff of_nat_inverse order_less_trans unsigned_less)
    then have "of_nat n \<in> {a ..< b}" using \<open>n \<in> _\<close> by (simp add: word_le_nat_alt word_less_nat_alt)
    then show "n \<in> unat ` {a ..< b}" using n by (metis imageI)
  qed (auto simp: word_le_nat_alt word_less_nat_alt)
  moreover have "inj_on unat {a ..< b}" by (intro inj_onI) (simp only: word_unat_eq_iff)
  ultimately show ?thesis by (metis card_image card_atLeastLessThan)
qed

lemma process_fresh:
  assumes "idle s" and "fresh_gap s"
  shows "\<exists>s' new A. process_more s = Inr s' \<and> sy_inv s' A \<and> sy_out s' = sy_out s @ new \<and>
    A = set (asked new) \<and> to_archive new = [] \<and> sy_gap_end s' = sy_gap_end s \<and> sy_next s' = sy_next s \<and>
    (\<exists>k r. sy_active s' = Some (k, r))"
proof -
  obtain k r where act: "sy_active s = Some (k, r)" and lt: "rstart r < rend r" and gap: "sy_next s = rstart r"
    "sy_gap_start s = rstart r" "sy_gap_end s = rend r"
    using assms(2) by (auto simp: fresh_gap_def)
  have env: "sy_env s" and p: "sy_pending s = 0" using assms(1) by (simp_all add: idle_def)
  let ?n = "unat (sy_parallelism s)"
  have n: "?n > 0" using env by (simp add: sy_env_def unat_gt_0)
  obtain m where m: "m \<le> ?n" "m \<le> unat (rend r) - unat (rstart r)" "m < ?n \<longrightarrow> m = unat (rend r) - unat (rstart r)"
    and run: "request_loop ?n k r s =
      Inr (m < ?n \<and> sy_pending s + of_nat m = 0,
           s\<lparr>sy_active := Some (k, r\<lparr>rstart := rstart r + of_nat m\<rparr>), sy_pending := sy_pending s + of_nat m,
             sy_out := sy_out s @ map (ask_out s) (range_list (Range (rstart r) (rstart r + of_nat m)))\<rparr>)"
    using request_loop_eq [OF env act order_less_imp_le [OF lt]] by blast
  let ?m = "of_nat m :: u32" and ?A = "{rstart r ..< rstart r + of_nat m}"
  note add = unat_range_add [OF order_less_imp_le [OF lt] m(2)]
  have pos: "m > 0" using m n lt by (auto simp: word_less_nat_alt)
  have "unat (rend r) < 2 ^ 32" using unsigned_less [of "rend r"] by simp
  then have um: "unat ?m = m" using m(2) by (simp add: unat_of_nat)
  have mne: "?m \<noteq> 0" using um pos by auto
  have strict: "rstart r < rstart r + ?m" using add(1) pos by (simp add: word_less_nat_alt)
  have card: "card ?A = m" using card_word_range [OF add(3)] add(1) by simp
  let ?s = "s\<lparr>sy_active := Some (k, r\<lparr>rstart := rstart r + ?m\<rparr>), sy_pending := ?m,
    sy_out := sy_out s @ map (ask_out s) (range_list (Range (rstart r) (rstart r + ?m)))\<rparr>"
  have res: "process_more s = Inr ?s"
    using act run p mne by (simp add: process_more.simps [of s])
  have "sy_inv ?s ?A"
    using assms(1) gap lt strict add(2) card um
    by (auto simp: sy_inv_def idle_def sy_env_def)
  then show ?thesis
    using res by (intro exI [of _ ?s] exI [of _ ?A]) (simp add: set_range_list)
qed


section \<open>Moving to the next range\<close>

definition work_set :: "work_kind \<Rightarrow> sync_data \<Rightarrow> u32 set" where
  "work_set k sd = (case k of Complete \<Rightarrow> todo sd | FillGaps \<Rightarrow> ranges_set (gaps sd))"

interpretation syncer_work: work_source "take_work k" "work_set k" sync_data_ok for k
proof unfold_locales
  fix s s'
  show "sync_data_ok s \<Longrightarrow> take_work k s = (None, s') \<Longrightarrow> work_set k s = {} \<and> s' = s"
    using uncomplete.none [of s s'] only_gaps.none [of s s']
    by (cases k) (simp_all add: take_work_def work_set_def)
  fix r
  show "sync_data_ok s \<Longrightarrow> take_work k s = (Some r, s') \<Longrightarrow>
    sync_data_ok s' \<and> rstart r < rend r \<and> work_set k s = range_set r \<union> work_set k s' \<and>
    (\<forall>x\<in>work_set k s'. rend r < x)"
    using uncomplete.some [of s r s'] only_gaps.some [of s r s']
    by (cases k) (simp_all add: take_work_def work_set_def)
qed

lemma next_range_idle:
  assumes "idle s" and "sy_active s = None"
  shows "idle (next_range k s) \<and> (sy_active (next_range k s) = None \<or> fresh_gap (next_range k s)) \<and>
    sy_out (next_range k s) = sy_out s"
proof (cases "take_work k (sy_sync_data s)")
  case (Pair ro sd)
  have ok: "sync_data_ok (sy_sync_data s)" using assms(1) by (simp add: idle_def)
  show ?thesis
  proof (cases ro)
    case None
    then have "sd = sy_sync_data s" using syncer_work.none [OF ok] Pair by blast
    then show ?thesis using None Pair assms by (simp add: next_range_def)
  next
    case (Some gap)
    then have "sync_data_ok sd \<and> rstart gap < rend gap" using syncer_work.some [OF ok] Pair by blast
    then show ?thesis using Some Pair assms
      by (auto simp: next_range_def Let_def idle_def fresh_gap_def sy_env_def)
  qed
qed

lemma process_idle:
  assumes "idle s" and "sy_active s = None \<or> fresh_gap s"
  shows "\<exists>s' new A. process_more s = Inr s' \<and> sy_inv s' A \<and> sy_out s' = sy_out s @ new \<and>
    A = set (asked new) \<and> to_archive new = []"
proof (cases "sy_active s")
  case None
  let ?s = "schedule_update_sync_data (s\<lparr>sy_eof := True\<rparr>)"
  have "process_more s = Inr ?s" using None by (simp add: process_more.simps [of s])
  moreover have "sy_inv ?s {}"
    using assms(1) None by (simp add: sy_inv_def idle_def sy_env_def schedule_update_sync_data_def emit_def)
  moreover have "sy_out ?s = sy_out s @ [ScheduleUpdate]" by (simp add: schedule_update_sync_data_def emit_def)
  ultimately show ?thesis by (intro exI [of _ ?s] exI [of _ "[ScheduleUpdate]"] exI [of _ "{}"]) simp
next
  case (Some p)
  then have "fresh_gap s" using assms(2) by simp
  from process_fresh [OF assms(1) this] show ?thesis by blast
qed

definition exhausted :: "syncer \<Rightarrow> bool" where
  "exhausted s \<longleftrightarrow> (\<exists>k r. sy_active s = Some (k, r) \<and> rend r \<le> rstart r)"

definition close_outs :: "syncer \<Rightarrow> syncer_out list" where
  "close_outs s = (if sy_prev_closed s \<noteq> sy_gap_start s \<and> sy_gap_start s \<noteq> sy_next s \<and> sy_archiver s
     then [ToArchiver (ArClose (sy_next s))] else [])"

lemma close_outs_archive [simp]: "asked (close_outs s) = []" "to_archive (close_outs s) = []"
  by (simp_all add: close_outs_def)

lemma sy_out_close: "sy_out (sy_close_log_file s) = sy_out s @ close_outs s"
  by (simp add: sy_close_log_file_def close_outs_def send_archiver_def emit_def)

lemma process_exhausted:
  assumes "idle s" and "exhausted s"
  shows "\<exists>s' new A. process_more s = Inr s' \<and> sy_inv s' A \<and> sy_out s' = sy_out s @ close_outs s @ new \<and>
    A = set (asked new) \<and> to_archive new = []"
proof -
  obtain k r where act: "sy_active s = Some (k, r)" and ex: "rend r \<le> rstart r"
    using assms(2) by (auto simp: exhausted_def)
  let ?c = "(sy_close_log_file s)\<lparr>sy_active := None\<rparr>"
  let ?s2 = "next_range k ?c"
  have p: "sy_pending s = 0" "sy_parallelism s \<noteq> 0" using assms(1) by (auto simp: idle_def sy_env_def)
  then obtain n where "unat (sy_parallelism s) = Suc n" by (metis not0_implies_Suc unat_eq_zero)
  then have loop: "request_loop (unat (sy_parallelism s)) k r s = Inr (True, s)"
    using ex p by (simp add: range_next_def not_less [THEN iffD2])
  have "idle ?c" using assms(1) by (simp add: idle_def sy_env_def)
  from next_range_idle [OF this, of k] have s2: "idle ?s2" "sy_active ?s2 = None \<or> fresh_gap ?s2"
    "sy_out ?s2 = sy_out s @ close_outs s"
    by (simp_all add: sy_out_close)
  then have "process_more s = process_more ?s2"
    using act loop by (simp add: process_more.simps [of s] idle_def)
  with process_idle [OF s2(1,2)] s2(3) show ?thesis by auto
qed


section \<open>Answers\<close>

abbreviation archive_outs :: "syncer \<Rightarrow> milestone_data list \<Rightarrow> syncer_out list" where
  "archive_outs s mds \<equiv>
     (if sy_archiver s then map (\<lambda>md. ToArchiver (ArMilestoneData md (Some (sy_gap_end s)))) mds else [])"

lemma archive_map_simps [simp]:
  "asked (map (\<lambda>md. ToArchiver (ArMilestoneData md u)) mds) = []"
  "to_archive (map (\<lambda>md. ToArchiver (ArMilestoneData md u)) mds) = mds"
  by (induction mds) simp_all

lemma send_expected_ok:
  assumes "length (sy_heap s) \<le> n" and "distinct (map ms_index (sy_heap s))"
    and "\<forall>x\<in>heap_ms s. sy_next s \<le> x \<and> x < b"
  shows "\<exists>m mds heap. send_expected n s = s\<lparr>sy_heap := heap, sy_next := m, sy_out := sy_out s @ archive_outs s mds\<rparr> \<and>
    map ms_index mds = range_list (Range (sy_next s) m) \<and> mset (sy_heap s) = mset mds + mset heap \<and>
    sy_next s \<le> m \<and> m \<notin> ms_index ` set heap"
  using assms
proof (induction n arbitrary: s)
  case 0
  then show ?case
    by (intro exI [of _ "sy_next s"] exI [of _ "[]"] exI [of _ "[]"]) (cases s, simp add: range_list_Nil)
next
  case (Suc n)
  show ?case
  proof (cases "asc_pop (sy_heap s)")
    case None
    then show ?thesis
      by (intro exI [of _ "sy_next s"] exI [of _ "[]"] exI [of _ "[]"]) (cases s, simp add: range_list_Nil)
  next
    case (Some p)
    obtain md heap where p: "p = (md, heap)" by fastforce
    have pop: "mset (sy_heap s) = add_mset md (mset heap)" "\<forall>z\<in>set heap. ms_index md \<le> ms_index z"
      using pop_min_Some [of ms_index "sy_heap s" md heap] Some p by auto
    have len: "length heap \<le> n" using pop_min_length [of ms_index "sy_heap s" md heap] Some p Suc.prems(1) by auto
    have hset: "set (sy_heap s) = insert md (set heap)" using pop(1) by (metis set_mset_add_mset_insert set_mset_mset)
    have dis: "ms_index md \<notin> ms_index ` set heap" "distinct (map ms_index heap)"
    proof -
      have "mset (map ms_index (sy_heap s)) = mset (ms_index md # map ms_index heap)" using pop(1) by simp
      then have "distinct (ms_index md # map ms_index heap)"
        using Suc.prems(2) by (metis mset_eq_imp_distinct_iff)
      then show "ms_index md \<notin> ms_index ` set heap" "distinct (map ms_index heap)" by auto
    qed
    show ?thesis
    proof (cases "sy_next s = ms_index md")
      case False
      have "sy_next s \<notin> ms_index ` set (heap_push md heap)"
        using False pop(2) Suc.prems(3) hset by (fastforce dest: order_antisym)
      then show ?thesis using False Some p pop(1)
        by (intro exI [of _ "sy_next s"] exI [of _ "[]"] exI [of _ "heap_push md heap"]) (cases s, simp add: range_list_Nil)
    next
      case True
      let ?o = "ToArchiver (ArMilestoneData md (Some (sy_gap_end s)))"
      let ?s = "(send_archiver (ArMilestoneData md (Some (sy_gap_end s))) (s\<lparr>sy_heap := heap\<rparr>))\<lparr>sy_next := sy_next s + 1\<rparr>"
      have b: "sy_next s < b" using Suc.prems(3) hset True by auto
      have s: "sy_heap ?s = heap" "sy_next ?s = sy_next s + 1" "sy_archiver ?s = sy_archiver s" "sy_gap_end ?s = sy_gap_end s"
        "sy_out ?s = sy_out s @ (if sy_archiver s then [?o] else [])"
        by (simp_all add: send_archiver_def emit_def)
      have above: "\<forall>x\<in>heap_ms ?s. sy_next ?s \<le> x \<and> x < b"
      proof
        fix x assume x: "x \<in> heap_ms ?s"
        then have "x \<in> heap_ms s" using hset by (auto simp: s)
        then have "sy_next s \<le> x" "x < b" using Suc.prems(3) by auto
        moreover have "x \<in> ms_index ` set heap" using x unfolding s(1) .
        then have "x \<noteq> sy_next s" using dis(1) True by metis
        ultimately show "sy_next ?s \<le> x \<and> x < b" by (simp add: s word_succ_le_iff [OF b])
      qed
      obtain m mds heap' where ih: "send_expected n ?s = ?s\<lparr>sy_heap := heap', sy_next := m, sy_out := sy_out ?s @ archive_outs ?s mds\<rparr>"
        "map ms_index mds = range_list (Range (sy_next s + 1) m)" "mset heap = mset mds + mset heap'"
        "sy_next s + 1 \<le> m" "m \<notin> ms_index ` set heap'"
        using Suc.IH [of ?s] len dis(2) above by (auto simp: s)
      have lt: "sy_next s < m" using ih(4) by (simp add: word_succ_le_iff [OF b])
      have rl: "range_list (Range (sy_next s) m) = sy_next s # range_list (Range (sy_next s + 1) m)"
        using lt by (subst range_list_Cons) simp_all
      have eq: "send_expected (Suc n) s = s\<lparr>sy_heap := heap', sy_next := m, sy_out := sy_out s @ archive_outs s (md # mds)\<rparr>"
        using Some p True ih(1) by (simp add: send_archiver_def emit_def)
      show ?thesis
        using eq rl ih(2-5) pop(1) lt True
        by (intro exI [of _ m] exI [of _ "md # mds"] exI [of _ heap']) (auto simp: order_less_imp_le)
    qed
  qed
qed


lemma trigger_pending: "sy_pending s \<noteq> 0 \<Longrightarrow> trigger_process_more s = Inr s"
  by (simp add: trigger_process_more_def)

lemma trigger_exhausted:
  assumes "idle s" and "exhausted s"
  shows "\<exists>s' new A. trigger_process_more s = Inr s' \<and> sy_inv s' A \<and> sy_out s' = sy_out s @ close_outs s @ new \<and>
    A = set (asked new) \<and> to_archive new = []"
  using process_exhausted [OF assms] assms(1) by (simp add: trigger_process_more_def idle_def)

lemma pending_pred:
  fixes p :: u32
  assumes "unat p = card A" and "x \<in> A" and "finite A"
  shows "unat (p - 1) = card (A - {x})" and "p - 1 = 0 \<longleftrightarrow> A = {x}"
proof -
  have c: "card A > 0" using assms(2,3) by (auto simp: card_gt_0_iff)
  then have "0 < p" using assms(1) by (simp add: word_less_nat_alt)
  then have "unat (p - 1) = unat p - 1" by (rule unat_pred)
  then show u: "unat (p - 1) = card (A - {x})" using assms by simp
  have "p - 1 = 0 \<longleftrightarrow> card (A - {x}) = 0" by (metis u unat_eq_zero)
  also have "\<dots> \<longleftrightarrow> A - {x} = {}" using assms(3) by simp
  also have "\<dots> \<longleftrightarrow> A = {x}" using assms(2) by blast
  finally show "p - 1 = 0 \<longleftrightarrow> A = {x}" .
qed

lemma sy_inv_active:
  assumes "sy_inv s A" and "x \<in> A"
  obtains k r where "sy_active s = Some (k, r)"
  using assms by (cases "sy_active s") (auto simp: sy_inv_def)

lemma skip_ok:
  assumes inv: "sy_inv s A" and x: "x \<in> A"
  shows "\<exists>s' new A'. rbind (handle_skip (s\<lparr>sy_pending := sy_pending s - 1, sy_heap := h, sy_out := sy_out s @ o1\<rparr>))
      trigger_process_more = Inr s' \<and> sy_inv s' A' \<and> sy_out s' = sy_out s @ o1 @ new \<and>
      A' = (A - {x}) \<union> set (asked new) \<and> to_archive new = []"
proof -
  obtain k r where act: "sy_active s = Some (k, r)" using sy_inv_active [OF inv x] by blast
  have p: "unat (sy_pending s) = card A" using inv by (simp add: sy_inv_def)
  note pend = pending_pred [OF p x finite]
  let ?s = "s\<lparr>sy_pending := sy_pending s - 1, sy_heap := h, sy_out := sy_out s @ o1\<rparr>"
  show ?thesis
  proof (cases "A = {x}")
    case True
    let ?s1 = "?s\<lparr>sy_skip := False, sy_heap := [], sy_active := Some (k, consume_range r)\<rparr>"
    have h: "handle_skip ?s = Inr ?s1"
      using True pend act by (simp add: handle_skip_def Let_def)
    have "idle ?s1" "exhausted ?s1"
      using inv True pend act by (auto simp: idle_def exhausted_def sy_inv_def sy_env_def consume_range_def)
    from trigger_exhausted [OF this] obtain s' new A' where
      "trigger_process_more ?s1 = Inr s'" "sy_inv s' A'" "sy_out s' = sy_out ?s1 @ close_outs ?s1 @ new"
      "A' = set (asked new)" "to_archive new = []" by blast
    then show ?thesis using h True
      by (intro exI [of _ s'] exI [of _ "close_outs ?s1 @ new"] exI [of _ A']) simp
  next
    case False
    then have ne: "sy_pending s - 1 \<noteq> 0" "A - {x} \<noteq> {}" using pend x by auto
    let ?s1 = "?s\<lparr>sy_skip := True\<rparr>"
    have "handle_skip ?s = Inr ?s1" using ne by (simp add: handle_skip_def Let_def)
    moreover have "trigger_process_more ?s1 = Inr ?s1" using ne by (intro trigger_pending) simp
    moreover have "sy_inv ?s1 (A - {x})"
      using inv ne act pend(1) by (auto simp: sy_inv_def sy_env_def)
    ultimately show ?thesis
      by (intro exI [of _ ?s1] exI [of _ "[]"] exI [of _ "A - {x}"]) simp
  qed
qed


text \<open>One more request before the expected milestones are handed out: afterwards the asked and the
  buffered milestones together are still those below the next one to ask for.\<close>

lemma solidify_more_ok:
  assumes inv: "sy_inv s A" and x: "ms_index md \<in> A" and ns: "\<not> sy_skip s"
  shows "\<exists>k r A2 o2. try_solidify_one_more
      (s\<lparr>sy_pending := sy_pending s - 1, sy_heap := heap_push md (sy_heap s)\<rparr>) =
      Inr (s\<lparr>sy_pending := of_nat (card A2), sy_heap := heap_push md (sy_heap s), sy_active := Some (k, r),
             sy_out := sy_out s @ o2\<rparr>) \<and>
    A2 = (A - {ms_index md}) \<union> set (asked o2) \<and> to_archive o2 = [] \<and>
    rend r = sy_gap_end s \<and> sy_next s \<le> rstart r \<and> rstart r \<le> rend r \<and>
    A2 \<union> insert (ms_index md) (heap_ms s) = {sy_next s ..< rstart r} \<and> A2 \<inter> insert (ms_index md) (heap_ms s) = {} \<and>
    (A2 = {} \<longrightarrow> rstart r = rend r) \<and> (\<exists>r0. sy_active s = Some (k, r0))"
proof -
  let ?x = "ms_index md"
  obtain k r where act: "sy_active s = Some (k, r)" using sy_inv_active [OF inv x] by blast
  have r: "rend r = sy_gap_end s" "sy_next s \<le> rstart r" "rstart r \<le> rend r"
    and AH: "A \<union> heap_ms s = {sy_next s ..< rstart r}" "A \<inter> heap_ms s = {}"
    and p: "unat (sy_pending s) = card A" and env: "sy_env s"
    using inv ns act by (auto simp: sy_inv_def)
  have pm: "sy_pending s - 1 = of_nat (card (A - {?x}))"
    using pending_pred(1) [OF p x finite] by (metis of_nat_unat ucast_id)
  let ?s = "s\<lparr>sy_pending := sy_pending s - 1, sy_heap := heap_push md (sy_heap s)\<rparr>"
  have union: "(A - {?x}) \<union> insert ?x (heap_ms s) = {sy_next s ..< rstart r}" using AH(1) x by blast
  have inter: "(A - {?x}) \<inter> insert ?x (heap_ms s) = {}" using AH(2) by blast
  show ?thesis
  proof (cases "rstart r < rend r")
    case False
    then have "rstart r = rend r" using r(3) by simp
    moreover have "try_solidify_one_more ?s = Inr (s\<lparr>sy_pending := of_nat (card (A - {?x})), sy_heap := heap_push md (sy_heap s),
        sy_active := Some (k, r), sy_out := sy_out s @ []\<rparr>)"
      using False act by (simp add: try_solidify_one_more_def range_next_def pm)
    ultimately show ?thesis using r union inter act
      by (intro exI [of _ k] exI [of _ r] exI [of _ "A - {?x}"] exI [of _ "[]"]) simp
  next
    case True
    let ?r = "r\<lparr>rstart := rstart r + 1\<rparr>" and ?A = "insert (rstart r) (A - {?x})"
    have notin: "rstart r \<notin> A" "rstart r \<notin> heap_ms s" "rstart r \<noteq> ?x" using AH(1) x by auto
    have card: "card ?A = Suc (card (A - {?x}))" using notin by simp
    have "try_solidify_one_more ?s = Inr (s\<lparr>sy_pending := of_nat (card ?A), sy_heap := heap_push md (sy_heap s),
        sy_active := Some (k, ?r), sy_out := sy_out s @ [ask_out s (rstart r)]\<rparr>)"
      using True act env
      by (simp add: try_solidify_one_more_def range_next_def request_solidify_ok sy_env_def emit_def
          solidifier_of_def pm card add.commute)
    moreover have "?A \<union> insert ?x (heap_ms s) = {sy_next s ..< rstart ?r}"
    proof -
      have "y < rstart r + 1 \<longleftrightarrow> y < rstart r \<or> y = rstart r" for y
        by (simp only: word_less_succ_iff [OF True] order_le_less)
      then have "{sy_next s ..< rstart r + 1} = insert (rstart r) {sy_next s ..< rstart r}"
        using r(2) by (intro set_eqI) (simp only: atLeastLessThan_iff insert_iff, blast)
      then show ?thesis unfolding Un_insert_left union by simp
    qed
    moreover have "?A \<inter> insert ?x (heap_ms s) = {}" using inter notin by auto
    moreover have "sy_next s \<le> rstart ?r"
      using r(2) word_less_succ [OF True] by (simp add: order_less_imp_le order_le_less_trans)
    moreover have "rstart ?r \<le> rend ?r" using True by (simp add: word_succ_le_iff [OF True])
    ultimately show ?thesis using r(1) act
      by (rule_tac x = k in exI, rule_tac x = ?r in exI, rule_tac x = ?A in exI,
          rule_tac x = "[ask_out s (rstart r)]" in exI, intro conjI) (assumption | simp)+
  qed
qed


text \<open>The range in progress stays, or it is finished and closed.\<close>

definition range_goes_on :: "syncer \<Rightarrow> syncer \<Rightarrow> bool" where
  "range_goes_on s s' \<longleftrightarrow> sy_gap_start s' = sy_gap_start s \<and> sy_gap_end s' = sy_gap_end s \<and>
     sy_active s' \<noteq> None \<and> map_option fst (sy_active s') = map_option fst (sy_active s)"

lemma set_split:
  "A \<union> X = R \<Longrightarrow> X = P \<union> H \<Longrightarrow> A \<inter> X = {} \<Longrightarrow> P \<inter> H = {} \<Longrightarrow> A \<union> H = R - P \<and> A \<inter> H = {}"
  by blast

text \<open>The state in which the next requests are made: everything up to \<open>m\<close> has been sent.\<close>

lemma data_sends:
  assumes inv: "sy_inv s A" and x: "ms_index md \<in> A" and ns: "\<not> sy_skip s"
  obtains k r A2 o2 m mds heap where
    "sy_handle_milestone_data md s = trigger_process_more
      (s\<lparr>sy_pending := of_nat (card A2), sy_active := Some (k, r), sy_heap := heap, sy_next := m,
         sy_out := sy_out s @ o2 @ archive_outs s mds\<rparr>)"
    and "A2 = (A - {ms_index md}) \<union> set (asked o2)" "to_archive o2 = []" "rend r = sy_gap_end s"
    "sy_next s \<le> rstart r" "rstart r \<le> rend r"
    and "A2 \<union> insert (ms_index md) (heap_ms s) = {sy_next s ..< rstart r}" "A2 \<inter> insert (ms_index md) (heap_ms s) = {}"
    and "A2 = {} \<longrightarrow> rstart r = rend r" "\<exists>r0. sy_active s = Some (k, r0)"
    and "map ms_index mds = range_list (Range (sy_next s) m)" "mset (heap_push md (sy_heap s)) = mset mds + mset heap"
    and "sy_next s \<le> m" "m \<notin> ms_index ` set heap" "distinct (map ms_index (heap_push md (sy_heap s)))" "m \<le> rstart r"
proof -
  let ?x = "ms_index md"
  obtain k r A2 o2 where t: "try_solidify_one_more
      (s\<lparr>sy_pending := sy_pending s - 1, sy_heap := heap_push md (sy_heap s)\<rparr>) =
      Inr (s\<lparr>sy_pending := of_nat (card A2), sy_heap := heap_push md (sy_heap s), sy_active := Some (k, r),
             sy_out := sy_out s @ o2\<rparr>)"
    and A2: "A2 = (A - {?x}) \<union> set (asked o2)" "to_archive o2 = []" and r: "rend r = sy_gap_end s"
    "sy_next s \<le> rstart r" "rstart r \<le> rend r"
    and AH: "A2 \<union> insert ?x (heap_ms s) = {sy_next s ..< rstart r}" "A2 \<inter> insert ?x (heap_ms s) = {}"
    and A2e: "A2 = {} \<longrightarrow> rstart r = rend r" and act: "\<exists>r0. sy_active s = Some (k, r0)"
    using solidify_more_ok [OF assms] by blast
  define s2 where "s2 = s\<lparr>sy_pending := of_nat (card A2), sy_heap := heap_push md (sy_heap s), sy_active := Some (k, r),
    sy_out := sy_out s @ o2\<rparr>"
  obtain r0 where r0: "sy_active s = Some (k, r0)" using act by blast
  have env: "sy_highest s \<noteq> 0" and dj: "A \<inter> heap_ms s = {}" and dis: "distinct (map ms_index (sy_heap s))"
    using inv ns r0 by (simp_all add: sy_inv_def)
  have xh: "?x \<notin> heap_ms s" using dj x by blast
  have h2: "heap_ms s2 = insert ?x (heap_ms s)" by (simp add: s2_def)
  have d2: "distinct (map ms_index (sy_heap s2))" using dis xh by (simp add: s2_def heap_push_def)
  moreover have "\<forall>y\<in>heap_ms s2. sy_next s2 \<le> y \<and> y < rstart r"
    using AH(1) unfolding h2 by (auto simp: s2_def)
  ultimately obtain m mds heap where e: "send_expected (length (sy_heap s2)) s2 =
      s2\<lparr>sy_heap := heap, sy_next := m, sy_out := sy_out s2 @ archive_outs s2 mds\<rparr>"
    and mds: "map ms_index mds = range_list (Range (sy_next s) m)" "mset (sy_heap s2) = mset mds + mset heap"
    and m: "sy_next s \<le> m" "m \<notin> ms_index ` set heap"
    using send_expected_ok [of s2 "length (sy_heap s2)" "rstart r"] by (auto simp: s2_def)
  have "sy_handle_milestone_data md s = trigger_process_more (s2\<lparr>sy_heap := heap, sy_next := m, sy_out := sy_out s2 @ archive_outs s2 mds\<rparr>)"
    using env ns t e by (simp add: sy_handle_milestone_data_def Let_def s2_def [symmetric])
  also have "s2\<lparr>sy_heap := heap, sy_next := m, sy_out := sy_out s2 @ archive_outs s2 mds\<rparr> =
      s\<lparr>sy_pending := of_nat (card A2), sy_active := Some (k, r), sy_heap := heap, sy_next := m,
        sy_out := sy_out s @ o2 @ archive_outs s mds\<rparr>" by (simp add: s2_def)
  finally have run: "sy_handle_milestone_data md s = trigger_process_more (s\<lparr>sy_pending := of_nat (card A2),
      sy_active := Some (k, r), sy_heap := heap, sy_next := m, sy_out := sy_out s @ o2 @ archive_outs s mds\<rparr>)" .
  have "m \<le> rstart r"
  proof (rule ccontr)
    assume "\<not> m \<le> rstart r"
    then have "rstart r \<in> {sy_next s ..< m}" using r(2) by simp
    also have "\<dots> = ms_index ` set mds" using mds(1) by (metis list.set_map set_range_list range_set_Range)
    also have "\<dots> \<subseteq> heap_ms s2" using mds(2) by (metis Un_upper1 image_mono set_mset_mset set_mset_union)
    finally have "rstart r \<in> {sy_next s ..< rstart r}" using AH(1) h2 by blast
    then show False by simp
  qed
  then show thesis
    using that run A2 r AH A2e act mds m d2 by (simp add: s2_def)
qed

lemma data_ok:
  assumes inv: "sy_inv s A" and x: "ms_index md \<in> A" and ns: "\<not> sy_skip s"
  shows "\<exists>s' new A' m mds. sy_handle_milestone_data md s = Inr s' \<and> sy_inv s' A' \<and>
    sy_out s' = sy_out s @ new \<and> A' = (A - {ms_index md}) \<union> set (asked new) \<and>
    sy_next s \<le> m \<and> m \<le> sy_gap_end s \<and> map ms_index mds = range_list (Range (sy_next s) m) \<and>
    set mds \<subseteq> insert md (set (sy_heap s)) \<and> (sy_archiver s \<longrightarrow> to_archive new = mds) \<and>
    (if m < sy_gap_end s then range_goes_on s s' \<and> sy_next s' = m
     else sy_archiver s \<and> sy_prev_closed s \<noteq> sy_gap_start s \<longrightarrow> ToArchiver (ArClose m) \<in> set new)"
proof -
  let ?x = "ms_index md"
  from data_sends [OF assms] obtain k r A2 o2 m mds heap where
    run3: "sy_handle_milestone_data md s = trigger_process_more
      (s\<lparr>sy_pending := of_nat (card A2), sy_active := Some (k, r), sy_heap := heap, sy_next := m,
         sy_out := sy_out s @ o2 @ archive_outs s mds\<rparr>)"
    and A2: "A2 = (A - {?x}) \<union> set (asked o2)" "to_archive o2 = []" and r: "rend r = sy_gap_end s"
    "sy_next s \<le> rstart r" "rstart r \<le> rend r"
    and AH: "A2 \<union> insert ?x (heap_ms s) = {sy_next s ..< rstart r}" "A2 \<inter> insert ?x (heap_ms s) = {}"
    and A2e: "A2 = {} \<longrightarrow> rstart r = rend r" and act: "\<exists>r0. sy_active s = Some (k, r0)"
    and mds: "map ms_index mds = range_list (Range (sy_next s) m)" and ms0: "mset (heap_push md (sy_heap s)) = mset mds + mset heap"
    and m: "sy_next s \<le> m" "m \<notin> ms_index ` set heap" and d2: "distinct (map ms_index (heap_push md (sy_heap s)))"
    and mr: "m \<le> rstart r"
    by metis
  define s2 where "s2 = s\<lparr>sy_pending := of_nat (card A2), sy_heap := heap_push md (sy_heap s), sy_active := Some (k, r),
    sy_out := sy_out s @ o2\<rparr>"
  define s3 where "s3 = s2\<lparr>sy_heap := heap, sy_next := m, sy_out := sy_out s2 @ archive_outs s2 mds\<rparr>"
  obtain r0 where r0: "sy_active s = Some (k, r0)" using act by blast
  have env: "sy_env s" "sy_highest s \<noteq> 0" "sync_data_ok (sy_sync_data s)" and gap: "sy_gap_start s \<le> sy_next s"
    "sy_gap_start s < sy_gap_end s"
    using inv ns r0 by (simp_all add: sy_inv_def)
  have h2: "heap_ms s2 = insert ?x (heap_ms s)" by (simp add: s2_def)
  have dis2: "distinct (map ms_index (sy_heap s2))" and ms: "mset (sy_heap s2) = mset mds + mset heap"
    using d2 ms0 by (simp_all add: s2_def)
  have sets: "set (sy_heap s2) = set mds \<union> set heap" using ms by (metis set_mset_mset set_mset_union)
  have mdx: "ms_index ` set mds = {sy_next s ..< m}"
    using mds by (metis list.set_map set_range_list range_set_Range)
  have Hs: "insert ?x (heap_ms s) = {sy_next s ..< m} \<union> ms_index ` set heap"
    using h2 sets mdx by (metis image_Un)
  have disj: "{sy_next s ..< m} \<inter> ms_index ` set heap = {}" "distinct (map ms_index heap)"
  proof -
    have "mset (map ms_index (sy_heap s2)) = mset (map ms_index mds @ map ms_index heap)" using ms by simp
    then have "distinct (map ms_index mds @ map ms_index heap)"
      using dis2 by (metis mset_eq_imp_distinct_iff)
    then show "{sy_next s ..< m} \<inter> ms_index ` set heap = {}" "distinct (map ms_index heap)"
      using mdx by auto
  qed
  have AH3: "A2 \<union> ms_index ` set heap = {m ..< rstart r}" "A2 \<inter> ms_index ` set heap = {}"
  proof -
    note set_split [OF AH(1) Hs AH(2) disj(1)]
    moreover have "{sy_next s ..< rstart r} - {sy_next s ..< m} = {m ..< rstart r}"
      using m(1) mr by (auto simp: not_less)
    ultimately show "A2 \<union> ms_index ` set heap = {m ..< rstart r}" "A2 \<inter> ms_index ` set heap = {}"
      by simp_all
  qed
  have card: "unat (of_nat (card A2) :: u32) = card A2"
  proof -
    have "card A2 \<le> card {sy_next s ..< rstart r}" using AH(1) by (intro card_mono) auto
    also have "\<dots> \<le> unat (rstart r)" using card_word_range [OF r(2)] by simp
    also have "\<dots> < 2 ^ 32" using unsigned_less [of "rstart r"] by simp
    finally show ?thesis by (simp add: unat_of_nat)
  qed
  have run: "sy_handle_milestone_data md s = trigger_process_more s3"
    unfolding run3 by (simp add: s3_def s2_def)
  have out3: "sy_out s3 = sy_out s @ o2 @ archive_outs s mds" by (simp add: s3_def s2_def)
  have sub: "set mds \<subseteq> insert md (set (sy_heap s))" using sets by (auto simp: s2_def)
  show ?thesis
  proof (cases "A2 = {}")
    case False
    then have p: "sy_pending s3 \<noteq> 0" using card by (simp add: s3_def s2_def) (metis card_eq_0_iff finite unsigned_0)
    have lt: "m < sy_gap_end s"
    proof -
      obtain a where "a \<in> {m ..< rstart r}" using False AH3(1) by blast
      then show ?thesis using r(1,3) by (auto dest: order_le_less_trans order_less_le_trans)
    qed
    have "sy_inv s3 A2"
      using env gap r False AH3 m mr disj(2) card ns
      by (auto simp: sy_inv_def s3_def s2_def sy_env_def)
    moreover have "range_goes_on s s3 \<and> sy_next s3 = m"
      using act by (auto simp: range_goes_on_def s3_def s2_def)
    ultimately show ?thesis
      using run trigger_pending [OF p] out3 A2 m mds sub lt
      by (rule_tac x = s3 in exI, rule_tac x = "o2 @ archive_outs s mds" in exI, rule_tac x = A2 in exI,
          rule_tac x = m in exI, rule_tac x = mds in exI) (simp add: order_less_imp_le)
  next
    case True
    then have rr: "rstart r = rend r" using A2e by simp
    have meq: "m = rend r" "heap = []"
    proof -
      have h: "ms_index ` set heap = {m ..< rstart r}" using AH3(1) True by simp
      then show "m = rend r" using m(2) mr rr by (metis atLeastLessThan_iff order_le_less)
      then show "heap = []" using h rr by simp
    qed
    have "idle s3" "exhausted s3"
      using env True ns meq rr by (auto simp: idle_def exhausted_def s3_def s2_def sy_env_def)
    from trigger_exhausted [OF this] obtain s' new A' where tr: "trigger_process_more s3 = Inr s'" "sy_inv s' A'"
      "sy_out s' = sy_out s3 @ close_outs s3 @ new" "A' = set (asked new)" "to_archive new = []"
      by blast
    have cl: "sy_archiver s \<and> sy_prev_closed s \<noteq> sy_gap_start s \<longrightarrow> close_outs s3 = [ToArchiver (ArClose m)]"
      using gap(2) meq r(1) by (auto simp: close_outs_def s3_def s2_def)
    have "A - {?x} = {}" "asked o2 = []" using True A2(1) by auto
    then show ?thesis
      using run tr out3 A2(2) m mds sub meq r(1) cl
      by (rule_tac x = s' in exI, rule_tac x = "o2 @ archive_outs s mds @ close_outs s3 @ new" in exI,
          rule_tac x = A' in exI, rule_tac x = m in exI, rule_tac x = mds in exI) auto
  qed
qed



section \<open>Runs of answers\<close>

fun answered :: "syncer_event \<Rightarrow> u32 option" where
  "answered (SyMilestoneData md) = Some (ms_index md)"
| "answered (SyUnreachable x) = Some x"
| "answered (SyAsk a) = None"
| "answered SyShutdown = None"

text \<open>The solidifiers answer, in any order, milestones that were asked for and not answered yet.\<close>

inductive sy_run ::
  "(sync_range \<Rightarrow> sync_data option) \<Rightarrow> syncer \<Rightarrow> u32 set \<Rightarrow> syncer \<Rightarrow> u32 set \<Rightarrow> bool"
  for fetch s A where
  run_start: "sy_run fetch s A s A"
| run_answer: "sy_run fetch s A s1 A1 \<Longrightarrow> answered ev = Some x \<Longrightarrow> x \<in> A1 \<Longrightarrow>
    handle_syncer_event fetch ev s1 = Inr s2 \<Longrightarrow>
    sy_run fetch s A s2 ((A1 - {x}) \<union> set (asked (drop (length (sy_out s1)) (sy_out s2))))"

inductive_cases sy_run_cases: "sy_run fetch s A s' A'"

lemma answer_ok:
  assumes inv: "sy_inv s A" and ev: "answered ev = Some x" and x: "x \<in> A"
  shows "\<exists>s' new. handle_syncer_event fetch ev s = Inr s' \<and> sy_out s' = sy_out s @ new \<and>
    sy_inv s' ((A - {x}) \<union> set (asked new))"
proof (cases ev)
  case (SyMilestoneData md)
  then have xm: "x = ms_index md" using ev by simp
  show ?thesis
  proof (cases "sy_skip s")
    case False
    from data_ok [OF inv _ False, of md] x xm SyMilestoneData show ?thesis
      by (auto simp: handle_syncer_event_def)
  next
    case True
    have "sy_handle_milestone_data md s =
        rbind (handle_skip (s\<lparr>sy_pending := sy_pending s - 1, sy_heap := heap_push md (sy_heap s), sy_out := sy_out s @ []\<rparr>))
          trigger_process_more"
      using True inv by (simp add: sy_handle_milestone_data_def Let_def sy_inv_def)
    with skip_ok [OF inv x, of "[]" "heap_push md (sy_heap s)"] SyMilestoneData show ?thesis
      by (auto simp: handle_syncer_event_def)
  qed
next
  case (SyUnreachable y)
  then have "y = x" using ev by simp
  then have "handle_syncer_event fetch ev s =
      rbind (handle_skip (s\<lparr>sy_pending := sy_pending s - 1, sy_heap := sy_heap s, sy_out := sy_out s @ [AlertUnreachable x]\<rparr>))
        trigger_process_more"
    using SyUnreachable by (simp add: handle_syncer_event_def emit_def)
  with skip_ok [OF inv x, of "[AlertUnreachable x]" "sy_heap s"] show ?thesis by auto
qed (use ev in auto)

lemma run_inv: "sy_run fetch s A s' A' \<Longrightarrow> sy_inv s A \<Longrightarrow> sy_inv s' A'"
proof (induction rule: sy_run.induct)
  case (run_answer s1 A1 ev x s2)
  then obtain new where "sy_out s2 = sy_out s1 @ new" "sy_inv s2 ((A1 - {x}) \<union> set (asked new))"
    using answer_ok [of s1 A1 ev x fetch] by auto
  then show ?case by simp
qed

section \<open>The first milestones\<close>

lemma send_first_ok:
  assumes "length (sy_heap s) \<le> n" and "\<forall>md\<in>set (sy_heap s). ms_index md \<noteq> 0" and "sy_highest s \<noteq> 0"
  shows "\<exists>nxt' h ds new. send_first n nxt s = (nxt', s\<lparr>sy_heap := [], sy_highest := h, sy_out := sy_out s @ new\<rparr>) \<and>
    h \<noteq> 0 \<and> asked new = [] \<and> (sy_archiver s \<longrightarrow> to_archive new = ds) \<and> asc.drains (sy_heap s) ds [] \<and>
    nxt' = (if ds = [] then nxt else ms_index (last ds) + 1)"
  using assms
proof (induction n arbitrary: s nxt)
  case 0
  then show ?case
    by (intro exI [of _ nxt] exI [of _ "sy_highest s"] exI [of _ "[]"]) (cases s, simp add: asc.drains_none)
next
  case (Suc n)
  show ?case
  proof (cases "asc_pop (sy_heap s)")
    case None
    then show ?thesis using Suc.prems(3)
      by (intro exI [of _ nxt] exI [of _ "sy_highest s"] exI [of _ "[]"]) (cases s, simp add: asc.drains_none)
  next
    case (Some p)
    obtain md heap where p: "p = (md, heap)" by fastforce
    have len: "length heap \<le> n" using pop_min_length [of ms_index "sy_heap s" md heap] Some p Suc.prems(1) by auto
    have hs: "set (sy_heap s) = insert md (set heap)" using pop_min_set [of ms_index "sy_heap s" md heap] Some p by auto
    define s1 where "s1 = (let s = s\<lparr>sy_heap := heap\<rparr>;
       s = (if nxt \<noteq> ms_index md then (send_archiver (ArClose nxt) s)\<lparr>sy_highest := ms_index md\<rparr> else s)
       in send_archiver (ArMilestoneData md None) s)"
    have run: "send_first (Suc n) nxt s = send_first n (ms_index md + 1) s1"
      using Some p by (simp add: s1_def Let_def)
    obtain h o1 where s1: "s1 = s\<lparr>sy_heap := heap, sy_highest := h, sy_out := sy_out s @ o1\<rparr>" "h \<noteq> 0" "asked o1 = []"
      "sy_archiver s \<longrightarrow> to_archive o1 = [md]"
    proof -
      let ?h = "if nxt \<noteq> ms_index md then ms_index md else sy_highest s"
      let ?c = "if nxt \<noteq> ms_index md then [ToArchiver (ArClose nxt)] else []"
      let ?o = "if sy_archiver s then ?c @ [ToArchiver (ArMilestoneData md None)] else []"
      have "s1 = s\<lparr>sy_heap := heap, sy_highest := ?h, sy_out := sy_out s @ ?o\<rparr>"
        by (cases s) (simp add: s1_def Let_def send_archiver_def emit_def)
      moreover have "ms_index md \<noteq> 0" using Suc.prems(2) hs by simp
      ultimately show thesis using Suc.prems(3) by (intro that [of ?o ?h]) auto
    qed
    have ih: "\<exists>nxt' h' ds new. send_first n (ms_index md + 1) s1 =
        (nxt', s1\<lparr>sy_heap := [], sy_highest := h', sy_out := sy_out s1 @ new\<rparr>) \<and>
        h' \<noteq> 0 \<and> asked new = [] \<and> (sy_archiver s1 \<longrightarrow> to_archive new = ds) \<and> asc.drains (sy_heap s1) ds [] \<and>
        nxt' = (if ds = [] then ms_index md + 1 else ms_index (last ds) + 1)"
      using Suc.IH [of s1 "ms_index md + 1"] len Suc.prems(2) hs s1 by simp
    then obtain nxt' h' ds new where r: "send_first n (ms_index md + 1) s1 =
        (nxt', s1\<lparr>sy_heap := [], sy_highest := h', sy_out := sy_out s1 @ new\<rparr>)" "h' \<noteq> 0" "asked new = []"
        "sy_archiver s1 \<longrightarrow> to_archive new = ds" "asc.drains heap ds []"
        "nxt' = (if ds = [] then ms_index md + 1 else ms_index (last ds) + 1)"
      using s1(1) by auto
    have "asc.drains (sy_heap s) (md # ds) []"
      using asc.drains_some [of "sy_heap s" md heap ds "[]"] Some p r(5) by simp
    then show ?thesis
      using run r s1
      by (intro exI [of _ nxt'] exI [of _ h'] exI [of _ "md # ds"] exI [of _ "o1 @ new"]) auto
  qed
qed


lemma complete_or_fillgaps_ok:
  assumes "idle s" and "sy_active s = None"
  shows "\<exists>s' new A. complete_or_fillgaps s = Inr s' \<and> sy_inv s' A \<and> sy_out s' = sy_out s @ new \<and>
    A = set (asked new) \<and> to_archive new = []"
proof -
  have go: "\<exists>s' new A. trigger_process_more (next_range k s) = Inr s' \<and> sy_inv s' A \<and> sy_out s' = sy_out s @ new \<and>
    A = set (asked new) \<and> to_archive new = []" for k
  proof -
    from next_range_idle [OF assms, of k] have i: "idle (next_range k s)"
      "sy_active (next_range k s) = None \<or> fresh_gap (next_range k s)" "sy_out (next_range k s) = sy_out s" by auto
    then have "trigger_process_more (next_range k s) = process_more (next_range k s)"
      by (simp add: trigger_process_more_def idle_def)
    with process_idle [OF i(1,2)] i(3) show ?thesis by simp
  qed
  have inv: "sy_inv s {}" using assms by (simp add: sy_inv_def idle_def)
  show ?thesis
  proof (cases "sy_first_ask s = Some AskComplete \<or> sy_first_ask s = Some AskFillGaps")
    case True
    then show ?thesis using go [of Complete] go [of FillGaps]
      by (auto simp: complete_or_fillgaps_def sy_complete_def fill_gaps_def)
  next
    case False
    then have "complete_or_fillgaps s = Inr s"
      by (auto simp: complete_or_fillgaps_def split: option.splits ask_syncer.splits)
    then show ?thesis using inv by (intro exI [of _ s] exI [of _ "[]"] exI [of _ "{}"]) simp
  qed
qed

lemma trigger_inv:
  assumes "sy_inv s A"
  shows "\<exists>s' new A'. trigger_process_more s = Inr s' \<and> sy_inv s' A' \<and> sy_out s' = sy_out s @ new \<and>
    A' = A \<union> set (asked new) \<and> to_archive new = []"
proof (cases "sy_pending s = 0")
  case False
  then show ?thesis using assms
    by (intro exI [of _ s] exI [of _ "[]"] exI [of _ A]) (simp add: trigger_process_more_def)
next
  case True
  then have "card A = 0" using assms by (simp add: sy_inv_def)
  then have A: "A = {}" by simp
  have act: "sy_active s = None" using assms A by (cases "sy_active s") (auto simp: sy_inv_def)
  have "idle s" using assms True act by (simp add: sy_inv_def idle_def)
  from process_idle [OF this] act A True show ?thesis by (auto simp: trigger_process_more_def)
qed

text \<open>The state before the last of the first milestones arrives.\<close>

definition first_phase :: "nat \<Rightarrow> milestone_data list \<Rightarrow> syncer \<Rightarrow> bool" where
  "first_phase n mds s \<longleftrightarrow> sy_env s \<and> sync_data_ok (sy_sync_data s) \<and> sy_highest s = 0 \<and> sy_oneshot s \<and>
     sy_active s = None \<and> \<not> sy_skip s \<and> unat (sy_pending s) = n \<and> sy_heap s = mds \<and> sy_out s = []"

lemma first_collect:
  assumes "first_phase (Suc (Suc n)) mds s"
  shows "\<exists>s'. handle_syncer_event fetch (SyMilestoneData md) s = Inr s' \<and> first_phase (Suc n) (mds @ [md]) s'"
proof -
  have p: "unat (sy_pending s) = Suc (Suc n)" using assms by (simp add: first_phase_def)
  then have "0 < sy_pending s" by (simp add: word_less_nat_alt)
  then have p1: "unat (sy_pending s - 1) = Suc n" using unat_pred [of 0 "sy_pending s"] p by simp
  then have "sy_pending s - 1 \<noteq> 0" by (metis nat.distinct(1) unsigned_0)
  with p1 assms show ?thesis
    by (auto simp: handle_syncer_event_def sy_handle_milestone_data_def Let_def first_phase_def
        trigger_process_more_def heap_push_def sy_env_def)
qed

lemma first_last:
  assumes ph: "first_phase 1 mds s" and nz: "\<forall>m\<in>set (md # mds). ms_index m \<noteq> 0"
  shows "\<exists>s' ds. handle_syncer_event fetch (SyMilestoneData md) s = Inr s' \<and> sy_inv s' (set (asked (sy_out s'))) \<and>
    asc.drains (mds @ [md]) ds [] \<and> (sy_archiver s \<longrightarrow> to_archive (sy_out s') = ds) \<and>
    StartPoint (ms_index (last ds) + 1) \<in> set (sy_out s')"
proof -
  have "sy_pending s = 1" using ph by (simp add: first_phase_def word_unat_eq_iff)
  then have p0: "sy_pending s - 1 = 0" by simp
  obtain m h where pop: "asc_pop (mds @ [md]) = Some (m, h)" by (cases "asc_pop (mds @ [md])") auto
  have hs: "insert m (set h) = set (md # mds)" using pop_min_set [OF pop] by auto
  define s1 where "s1 = send_archiver (ArMilestoneData m None)
    (s\<lparr>sy_pending := 0, sy_heap := h, sy_highest := ms_index m\<rparr>)"
  have s1: "sy_heap s1 = h" "sy_highest s1 = ms_index m" "sy_archiver s1 = sy_archiver s" "asked (sy_out s1) = []"
    "sy_archiver s \<longrightarrow> to_archive (sy_out s1) = [m]"
    using ph by (auto simp: s1_def send_archiver_def emit_def first_phase_def)
  have hz: "\<forall>x\<in>set (sy_heap s1). ms_index x \<noteq> 0" "sy_highest s1 \<noteq> 0" using nz hs s1 by auto
  obtain nxt hi ds new where sf: "send_first (length h) (ms_index m + 1) s1 =
      (nxt, s1\<lparr>sy_heap := [], sy_highest := hi, sy_out := sy_out s1 @ new\<rparr>)" "hi \<noteq> 0" "asked new = []"
      "sy_archiver s \<longrightarrow> to_archive new = ds" "asc.drains h ds []"
      "nxt = (if ds = [] then ms_index m + 1 else ms_index (last ds) + 1)"
    using send_first_ok [OF _ hz, of "length h" "ms_index m + 1"] s1 by auto
  define s3 where "s3 = send_archiver (ArClose nxt) (emit (StartPoint nxt)
     (s1\<lparr>sy_heap := [], sy_highest := hi, sy_out := sy_out s1 @ new, sy_oneshot := False\<rparr>))"
  have i3: "idle s3" "sy_active s3 = None"
    using ph p0 sf(2) by (auto simp: s3_def s1_def send_archiver_def emit_def idle_def first_phase_def sy_env_def)
  have o3: "asked (sy_out s3) = []" "sy_archiver s \<longrightarrow> to_archive (sy_out s3) = m # ds" "StartPoint nxt \<in> set (sy_out s3)"
    using s1 sf by (auto simp: s3_def send_archiver_def emit_def)
  obtain s4 n4 A4 where s4: "complete_or_fillgaps s3 = Inr s4" "sy_inv s4 A4" "sy_out s4 = sy_out s3 @ n4"
    "A4 = set (asked n4)" "to_archive n4 = []" using complete_or_fillgaps_ok [OF i3] by blast
  obtain s5 n5 A5 where s5: "trigger_process_more s4 = Inr s5" "sy_inv s5 A5" "sy_out s5 = sy_out s4 @ n5"
    "A5 = A4 \<union> set (asked n5)" "to_archive n5 = []" using trigger_inv [OF s4(2)] by blast
  have one: "sy_oneshot s1" using ph by (simp add: s1_def send_archiver_def emit_def first_phase_def)
  have "handle_syncer_event fetch (SyMilestoneData md) s = Inr s5"
    using ph p0 pop sf(1) s4(1) s5(1) one
    by (simp add: handle_syncer_event_def sy_handle_milestone_data_def Let_def first_phase_def heap_push_def
        s1_def [symmetric] s3_def [symmetric])
  moreover have "asc.drains (mds @ [md]) (m # ds) []" using asc.drains_some [OF pop sf(5)] .
  moreover have "ms_index (last (m # ds)) + 1 = nxt" using sf(6) by simp
  ultimately show ?thesis
    using s4 s5 o3 by (intro exI [of _ s5] exI [of _ "m # ds"]) auto
qed


lemma first_rounds:
  assumes "first_phase (length (md # mds)) h s" and "\<forall>m\<in>set (h @ md # mds). ms_index m \<noteq> 0"
  shows "\<exists>s' ds. syncer_loop fetch (map SyMilestoneData (md # mds)) s = Inr s' \<and> sy_inv s' (set (asked (sy_out s'))) \<and>
    asc.drains (h @ md # mds) ds [] \<and> (sy_archiver s \<longrightarrow> to_archive (sy_out s') = ds) \<and>
    StartPoint (ms_index (last ds) + 1) \<in> set (sy_out s')"
  using assms
proof (induction mds arbitrary: md h s)
  case Nil
  then have "first_phase 1 h s" "\<forall>m\<in>set (md # h). ms_index m \<noteq> 0" by auto
  from first_last [OF this, of fetch] obtain s' ds where
    "handle_syncer_event fetch (SyMilestoneData md) s = Inr s'" "sy_inv s' (set (asked (sy_out s')))"
    "asc.drains (h @ [md]) ds []" "sy_archiver s \<longrightarrow> to_archive (sy_out s') = ds"
    "StartPoint (ms_index (last ds) + 1) \<in> set (sy_out s')" by blast
  then show ?case by auto
next
  case (Cons m2 mds)
  then obtain s1 where s1: "handle_syncer_event fetch (SyMilestoneData md) s = Inr s1"
    "first_phase (length (m2 # mds)) (h @ [md]) s1"
    using first_collect [of "length mds" h s fetch md] by auto
  have "sy_archiver s1 = sy_archiver s"
    using s1(1) Cons.prems(1)
    by (auto simp: handle_syncer_event_def sy_handle_milestone_data_def Let_def first_phase_def trigger_process_more_def
        split: if_splits)
  then show ?case using Cons.IH [OF s1(2)] Cons.prems(2) s1(1) by simp
qed


section \<open>Properties of the syncer\<close>

text \<open>
  C9. The syncer never stalls and never panics while the solidifiers answer what they are asked: in
  every state reached from a consistent one by answers (data or unreachable, in any order), the
  pending counter is the number of unanswered requests, a range in progress has at least one, and
  any of the answers can be processed.
\<close>

theorem syncer_never_stalls:
  assumes "sy_inv s A" and "sy_run fetch s A s' A'"
  shows "unat (sy_pending s') = card A' \<and> (if sy_active s' = None then A' = {} else A' \<noteq> {}) \<and>
    (if answered ev = Some x \<and> x \<in> A' then \<exists>s''. handle_syncer_event fetch ev s' = Inr s'' else True)"
proof -
  have inv: "sy_inv s' A'" by (rule run_inv [OF assms(2,1)])
  have p: "unat (sy_pending s') = card A'" using inv by (simp add: sy_inv_def)
  have a: "if sy_active s' = None then A' = {} else A' \<noteq> {}"
    using inv by (cases "sy_active s'") (simp_all add: sy_inv_def split: prod.splits)
  have "if answered ev = Some x \<and> x \<in> A' then \<exists>s''. handle_syncer_event fetch ev s' = Inr s'' else True"
  proof (cases "answered ev = Some x \<and> x \<in> A'")
    case True
    then obtain s'' where "handle_syncer_event fetch ev s' = Inr s''"
      using answer_ok [OF inv, of ev x fetch] by blast
    then show ?thesis by simp
  next
    case False
    then show ?thesis by (simp only: if_False)
  qed
  with p a show ?thesis by blast
qed

definition wit_syncer :: syncer where
  "wit_syncer = (new_syncer \<lparr>completed = [], synced_but_unlogged = [Range 7 8], gaps = [Range 20 i32_max, Range 4 7]\<rparr>
     None [0, 1] None (Some AskComplete) True True)
     \<lparr>sy_highest := 30, sy_pending := 2, sy_active := Some (Complete, Range 6 8), sy_next := 4,
      sy_gap_start := 4, sy_gap_end := 8, sy_sync_data := \<lparr>completed = [], synced_but_unlogged = [],
        gaps = [Range 20 i32_max]\<rparr>\<rparr>"

abbreviation wit_md :: "u32 \<Rightarrow> milestone_data" where
  "wit_md i \<equiv> new_milestone_data i Syncer_C"

lemma wit_syncer_inv: "sy_inv wit_syncer {4, 5}"
proof -
  have "{4..<6::u32} = set (range_list (Range 4 6))" by (simp add: set_range_list)
  also have "\<dots> = {4, 5}" by (simp add: range_list_def upt_rec)
  finally have r: "{4..<6::u32} = {4, 5}" .
  have w: "x \<in> {0, 1}" if "x < 2" for x :: u8
  proof -
    have "unat x < 2" using that by (simp add: word_less_nat_alt)
    then have "unat x = unat (0::u8) \<or> unat x = unat (1::u8)" unfolding unsigned_0 unsigned_1 by linarith
    then show ?thesis unfolding word_unat_eq_iff [symmetric] by blast
  qed
  have f: "sy_highest wit_syncer = 30" "sy_pending wit_syncer = 2" "sy_active wit_syncer = Some (Complete, Range 6 8)"
    "sy_next wit_syncer = 4" "sy_gap_start wit_syncer = 4" "sy_gap_end wit_syncer = 8" "sy_heap wit_syncer = []"
    "\<not> sy_skip wit_syncer" "sy_solidifier_count wit_syncer = 2" "sy_solidifiers wit_syncer = [0, 1]"
    "sy_parallelism wit_syncer = 2"
    by (simp_all add: wit_syncer_def new_syncer_def)
  have "{..<2} \<subseteq> {0, 1::u8}" by (rule subsetI) (rule w, simp)
  then have "sy_env wit_syncer" by (simp add: sy_env_def f)
  moreover have "sync_data_ok (sy_sync_data wit_syncer)"
    by (simp add: sync_data_ok_def wit_syncer_def i32_max_def)
  moreover have "unat (2::u32) = card {4, 5::u32}" by simp
  ultimately show ?thesis by (simp add: sy_inv_def f r)
qed

lemma syncer_never_stalls_witness:
  "\<exists>s'. handle_syncer_event (\<lambda>_. None) (SyMilestoneData (wit_md 5)) wit_syncer = Inr s' \<and>
     unat (sy_pending s') = card {4, 6::u32} \<and> (if sy_active s' = None then {4, 6} = ({}::u32 set) else {4, 6} \<noteq> ({}::u32 set)) \<and>
     (\<exists>s''. handle_syncer_event (\<lambda>_. None) (SyUnreachable 6) s' = Inr s'')"
proof -
  obtain s' where s': "handle_syncer_event (\<lambda>_. None) (SyMilestoneData (wit_md 5)) wit_syncer = Inr s'"
    "asked (drop (length (sy_out wit_syncer)) (sy_out s')) = [6]"
  proof -
    have "case handle_syncer_event (\<lambda>_. None) (SyMilestoneData (wit_md 5)) wit_syncer of Inl e \<Rightarrow> False
      | Inr s' \<Rightarrow> asked (drop (length (sy_out wit_syncer)) (sy_out s')) = [6]" by code_simp
    then show thesis using that by (auto split: sum.splits)
  qed
  have "sy_run (\<lambda>_. None) wit_syncer {4, 5} s' (({4, 5} - {5}) \<union> set (asked (drop (length (sy_out wit_syncer)) (sy_out s'))))"
    by (rule run_answer [OF run_start _ _ s'(1)]) (simp_all add: new_milestone_data_def)
  moreover have "({4, 5} - {5}) \<union> set (asked (drop (length (sy_out wit_syncer)) (sy_out s'))) = {4, 6::u32}"
    unfolding s'(2) by auto
  ultimately have run: "sy_run (\<lambda>_. None) wit_syncer {4, 5} s' {4, 6}" by simp
  from syncer_never_stalls [OF wit_syncer_inv run, of "SyUnreachable 6" 6] s'(1) show ?thesis by auto
qed



text \<open>
  C11. The first milestones, one per solidifier and unasked for: after the last of them arrives the
  syncer is in a consistent state, has sent all of them to the archiver in ascending order, and has
  sent the point from which the archiver takes over incoming data, one above the highest.
\<close>

theorem syncer_first_milestones:
  assumes "sync_data_ok sd" and "0 < n" and "n < 256" and "length mds = n" and "0 \<notin> ms_index ` set mds"
    and "par \<noteq> Some 0"
  shows "\<exists>s. syncer_loop fetch (map SyMilestoneData mds) (new_syncer sd sr (map of_nat [0..<n]) par ask True True) = Inr s \<and>
    sy_inv s (set (asked (sy_out s))) \<and> mset (to_archive (sy_out s)) = mset mds \<and>
    sorted (map ms_index (to_archive (sy_out s))) \<and> StartPoint (ms_index (last (to_archive (sy_out s))) + 1) \<in> set (sy_out s)"
proof -
  let ?s = "new_syncer sd sr (map of_nat [0..<n]) par ask True True"
  have un: "unat (of_nat n :: u8) = n" using assms(3) by (simp add: unat_of_nat)
  then have uc: "unat (ucast (of_nat n :: u8) :: u32) = n"
    using assms(3) by (simp add: unsigned_ucast_eq take_bit_nat_eq_self)
  have nz: "of_nat n \<noteq> (0::u8)" using un assms(2) by (metis less_irrefl unsigned_0)
  have "x \<in> set (map of_nat [0..<n])" if "x < (of_nat n :: u8)" for x :: u8
  proof -
    have "unat x < n" using that un by (simp add: word_less_nat_alt)
    then show ?thesis by (auto intro!: image_eqI [of _ _ "unat x"])
  qed
  then have env: "sy_env ?s" using nz assms(6) by (auto simp: sy_env_def new_syncer_def split: option.splits)
  obtain md rest where mds: "mds = md # rest" using assms(2,4) by (cases mds) auto
  have ph: "first_phase (length (md # rest)) [] ?s"
    using env uc assms(1,4) mds by (simp add: first_phase_def new_syncer_def)
  have "\<forall>m\<in>set ([] @ md # rest). ms_index m \<noteq> 0" using assms(5) mds by auto
  from first_rounds [OF ph this, of fetch] obtain s ds where
    r: "syncer_loop fetch (map SyMilestoneData (md # rest)) ?s = Inr s" "sy_inv s (set (asked (sy_out s)))"
    "asc.drains (md # rest) ds []" "to_archive (sy_out s) = ds" "StartPoint (ms_index (last ds) + 1) \<in> set (sy_out s)"
    by (auto simp: new_syncer_def)
  then show ?thesis using asc.drains_sorted [OF r(3)] mds by auto
qed

lemma syncer_first_milestones_witness:
  "\<exists>s. syncer_loop (\<lambda>_. None) (map SyMilestoneData [wit_md 12, wit_md 10])
      (new_syncer default_sync_data None (map of_nat [0..<2]) None None True True) = Inr s \<and>
    sy_inv s (set (asked (sy_out s))) \<and> mset (to_archive (sy_out s)) = mset [wit_md 12, wit_md 10] \<and>
    sorted (map ms_index (to_archive (sy_out s))) \<and> StartPoint (ms_index (last (to_archive (sy_out s))) + 1) \<in> set (sy_out s)"
  by (rule syncer_first_milestones) (simp_all add: default_sync_data_def sync_data_ok_def new_milestone_data_def)

text \<open>
  Before the first milestones are complete there is no active range, yet a solidifier may
  already report one of them unreachable: the last such report makes the syncer panic.
\<close>

lemma unreachable_first_milestone_panics:
  "handle_syncer_event fetch (SyUnreachable x) (new_syncer sd sr [0] par ask arch oneshot) = Inl Panic"
  by (simp add: handle_syncer_event_def handle_skip_def new_syncer_def emit_def Let_def)

end
