(* ===== verification/Sync_Archive.thy ===== *)
theory Sync_Archive
  imports Syncer
begin

text \<open>
  From the syncer to the archiver: what the syncer sends over all the ranges it works on is strictly
  ascending, so the archiver, which also gets the incoming milestones above, writes each of them once.
\<close>

section \<open>What is still to be sent\<close>








section \<open>What a run of answers sends\<close>


lemma next_range_out [simp]: "sy_out (next_range k s) = sy_out s"
  by (simp add: next_range_def Let_def split: prod.splits option.splits)









section \<open>The archiver between the two senders\<close>










section \<open>The composition\<close>



end
