(* ===== verification/Solidifier.thy ===== *)
theory Solidifier
  imports Syncer
begin

text \<open>
  The solidifiers (\<^verbatim>\<open>chronicle-broker/src/solidifier/\<close>): each collects the milestones of its partition,
  asks the collectors for the messages it lacks until the cone of a milestone is closed, passes the
  data to the syncer (if it asked for it) or to the archiver, and writes the analytics row and, once
  every message is known to be persisted, the sync row.
\<close>

section \<open>State and events\<close>

record in_database =
  db_analyzed :: bool
  db_messages_len :: usize
  db_ids :: "(message_id, unit) hmap"

definition new_in_database :: in_database where
  "new_in_database = \<lparr>db_analyzed = False, db_messages_len = - 1, db_ids = []\<rparr>"

definition in_database_from :: "milestone_data \<Rightarrow> in_database" where
  "in_database_from md = new_in_database\<lparr>db_messages_len := of_nat (length (ms_messages md))\<rparr>"

definition add_message_id :: "message_id \<Rightarrow> in_database \<Rightarrow> in_database" where
  "add_message_id i d = d\<lparr>db_ids := hm_insert i () (db_ids d)\<rparr>"

definition check_if_all_in_database :: "in_database \<Rightarrow> bool" where
  "check_if_all_in_database d \<longleftrightarrow> db_messages_len d = of_nat (length (db_ids d)) \<and> db_analyzed d"

datatype cql_result =
    PersistedMsg message_id u32
  | SyncedMilestone u32
  | AnalyzedMilestone u32

text \<open>A Rust \<^verbatim>\<open>Result\<close> is a sum with the error on the left.\<close>

datatype solidifier_event =
    SoMilestone milestone_message
  | SoMessage full_message
  | SoClose message_id u32
  | SoSolidify "u32 + u32"
  | SoCqlResult "cql_result + cql_result"
  | SoShutdown

text \<open>\<^verbatim>\<open>AskCollector\<close> of the collector.\<close>

datatype ask_collector =
    AskFullMessage u8 u32 message_id created_by
  | AskMilestoneMessage u32

datatype solidifier_out =
    ToCollector u8 ask_collector
  | SoToArchiver archiver_event
  | SoToSyncer syncer_event
  | InsertSync sync_record u16
  | InsertAnalytic analytic_record u16
  | AlertOutage

text \<open>
  What the solidifier gets from outside: the \<^verbatim>\<open>lru\<close> crate, and whether a request for a row can be
  built by the storage access layer.
\<close>

record 'c solidifier_env =
  se_lru :: "('c, u32, unit) lru_api"
  se_sync_builds :: "sync_record \<Rightarrow> bool"
  se_analytic_builds :: "analytic_record \<Rightarrow> bool"

record 'c solidifier =
  so_chronicle_id :: u8
  so_partition_id :: u8
  so_data :: "(u32, milestone_data) hmap"
  so_in_database :: "(u32, in_database) hmap"
  so_lru :: 'c
  so_unreachable :: 'c
  so_collectors :: "u8 list"
  so_collector_count :: u8
  so_archiver :: bool
  so_first :: "u32 option"
  so_gap_start :: u32
  so_expected :: u32
  so_retries :: u16
  so_out :: "solidifier_out list"

text \<open>\<^verbatim>\<open>SolidifierBuilder::build\<close>; \<open>c\<close> is a new cache, \<open>handles\<close> the ids of the collector handles.\<close>

definition new_solidifier ::
  "'c \<Rightarrow> u8 option \<Rightarrow> u8 \<Rightarrow> u8 list \<Rightarrow> u8 \<Rightarrow> bool \<Rightarrow> u32 \<Rightarrow> u16 option \<Rightarrow> 'c solidifier" where
  "new_solidifier c chronicle_id p handles n arch gap retries =
     \<lparr>so_chronicle_id = (case chronicle_id of None \<Rightarrow> 0 | Some i \<Rightarrow> i), so_partition_id = p,
      so_data = [], so_in_database = [], so_lru = c, so_unreachable = c, so_collectors = handles,
      so_collector_count = n, so_archiver = arch, so_first = None, so_gap_start = gap, so_expected = 0,
      so_retries = (case retries of None \<Rightarrow> 100 | Some r \<Rightarrow> r), so_out = []\<rparr>"

definition so_emit :: "solidifier_out list \<Rightarrow> 'c solidifier \<Rightarrow> 'c solidifier" where
  "so_emit os s = s\<lparr>so_out := so_out s @ os\<rparr>"

section \<open>Requests to the collectors\<close>

text \<open>\<^verbatim>\<open>MessageIdPartitioner::partition_id\<close>; the remainder by a zero count panics.\<close>

definition message_partition :: "u8 \<Rightarrow> message_id \<Rightarrow> u8 result" where
  "message_partition n i = (if n = 0 then Inl Panic else Inr (first_byte i mod n))"

definition request_full_message ::
  "u8 list \<Rightarrow> u8 \<Rightarrow> u8 \<Rightarrow> u32 \<Rightarrow> message_id \<Rightarrow> created_by \<Rightarrow> solidifier_out list result" where
  "request_full_message handles n sid mi parent by =
     rbind (message_partition n parent)
       (\<lambda>cid. Inr (if cid \<in> set handles then [ToCollector cid (AskFullMessage sid mi parent by)] else []))"

definition request_milestone_message :: "u8 list \<Rightarrow> u8 \<Rightarrow> u32 \<Rightarrow> solidifier_out list" where
  "request_milestone_message handles cid mi =
     (if cid \<in> set handles then [ToCollector cid (AskMilestoneMessage mi)] else [])"

text \<open>\<^verbatim>\<open>process_parents\<close>; the requests it sends come with the milestone data it leaves.\<close>

fun process_parents ::
  "u8 list \<Rightarrow> u8 \<Rightarrow> u8 \<Rightarrow> u32 \<Rightarrow> message_id list \<Rightarrow> milestone_data \<Rightarrow> (milestone_data \<times> solidifier_out list) result" where
  "process_parents handles n sid mi [] md = Inr (md, [])"
| "process_parents handles n sid mi (p # ps) md =
     (if \<not> hm_contains (ms_messages md) p \<and> \<not> hm_contains (ms_pending md) p \<and> p \<noteq> 0
      then rbind (request_full_message handles n sid mi p (ms_created_by md))
             (\<lambda>o1. rbind (process_parents handles n sid mi ps (md\<lparr>ms_pending := hm_insert p () (ms_pending md)\<rparr>))
               (\<lambda>(md, o2). Inr (md, o1 @ o2)))
      else process_parents handles n sid mi ps md)"

definition process_milestone_data ::
  "u8 list \<Rightarrow> u8 \<Rightarrow> u8 \<Rightarrow> u32 \<Rightarrow> full_message \<Rightarrow> milestone_data \<Rightarrow> (milestone_data \<times> solidifier_out list) result" where
  "process_milestone_data handles n sid mi fm md =
     rbind (process_parents handles n sid mi (md_parent_message_ids (fm_metadata fm)) md)
       (\<lambda>(md, os). Inr (add_full_message fm (remove_from_pending (fm_message_id fm) md), os))"

section \<open>Completed milestones\<close>

definition handle_in_database :: "'c solidifier_env \<Rightarrow> u32 \<Rightarrow> 'c solidifier \<Rightarrow> 'c solidifier step" where
  "handle_in_database env mi s =
     (let s = s\<lparr>so_in_database := hm_remove mi (so_in_database s), so_lru := lru_put (se_lru env) (so_lru s) mi ()\<rparr>;
          r = \<lparr>milestone_index = mi, synced_by = Some (so_chronicle_id s), logged_by = None\<rparr>
      in if se_sync_builds env r then Inr (None, so_emit [InsertSync r (so_retries s)] s)
         else Inr (Some ''cannot build the sync insert'', s))"

definition insert_analytic :: "'c solidifier_env \<Rightarrow> analytic_record \<Rightarrow> 'c solidifier \<Rightarrow> 'c solidifier step" where
  "insert_analytic env r s =
     (if se_analytic_builds env r then Inr (None, so_emit [InsertAnalytic r (so_retries s)] s)
      else Inr (Some ''cannot build the analytics insert'', s))"

text \<open>What \<^verbatim>\<open>push_to_logger\<close> and \<^verbatim>\<open>push_to_syncer\<close> do before they send the data.\<close>

definition settle :: "'c solidifier_env \<Rightarrow> u32 \<Rightarrow> 'c solidifier \<Rightarrow> (milestone_data \<Rightarrow> 'c solidifier \<Rightarrow> 'c solidifier step) \<Rightarrow> 'c solidifier step" where
  "settle env mi s send =
     (case hm_get (so_data s) mi of
        None \<Rightarrow> Inl Panic
      | Some md \<Rightarrow>
          (let s = s\<lparr>so_data := hm_remove mi (so_data s)\<rparr> in
           case get_analytic_record md of
             Inl Panic \<Rightarrow> Inl Panic
           | Inl (Failed m) \<Rightarrow> Inr (Some m, s)
           | Inr r \<Rightarrow>
               step_then (insert_analytic env r s)
                 (\<lambda>s. let d = (case hm_get (so_in_database s) mi of None \<Rightarrow> in_database_from md | Some d \<Rightarrow> d);
                          d = d\<lparr>db_messages_len := of_nat (length (ms_messages md))\<rparr>;
                          s = s\<lparr>so_in_database := hm_insert mi d (so_in_database s)\<rparr>
                      in step_then (if check_if_all_in_database d then handle_in_database env mi s else Inr (None, s))
                           (send md))))"

definition push_to_logger :: "'c solidifier_env \<Rightarrow> u32 \<Rightarrow> 'c solidifier \<Rightarrow> 'c solidifier step" where
  "push_to_logger env mi s =
     settle env mi s
       (\<lambda>md s. Inr (None, if so_archiver s then so_emit [SoToArchiver (ArMilestoneData md None)] s else s))"

definition push_to_syncer :: "'c solidifier_env \<Rightarrow> u32 \<Rightarrow> 'c solidifier \<Rightarrow> 'c solidifier step" where
  "push_to_syncer env mi s =
     settle env mi s (\<lambda>md s. Inr (None, so_emit [SoToSyncer (SyMilestoneData md)] s))"

text \<open>The test after every change of an entry.\<close>

definition push_if_completed :: "'c solidifier_env \<Rightarrow> u32 \<Rightarrow> milestone_data \<Rightarrow> 'c solidifier \<Rightarrow> 'c solidifier step" where
  "push_if_completed env mi md s =
     (if check_if_completed md \<and> ms_created_by md \<noteq> Syncer_C then push_to_logger env mi s
      else if check_if_completed md then push_to_syncer env mi s
      else Inr (None, s))"

definition put_data :: "u32 \<Rightarrow> milestone_data \<Rightarrow> 'c solidifier \<Rightarrow> 'c solidifier" where
  "put_data mi md s = s\<lparr>so_data := hm_insert mi md (so_data s)\<rparr>"

section \<open>Handlers\<close>

definition close_message_id :: "'c solidifier_env \<Rightarrow> u32 \<Rightarrow> message_id \<Rightarrow> 'c solidifier \<Rightarrow> 'c solidifier step" where
  "close_message_id env mi i s =
     (case hm_get (so_data s) mi of
        Some md \<Rightarrow>
          (let md = remove_from_pending i md in push_if_completed env mi md (put_data mi md s))
      | None \<Rightarrow> Inr (None, s))"

definition handle_solidify_failure :: "'c solidifier_env \<Rightarrow> u32 \<Rightarrow> 'c solidifier \<Rightarrow> 'c solidifier" where
  "handle_solidify_failure env mi s =
     (let (u, c) = lru_get (se_lru env) (so_unreachable s) mi; s = s\<lparr>so_unreachable := c\<rparr> in
      if u = None
      then (case hm_get (so_data s) mi of
              Some md \<Rightarrow>
                (let s = s\<lparr>so_data := hm_remove mi (so_data s), so_lru := lru_pop (se_lru env) (so_lru s) mi,
                           so_in_database := hm_remove mi (so_in_database s),
                           so_unreachable := lru_put (se_lru env) (so_unreachable s) mi ()\<rparr>
                 in if ms_created_by md = Syncer_C then so_emit [SoToSyncer (SyUnreachable mi)] s else s)
            | None \<Rightarrow> s)
      else s)"

definition handle_solidify :: "'c solidifier_env \<Rightarrow> u32 \<Rightarrow> 'c solidifier \<Rightarrow> 'c solidifier" where
  "handle_solidify env mi s =
     (if so_expected s \<le> mi then so_emit [SoToSyncer (SyUnreachable mi)] s
      else
        (let s = s\<lparr>so_unreachable := lru_pop (se_lru env) (so_unreachable s) mi\<rparr>;
             ask = request_milestone_message (so_collectors s) (so_partition_id s) mi
         in case hm_get (so_data s) mi of
              Some md \<Rightarrow>
                (if ms_created_by md = Expected \<and> \<not> milestone_exist md
                 then (so_emit ask (put_data mi (md\<lparr>ms_created_by := Syncer_C\<rparr>) s))
                        \<lparr>so_in_database := hm_or_insert mi new_in_database (so_in_database s)\<rparr>
                 else so_emit [SoToSyncer (SyUnreachable mi)] s)
            | None \<Rightarrow>
                (so_emit ask (put_data mi (new_milestone_data mi Syncer_C) s))
                  \<lparr>so_in_database := hm_or_insert mi new_in_database (so_in_database s)\<rparr>))"

definition get_or_new :: "u32 \<Rightarrow> created_by \<Rightarrow> 'c solidifier \<Rightarrow> milestone_data" where
  "get_or_new mi by s = (case hm_get (so_data s) mi of None \<Rightarrow> new_milestone_data mi by | Some md \<Rightarrow> md)"

text \<open>The loop that makes entries for what lies between; the remainder by a zero count panics.\<close>

fun expect_between :: "u8 \<Rightarrow> u8 \<Rightarrow> u32 list \<Rightarrow> (u32, milestone_data) hmap \<Rightarrow> (u32, milestone_data) hmap result" where
  "expect_between n sid [] data = Inr data"
| "expect_between n sid (e # es) data =
     (if n = 0 then Inl Panic
      else expect_between n sid es
             (if ucast (e mod ucast n) = sid then hm_or_insert e (new_milestone_data e Expected) data else data))"

definition insert_new_entry_or_not :: "'c solidifier_env \<Rightarrow> u32 \<Rightarrow> full_message \<Rightarrow> 'c solidifier \<Rightarrow> 'c solidifier result" where
  "insert_new_entry_or_not env mi fm s =
     (let (u, c) = lru_get (se_lru env) (so_unreachable s) mi; s = s\<lparr>so_unreachable := c\<rparr> in
      if u \<noteq> None then Inr s
      else if so_first s = None
      then (if so_gap_start s \<le> mi
            then (let s = so_emit (request_milestone_message (so_collectors s) (so_partition_id s) mi)
                            (s\<lparr>so_first := Some mi, so_expected := mi + ucast (so_collector_count s)\<rparr>)
                  in rbind (process_milestone_data (so_collectors s) (so_collector_count s) (so_partition_id s) mi fm
                             (get_or_new mi Syncer_C s))
                       (\<lambda>(md, os). Inr (so_emit os (put_data mi md s))))
            else Inr s)
      else if so_expected s \<le> mi
      then (let md = get_or_new mi Incoming s;
                md = (case msg_payload (fm_message fm) of
                        Some (Milestone_P p) \<Rightarrow> set_milestone p md | _ \<Rightarrow> md)
            in rbind (process_milestone_data (so_collectors s) (so_collector_count s) (so_partition_id s) mi fm md)
                 (\<lambda>(md, os).
                    let s = so_emit os (put_data mi md s) in
                    rbind (expect_between (so_collector_count s) (so_partition_id s)
                             (range_list (Range (so_expected s) mi)) (so_data s))
                      (\<lambda>data. Inr (s\<lparr>so_data := data, so_expected := mi + ucast (so_collector_count s)\<rparr>))))
      else Inr s)"

definition handle_milestone_msg :: "'c solidifier_env \<Rightarrow> milestone_message \<Rightarrow> 'c solidifier \<Rightarrow> 'c solidifier step" where
  "handle_milestone_msg env mm s =
     (let mi = mp_index (mm_payload mm) in
      case hm_get (so_data s) mi of
        Some md \<Rightarrow>
          rbind (process_parents (so_collectors s) (so_collector_count s) (so_partition_id s) mi
                   (msg_parents (mm_message mm)) md)
            (\<lambda>(md, os).
               case mm_metadata mm of
                 Some meta \<Rightarrow>
                   (let md = set_milestone (mm_payload mm) md;
                        md = remove_from_pending (md_message_id meta) md;
                        md = add_full_message (FullMessage (mm_message mm) meta) md
                    in push_if_completed env mi md (so_emit os (put_data mi md s)))
               | None \<Rightarrow> Inr (None, so_emit os (put_data mi md s)))
      | None \<Rightarrow>
          (case mm_metadata mm of
             Some meta \<Rightarrow>
               rbind (insert_new_entry_or_not env mi (FullMessage (mm_message mm) meta) s) (\<lambda>s. Inr (None, s))
           | None \<Rightarrow> Inr (None, s)))"

definition handle_new_msg :: "'c solidifier_env \<Rightarrow> full_message \<Rightarrow> 'c solidifier \<Rightarrow> 'c solidifier step" where
  "handle_new_msg env fm s =
     (case fm_ref_ms fm of
        None \<Rightarrow> Inl Panic
      | Some mi \<Rightarrow>
          (case hm_get (so_data s) mi of
             Some md \<Rightarrow>
               rbind (process_milestone_data (so_collectors s) (so_collector_count s) (so_partition_id s) mi fm md)
                 (\<lambda>(md, os). push_if_completed env mi md (so_emit os (put_data mi md s)))
           | None \<Rightarrow> rbind (insert_new_entry_or_not env mi fm s) (\<lambda>s. Inr (None, s))))"

definition handle_cql_ok :: "'c solidifier_env \<Rightarrow> cql_result \<Rightarrow> 'c solidifier \<Rightarrow> 'c solidifier step" where
  "handle_cql_ok env r s =
     (case r of
        PersistedMsg i mi \<Rightarrow>
          (case hm_get (so_in_database s) mi of
             Some d \<Rightarrow>
               (let d = add_message_id i d; s = s\<lparr>so_in_database := hm_insert mi d (so_in_database s)\<rparr> in
                if check_if_all_in_database d then handle_in_database env mi s else Inr (None, s))
           | None \<Rightarrow>
               (let (a, c) = lru_get (se_lru env) (so_lru s) mi; s = s\<lparr>so_lru := c\<rparr> in
                if a = None
                then (let (b, c) = lru_get (se_lru env) (so_unreachable s) mi; s = s\<lparr>so_unreachable := c\<rparr> in
                      if b = None
                      then Inr (None, s\<lparr>so_in_database := hm_insert mi (add_message_id i new_in_database) (so_in_database s)\<rparr>)
                      else Inr (None, s))
                else Inr (None, s)))
      | SyncedMilestone mi \<Rightarrow> Inr (None, s)
      | AnalyzedMilestone mi \<Rightarrow>
          (case hm_get (so_in_database s) mi of
             Some d \<Rightarrow>
               (let d = d\<lparr>db_analyzed := True\<rparr>; s = s\<lparr>so_in_database := hm_insert mi d (so_in_database s)\<rparr> in
                if check_if_all_in_database d then handle_in_database env mi s else Inr (None, s))
           | None \<Rightarrow> Inr (None, s)))"

text \<open>
  One event. The flag says that the event loop goes on; after a failed write it aborts so that the
  broker reschedules the solidifier. Errors that are only logged are dropped.
\<close>

definition logged :: "'s step \<Rightarrow> (bool \<times> 's) result" where
  "logged r = rbind r (\<lambda>(e, s). Inr (True, s))"

definition handle_solidifier_event ::
  "'c solidifier_env \<Rightarrow> solidifier_event \<Rightarrow> 'c solidifier \<Rightarrow> (bool \<times> 'c solidifier) result" where
  "handle_solidifier_event env ev s =
     (case ev of
        SoMessage fm \<Rightarrow> logged (handle_new_msg env fm s)
      | SoCqlResult (Inr r) \<Rightarrow> logged (handle_cql_ok env r s)
      | SoCqlResult (Inl r) \<Rightarrow> Inr (False, so_emit [AlertOutage] s)
      | SoClose i mi \<Rightarrow> logged (close_message_id env mi i s)
      | SoMilestone mm \<Rightarrow> logged (handle_milestone_msg env mm s)
      | SoSolidify (Inr mi) \<Rightarrow> Inr (True, handle_solidify env mi s)
      | SoSolidify (Inl mi) \<Rightarrow> Inr (True, handle_solidify_failure env mi s)
      | SoShutdown \<Rightarrow> Inr (False, s))"

fun solidifier_loop :: "'c solidifier_env \<Rightarrow> solidifier_event list \<Rightarrow> 'c solidifier \<Rightarrow> (bool \<times> 'c solidifier) result" where
  "solidifier_loop env [] s = Inr (True, s)"
| "solidifier_loop env (ev # evs) s =
     rbind (handle_solidifier_event env ev s)
       (\<lambda>(go, s). if go then solidifier_loop env evs s else Inr (False, s))"

section \<open>The entries\<close>

lemma process_parents_spec:
  assumes "process_parents hs n sid mi ps md = Inr (md', os)"
  shows "\<exists>pend. md' = md\<lparr>ms_pending := pend\<rparr> \<and> (\<forall>i. hm_contains (ms_pending md) i \<longrightarrow> hm_contains pend i) \<and>
    (\<forall>p\<in>set ps. p = 0 \<or> hm_contains (ms_messages md) p \<or> hm_contains pend p) \<and>
    (\<forall>out\<in>set os. \<exists>cid ask. out = ToCollector cid ask)"
  using assms
proof (induction ps arbitrary: md os)
  case Nil
  then show ?case by (intro exI [of _ "ms_pending md"]) simp
next
  case (Cons p ps)
  show ?case
  proof (cases "\<not> hm_contains (ms_messages md) p \<and> \<not> hm_contains (ms_pending md) p \<and> p \<noteq> 0")
    case True
    let ?md = "md\<lparr>ms_pending := hm_insert p () (ms_pending md)\<rparr>"
    from True Cons.prems obtain o1 o2 where r: "request_full_message hs n sid mi p (ms_created_by md) = Inr o1"
      "process_parents hs n sid mi ps ?md = Inr (md', o2)" "os = o1 @ o2"
      by (auto simp: rbind_Inr_iff)
    have o1: "\<forall>out\<in>set o1. \<exists>cid ask. out = ToCollector cid ask"
      using r(1) by (auto simp: request_full_message_def rbind_Inr_iff split: if_splits)
    obtain pend where ih: "md' = ?md\<lparr>ms_pending := pend\<rparr>"
      "\<forall>i. hm_contains (ms_pending ?md) i \<longrightarrow> hm_contains pend i"
      "\<forall>p\<in>set ps. p = 0 \<or> hm_contains (ms_messages ?md) p \<or> hm_contains pend p"
      "\<forall>out\<in>set o2. \<exists>cid ask. out = ToCollector cid ask"
      using Cons.IH [OF r(2)] by blast
    then show ?thesis
      using o1 r(3) by (intro exI [of _ pend]) (auto simp: hm_contains_def)
  next
    case False
    then have "process_parents hs n sid mi ps md = Inr (md', os)" using Cons.prems by auto
    from Cons.IH [OF this] False show ?thesis by auto
  qed
qed

lemma process_parents_total: "n \<noteq> 0 \<Longrightarrow> \<exists>md' os. process_parents hs n sid mi ps md = Inr (md', os)"
proof (induction ps arbitrary: md)
  case (Cons p ps)
  show ?case
    using Cons.IH [of md] Cons.IH [of "md\<lparr>ms_pending := hm_insert p () (ms_pending md)\<rparr>"] Cons.prems
    by (auto simp: request_full_message_def message_partition_def)
qed simp

text \<open>
  \<open>H\<close> is the history of events. A collected message came with one of them, and a parent of it is
  known: it is the genesis, it is collected, it is asked for, or a collector has closed it.
\<close>

definition event_message :: "solidifier_event \<Rightarrow> full_message option" where
  "event_message ev =
     (case ev of SoMessage fm \<Rightarrow> Some fm
      | SoMilestone mm \<Rightarrow> map_option (FullMessage (mm_message mm)) (mm_metadata mm)
      | _ \<Rightarrow> None)"

definition collected_from :: "solidifier_event list \<Rightarrow> full_message \<Rightarrow> bool" where
  "collected_from H fm \<longleftrightarrow> Some fm \<in> event_message ` set H"

definition known :: "solidifier_event list \<Rightarrow> milestone_data \<Rightarrow> message_id \<Rightarrow> bool" where
  "known H md p \<longleftrightarrow> p = 0 \<or> hm_contains (ms_messages md) p \<or> hm_contains (ms_pending md) p \<or>
     SoClose p (ms_index md) \<in> set H"

definition cone_ok :: "solidifier_event list \<Rightarrow> milestone_data \<Rightarrow> bool" where
  "cone_ok H md \<longleftrightarrow> hm_ok (ms_messages md) \<and>
     (\<forall>i fm. hm_get (ms_messages md) i = Some fm \<longrightarrow>
        fm_message_id fm = i \<and> collected_from H fm \<and> (\<forall>p\<in>set (msg_parents (fm_message fm)). known H md p))"

text \<open>Complete data: the milestone is there, and the parents of every message are collected or closed.\<close>

definition solid :: "solidifier_event list \<Rightarrow> milestone_data \<Rightarrow> bool" where
  "solid H md \<longleftrightarrow> milestone_exist md \<and>
     list_all (\<lambda>(i, fm). list_all (\<lambda>p. p = 0 \<or> hm_contains (ms_messages md) p \<or> SoClose p (ms_index md) \<in> set H)
       (msg_parents (fm_message fm))) (ms_messages md)"

lemma cone_solid: "cone_ok H md \<Longrightarrow> check_if_completed md \<Longrightarrow> solid H md"
  by (fastforce simp: cone_ok_def solid_def check_if_completed_def list_all_iff known_def hm_contains_def hm_ok_def)

lemma new_data_simps [simp]:
  "ms_index (new_milestone_data mi by) = mi" "ms_created_by (new_milestone_data mi by) = by"
  "ms_messages (new_milestone_data mi by) = []" "ms_index (set_milestone p md) = ms_index md"
  "ms_created_by (set_milestone p md) = ms_created_by md" "ms_messages (set_milestone p md) = ms_messages md"
  "ms_index (remove_from_pending i md) = ms_index md" "ms_created_by (remove_from_pending i md) = ms_created_by md"
  "ms_messages (remove_from_pending i md) = ms_messages md"
  "ms_index (add_full_message fm md) = ms_index md" "ms_created_by (add_full_message fm md) = ms_created_by md"
  "ms_messages (add_full_message fm md) = hm_insert (fm_message_id fm) fm (ms_messages md)"
  by (simp_all add: new_milestone_data_def set_milestone_def remove_from_pending_def add_full_message_def)

lemma cone_new [simp]: "cone_ok H (new_milestone_data mi by)"
  by (simp add: cone_ok_def new_milestone_data_def)

lemma collected_from_mono: "collected_from H fm \<Longrightarrow> set H \<subseteq> set H' \<Longrightarrow> collected_from H' fm"
  by (auto simp: collected_from_def)

lemma cone_mono: "cone_ok H md \<Longrightarrow> set H \<subseteq> set H' \<Longrightarrow> cone_ok H' md"
  unfolding cone_ok_def known_def using collected_from_mono by blast

lemma cone_length:
  assumes "cone_ok H md"
  shows "length (ms_messages md) \<le> card (set H)"
proof -
  have d: "distinct (map fst (ms_messages md))" using assms by (simp add: cone_ok_def hm_ok_def)
  have g: "hm_get (ms_messages md) i = Some fm" if "(i, fm) \<in> set (ms_messages md)" for i fm
    using that d by simp
  have "inj_on snd (set (ms_messages md))"
  proof (rule inj_onI)
    fix x y
    assume xy: "x \<in> set (ms_messages md)" "y \<in> set (ms_messages md)" "snd x = snd y"
    obtain i f j g' where "x = (i, f)" "y = (j, g')" by (metis surj_pair)
    then have "fm_message_id f = i" "fm_message_id f = j" "g' = f" using xy g assms by (auto simp: cone_ok_def)
    then show "x = y" using \<open>x = (i, f)\<close> \<open>y = (j, g')\<close> by simp
  qed
  moreover have "snd ` set (ms_messages md) \<subseteq> the ` event_message ` set H"
  proof
    fix fm assume "fm \<in> snd ` set (ms_messages md)"
    then obtain i where "(i, fm) \<in> set (ms_messages md)" by auto
    then have "collected_from H fm" using g assms unfolding cone_ok_def by blast
    then show "fm \<in> the ` event_message ` set H" unfolding collected_from_def by (metis image_eqI option.sel)
  qed
  ultimately have "card (set (ms_messages md)) \<le> card (the ` event_message ` set H)"
    by (metis List.finite_set card_image card_mono finite_imageI)
  also have "\<dots> \<le> card (set H)" by (metis List.finite_set card_image_le finite_imageI le_trans)
  finally show ?thesis using d by (simp add: distinct_map distinct_card)
qed

lemma solid_mono: "solid H md \<Longrightarrow> set H \<subseteq> set H' \<Longrightarrow> solid H' md"
  by (fastforce simp: solid_def list_all_iff)

lemma cone_pending:
  "cone_ok H md \<Longrightarrow> (\<forall>i. hm_contains (ms_pending md) i \<longrightarrow> hm_contains pend i) \<Longrightarrow> cone_ok H (md\<lparr>ms_pending := pend\<rparr>)"
  by (auto simp: cone_ok_def known_def)

lemma cone_close:
  "cone_ok H md \<Longrightarrow> SoClose i (ms_index md) \<in> set H \<Longrightarrow> cone_ok H (remove_from_pending i md)"
  by (auto simp: cone_ok_def known_def remove_from_pending_def hm_contains_def)

lemma cone_created: "cone_ok H (md\<lparr>ms_created_by := b\<rparr>) \<longleftrightarrow> cone_ok H md"
  by (simp add: cone_ok_def known_def)

lemma cone_milestone: "cone_ok H (set_milestone p md) \<longleftrightarrow> cone_ok H md"
  by (simp add: cone_ok_def known_def set_milestone_def)

lemma cone_add:
  assumes "cone_ok H md" and "\<forall>p\<in>set (msg_parents (fm_message fm)). known H md p" and "collected_from H fm"
  shows "cone_ok H (add_full_message fm (remove_from_pending (fm_message_id fm) md))"
  using assms by (auto simp: cone_ok_def known_def add_full_message_def remove_from_pending_def hm_contains_def)

lemma process_milestone_data_spec:
  assumes "process_milestone_data hs n sid mi fm md = Inr (md', os)" and "cone_ok H md"
    and "msg_parents (fm_message fm) = md_parent_message_ids (fm_metadata fm)" and "collected_from H fm"
  shows "cone_ok H md' \<and> ms_index md' = ms_index md \<and> ms_created_by md' = ms_created_by md \<and>
    ms_messages md' = hm_insert (fm_message_id fm) fm (ms_messages md) \<and>
    (\<forall>out\<in>set os. \<exists>cid ask. out = ToCollector cid ask)"
proof -
  obtain md1 where pp: "process_parents hs n sid mi (md_parent_message_ids (fm_metadata fm)) md = Inr (md1, os)"
    "md' = add_full_message fm (remove_from_pending (fm_message_id fm) md1)"
    using assms(1) by (auto simp: process_milestone_data_def rbind_Inr_iff)
  from process_parents_spec [OF pp(1)] obtain pend where pe: "md1 = md\<lparr>ms_pending := pend\<rparr>"
    "\<forall>i. hm_contains (ms_pending md) i \<longrightarrow> hm_contains pend i"
    "\<forall>p\<in>set (md_parent_message_ids (fm_metadata fm)). p = 0 \<or> hm_contains (ms_messages md) p \<or> hm_contains pend p"
    "\<forall>out\<in>set os. \<exists>cid ask. out = ToCollector cid ask" by blast
  have "cone_ok H md1" using cone_pending [OF assms(2) pe(2)] pe(1) by simp
  moreover have "\<forall>p\<in>set (msg_parents (fm_message fm)). known H md1 p"
    using pe(1,3) assms(3) by (auto simp: known_def)
  ultimately have "cone_ok H md'" using cone_add assms(4) pp(2) by blast
  then show ?thesis using pp(2) pe(1,4) by (simp add: add_full_message_def remove_from_pending_def)
qed

section \<open>The invariant\<close>

definition persisted :: "solidifier_event list \<Rightarrow> u32 \<Rightarrow> message_id \<Rightarrow> bool" where
  "persisted H mi i \<longleftrightarrow> SoCqlResult (Inr (PersistedMsg i mi)) \<in> set H"

text \<open>The milestone was complete, as \<open>md\<close>, and its analytics row has been sent.\<close>

definition settled :: "solidifier_event list \<Rightarrow> solidifier_out list \<Rightarrow> u32 \<Rightarrow> milestone_data \<Rightarrow> bool" where
  "settled H outs mi md \<longleftrightarrow> solid H md \<and> ms_index md = mi \<and> hm_ok (ms_messages md) \<and>
     length (ms_messages md) \<le> card (set H) \<and>
     (\<exists>r k. get_analytic_record md = Inr r \<and> InsertAnalytic r k \<in> set outs)"

definition db_ok :: "solidifier_event list \<Rightarrow> solidifier_out list \<Rightarrow> u32 \<Rightarrow> in_database \<Rightarrow> bool" where
  "db_ok H outs mi d \<longleftrightarrow> hm_ok (db_ids d) \<and> list_all (persisted H mi) (map fst (db_ids d)) \<and>
     (db_analyzed d \<longrightarrow> SoCqlResult (Inr (AnalyzedMilestone mi)) \<in> set H) \<and>
     (db_messages_len d \<noteq> - 1 \<longrightarrow>
        (\<exists>md. settled H outs mi md \<and> db_messages_len d = of_nat (length (ms_messages md))))"

text \<open>
  What is sent: complete data to the one who asked for it, and a sync row only for a milestone that
  was complete, whose analytics row is stored, and for which as many distinct messages have been reported
  persisted as it has. The solidifier counts the reports and does not compare the ids: these are the
  messages of the milestone when only messages of it are reported.
\<close>

definition synced_justified :: "solidifier_event list \<Rightarrow> solidifier_out list \<Rightarrow> u32 \<Rightarrow> bool" where
  "synced_justified H outs mi \<longleftrightarrow> SoCqlResult (Inr (AnalyzedMilestone mi)) \<in> set H \<and>
     (\<exists>md ids. settled H outs mi md \<and> distinct ids \<and> list_all (persisted H mi) ids \<and>
        length ids = length (ms_messages md) \<and>
        ((\<forall>i. persisted H mi i \<longrightarrow> hm_contains (ms_messages md) i) \<longrightarrow>
           list_all (\<lambda>(i, fm). persisted H mi i) (ms_messages md)))"

fun out_ok :: "solidifier_event list \<Rightarrow> solidifier_out list \<Rightarrow> solidifier_out \<Rightarrow> bool" where
  "out_ok H outs (ToCollector c a) = True"
| "out_ok H outs (SoToArchiver ev) =
     (case ev of ArMilestoneData md u \<Rightarrow> solid H md \<and> ms_created_by md \<noteq> Syncer_C \<and> u = None | ArClose mi \<Rightarrow> False)"
| "out_ok H outs (SoToSyncer ev) =
     (case ev of SyMilestoneData md \<Rightarrow> solid H md \<and> ms_created_by md = Syncer_C | SyUnreachable mi \<Rightarrow> True | _ \<Rightarrow> False)"
| "out_ok H outs (InsertSync r k) = synced_justified H outs (milestone_index r)"
| "out_ok H outs (InsertAnalytic r k) = True"
| "out_ok H outs AlertOutage = True"

definition sol_inv :: "solidifier_event list \<Rightarrow> 'c solidifier \<Rightarrow> bool" where
  "sol_inv H s \<longleftrightarrow>
     (\<forall>mi md. hm_get (so_data s) mi = Some md \<longrightarrow> ms_index md = mi \<and> cone_ok H md) \<and>
     (\<forall>mi d. hm_get (so_in_database s) mi = Some d \<longrightarrow> db_ok H (so_out s) mi d) \<and>
     (\<forall>out\<in>set (so_out s). out_ok H (so_out s) out)"

lemma settled_mono:
  assumes "settled H outs mi md" and "set H \<subseteq> set H'" and "set outs \<subseteq> set outs'"
  shows "settled H' outs' mi md"
proof -
  have "card (set H) \<le> card (set H')" by (rule card_mono [OF _ assms(2)]) simp
  then show ?thesis using assms solid_mono [OF _ assms(2)] by (force simp: settled_def)
qed

lemma persisted_mono: "persisted H mi i \<Longrightarrow> set H \<subseteq> set H' \<Longrightarrow> persisted H' mi i"
  by (auto simp: persisted_def)

lemma synced_mono:
  assumes "synced_justified H outs mi" and H: "set H \<subseteq> set H'" and "set outs \<subseteq> set outs'"
  shows "synced_justified H' outs' mi"
proof -
  from assms(1) obtain md ids where "SoCqlResult (Inr (AnalyzedMilestone mi)) \<in> set H"
    and s: "settled H outs mi md" "distinct ids" "list_all (persisted H mi) ids" "length ids = length (ms_messages md)"
      "(\<forall>i. persisted H mi i \<longrightarrow> hm_contains (ms_messages md) i) \<longrightarrow> list_all (\<lambda>(i, fm). persisted H mi i) (ms_messages md)"
    unfolding synced_justified_def by blast
  then show ?thesis
    using H settled_mono [OF s(1) H assms(3)] persisted_mono [OF _ H] unfolding synced_justified_def list_all_iff
    by (intro conjI exI [of _ md] exI [of _ ids]) auto
qed

lemma db_ok_mono:
  "db_ok H outs mi d \<Longrightarrow> set H \<subseteq> set H' \<Longrightarrow> set outs \<subseteq> set outs' \<Longrightarrow> db_ok H' outs' mi d"
  by (auto simp: db_ok_def list_all_iff intro: persisted_mono dest: settled_mono)

lemma out_ok_mono:
  "out_ok H outs out \<Longrightarrow> set H \<subseteq> set H' \<Longrightarrow> set outs \<subseteq> set outs' \<Longrightarrow> out_ok H' outs' out"
  by (cases out) (auto intro: solid_mono synced_mono split: archiver_event.splits syncer_event.splits)

lemma sol_inv_event: "sol_inv H s \<Longrightarrow> sol_inv (H @ [ev]) s"
proof -
  have sub: "set H \<subseteq> set (H @ [ev])" by auto
  show "sol_inv H s \<Longrightarrow> ?thesis"
    using cone_mono [OF _ sub] db_ok_mono [OF _ sub order_refl] out_ok_mono [OF _ sub order_refl]
    unfolding sol_inv_def by blast
qed

lemma sol_inv_emit:
  assumes "sol_inv H s" and "\<forall>out\<in>set os. out_ok H (so_out s @ os) out"
  shows "sol_inv H (so_emit os s)"
proof -
  have "\<forall>out\<in>set (so_out s). out_ok H (so_out s @ os) out"
    using assms(1) by (auto simp: sol_inv_def intro: out_ok_mono)
  moreover have "db_ok H (so_out s @ os) mi d" if "db_ok H (so_out s) mi d" for mi d
    using that by (rule db_ok_mono) auto
  ultimately show ?thesis
    using assms by (auto simp: sol_inv_def so_emit_def)
qed

lemma sol_inv_put:
  "sol_inv H s \<Longrightarrow> cone_ok H md \<Longrightarrow> ms_index md = mi \<Longrightarrow> sol_inv H (put_data mi md s)"
  by (simp add: sol_inv_def put_data_def)

lemma sol_inv_frame [simp]:
  "sol_inv H (s\<lparr>so_lru := c\<rparr>) \<longleftrightarrow> sol_inv H s"
  "sol_inv H (s\<lparr>so_unreachable := c\<rparr>) \<longleftrightarrow> sol_inv H s"
  "sol_inv H (s\<lparr>so_first := f\<rparr>) \<longleftrightarrow> sol_inv H s"
  "sol_inv H (s\<lparr>so_expected := e\<rparr>) \<longleftrightarrow> sol_inv H s"
  by (simp_all add: sol_inv_def)

lemma sol_inv_remove:
  "sol_inv H s \<Longrightarrow> sol_inv H (s\<lparr>so_data := hm_remove mi (so_data s)\<rparr>)"
  "sol_inv H s \<Longrightarrow> sol_inv H (s\<lparr>so_in_database := hm_remove mi (so_in_database s)\<rparr>)"
  by (simp_all add: sol_inv_def)

lemma sol_inv_db:
  "sol_inv H s \<Longrightarrow> db_ok H (so_out s) mi d \<Longrightarrow> sol_inv H (s\<lparr>so_in_database := hm_insert mi d (so_in_database s)\<rparr>)"
  by (simp add: sol_inv_def)

lemma db_ok_new [simp]: "db_ok H outs mi new_in_database"
  by (simp add: db_ok_def new_in_database_def)

definition step_inv :: "solidifier_event list \<Rightarrow> 'c solidifier step \<Rightarrow> bool" where
  "step_inv H r \<longleftrightarrow> (case r of Inl e \<Rightarrow> True | Inr (e, s) \<Rightarrow> sol_inv H s)"

lemma step_inv_simps [simp]: "step_inv H (Inl e)" "step_inv H (Inr (m, s)) \<longleftrightarrow> sol_inv H s"
  by (simp_all add: step_inv_def)

lemma step_inv_then:
  "step_inv H r \<Longrightarrow> (\<And>s. r = Inr (None, s) \<Longrightarrow> sol_inv H s \<Longrightarrow> step_inv H (k s)) \<Longrightarrow> step_inv H (step_then r k)"
  by (auto simp: step_inv_def step_then_def rbind_def split: sum.splits option.splits)


section \<open>Every handler keeps the invariant\<close>

text \<open>Fewer events than a \<^verbatim>\<open>usize\<close> can count: the initial \<^verbatim>\<open>usize::MAX\<close> is never a number of messages.\<close>

abbreviation short :: "solidifier_event list \<Rightarrow> bool" where
  "short H \<equiv> length H < 2 ^ 64 - 1"

lemma persisted_length:
  assumes "distinct ids" and "list_all (persisted H mi) ids"
  shows "length ids \<le> card (set H)"
proof -
  have "inj_on (\<lambda>i. SoCqlResult (Inr (PersistedMsg i mi))) (set ids)" by (auto intro: inj_onI)
  moreover have "(\<lambda>i. SoCqlResult (Inr (PersistedMsg i mi))) ` set ids \<subseteq> set H"
    using assms(2) by (auto simp: list_all_iff persisted_def)
  ultimately have "card (set ids) \<le> card (set H)" by (meson List.finite_set card_inj_on_le)
  then show ?thesis using distinct_card [OF assms(1)] by simp
qed

lemma db_all_justified:
  assumes "db_ok H outs mi d" and "check_if_all_in_database d" and "short H"
  shows "synced_justified H outs mi"
proof -
  let ?ids = "map fst (db_ids d)"
  have h: "card (set H) < 2 ^ 64 - 1" using card_length [of H] assms(3) by linarith
  have ids: "distinct ?ids" "list_all (persisted H mi) ?ids" using assms(1) by (simp_all add: db_ok_def hm_ok_def)
  have n: "length ?ids < 2 ^ 64 - 1" using persisted_length [OF ids] h by linarith
  have eq: "db_messages_len d = of_nat (length ?ids)" using assms(2) by (simp add: check_if_all_in_database_def)
  have u: "unat (db_messages_len d) = length ?ids"
    using n unfolding eq by (simp add: unat_of_nat)
  have "unat (- 1 :: usize) = 2 ^ 64 - 1" by (simp add: unsigned_minus_1_eq_mask mask_eq_exp_minus_1)
  with u n have "db_messages_len d \<noteq> - 1" by auto
  then obtain md where md: "settled H outs mi md" "db_messages_len d = of_nat (length (ms_messages md))"
    using assms(1) by (auto simp: db_ok_def)
  have "length (ms_messages md) < 2 ^ 64" using md(1) h by (simp add: settled_def)
  then have len: "length ?ids = length (ms_messages md)" using u unfolding md(2) by (simp add: unat_of_nat)
  have "list_all (\<lambda>(i, fm). persisted H mi i) (ms_messages md)"
    if all: "\<forall>i. persisted H mi i \<longrightarrow> hm_contains (ms_messages md) i"
  proof -
    have "set ?ids \<subseteq> set (map fst (ms_messages md))"
      using ids(2) all by (auto simp: list_all_iff hm_contains_keys)
    moreover have "card (set ?ids) = card (set (map fst (ms_messages md)))"
      using distinct_card [OF ids(1)] distinct_card [of "map fst (ms_messages md)"] md(1) len
      by (simp add: settled_def hm_ok_def)
    ultimately have "set ?ids = set (map fst (ms_messages md))" by (metis List.finite_set card_subset_eq)
    then show ?thesis using ids(2) unfolding list_all_iff by force
  qed
  then show ?thesis
    using ids md(1) len assms(1,2) unfolding synced_justified_def db_ok_def check_if_all_in_database_def by blast
qed

lemma handle_in_database_inv:
  assumes "sol_inv H s" and "synced_justified H (so_out s) mi"
  shows "step_inv H (handle_in_database env mi s)"
proof -
  let ?s = "s\<lparr>so_in_database := hm_remove mi (so_in_database s), so_lru := lru_put (se_lru env) (so_lru s) mi ()\<rparr>"
  have i: "sol_inv H ?s" using sol_inv_remove(2) [OF assms(1)] by (simp add: sol_inv_def)
  have "sol_inv H (so_emit [InsertSync r k] ?s)" if "milestone_index r = mi" for r k
  proof (rule sol_inv_emit [OF i])
    have "synced_justified H (so_out s @ [InsertSync r k]) mi"
      by (rule synced_mono [OF assms(2)]) auto
    with that show "\<forall>out\<in>set [InsertSync r k]. out_ok H (so_out ?s @ [InsertSync r k]) out" by simp
  qed
  then show ?thesis using i by (simp add: handle_in_database_def Let_def)
qed

lemma store_db_inv:
  assumes "sol_inv H s" and "db_ok H (so_out s) mi d" and "short H"
  shows "step_inv H (if check_if_all_in_database d
    then handle_in_database env mi (s\<lparr>so_in_database := hm_insert mi d (so_in_database s)\<rparr>)
    else Inr (m, s\<lparr>so_in_database := hm_insert mi d (so_in_database s)\<rparr>))"
  using handle_in_database_inv [OF sol_inv_db [OF assms(1,2)]] db_all_justified [OF assms(2) _ assms(3)]
    sol_inv_db [OF assms(1,2)] by simp

lemma settle_inv:
  assumes inv: "sol_inv H s" and short: "short H" and md: "hm_get (so_data s) mi = Some md"
    and full: "check_if_completed md"
    and send: "\<And>s'. sol_inv H s' \<Longrightarrow> step_inv H (send md s')"
  shows "step_inv H (settle env mi s send)"
proof -
  let ?s = "s\<lparr>so_data := hm_remove mi (so_data s)\<rparr>"
  have i: "sol_inv H ?s" by (rule sol_inv_remove(1) [OF inv])
  have c: "ms_index md = mi" "cone_ok H md" using inv md by (auto simp: sol_inv_def)
  show ?thesis
  proof (cases "get_analytic_record md")
    case (Inl e)
    then show ?thesis using md i by (cases e) (simp_all add: settle_def Let_def)
  next
    case (Inr r)
    have a1: "step_inv H (insert_analytic env r ?s)"
      using sol_inv_emit [OF i, of "[InsertAnalytic r (so_retries s)]"] i by (simp add: insert_analytic_def)
    have a2: "step_inv H (let d = (case hm_get (so_in_database s') mi of None \<Rightarrow> in_database_from md | Some d \<Rightarrow> d);
          d = d\<lparr>db_messages_len := of_nat (length (ms_messages md))\<rparr>;
          s' = s'\<lparr>so_in_database := hm_insert mi d (so_in_database s')\<rparr>
        in step_then (if check_if_all_in_database d then handle_in_database env mi s' else Inr (None, s')) (send md))"
      if a: "insert_analytic env r ?s = Inr (None, s')" and s': "sol_inv H s'" for s'
    proof -
      have an: "settled H (so_out s') mi md"
      proof -
        have "InsertAnalytic r (so_retries s) \<in> set (so_out s')"
          using a by (auto simp: insert_analytic_def so_emit_def split: if_splits)
        then show ?thesis using Inr c cone_solid [OF c(2) full] cone_length [OF c(2)]
          unfolding settled_def cone_ok_def by blast
      qed
      define d where "d = (case hm_get (so_in_database s') mi of None \<Rightarrow> in_database_from md | Some d \<Rightarrow> d)
        \<lparr>db_messages_len := of_nat (length (ms_messages md))\<rparr>"
      have "db_ok H (so_out s') mi d"
        using s' an by (auto simp: d_def sol_inv_def db_ok_def in_database_from_def new_in_database_def split: option.splits)
      then have "step_inv H (if check_if_all_in_database d
          then handle_in_database env mi (s'\<lparr>so_in_database := hm_insert mi d (so_in_database s')\<rparr>)
          else Inr (None, s'\<lparr>so_in_database := hm_insert mi d (so_in_database s')\<rparr>))"
        by (rule store_db_inv [OF s' _ short])
      from step_inv_then [OF this, of "send md", OF send] show ?thesis
        by (simp only: Let_def d_def [symmetric])
    qed
    show ?thesis
      unfolding settle_def Let_def md Inr option.case sum.case
      by (rule step_inv_then [OF a1 a2 [unfolded Let_def]])
  qed
qed

lemma push_if_completed_inv:
  assumes "sol_inv H s" and "short H" and "hm_get (so_data s) mi = Some md"
  shows "step_inv H (push_if_completed env mi md s)"
proof (cases "check_if_completed md")
  case True
  then have solid: "solid H md" using assms(1,3) cone_solid by (auto simp: sol_inv_def)
  show ?thesis
  proof (cases "ms_created_by md = Syncer_C")
    case True
    have "sol_inv H (so_emit [SoToSyncer (SyMilestoneData md)] s')" if "sol_inv H s'" for s' :: "'a solidifier"
      using that solid True by (intro sol_inv_emit) auto
    then show ?thesis using settle_inv [OF assms \<open>check_if_completed md\<close>] True
      by (simp add: push_if_completed_def push_to_syncer_def assms(1))
  next
    case False
    have "sol_inv H (so_emit [SoToArchiver (ArMilestoneData md None)] s')" if "sol_inv H s'" for s' :: "'a solidifier"
      using that solid False by (intro sol_inv_emit) auto
    then show ?thesis using settle_inv [OF assms \<open>check_if_completed md\<close>] False
      by (simp add: push_if_completed_def push_to_logger_def assms(1))
  qed
qed (simp add: push_if_completed_def assms(1))


text \<open>The messages of an event carry the parents that their metadata lists.\<close>

definition parents_agree :: "solidifier_event \<Rightarrow> bool" where
  "parents_agree ev \<longleftrightarrow>
     (case ev of
        SoMessage fm \<Rightarrow> msg_parents (fm_message fm) = md_parent_message_ids (fm_metadata fm)
      | SoMilestone mm \<Rightarrow>
          (case mm_metadata mm of
             Some meta \<Rightarrow> msg_parents (mm_message mm) = md_parent_message_ids meta
           | None \<Rightarrow> True)
      | _ \<Rightarrow> True)"

lemma sol_inv_collector:
  "sol_inv H s \<Longrightarrow> \<forall>out\<in>set os. \<exists>cid ask. out = ToCollector cid ask \<Longrightarrow> sol_inv H (so_emit os s)"
  by (rule sol_inv_emit) auto

lemma request_milestone_collector: "\<forall>out\<in>set (request_milestone_message hs p mi). \<exists>cid ask. out = ToCollector cid ask"
  by (simp add: request_milestone_message_def)

lemma get_or_new_ok:
  "sol_inv H s \<Longrightarrow> cone_ok H (get_or_new mi by s) \<and> ms_index (get_or_new mi by s) = mi"
  by (auto simp: get_or_new_def sol_inv_def split: option.splits)

lemma expect_between_spec:
  assumes "expect_between n sid es data = Inr data'"
  shows "hm_get data' mi = (case hm_get data mi of Some md \<Rightarrow> Some md
    | None \<Rightarrow> if mi \<in> set es \<and> ucast (mi mod ucast n) = sid then Some (new_milestone_data mi Expected) else None)"
  using assms
  by (induction es arbitrary: data) (auto split: if_splits option.splits)

lemma sol_inv_data:
  "sol_inv H s \<Longrightarrow> \<forall>mi md. hm_get data mi = Some md \<longrightarrow> ms_index md = mi \<and> cone_ok H md \<Longrightarrow> sol_inv H (s\<lparr>so_data := data\<rparr>)"
  by (simp add: sol_inv_def)

lemma insert_new_inv:
  assumes inv: "sol_inv H s" and par: "msg_parents (fm_message fm) = md_parent_message_ids (fm_metadata fm)"
    and rec: "collected_from H fm" and res: "insert_new_entry_or_not env mi fm s = Inr s'"
  shows "sol_inv H s'"
proof -
  let ?s = "s\<lparr>so_unreachable := lru_touch (se_lru env) (so_unreachable s) mi\<rparr>"
  have i: "sol_inv H ?s" using inv by simp
  have put: "sol_inv H (so_emit os (put_data mi md' s1))"
    if "process_milestone_data hs n sid mi fm md = Inr (md', os)" "sol_inv H s1" "cone_ok H md" "ms_index md = mi"
    for hs n sid md md' os and s1 :: "'a solidifier"
    using process_milestone_data_spec [OF that(1,3) par rec] that(2,4) by (intro sol_inv_collector sol_inv_put) auto
  consider "s' = ?s"
    | "so_gap_start s \<le> mi" "so_first s = None" | "so_first s \<noteq> None" "so_expected s \<le> mi"
    using res by (auto simp: insert_new_entry_or_not_def Let_def lru_get_def split: if_splits)
  then show ?thesis
  proof cases
    case 1
    then show ?thesis using i by simp
  next
    case 2
    let ?s1 = "so_emit (request_milestone_message (so_collectors s) (so_partition_id s) mi)
      (?s\<lparr>so_first := Some mi, so_expected := mi + ucast (so_collector_count s)\<rparr>)"
    have i1: "sol_inv H ?s1" using i by (intro sol_inv_collector request_milestone_collector) simp
    show ?thesis
      using res 2 put [OF _ i1] get_or_new_ok [OF i1] i
      by (auto simp: insert_new_entry_or_not_def Let_def lru_get_def rbind_Inr_iff so_emit_def split: if_splits)
  next
    case 3
    define md0 where "md0 = (case msg_payload (fm_message fm) of
      Some (Milestone_P p) \<Rightarrow> set_milestone p (get_or_new mi Incoming ?s) | _ \<Rightarrow> get_or_new mi Incoming ?s)"
    have md0: "cone_ok H md0" "ms_index md0 = mi"
      using get_or_new_ok [OF i, of mi Incoming]
      by (auto simp: md0_def cone_milestone split: option.splits payload.splits)
    show ?thesis
    proof (cases "s' = ?s")
      case False
      then obtain md' os data where r:
        "process_milestone_data (so_collectors s) (so_collector_count s) (so_partition_id s) mi fm md0 = Inr (md', os)"
        "expect_between (so_collector_count s) (so_partition_id s) (range_list (Range (so_expected s) mi))
           (so_data (so_emit os (put_data mi md' ?s))) = Inr data"
        "s' = (so_emit os (put_data mi md' ?s))\<lparr>so_data := data, so_expected := mi + ucast (so_collector_count s)\<rparr>"
        using res 3
        by (auto simp: insert_new_entry_or_not_def Let_def lru_get_def rbind_Inr_iff md0_def so_emit_def put_data_def
            split: if_splits)
      have i1: "sol_inv H (so_emit os (put_data mi md' ?s))" by (rule put [OF r(1) i md0])
      have "\<forall>k md. hm_get data k = Some md \<longrightarrow> ms_index md = k \<and> cone_ok H md"
        using i1 expect_between_spec [OF r(2)]
        by (auto simp: sol_inv_def split: option.splits if_splits)
      from sol_inv_data [OF i1 this] show ?thesis using r(3) by simp
    qed (use i in simp)
  qed
qed


lemma close_inv:
  assumes "sol_inv H s" and "short H" and "SoClose i mi \<in> set H"
  shows "step_inv H (close_message_id env mi i s)"
proof (cases "hm_get (so_data s) mi")
  case (Some md)
  let ?md = "remove_from_pending i md"
  have "cone_ok H ?md" "ms_index ?md = mi"
    using assms(1,3) Some cone_close [of H md i] by (auto simp: sol_inv_def)
  then have "sol_inv H (put_data mi ?md s)" by (rule sol_inv_put [OF assms(1)])
  from push_if_completed_inv [OF this assms(2), of mi ?md] Some show ?thesis
    by (simp add: close_message_id_def Let_def put_data_def)
qed (simp add: close_message_id_def assms(1))

lemma new_msg_inv:
  assumes inv: "sol_inv H s" and short: "short H"
    and par: "msg_parents (fm_message fm) = md_parent_message_ids (fm_metadata fm)" and rec: "collected_from H fm"
  shows "step_inv H (handle_new_msg env fm s)"
proof (cases "fm_ref_ms fm")
  case (Some mi)
  show ?thesis
  proof (cases "hm_get (so_data s) mi")
    case None
    then show ?thesis
      using Some insert_new_inv [OF inv par rec, of env mi]
      by (cases "insert_new_entry_or_not env mi fm s") (auto simp: handle_new_msg_def)
  next
    case (Some md)
    show ?thesis
    proof (cases "process_milestone_data (so_collectors s) (so_collector_count s) (so_partition_id s) mi fm md")
      case (Inr r)
      obtain md' os where r: "r = (md', os)" by fastforce
      have md: "cone_ok H md" "ms_index md = mi" using inv Some by (auto simp: sol_inv_def)
      note p = process_milestone_data_spec [OF Inr [unfolded r] md(1) par rec]
      have "sol_inv H (so_emit os (put_data mi md' s))"
        using p md(2) by (intro sol_inv_collector sol_inv_put inv) auto
      from push_if_completed_inv [OF this short, of mi md' env] show ?thesis
        using Inr r Some \<open>fm_ref_ms fm = Some mi\<close> by (simp add: handle_new_msg_def so_emit_def put_data_def)
    qed (simp add: handle_new_msg_def Some \<open>fm_ref_ms fm = Some mi\<close>)
  qed
qed (simp add: handle_new_msg_def)

lemma milestone_msg_inv:
  assumes inv: "sol_inv H s" and short: "short H" and par: "parents_agree (SoMilestone mm)"
    and ev: "SoMilestone mm \<in> set H"
  shows "step_inv H (handle_milestone_msg env mm s)"
proof (cases "hm_get (so_data s) (mp_index (mm_payload mm))")
  case None
  show ?thesis
  proof (cases "mm_metadata mm")
    case (Some meta)
    let ?fm = "FullMessage (mm_message mm) meta"
    have rec: "collected_from H ?fm" using ev Some unfolding collected_from_def by (force simp: event_message_def)
    have "msg_parents (fm_message ?fm) = md_parent_message_ids (fm_metadata ?fm)"
      using par Some by (simp add: parents_agree_def)
    from insert_new_inv [OF inv this rec, of env "mp_index (mm_payload mm)"] show ?thesis
      using None Some
      by (cases "insert_new_entry_or_not env (mp_index (mm_payload mm)) ?fm s")
         (auto simp: handle_milestone_msg_def Let_def)
  qed (use None inv in \<open>simp add: handle_milestone_msg_def Let_def\<close>)
next
  case (Some md)
  let ?mi = "mp_index (mm_payload mm)"
  have md: "cone_ok H md" "ms_index md = ?mi" using inv Some by (auto simp: sol_inv_def)
  show ?thesis
  proof (cases "process_parents (so_collectors s) (so_collector_count s) (so_partition_id s) ?mi
      (msg_parents (mm_message mm)) md")
    case (Inr r)
    obtain md1 os where r: "r = (md1, os)" by fastforce
    from process_parents_spec [OF Inr [unfolded r]] obtain pend where p: "md1 = md\<lparr>ms_pending := pend\<rparr>"
      "\<forall>i. hm_contains (ms_pending md) i \<longrightarrow> hm_contains pend i"
      "\<forall>p\<in>set (msg_parents (mm_message mm)). p = 0 \<or> hm_contains (ms_messages md) p \<or> hm_contains pend p"
      "\<forall>out\<in>set os. \<exists>cid ask. out = ToCollector cid ask" by blast
    have c1: "cone_ok H md1" "ms_index md1 = ?mi" using cone_pending [OF md(1) p(2)] md(2) p(1) by simp_all
    show ?thesis
    proof (cases "mm_metadata mm")
      case None
      have "sol_inv H (so_emit os (put_data ?mi md1 s))"
        using c1 p(4) by (intro sol_inv_collector sol_inv_put inv)
      then show ?thesis using Inr r None Some by (simp add: handle_milestone_msg_def Let_def)
    next
      case (Some meta)
      let ?fm = "FullMessage (mm_message mm) meta"
      let ?md = "add_full_message ?fm (remove_from_pending (md_message_id meta) (set_milestone (mm_payload mm) md1))"
      have rec: "collected_from H ?fm" using ev Some unfolding collected_from_def by (force simp: event_message_def)
      have "\<forall>p\<in>set (msg_parents (fm_message ?fm)). known H (set_milestone (mm_payload mm) md1) p"
        using p(1,3) by (auto simp: known_def set_milestone_def)
      from cone_add [OF _ this rec] c1 have "cone_ok H ?md" "ms_index ?md = ?mi" by (simp_all add: cone_milestone)
      then have "sol_inv H (so_emit os (put_data ?mi ?md s))"
        using p(4) by (intro sol_inv_collector sol_inv_put inv)
      from push_if_completed_inv [OF this short, of ?mi ?md env] show ?thesis
        using Inr r Some \<open>hm_get (so_data s) ?mi = Some md\<close>
        by (simp add: handle_milestone_msg_def Let_def so_emit_def put_data_def)
    qed
  qed (simp add: handle_milestone_msg_def Let_def Some)
qed

lemma cql_ok_inv:
  assumes inv: "sol_inv H s" and short: "short H" and ev: "SoCqlResult (Inr r) \<in> set H"
  shows "step_inv H (handle_cql_ok env r s)"
proof (cases r)
  case (PersistedMsg i mi)
  have per: "persisted H mi i" using ev PersistedMsg by (simp add: persisted_def)
  have add: "db_ok H outs mi (add_message_id i d)" if "db_ok H outs mi d" for outs d
  proof -
    have k: "list_all P (map fst l) \<longleftrightarrow> (\<forall>x\<in>hm_keys l. P x)" for P and l :: "(message_id, unit) hmap"
      by (simp add: list_all_iff)
    have "\<forall>x\<in>hm_keys (db_ids (add_message_id i d)). persisted H mi x"
    proof -
      have e: "db_ids (add_message_id i d) = hm_insert i () (db_ids d)" by (simp add: add_message_id_def)
      show ?thesis using that per unfolding db_ok_def k e hm_keys_insert by blast
    qed
    then show ?thesis using that unfolding db_ok_def k by (simp add: add_message_id_def)
  qed
  show ?thesis
  proof (cases "hm_get (so_in_database s) mi")
    case None
    have db: "db_ok H (so_out s) mi (add_message_id i new_in_database)" by (rule add) simp
    show ?thesis
      using None sol_inv_db [OF inv db] inv
      by (simp add: handle_cql_ok_def PersistedMsg Let_def lru_get_def sol_inv_def)
  next
    case (Some d)
    then have "db_ok H (so_out s) mi (add_message_id i d)" using inv by (intro add) (simp add: sol_inv_def)
    from store_db_inv [OF inv this short] show ?thesis
      using Some by (simp add: handle_cql_ok_def PersistedMsg Let_def)
  qed
next
  case (AnalyzedMilestone mi)
  show ?thesis
  proof (cases "hm_get (so_in_database s) mi")
    case (Some d)
    then have "db_ok H (so_out s) mi (d\<lparr>db_analyzed := True\<rparr>)"
      using inv ev AnalyzedMilestone by (auto simp: sol_inv_def db_ok_def)
    from store_db_inv [OF inv this short] show ?thesis
      using Some by (simp add: handle_cql_ok_def AnalyzedMilestone Let_def)
  qed (simp add: handle_cql_ok_def AnalyzedMilestone inv)
qed (simp add: handle_cql_ok_def inv)

lemma failure_inv:
  assumes "sol_inv H s"
  shows "sol_inv H (handle_solidify_failure env mi s)"
proof -
  let ?s = "s\<lparr>so_data := hm_remove mi (so_data s), so_lru := lru_pop (se_lru env) (so_lru s) mi,
    so_in_database := hm_remove mi (so_in_database s),
    so_unreachable := lru_put (se_lru env) (lru_touch (se_lru env) (so_unreachable s) mi) mi ()\<rparr>"
  have i: "sol_inv H ?s" using assms by (simp add: sol_inv_def)
  have "sol_inv H (so_emit [SoToSyncer (SyUnreachable mi)] ?s)" by (rule sol_inv_emit [OF i]) simp
  then show ?thesis using i assms
    by (simp add: handle_solidify_failure_def Let_def lru_get_def split: option.splits)
qed

lemma solidify_inv:
  assumes inv: "sol_inv H s"
  shows "sol_inv H (handle_solidify env mi s)"
proof -
  have emit: "sol_inv H (so_emit [SoToSyncer (SyUnreachable mi)] s')" if "sol_inv H s'" for s' :: "'a solidifier"
    using that by (rule sol_inv_emit) simp
  let ?s = "s\<lparr>so_unreachable := lru_pop (se_lru env) (so_unreachable s) mi\<rparr>"
  have i: "sol_inv H ?s" using inv by simp
  have new: "sol_inv H ((so_emit (request_milestone_message hs p mi) (put_data mi md ?s))
      \<lparr>so_in_database := hm_or_insert mi new_in_database (so_in_database s)\<rparr>)"
    if "cone_ok H md" "ms_index md = mi" for md hs p
  proof -
    have e: "sol_inv H (so_emit (request_milestone_message hs p mi) (put_data mi md ?s))"
      by (rule sol_inv_collector [OF sol_inv_put [OF i that] request_milestone_collector])
    then show ?thesis
      using sol_inv_db [OF e db_ok_new, of mi] by (simp add: hm_or_insert_def so_emit_def put_data_def sol_inv_def)
  qed
  show ?thesis
  proof (cases "hm_get (so_data s) mi")
    case None
    then show ?thesis using emit inv i new [OF cone_new]
      by (simp add: handle_solidify_def Let_def)
  next
    case (Some md)
    then have "cone_ok H (md\<lparr>ms_created_by := Syncer_C\<rparr>)" "ms_index (md\<lparr>ms_created_by := Syncer_C\<rparr>) = mi"
      using inv by (auto simp: sol_inv_def cone_created)
    from new [OF this] show ?thesis using emit inv i Some
      by (simp add: handle_solidify_def Let_def)
  qed
qed

lemma event_inv:
  assumes inv: "sol_inv H s" and short: "short (H @ [ev])" and par: "parents_agree ev"
    and res: "handle_solidifier_event env ev s = Inr (go, s')"
  shows "sol_inv (H @ [ev]) s'"
proof -
  have i: "sol_inv (H @ [ev]) s" by (rule sol_inv_event [OF inv])
  have lg: "sol_inv (H @ [ev]) s'" if "logged r = Inr (go, s')" "step_inv (H @ [ev]) r" for r
    using that by (cases r) (auto simp: logged_def)
  show ?thesis
  proof (cases ev)
    case (SoMilestone mm)
    with res par lg milestone_msg_inv [OF i short _, of mm env] show ?thesis by (auto simp: handle_solidifier_event_def)
  next
    case (SoMessage fm)
    with res par lg new_msg_inv [OF i short, of fm env] show ?thesis
      by (auto simp: handle_solidifier_event_def parents_agree_def collected_from_def event_message_def)
  next
    case (SoClose m mi)
    with res lg close_inv [OF i short] show ?thesis by (auto simp: handle_solidifier_event_def)
  next
    case (SoSolidify r)
    with res failure_inv [OF i] solidify_inv [OF i] show ?thesis
      by (cases r) (auto simp: handle_solidifier_event_def)
  next
    case (SoCqlResult r)
    with res lg cql_ok_inv [OF i short] sol_inv_emit [OF i, of "[AlertOutage]"] show ?thesis
      by (cases r) (auto simp: handle_solidifier_event_def)
  qed (use res i in \<open>simp add: handle_solidifier_event_def\<close>)
qed

lemma loop_inv:
  assumes "sol_inv H s" and "length H + length evs < 2 ^ 64 - 1" and "list_all parents_agree evs"
    and "solidifier_loop env evs s = Inr (go, s')"
  shows "\<exists>seen. prefix seen evs \<and> sol_inv (H @ seen) s' \<and> (go \<longrightarrow> seen = evs)"
  using assms
proof (induction evs arbitrary: H s)
  case (Cons ev evs)
  obtain g s1 where e: "handle_solidifier_event env ev s = Inr (g, s1)"
    "if g then solidifier_loop env evs s1 = Inr (go, s') else go = False \<and> s' = s1"
    using Cons.prems(4) by (auto simp: rbind_Inr_iff split: if_splits)
  have i1: "sol_inv (H @ [ev]) s1" using event_inv [OF Cons.prems(1) _ _ e(1)] Cons.prems by simp
  show ?case
  proof (cases g)
    case True
    then obtain seen where "prefix seen evs" "sol_inv ((H @ [ev]) @ seen) s'" "go \<longrightarrow> seen = evs"
      using Cons.IH [OF i1] Cons.prems e(2) by auto
    then show ?thesis by (intro exI [of _ "ev # seen"]) simp
  next
    case False
    then show ?thesis using e(2) i1 by (intro exI [of _ "[ev]"]) simp
  qed
qed simp

section \<open>One answer per request\<close>

fun answer_for :: "solidifier_out \<Rightarrow> u32 option" where
  "answer_for (SoToSyncer ev) =
     (case ev of SyMilestoneData md \<Rightarrow> Some (ms_index md) | SyUnreachable mi \<Rightarrow> Some mi | _ \<Rightarrow> None)"
| "answer_for (ToCollector c a) = None"
| "answer_for (SoToArchiver ev) = None"
| "answer_for (InsertSync r k) = None"
| "answer_for (InsertAnalytic r k) = None"
| "answer_for AlertOutage = None"

definition answers :: "u32 \<Rightarrow> solidifier_out list \<Rightarrow> nat" where
  "answers x outs = length (filter (\<lambda>out. answer_for out = Some x) outs)"

text \<open>An entry that the syncer owns is a request (or the first milestone) not yet answered.\<close>

definition owned :: "(u32, milestone_data) hmap \<Rightarrow> u32 \<Rightarrow> nat" where
  "owned data x = (case hm_get data x of Some md \<Rightarrow> if ms_created_by md = Syncer_C then 1 else 0 | None \<Rightarrow> 0)"

definition requests :: "u32 \<Rightarrow> solidifier_event list \<Rightarrow> nat" where
  "requests x evs = length (filter (\<lambda>ev. ev = SoSolidify (Inr x)) evs)"

definition first_is :: "'c solidifier \<Rightarrow> u32 \<Rightarrow> nat" where
  "first_is s x = (if so_first s = Some x then 1 else 0)"

text \<open>Messages whose included transactions only have the outputs that the analytics can count.\<close>

definition countable_outputs :: "full_message \<Rightarrow> bool" where
  "countable_outputs fm \<longleftrightarrow> None \<notin> output_amount ` set (case included_outputs fm of None \<Rightarrow> [] | Some os \<Rightarrow> os)"

definition regular_event :: "solidifier_event \<Rightarrow> bool" where
  "regular_event ev \<longleftrightarrow>
     (case ev of
        SoMessage fm \<Rightarrow> countable_outputs fm \<and> fm_ref_ms fm \<noteq> None
      | SoMilestone mm \<Rightarrow>
          (case mm_metadata mm of Some meta \<Rightarrow> countable_outputs (FullMessage (mm_message mm) meta) | None \<Rightarrow> True)
      | _ \<Rightarrow> True)"

definition env_builds :: "'c solidifier_env \<Rightarrow> bool" where
  "env_builds env \<longleftrightarrow> (\<forall>r. se_sync_builds env r) \<and> (\<forall>r. se_analytic_builds env r)"

definition regular_data :: "u32 \<Rightarrow> milestone_data \<Rightarrow> bool" where
  "regular_data mi md \<longleftrightarrow> ms_index md = mi \<and> (\<forall>(i, fm)\<in>set (ms_messages md). countable_outputs fm)"

definition regular :: "'c solidifier \<Rightarrow> bool" where
  "regular s \<longleftrightarrow> so_collector_count s \<noteq> 0 \<and> (\<forall>mi md. hm_get (so_data s) mi = Some md \<longrightarrow> regular_data mi md)"

text \<open>From \<open>s\<close> to \<open>s'\<close> nothing is answered twice or forgotten.\<close>

definition balanced :: "'c solidifier \<Rightarrow> 'c solidifier \<Rightarrow> bool" where
  "balanced s s' \<longleftrightarrow> regular s' \<and>
     (\<forall>x. answers x (so_out s') + owned (so_data s') x + first_is s x =
          answers x (so_out s) + owned (so_data s) x + first_is s' x)"

lemma balanced_refl: "regular s \<Longrightarrow> balanced s s"
  by (simp add: balanced_def)

lemma balanced_trans: "balanced s s1 \<Longrightarrow> balanced s1 s2 \<Longrightarrow> balanced s s2"
proof -
  assume a: "balanced s s1" "balanced s1 s2"
  have "answers x (so_out s2) + owned (so_data s2) x + first_is s x =
      answers x (so_out s) + owned (so_data s) x + first_is s2 x" for x
    using a unfolding balanced_def by (smt (verit) add.assoc add.commute add_left_cancel)
  then show ?thesis using a(2) by (simp add: balanced_def)
qed

lemma answers_simps [simp]:
  "answers x [] = 0" "answers x (os @ os') = answers x os + answers x os'"
  "answers x (out # os) = (if answer_for out = Some x then 1 else 0) + answers x os"
  by (simp_all add: answers_def)

lemma answers_collector: "\<forall>out\<in>set os. \<exists>cid ask. out = ToCollector cid ask \<Longrightarrow> answers x os = 0"
  by (induction os) auto

lemma all_outputs_countable:
  "\<forall>(i, fm)\<in>set ms. countable_outputs fm \<Longrightarrow> None \<notin> output_amount ` set (all_outputs ms)"
  by (induction ms) (auto simp: countable_outputs_def split: option.splits)

lemma record_succeeds:
  "check_if_completed md \<Longrightarrow> regular_data mi md \<Longrightarrow> \<exists>r. get_analytic_record md = Inr r"
  using all_outputs_countable [of "ms_messages md"]
  by (simp add: get_analytic_record_def acc_messages_eq regular_data_def)

lemma settle_ok:
  assumes "regular s" and "env_builds env" and "hm_get (so_data s) mi = Some md" and "check_if_completed md"
  shows "\<exists>s1. settle env mi s send = send md s1 \<and> so_data s1 = hm_remove mi (so_data s) \<and>
    (\<forall>x. answers x (so_out s1) = answers x (so_out s)) \<and> so_first s1 = so_first s \<and>
    so_collector_count s1 = so_collector_count s \<and> so_archiver s1 = so_archiver s"
proof -
  obtain r where r: "get_analytic_record md = Inr r"
    using record_succeeds [OF assms(4)] assms(1,3) unfolding regular_def by blast
  have e: "se_sync_builds env r'" "se_analytic_builds env r" for r' r
    using assms(2) by (simp_all add: env_builds_def)
  let ?d = "(case hm_get (so_in_database s) mi of None \<Rightarrow> in_database_from md | Some d \<Rightarrow> d)
    \<lparr>db_messages_len := of_nat (length (ms_messages md))\<rparr>"
  show ?thesis
  proof (cases "check_if_all_in_database ?d")
    case True
    then show ?thesis using assms(3) r e
      by (simp add: settle_def Let_def insert_analytic_def handle_in_database_def so_emit_def)
         (rule exI, rule conjI, rule refl, simp)
  next
    case False
    then show ?thesis using assms(3) r e
      by (simp add: settle_def Let_def insert_analytic_def so_emit_def)
         (rule exI, rule conjI, rule refl, simp)
  qed
qed

lemma regular_frame:
  "regular s \<Longrightarrow> so_collector_count s' = so_collector_count s \<Longrightarrow>
   (\<And>mi md. hm_get (so_data s') mi = Some md \<Longrightarrow> regular_data mi md) \<Longrightarrow> regular s'"
  by (simp add: regular_def)

lemma push_if_completed_balanced:
  assumes "regular s" and "env_builds env" and "hm_get (so_data s) mi = Some md"
  shows "\<exists>s'. push_if_completed env mi md s = Inr (None, s') \<and> balanced s s'"
proof (cases "check_if_completed md")
  case True
  have idx: "ms_index md = mi" using assms(1,3) by (auto simp: regular_def regular_data_def)
  let ?send = "if ms_created_by md = Syncer_C
    then (\<lambda>md s. Inr (None, so_emit [SoToSyncer (SyMilestoneData md)] s))
    else (\<lambda>md s. Inr (None, if so_archiver s then so_emit [SoToArchiver (ArMilestoneData md None)] s else s))"
  obtain s1 where s1: "settle env mi s ?send = ?send md s1" "so_data s1 = hm_remove mi (so_data s)"
    "\<forall>x. answers x (so_out s1) = answers x (so_out s)" "so_first s1 = so_first s"
    "so_collector_count s1 = so_collector_count s" "so_archiver s1 = so_archiver s"
    using settle_ok [OF assms True, of ?send] by blast
  have reg: "regular s1" using assms(1) s1(2,5) by (auto simp: regular_def split: if_splits)
  show ?thesis
    using s1 True reg assms(3) idx
    by (auto simp: push_if_completed_def push_to_syncer_def push_to_logger_def balanced_def regular_def so_emit_def
        owned_def first_is_def)
qed (simp add: push_if_completed_def balanced_refl assms(1))

lemma put_balanced:
  assumes "regular s" and "regular_data mi md" and "hm_get (so_data s) mi = Some md0" and "ms_created_by md = ms_created_by md0"
    and "\<forall>out\<in>set os. \<exists>cid ask. out = ToCollector cid ask"
  shows "balanced s (so_emit os (put_data mi md s)) \<and> hm_get (so_data (so_emit os (put_data mi md s))) mi = Some md"
  using assms by (auto simp: balanced_def regular_def so_emit_def put_data_def answers_collector owned_def first_is_def)


lemma set_hm_insert: "set (AList.update k v al) \<subseteq> insert (k, v) (set al)"
  by (induction al) auto

lemma regular_data_add:
  "regular_data mi md \<Longrightarrow> countable_outputs fm \<Longrightarrow> ms_index md' = ms_index md \<Longrightarrow>
   ms_messages md' = hm_insert (fm_message_id fm) fm (ms_messages md) \<Longrightarrow> regular_data mi md'"
  using set_hm_insert [of "fm_message_id fm" fm "ms_messages md"]
  by (auto simp: regular_data_def)

lemma process_milestone_data_total:
  assumes "n \<noteq> 0" and "regular_data mi md" and "countable_outputs fm"
  shows "\<exists>md' os. process_milestone_data hs n sid mi fm md = Inr (md', os) \<and> regular_data mi md' \<and>
    ms_created_by md' = ms_created_by md \<and> (\<forall>out\<in>set os. \<exists>cid ask. out = ToCollector cid ask)"
proof -
  obtain md1 os where p: "process_parents hs n sid mi (md_parent_message_ids (fm_metadata fm)) md = Inr (md1, os)"
    using process_parents_total [OF assms(1)] by blast
  let ?md = "add_full_message fm (remove_from_pending (fm_message_id fm) md1)"
  from process_parents_spec [OF p] obtain pend where "md1 = md\<lparr>ms_pending := pend\<rparr>"
    "\<forall>out\<in>set os. \<exists>cid ask. out = ToCollector cid ask" by blast
  moreover from this have "regular_data mi ?md"
    by (intro regular_data_add [OF assms(2,3)]) simp_all
  ultimately show ?thesis using p by (simp add: process_milestone_data_def)
qed

lemma expect_between_total: "n \<noteq> 0 \<Longrightarrow> \<exists>data'. expect_between n sid es data = Inr data'"
  by (induction es arbitrary: data) auto

lemma regular_data_new: "regular_data mi (new_milestone_data mi by)"
  by (simp add: regular_data_def)

lemma insert_new_balanced:
  assumes reg: "regular s" and fm: "countable_outputs fm" and none: "hm_get (so_data s) mi = None"
  shows "\<exists>s'. insert_new_entry_or_not env mi fm s = Inr s' \<and> balanced s s'"
proof -
  let ?n = "so_collector_count s" and ?u = "lru_touch (se_lru env) (so_unreachable s) mi"
  let ?s = "s\<lparr>so_unreachable := ?u\<rparr>"
  have n: "?n \<noteq> 0" using reg by (simp add: regular_def)
  have i: "balanced s ?s" using reg by (simp add: balanced_def regular_def first_is_def)
  have new: "regular_data mi (get_or_new mi by s')" if "so_data s' = so_data s" for s' :: "'a solidifier" and "by"
    using that none by (simp add: get_or_new_def regular_data_new)
  consider "insert_new_entry_or_not env mi fm s = Inr ?s"
    | "lru_peek (se_lru env) (so_unreachable s) mi = None" "so_first s = None" "so_gap_start s \<le> mi"
    | "lru_peek (se_lru env) (so_unreachable s) mi = None" "so_first s \<noteq> None" "so_expected s \<le> mi"
    by (cases "lru_peek (se_lru env) (so_unreachable s) mi = None"; cases "so_first s = None";
        cases "so_gap_start s \<le> mi"; cases "so_expected s \<le> mi")
       (auto simp: insert_new_entry_or_not_def Let_def lru_get_def)
  then show ?thesis
  proof cases
    case 1
    then show ?thesis using i by blast
  next
    case 2
    let ?ask = "request_milestone_message (so_collectors s) (so_partition_id s) mi"
    let ?s1 = "so_emit ?ask (?s\<lparr>so_first := Some mi, so_expected := mi + ucast ?n\<rparr>)"
    have g: "get_or_new mi Syncer_C ?s1 = new_milestone_data mi Syncer_C"
      using none by (simp add: get_or_new_def so_emit_def)
    obtain md os where p: "process_milestone_data (so_collectors s) ?n (so_partition_id s) mi fm
        (new_milestone_data mi Syncer_C) = Inr (md, os)" "regular_data mi md" "ms_created_by md = Syncer_C"
      "\<forall>out\<in>set os. \<exists>cid ask. out = ToCollector cid ask"
      using process_milestone_data_total [OF n regular_data_new fm] by fastforce
    have res: "insert_new_entry_or_not env mi fm s = Inr (so_emit os (put_data mi md ?s1))"
      using 2 p(1) g by (simp add: insert_new_entry_or_not_def Let_def lru_get_def so_emit_def)
    have "answers x (?ask @ os) = 0" for x
      using p(4) request_milestone_collector by (intro answers_collector) (auto simp del: request_milestone_collector)
    then have "balanced s (so_emit os (put_data mi md ?s1))"
      using reg p(2,3) none 2(2)
      by (auto simp: balanced_def regular_def so_emit_def put_data_def owned_def first_is_def)
    then show ?thesis using res by blast
  next
    case 3
    define md0 where "md0 = (case msg_payload (fm_message fm) of
      Some (Milestone_P p) \<Rightarrow> set_milestone p (get_or_new mi Incoming ?s) | _ \<Rightarrow> get_or_new mi Incoming ?s)"
    have md0: "regular_data mi md0" "ms_created_by md0 = Incoming"
      using none by (auto simp: md0_def get_or_new_def regular_data_def split: option.splits payload.splits)
    obtain md os where p: "process_milestone_data (so_collectors s) ?n (so_partition_id s) mi fm md0 = Inr (md, os)"
      "regular_data mi md" "ms_created_by md = Incoming" "\<forall>out\<in>set os. \<exists>cid ask. out = ToCollector cid ask"
      using process_milestone_data_total [OF n md0(1) fm] md0(2) by fastforce
    obtain data where d: "expect_between ?n (so_partition_id s) (range_list (Range (so_expected s) mi))
        (hm_insert mi md (so_data s)) = Inr data" using expect_between_total [OF n] by blast
    note get = expect_between_spec [OF d]
    let ?s' = "(so_emit os (put_data mi md ?s))\<lparr>so_data := data, so_expected := mi + ucast ?n\<rparr>"
    obtain f where "so_first s = Some f" using 3(2) by blast
    then have res: "insert_new_entry_or_not env mi fm s = Inr ?s'"
      using 3(1,3) p(1) d
      by (simp add: insert_new_entry_or_not_def Let_def lru_get_def so_emit_def put_data_def md0_def [symmetric])
    have "regular_data k md'" if "hm_get data k = Some md'" for k md'
      using that get [of k] reg p(2) regular_data_new by (auto simp: regular_def split: option.splits if_splits)
    then have "regular ?s'" using reg by (simp add: regular_def so_emit_def put_data_def)
    moreover have "owned data x = owned (so_data s) x" for x
      using get [of x] none p(3) by (auto simp: owned_def split: option.splits if_splits)
    ultimately have "balanced s ?s'"
      using p(4) by (simp add: balanced_def so_emit_def put_data_def first_is_def answers_collector)
    then show ?thesis using res by blast
  qed
qed

lemma close_balanced:
  assumes "regular s" and "env_builds env"
  shows "\<exists>s'. close_message_id env mi i s = Inr (None, s') \<and> balanced s s'"
proof (cases "hm_get (so_data s) mi")
  case (Some md)
  let ?s = "put_data mi (remove_from_pending i md) s"
  have "regular_data mi (remove_from_pending i md)" using assms(1) Some by (auto simp: regular_def regular_data_def)
  from put_balanced [OF assms(1) this Some, of "[]"]
  have b: "balanced s ?s" "hm_get (so_data ?s) mi = Some (remove_from_pending i md)"
    by (simp_all add: so_emit_def)
  then have "regular ?s" by (simp add: balanced_def)
  from push_if_completed_balanced [OF this assms(2) b(2)] Some b(1) show ?thesis
    by (auto simp: close_message_id_def Let_def intro: balanced_trans)
qed (simp add: close_message_id_def balanced_refl assms(1))

lemma new_msg_balanced:
  assumes reg: "regular s" and env: "env_builds env" and fm: "countable_outputs fm" "fm_ref_ms fm = Some mi"
  shows "\<exists>s'. handle_new_msg env fm s = Inr (None, s') \<and> balanced s s'"
proof (cases "hm_get (so_data s) mi")
  case None
  from insert_new_balanced [OF reg fm(1) None, of env] None fm(2) show ?thesis by (fastforce simp: handle_new_msg_def)
next
  case (Some md)
  have n: "so_collector_count s \<noteq> 0" and r: "regular_data mi md" using reg Some by (auto simp: regular_def)
  obtain md' os where p: "process_milestone_data (so_collectors s) (so_collector_count s) (so_partition_id s) mi fm md
      = Inr (md', os)" "regular_data mi md'" "ms_created_by md' = ms_created_by md"
    "\<forall>out\<in>set os. \<exists>cid ask. out = ToCollector cid ask"
    using process_milestone_data_total [OF n r fm(1)] by blast
  let ?s = "so_emit os (put_data mi md' s)"
  have b: "balanced s ?s" "hm_get (so_data ?s) mi = Some md'"
    using put_balanced [OF reg p(2) Some p(3,4)] by simp_all
  then have "regular ?s" by (simp add: balanced_def)
  from push_if_completed_balanced [OF this env b(2)] Some p(1) b(1) fm(2) show ?thesis
    by (auto simp: handle_new_msg_def intro: balanced_trans)
qed

lemma milestone_msg_balanced:
  assumes reg: "regular s" and env: "env_builds env" and ev: "regular_event (SoMilestone mm)"
  shows "\<exists>s'. handle_milestone_msg env mm s = Inr (None, s') \<and> balanced s s'"
proof (cases "hm_get (so_data s) (mp_index (mm_payload mm))")
  case None
  show ?thesis
  proof (cases "mm_metadata mm")
    case (Some meta)
    with ev have "countable_outputs (FullMessage (mm_message mm) meta)" by (simp add: regular_event_def)
    from insert_new_balanced [OF reg this None, of env] None Some show ?thesis
      by (fastforce simp: handle_milestone_msg_def Let_def)
  qed (use None reg in \<open>simp add: handle_milestone_msg_def Let_def balanced_refl\<close>)
next
  case (Some md)
  let ?mi = "mp_index (mm_payload mm)"
  have n: "so_collector_count s \<noteq> 0" and r: "regular_data ?mi md" using reg Some by (auto simp: regular_def)
  obtain md1 os where pp: "process_parents (so_collectors s) (so_collector_count s) (so_partition_id s) ?mi
      (msg_parents (mm_message mm)) md = Inr (md1, os)" using process_parents_total [OF n] by blast
  from process_parents_spec [OF pp] obtain pend where p: "md1 = md\<lparr>ms_pending := pend\<rparr>"
    "\<forall>out\<in>set os. \<exists>cid ask. out = ToCollector cid ask" by blast
  have r1: "regular_data ?mi md1" "ms_created_by md1 = ms_created_by md" using r p(1) by (simp_all add: regular_data_def)
  show ?thesis
  proof (cases "mm_metadata mm")
    case None
    then show ?thesis
      using put_balanced [OF reg r1(1) Some r1(2) p(2)] pp Some
      by (simp add: handle_milestone_msg_def Let_def)
  next
    case (Some meta)
    let ?fm = "FullMessage (mm_message mm) meta"
    let ?md = "add_full_message ?fm (remove_from_pending (md_message_id meta) (set_milestone (mm_payload mm) md1))"
    let ?s = "so_emit os (put_data ?mi ?md s)"
    have "countable_outputs ?fm" using ev Some by (simp add: regular_event_def)
    then have "regular_data ?mi ?md" by (rule regular_data_add [OF r1(1)]) simp_all
    from put_balanced [OF reg this \<open>hm_get (so_data s) ?mi = Some md\<close> _ p(2)] r1(2)
    have b: "balanced s ?s" "hm_get (so_data ?s) ?mi = Some ?md" by simp_all
    then have "regular ?s" by (simp add: balanced_def)
    from push_if_completed_balanced [OF this env b(2)] Some pp b(1) \<open>hm_get (so_data s) ?mi = Some md\<close> show ?thesis
      by (auto simp: handle_milestone_msg_def Let_def intro: balanced_trans)
  qed
qed


lemma cql_ok_balanced:
  assumes "regular s" and "env_builds env"
  shows "\<exists>s'. handle_cql_ok env r s = Inr (None, s') \<and> balanced s s'"
proof -
  have e: "se_sync_builds env r'" for r' using assms(2) by (simp add: env_builds_def)
  have f: "balanced s s'" if "so_data s' = so_data s" "so_first s' = so_first s"
    "so_collector_count s' = so_collector_count s" "\<forall>x. answers x (so_out s') = answers x (so_out s)"
    for s' :: "'a solidifier"
    using assms(1) that by (simp add: balanced_def regular_def first_is_def)
  show ?thesis
    by (cases r)
       (auto simp: handle_cql_ok_def handle_in_database_def e Let_def lru_get_def so_emit_def
        split: option.splits intro!: f)
qed

lemma failure_balanced:
  assumes "regular s"
  shows "balanced s (handle_solidify_failure env mi s)"
  using assms
  by (auto simp: handle_solidify_failure_def Let_def lru_get_def so_emit_def balanced_def regular_def owned_def
      first_is_def split: option.splits if_splits)

text \<open>A request raises what is owed by one, or is answered at once.\<close>

lemma solidify_counts:
  assumes "regular s"
  shows "regular (handle_solidify env mi s)"
    and "so_first (handle_solidify env mi s) = so_first s"
    and "answers x (so_out (handle_solidify env mi s)) + owned (so_data (handle_solidify env mi s)) x =
      answers x (so_out s) + owned (so_data s) x + (if x = mi then 1 else 0)"
proof -
  have a: "answers x (request_milestone_message hs p mi) = 0" for x hs p
    by (rule answers_collector [OF request_milestone_collector])
  show "regular (handle_solidify env mi s)"
    using assms
    by (auto simp: handle_solidify_def Let_def so_emit_def put_data_def regular_def regular_data_def split: option.splits)
  show "so_first (handle_solidify env mi s) = so_first s"
    by (simp add: handle_solidify_def Let_def so_emit_def put_data_def split: option.splits)
  show "answers x (so_out (handle_solidify env mi s)) + owned (so_data (handle_solidify env mi s)) x =
      answers x (so_out s) + owned (so_data s) x + (if x = mi then 1 else 0)"
    by (auto simp: handle_solidify_def Let_def so_emit_def put_data_def owned_def a split: option.splits)
qed

lemma event_balanced:
  assumes reg: "regular s" and env: "env_builds env" and ev: "regular_event ev"
  shows "\<exists>go s'. handle_solidifier_event env ev s = Inr (go, s') \<and> regular s' \<and>
    (\<forall>x. answers x (so_out s') + owned (so_data s') x + first_is s x =
      answers x (so_out s) + owned (so_data s) x + first_is s' x + requests x [ev])"
proof -
  have ok: ?thesis if "handle_solidifier_event env ev s = logged r" "\<exists>s'. r = Inr (None, s') \<and> balanced s s'"
    "\<forall>mi. ev \<noteq> SoSolidify (Inr mi)" for r
    using that by (auto simp: logged_def balanced_def requests_def)
  show ?thesis
  proof (cases ev)
    case (SoMilestone mm)
    then show ?thesis using ok milestone_msg_balanced [OF reg env] ev by (simp add: handle_solidifier_event_def)
  next
    case (SoMessage fm)
    then obtain mi where "countable_outputs fm" "fm_ref_ms fm = Some mi" using ev by (auto simp: regular_event_def)
    from new_msg_balanced [OF reg env this] show ?thesis using SoMessage ok by (simp add: handle_solidifier_event_def)
  next
    case (SoClose i mi)
    then show ?thesis using ok close_balanced [OF reg env] by (simp add: handle_solidifier_event_def)
  next
    case (SoSolidify r)
    then show ?thesis
      using failure_balanced [OF reg] solidify_counts [OF reg]
      by (cases r) (auto simp: handle_solidifier_event_def balanced_def requests_def first_is_def)
  next
    case (SoCqlResult r)
    show ?thesis
    proof (cases r)
      case (Inl a)
      then show ?thesis using SoCqlResult reg
        by (auto simp: handle_solidifier_event_def so_emit_def regular_def requests_def first_is_def)
    next
      case (Inr a)
      then show ?thesis using SoCqlResult ok cql_ok_balanced [OF reg env] by (simp add: handle_solidifier_event_def)
    qed
  qed (use reg in \<open>auto simp: handle_solidifier_event_def requests_def\<close>)
qed

lemma loop_balanced:
  assumes "regular s" and env: "env_builds env" and "list_all regular_event evs"
  shows "\<exists>go s' seen. solidifier_loop env evs s = Inr (go, s') \<and> prefix seen evs \<and> (go \<longrightarrow> seen = evs) \<and>
    (\<forall>x. answers x (so_out s') + owned (so_data s') x + first_is s x =
      answers x (so_out s) + owned (so_data s) x + first_is s' x + requests x seen)"
  using assms(1,3)
proof (induction evs arbitrary: s)
  case Nil
  then show ?case by (auto simp: requests_def)
next
  case (Cons ev evs)
  then have "regular_event ev" by simp
  from event_balanced [OF Cons.prems(1) env this] obtain go s1 where s1:
    "handle_solidifier_event env ev s = Inr (go, s1)" "regular s1"
    "\<forall>x. answers x (so_out s1) + owned (so_data s1) x + first_is s x =
      answers x (so_out s) + owned (so_data s) x + first_is s1 x + requests x [ev]" by blast
  show ?case
  proof (cases go)
    case False
    then show ?thesis using s1 by (intro exI [of _ False] exI [of _ s1] exI [of _ "[ev]"]) simp
  next
    case True
    obtain g s2 seen where ih: "solidifier_loop env evs s1 = Inr (g, s2)" "prefix seen evs" "g \<longrightarrow> seen = evs"
      "\<forall>x. answers x (so_out s2) + owned (so_data s2) x + first_is s1 x =
        answers x (so_out s1) + owned (so_data s1) x + first_is s2 x + requests x seen"
      using Cons.IH [OF s1(2)] Cons.prems(2) by auto
    have r: "requests x (ev # seen) = requests x [ev] + requests x seen" for x by (simp add: requests_def)
    have "answers x (so_out s2) + owned (so_data s2) x + first_is s x =
        answers x (so_out s) + owned (so_data s) x + first_is s2 x + requests x (ev # seen)" for x
      using s1(3) [rule_format, of x] ih(4) [rule_format, of x] unfolding r by linarith
    then show ?thesis using s1(1) True ih(1-3)
      by (intro exI [of _ g] exI [of _ s2] exI [of _ "ev # seen"]) simp
  qed
qed


section \<open>Properties of the solidifier\<close>

definition delivered_solid :: "solidifier_event list \<Rightarrow> solidifier_out \<Rightarrow> bool" where
  "delivered_solid evs out =
     (case out of
        SoToSyncer ev \<Rightarrow>
          (case ev of SyMilestoneData md \<Rightarrow> solid evs md \<and> ms_created_by md = Syncer_C | SyUnreachable mi \<Rightarrow> True | _ \<Rightarrow> False)
      | SoToArchiver ev \<Rightarrow>
          (case ev of ArMilestoneData md u \<Rightarrow> solid evs md \<and> ms_created_by md \<noteq> Syncer_C \<and> u = None | ArClose mi \<Rightarrow> False)
      | _ \<Rightarrow> True)"

lemma new_solidifier_inv: "sol_inv [] (new_solidifier c i p hs n arch gap r)"
  by (simp add: sol_inv_def new_solidifier_def)

lemma loop_outputs:
  assumes "list_all parents_agree evs" and "length evs < 2 ^ 64 - 1"
    and "solidifier_loop env evs (new_solidifier c i p hs n arch gap r) = Inr (go, s)"
    and "out \<in> set (so_out s)"
  shows "out_ok evs (so_out s) out"
proof -
  from loop_inv [OF new_solidifier_inv _ assms(1,3)] assms(2) obtain seen
    where seen: "prefix seen evs" "sol_inv seen s" by auto
  then show ?thesis
    using assms(4) out_ok_mono [OF _ set_mono_prefix [OF seen(1)] order_refl] by (auto simp: sol_inv_def)
qed

text \<open>
  C13. Whatever the events and their order, the milestone data that a solidifier hands on is solid:
  the milestone is there, and every parent of every collected message is collected as well, is the
  genesis, or was closed by a collector for that milestone. The syncer gets exactly the milestones
  it owns, the archiver only others.
\<close>

theorem solidifier_delivers_solid:
  assumes "list_all parents_agree evs" and "length evs < 2 ^ 64 - 1"
    and "solidifier_loop env evs (new_solidifier c i p hs n arch gap r) = Inr (go, s)"
  shows "list_all (delivered_solid evs) (so_out s)"
proof -
  have "delivered_solid evs out" if "out_ok evs (so_out s) out" for out
    using that by (cases out) (auto simp: delivered_solid_def)
  then show ?thesis using loop_outputs [OF assms] by (auto simp: list_all_iff)
qed


text \<open>
  C15. A solidifier never panics, and it answers every request of the syncer once: after any events
  the answers for a milestone, with data or unreachable, and the entry it still works on for the
  syncer number as many as the requests for it, plus one for the first milestone it observed.
\<close>

theorem solidifier_answers_once:
  assumes "n \<noteq> 0" and "env_builds env" and "list_all regular_event evs"
  shows "\<exists>go s seen. solidifier_loop env evs (new_solidifier c i p hs n arch gap r) = Inr (go, s) \<and> prefix seen evs \<and>
    (if go then seen = evs else True) \<and>
    (\<forall>x. answers x (so_out s) + owned (so_data s) x = requests x seen + (if so_first s = Some x then 1 else 0))"
proof -
  let ?s = "new_solidifier c i p hs n arch gap r"
  have "regular ?s" using assms(1) by (simp add: regular_def new_solidifier_def)
  from loop_balanced [OF this assms(2,3)] obtain go s seen where l: "solidifier_loop env evs ?s = Inr (go, s)"
    "prefix seen evs" "go \<longrightarrow> seen = evs"
    "\<forall>x. answers x (so_out s) + owned (so_data s) x + first_is ?s x =
      answers x (so_out ?s) + owned (so_data ?s) x + first_is s x + requests x seen" by blast
  have z: "so_out ?s = []" "so_data ?s = []" "so_first ?s = None" by (simp_all add: new_solidifier_def)
  have "answers x (so_out s) + owned (so_data s) x = requests x seen + (if so_first s = Some x then 1 else 0)" for x
    using l(4) [rule_format, of x] by (simp add: z first_is_def owned_def)
  then show ?thesis using l(1-3) by auto
qed

text \<open>A run in which the first milestone, index 10, is completed, stored and synced.\<close>

definition wit_env :: "(u32, unit) hmap solidifier_env" where
  "wit_env = \<lparr>se_lru = unbounded_lru, se_sync_builds = (\<lambda>_. True), se_analytic_builds = (\<lambda>_. True)\<rparr>"

definition wit_fm :: "message_id \<Rightarrow> message_id list \<Rightarrow> full_message" where
  "wit_fm i ps = FullMessage \<lparr>msg_parents = ps, msg_payload = None, msg_nonce = 0\<rparr>
     \<lparr>md_message_id = i, md_parent_message_ids = ps, md_is_solid = True, md_referenced_by = Some 10,
      md_inclusion_state = None, md_should_promote = None, md_should_reattach = None\<rparr>"

definition wit_events :: "solidifier_event list" where
  "wit_events =
     [SoMessage (wit_fm 7 [0, 5]), SoClose 5 10,
      SoMilestone \<lparr>mm_message_id = 8, mm_payload = \<lparr>mp_index = 10, mp_timestamp = 0, mp_parents = [7]\<rparr>,
        mm_message = fm_message (wit_fm 8 [7]), mm_metadata = Some (fm_metadata (wit_fm 8 [7]))\<rparr>,
      SoCqlResult (Inr (PersistedMsg 7 10)), SoCqlResult (Inr (PersistedMsg 8 10)),
      SoCqlResult (Inr (AnalyzedMilestone 10))]"

text \<open>Only the counts are compared: the report of a foreign message, 99, makes up for the missing one of message 8.\<close>

definition miscounted_events :: "solidifier_event list" where
  "miscounted_events = take 3 wit_events @
     [SoCqlResult (Inr (PersistedMsg 7 10)), SoCqlResult (Inr (PersistedMsg 99 10)),
      SoCqlResult (Inr (AnalyzedMilestone 10))]"

definition wit_solidifier :: "(u32, unit) hmap solidifier" where
  "wit_solidifier = new_solidifier [] None 0 [0] 1 True 5 None"

definition is_sync_row :: "solidifier_out \<Rightarrow> bool" where
  "is_sync_row out = (case out of InsertSync r k \<Rightarrow> milestone_index r = 10 | _ \<Rightarrow> False)"

lemma wit_run:
  "case solidifier_loop wit_env wit_events wit_solidifier of
     Inl e \<Rightarrow> False
   | Inr (go, s) \<Rightarrow> go \<and> answers 10 (so_out s) = 1 \<and> list_ex is_sync_row (so_out s)"
  by code_simp

lemma persisted_only_counted:
  "case solidifier_loop wit_env miscounted_events wit_solidifier of
     Inl e \<Rightarrow> False
   | Inr (go, s) \<Rightarrow> go \<and> list_ex is_sync_row (so_out s) \<and> \<not> persisted miscounted_events 10 8"
  by code_simp

lemma wit_events_ok: "list_all parents_agree wit_events" "length wit_events < 2 ^ 64 - 1" "list_all regular_event wit_events"
  by (simp_all add: wit_events_def parents_agree_def regular_event_def countable_outputs_def included_outputs_def wit_fm_def)

lemma solidifier_delivers_solid_witness:
  "\<exists>s. solidifier_loop wit_env wit_events wit_solidifier = Inr (True, s) \<and> answers 10 (so_out s) = 1 \<and>
     list_all (delivered_solid wit_events) (so_out s)"
  using wit_run solidifier_delivers_solid [OF wit_events_ok(1,2), of wit_env "[]" None 0 "[0]" 1 True 5 None]
  unfolding wit_solidifier_def [symmetric] by (auto split: sum.splits)


lemma solidifier_answers_once_witness:
  "\<exists>go s seen. solidifier_loop wit_env wit_events wit_solidifier = Inr (go, s) \<and> prefix seen wit_events \<and>
    (if go then seen = wit_events else True) \<and>
    (\<forall>x. answers x (so_out s) + owned (so_data s) x = requests x seen + (if so_first s = Some x then 1 else 0))"
  unfolding wit_solidifier_def
  by (rule solidifier_answers_once) (simp_all add: wit_events_ok(3) env_builds_def wit_env_def)

end
