(* ===== verification/Requester.thy ===== *)
theory Requester
  imports Solidifier
begin

text \<open>
  The requesters (\<^verbatim>\<open>chronicle-broker/src/requester/\<close>): a collector asks one of them for a message or a
  milestone, it tries the API endpoints of the nodes in turn and answers once.
\<close>

section \<open>Handles\<close>

text \<open>
  \<^verbatim>\<open>RequesterHandle\<close> as far as it is compared: its order is the reverse order of the counts of events
  in progress, so that the top of a \<^verbatim>\<open>BinaryHeap\<close> is a least loaded requester. Handles with equal
  counts are different elements of the same rank, hence a preorder only.
\<close>

datatype requester_handle = RequesterHandle (rh_id: u8) (rh_processed: u64)

definition rh_le :: "requester_handle \<Rightarrow> requester_handle \<Rightarrow> bool" where
  "rh_le a b \<longleftrightarrow> rh_processed b \<le> rh_processed a"

definition rh_less :: "requester_handle \<Rightarrow> requester_handle \<Rightarrow> bool" where
  "rh_less a b \<longleftrightarrow> rh_processed b < rh_processed a"

instantiation requester_handle :: preorder
begin

definition less_eq_requester_handle :: "requester_handle \<Rightarrow> requester_handle \<Rightarrow> bool" where
  "less_eq_requester_handle a b \<longleftrightarrow> rh_le a b"

definition less_requester_handle :: "requester_handle \<Rightarrow> requester_handle \<Rightarrow> bool" where
  "less_requester_handle a b \<longleftrightarrow> rh_less a b"

instance
  by standard (auto simp: less_eq_requester_handle_def less_requester_handle_def rh_le_def rh_less_def)

end

definition rh_decrement :: "requester_handle \<Rightarrow> requester_handle" where
  "rh_decrement h = RequesterHandle (rh_id h) (rh_processed h - 1)"

definition rh_increment :: "requester_handle \<Rightarrow> requester_handle" where
  "rh_increment h = RequesterHandle (rh_id h) (rh_processed h + 1)"

section \<open>The network\<close>

text \<open>
  A response as \<^verbatim>\<open>reqwest\<close> gives it: the request failed, the status is no success, the body is not
  the expected JSON, or a value. A message that \<^verbatim>\<open>Message::try_from\<close> rejects and a message id that
  \<^verbatim>\<open>MessageId::from_str\<close> rejects are \<open>None\<close>. The state \<open>'w\<close> of the outside world changes with every
  request; \<open>nt_shuffle\<close> is the random permutation of \<^verbatim>\<open>SliceRandom::shuffle\<close>.
\<close>

datatype 'a http = SendError | NoSuccess | BadJson | Body 'a

record ('u, 'w) network =
  nt_joins :: "'u \<Rightarrow> bool"
  nt_message :: "'u \<Rightarrow> message_id \<Rightarrow> 'w \<Rightarrow> message option http \<times> 'w"
  nt_metadata :: "'u \<Rightarrow> message_id \<Rightarrow> 'w \<Rightarrow> message_metadata http \<times> 'w"
  nt_milestone :: "'u \<Rightarrow> u32 \<Rightarrow> 'w \<Rightarrow> message_id option http \<times> 'w"
  nt_shuffle :: "'u list \<Rightarrow> 'w \<Rightarrow> 'u list \<times> 'w"

text \<open>One attempt at one endpoint: \<open>None\<close> is \<^verbatim>\<open>Err(())\<close>.\<close>

definition request_message_and_metadata ::
  "('u, 'w) network \<Rightarrow> 'u \<Rightarrow> message_id \<Rightarrow> 'w \<Rightarrow> full_message option result \<times> 'w" where
  "request_message_and_metadata net u i w =
     (if \<not> nt_joins net u then (Inl Panic, w)
      else (let (m, w) = nt_message net u i w; (d, w) = nt_metadata net u i w in
            case (m, d) of
              (Body m, Body meta) \<Rightarrow>
                (case m of
                   None \<Rightarrow> (Inl Panic, w)
                 | Some msg \<Rightarrow>
                     (if md_referenced_by meta \<noteq> None then (Inr (Some (FullMessage msg meta)), w)
                      else (Inr None, w)))
            | _ \<Rightarrow> (Inr None, w)))"

definition request_milestone ::
  "('u, 'w) network \<Rightarrow> 'u \<Rightarrow> u32 \<Rightarrow> 'w \<Rightarrow> full_message option result \<times> 'w" where
  "request_milestone net u mi w =
     (if \<not> nt_joins net u then (Inl Panic, w)
      else (let (m, w) = nt_milestone net u mi w in
            case m of
              Body (Some i) \<Rightarrow> request_message_and_metadata net u i w
            | Body None \<Rightarrow> (Inl Panic, w)
            | _ \<Rightarrow> (Inr None, w)))"

section \<open>The actor\<close>

datatype 'u requester_event =
    RequestFullMessage message_id u32
  | RequestMilestone u32
  | AddEndpoint 'u
  | RemoveEndpoint 'u

text \<open>\<^verbatim>\<open>CollectorEvent::MessageAndMeta\<close>.\<close>

datatype requester_out = MessageAndMeta u8 u32 "message_id option" "full_message option"

record 'u requester =
  rq_id :: u8
  rq_endpoints :: "'u list"
  rq_retries :: usize
  rq_out :: "requester_out list"

text \<open>\<^verbatim>\<open>RequesterBuilder::build\<close>\<close>

definition new_requester :: "u8 \<Rightarrow> 'u list \<Rightarrow> usize option \<Rightarrow> 'u requester" where
  "new_requester i endpoints per =
     \<lparr>rq_id = i, rq_endpoints = endpoints,
      rq_retries = of_nat (length endpoints) * (case per of None \<Rightarrow> 5 | Some n \<Rightarrow> n), rq_out = []\<rparr>"

definition rq_shuffle :: "('u, 'w) network \<Rightarrow> 'u requester \<Rightarrow> 'w \<Rightarrow> 'u requester \<times> 'w" where
  "rq_shuffle net s w = (let (es, w) = nt_shuffle net (rq_endpoints s) w in (s\<lparr>rq_endpoints := es\<rparr>, w))"

definition respond_to_collector :: "u32 \<Rightarrow> message_id option \<Rightarrow> full_message option \<Rightarrow> 'u requester \<Rightarrow> 'u requester" where
  "respond_to_collector mi i fm s = s\<lparr>rq_out := rq_out s @ [MessageAndMeta (rq_id s) mi i fm]\<rparr>"

text \<open>The loop over the endpoints: one that answers goes to the front, one that fails to the back.\<close>

fun retry_loop ::
  "nat \<Rightarrow> ('u \<Rightarrow> 'w \<Rightarrow> full_message option result \<times> 'w) \<Rightarrow> 'u list \<Rightarrow> 'w \<Rightarrow> (full_message option \<times> 'u list \<times> 'w) result" where
  "retry_loop 0 attempt es w = Inr (None, es, w)"
| "retry_loop (Suc n) attempt [] w = Inr (None, [], w)"
| "retry_loop (Suc n) attempt (u # es) w =
     (case attempt u w of
        (Inl e, w) \<Rightarrow> Inl e
      | (Inr (Some fm), w) \<Rightarrow> Inr (Some fm, u # es, w)
      | (Inr None, w) \<Rightarrow> retry_loop n attempt (es @ [u]) w)"

definition request_full_message_with_retries ::
  "('u, 'w) network \<Rightarrow> message_id \<Rightarrow> u32 \<Rightarrow> 'u requester \<Rightarrow> 'w \<Rightarrow> ('u requester \<times> 'w) result" where
  "request_full_message_with_retries net i mi s w =
     rbind (retry_loop (unat (rq_retries s)) (\<lambda>u. request_message_and_metadata net u i) (rq_endpoints s) w)
       (\<lambda>(fm, es, w).
          let s = s\<lparr>rq_endpoints := es\<rparr> in
          Inr (case fm of
                 Some fm \<Rightarrow> respond_to_collector mi (Some i) (Some fm) s
               | None \<Rightarrow> respond_to_collector mi None None s, w))"

definition request_milestone_message_with_retries ::
  "('u, 'w) network \<Rightarrow> u32 \<Rightarrow> 'u requester \<Rightarrow> 'w \<Rightarrow> ('u requester \<times> 'w) result" where
  "request_milestone_message_with_retries net mi s w =
     rbind (retry_loop (unat (rq_retries s)) (\<lambda>u. request_milestone net u mi) (rq_endpoints s) w)
       (\<lambda>(fm, es, w).
          let s = s\<lparr>rq_endpoints := es\<rparr> in
          Inr (case fm of
                 Some fm \<Rightarrow> respond_to_collector mi (Some (fm_message_id fm)) (Some fm) s
               | None \<Rightarrow> respond_to_collector mi None None s, w))"

definition handle_requester_event ::
  "('u, 'w) network \<Rightarrow> 'u requester_event \<Rightarrow> 'u requester \<Rightarrow> 'w \<Rightarrow> ('u requester \<times> 'w) result" where
  "handle_requester_event net ev s w =
     (case ev of
        RequestFullMessage i mi \<Rightarrow> request_full_message_with_retries net i mi s w
      | RequestMilestone mi \<Rightarrow> request_milestone_message_with_retries net mi s w
      | AddEndpoint u \<Rightarrow>
          (let s = (if u \<notin> set (rq_endpoints s) then s\<lparr>rq_endpoints := u # rq_endpoints s\<rparr> else s)
           in Inr (rq_shuffle net s w))
      | RemoveEndpoint u \<Rightarrow> Inr (s\<lparr>rq_endpoints := remove1 u (rq_endpoints s)\<rparr>, w))"

fun requester_loop ::
  "('u, 'w) network \<Rightarrow> 'u requester_event list \<Rightarrow> 'u requester \<Rightarrow> 'w \<Rightarrow> ('u requester \<times> 'w) result" where
  "requester_loop net [] s w = Inr (s, w)"
| "requester_loop net (ev # evs) s w =
     rbind (handle_requester_event net ev s w) (\<lambda>(s, w). requester_loop net evs s w)"

text \<open>\<^verbatim>\<open>init\<close> shuffles the endpoints.\<close>

definition requester_run ::
  "('u, 'w) network \<Rightarrow> 'u requester_event list \<Rightarrow> 'u requester \<Rightarrow> 'w \<Rightarrow> ('u requester \<times> 'w) result" where
  "requester_run net evs s w = (let (s, w) = rq_shuffle net s w in requester_loop net evs s w)"

section \<open>The retry loop\<close>

text \<open>
  What the code relies on: shuffling permutes. A node is \<open>convertible\<close> when none of the panics on its
  account can happen: paths can be joined to its URL, and the messages and message ids of its
  well-formed responses can be converted (\<^verbatim>\<open>unwrap\<close> and \<^verbatim>\<open>expect\<close> of the two requests).
\<close>

definition shuffles :: "('u, 'w) network \<Rightarrow> bool" where
  "shuffles net \<longleftrightarrow> (\<forall>es w. mset (fst (nt_shuffle net es w)) = mset es)"

definition convertible :: "('u, 'w) network \<Rightarrow> 'u \<Rightarrow> bool" where
  "convertible net u \<longleftrightarrow> nt_joins net u \<and> (\<forall>i w. fst (nt_message net u i w) \<noteq> Body None) \<and>
     (\<forall>mi w. fst (nt_milestone net u mi w) \<noteq> Body None)"

lemma message_panic:
  assumes "request_message_and_metadata net u i w = (Inl e, w')"
  shows "e = Panic \<and> \<not> convertible net u"
proof -
  obtain m w1 where m: "nt_message net u i w = (m, w1)" by fastforce
  obtain d w2 where d: "nt_metadata net u i w1 = (d, w2)" by fastforce
  have "e = Panic \<and> (\<not> nt_joins net u \<or> m = Body None)"
    using assms m d by (cases m; cases d) (auto simp: request_message_and_metadata_def split: if_splits option.splits)
  moreover have "m \<noteq> Body None" if "convertible net u" using that m unfolding convertible_def by (metis fst_conv)
  ultimately show ?thesis by (auto simp: convertible_def)
qed

lemma milestone_panic:
  assumes "request_milestone net u mi w = (Inl e, w')"
  shows "e = Panic \<and> \<not> convertible net u"
proof -
  obtain m w1 where m: "nt_milestone net u mi w = (m, w1)" by fastforce
  have "m \<noteq> Body None" "nt_joins net u" if "convertible net u"
    using that m unfolding convertible_def by (metis fst_conv)+
  then show ?thesis
    using assms m message_panic [of net u _ w1 e w']
    by (cases m) (auto simp: request_milestone_def split: if_splits option.splits)
qed

text \<open>
  Attempts that panic only at endpoints that are not good: the loop panics on account of one of
  these, or it returns and permutes the endpoints; it finds a message when all endpoints are good and one within
  reach of the retries delivers.
\<close>

locale retrying =
  fixes attempt :: "'u \<Rightarrow> 'w \<Rightarrow> full_message option result \<times> 'w" and good :: "'u \<Rightarrow> bool"
  assumes panics: "attempt u w = (Inl e, w') \<Longrightarrow> e = Panic \<and> \<not> good u"
begin

lemma no_panic: "good u \<Longrightarrow> \<exists>fm w'. attempt u w = (Inr fm, w')"
  using panics by (metis sum.exhaust prod.exhaust)

lemma outcome:
  "retry_loop n attempt es w = Inl Panic \<and> (\<exists>u\<in>set es. \<not> good u) \<or>
   (\<exists>fm es' w'. retry_loop n attempt es w = Inr (fm, es', w') \<and> mset es' = mset es)"
proof (induction n arbitrary: es w)
  case (Suc n)
  show ?case
  proof (cases es)
    case (Cons u us)
    obtain r w' where a: "attempt u w = (r, w')" by fastforce
    show ?thesis
    proof (cases r)
      case (Inl e)
      then show ?thesis using a Cons panics [of u w e w'] by simp
    next
      case (Inr fm)
      show ?thesis
      proof (cases fm)
        case None
        then show ?thesis using Suc.IH [of "us @ [u]" w'] a Cons Inr by auto
      qed (use a Cons Inr in simp)
    qed
  qed simp
qed simp

lemma finds:
  assumes "es = us @ u # vs" and "length us < n" and "list_all good es"
    and "\<And>w. \<exists>fm w'. attempt u w = (Inr (Some fm), w')"
  shows "\<exists>fm es' w'. retry_loop n attempt es w = Inr (Some fm, es', w') \<and> mset es' = mset es"
  using assms(1,2,3)
proof (induction us arbitrary: n es w vs)
  case Nil
  obtain m where "n = Suc m" using Nil.prems by (cases n) auto
  moreover obtain fm w' where "attempt u w = (Inr (Some fm), w')" using assms(4) by blast
  ultimately show ?case using Nil.prems by simp
next
  case (Cons x us)
  obtain m where n: "n = Suc m" using Cons.prems by (cases n) auto
  obtain fm w' where a: "attempt x w = (Inr fm, w')" using no_panic Cons.prems by fastforce
  show ?case
  proof (cases fm)
    case None
    from Cons.IH [of "us @ u # vs @ [x]" "vs @ [x]" m w'] show ?thesis using Cons.prems n a None by auto
  qed (use Cons.prems n a in simp)
qed

end

interpretation message_retry: retrying "\<lambda>u. request_message_and_metadata net u i" "convertible net" for net i
  by unfold_locales (rule message_panic)

interpretation milestone_retry: retrying "\<lambda>u. request_milestone net u mi" "convertible net" for net mi
  by unfold_locales (rule milestone_panic)

section \<open>Properties of the requester\<close>

fun asked_index :: "'u requester_event \<Rightarrow> u32 option" where
  "asked_index (RequestFullMessage i mi) = Some mi"
| "asked_index (RequestMilestone mi) = Some mi"
| "asked_index (AddEndpoint u) = None"
| "asked_index (RemoveEndpoint u) = None"

fun answered_index :: "requester_out \<Rightarrow> u32" where
  "answered_index (MessageAndMeta r mi i fm) = mi"

fun topology :: "'u requester_event \<Rightarrow> 'u set \<Rightarrow> 'u set" where
  "topology (AddEndpoint u) E = insert u E"
| "topology (RemoveEndpoint u) E = E - {u}"
| "topology (RequestFullMessage i mi) E = E"
| "topology (RequestMilestone mi) E = E"

text \<open>What an event does to the answers and the endpoints; only a request can panic.\<close>

lemma event_answers:
  assumes "shuffles net" and "distinct (rq_endpoints s)"
  shows "(handle_requester_event net ev s w = Inl Panic \<and> asked_index ev \<noteq> None \<and>
      (\<exists>u\<in>set (rq_endpoints s). \<not> convertible net u)) \<or>
    (\<exists>s' w'. handle_requester_event net ev s w = Inr (s', w') \<and>
      map answered_index (rq_out s') = map answered_index (rq_out s) @ (case asked_index ev of None \<Rightarrow> [] | Some mi \<Rightarrow> [mi]) \<and>
      set (rq_endpoints s') = topology ev (set (rq_endpoints s)) \<and> distinct (rq_endpoints s'))"
proof (cases ev)
  case (RequestFullMessage i mi)
  let ?r = "retry_loop (unat (rq_retries s)) (\<lambda>u. request_message_and_metadata net u i) (rq_endpoints s) w"
  have "?r = Inl Panic \<and> (\<exists>u\<in>set (rq_endpoints s). \<not> convertible net u) \<or>
      (\<exists>fm es w'. ?r = Inr (fm, es, w') \<and> mset es = mset (rq_endpoints s))"
    by (rule message_retry.outcome)
  then consider "?r = Inl Panic" "\<exists>u\<in>set (rq_endpoints s). \<not> convertible net u"
    | fm es w' where "?r = Inr (fm, es, w')" "mset es = mset (rq_endpoints s)"
    by blast
  then show ?thesis
  proof cases
    case 2
    then show ?thesis
      using assms(2) RequestFullMessage mset_eq_setD [of es "rq_endpoints s"] mset_eq_imp_distinct_iff [of es "rq_endpoints s"]
      by (cases fm) (simp_all add: handle_requester_event_def request_full_message_with_retries_def respond_to_collector_def Let_def)
  qed (simp add: RequestFullMessage handle_requester_event_def request_full_message_with_retries_def)
next
  case (RequestMilestone mi)
  let ?r = "retry_loop (unat (rq_retries s)) (\<lambda>u. request_milestone net u mi) (rq_endpoints s) w"
  have "?r = Inl Panic \<and> (\<exists>u\<in>set (rq_endpoints s). \<not> convertible net u) \<or>
      (\<exists>fm es w'. ?r = Inr (fm, es, w') \<and> mset es = mset (rq_endpoints s))"
    by (rule milestone_retry.outcome)
  then consider "?r = Inl Panic" "\<exists>u\<in>set (rq_endpoints s). \<not> convertible net u"
    | fm es w' where "?r = Inr (fm, es, w')" "mset es = mset (rq_endpoints s)"
    by blast
  then show ?thesis
  proof cases
    case 2
    then show ?thesis
      using assms(2) RequestMilestone mset_eq_setD [of es "rq_endpoints s"] mset_eq_imp_distinct_iff [of es "rq_endpoints s"]
      by (cases fm) (simp_all add: handle_requester_event_def request_milestone_message_with_retries_def respond_to_collector_def Let_def)
  qed (simp add: RequestMilestone handle_requester_event_def request_milestone_message_with_retries_def)
next
  case (AddEndpoint u)
  let ?es = "if u \<notin> set (rq_endpoints s) then u # rq_endpoints s else rq_endpoints s"
  obtain es w' where sh: "nt_shuffle net ?es w = (es, w')" by fastforce
  then have "mset es = mset ?es" using assms(1) unfolding shuffles_def by (metis fst_conv)
  then have "set es = insert u (set (rq_endpoints s))" "distinct es"
    using assms(2) mset_eq_setD [of es ?es] mset_eq_imp_distinct_iff [of es ?es] by auto
  moreover have "handle_requester_event net ev s w = Inr (s\<lparr>rq_endpoints := es\<rparr>, w')"
    using AddEndpoint sh by (auto simp: handle_requester_event_def rq_shuffle_def Let_def split: if_splits)
  ultimately show ?thesis using AddEndpoint by auto
next
  case (RemoveEndpoint u)
  then show ?thesis using assms(2) by (simp add: handle_requester_event_def)
qed

definition stops_at_panic ::
  "('u, 'w) network \<Rightarrow> 'u requester_event list \<Rightarrow> 'u requester \<Rightarrow> 'w \<Rightarrow> bool" where
  "stops_at_panic net evs s w \<longleftrightarrow> requester_loop net evs s w = Inl Panic \<and>
     (\<exists>before ev rest s1 w1 u. evs = before @ ev # rest \<and> requester_loop net before s w = Inr (s1, w1) \<and>
        map answered_index (rq_out s1) = map answered_index (rq_out s) @ List.map_filter asked_index before \<and>
        handle_requester_event net ev s1 w1 = Inl Panic \<and> asked_index ev \<noteq> None \<and>
        u \<in> fold topology before (set (rq_endpoints s)) \<and> \<not> convertible net u)"

lemma loop_answers:
  assumes "shuffles net" and "distinct (rq_endpoints s)"
  shows "stops_at_panic net evs s w \<or>
    (\<exists>s' w'. requester_loop net evs s w = Inr (s', w') \<and>
      map answered_index (rq_out s') = map answered_index (rq_out s) @ List.map_filter asked_index evs \<and>
      set (rq_endpoints s') = fold topology evs (set (rq_endpoints s)) \<and> distinct (rq_endpoints s'))"
  using assms(2)
proof (induction evs arbitrary: s w)
  case (Cons ev evs)
  have mf: "List.map_filter asked_index (ev # before) =
      (case asked_index ev of None \<Rightarrow> [] | Some mi \<Rightarrow> [mi]) @ List.map_filter asked_index before" for before
    by (simp add: List.map_filter_simps split: option.splits)
  from event_answers [OF assms(1) Cons.prems, of ev w] show ?case
  proof (elim disjE conjE exE bexE)
    fix u
    assume h: "handle_requester_event net ev s w = Inl Panic" "asked_index ev \<noteq> None" "u \<in> set (rq_endpoints s)" "\<not> convertible net u"
    then have "stops_at_panic net (ev # evs) s w"
      unfolding stops_at_panic_def
      by (intro conjI exI [of _ "[]"] exI [of _ ev] exI [of _ evs] exI [of _ s] exI [of _ w] exI [of _ u])
         (simp_all add: List.map_filter_simps)
    then show ?thesis ..
  next
    fix s1 w1
    assume h: "handle_requester_event net ev s w = Inr (s1, w1)"
      "map answered_index (rq_out s1) = map answered_index (rq_out s) @ (case asked_index ev of None \<Rightarrow> [] | Some mi \<Rightarrow> [mi])"
      "set (rq_endpoints s1) = topology ev (set (rq_endpoints s))" "distinct (rq_endpoints s1)"
    from Cons.IH [OF h(4), of w1] show ?thesis
    proof
      assume "stops_at_panic net evs s1 w1"
      then obtain before e rest s2 w2 u where p: "requester_loop net evs s1 w1 = Inl Panic" "evs = before @ e # rest"
        "requester_loop net before s1 w1 = Inr (s2, w2)"
        "map answered_index (rq_out s2) = map answered_index (rq_out s1) @ List.map_filter asked_index before"
        "handle_requester_event net e s2 w2 = Inl Panic" "asked_index e \<noteq> None"
        "u \<in> fold topology before (set (rq_endpoints s1))" "\<not> convertible net u"
        unfolding stops_at_panic_def by blast
      have q: "requester_loop net (ev # evs) s w = Inl Panic" "ev # evs = (ev # before) @ e # rest"
        "requester_loop net (ev # before) s w = Inr (s2, w2)" "u \<in> fold topology (ev # before) (set (rq_endpoints s))"
        using p h by simp_all
      have "map answered_index (rq_out s2) = map answered_index (rq_out s) @ List.map_filter asked_index (ev # before)"
        unfolding p(4) h(2) mf by simp
      then have "stops_at_panic net (ev # evs) s w"
        unfolding stops_at_panic_def using p(5,6,8) q by blast
      then show ?thesis ..
    qed (use h in \<open>auto simp: mf split: option.splits\<close>)
  qed
qed (simp add: List.map_filter_simps)

text \<open>
  C16. Whatever the nodes respond, a requester answers every request, once and in the order of the
  requests, and its endpoints are those of the configuration and the topology changes, or it panics.
  It panics only in a request and only on account of an endpoint that it then has, which its URL makes
  unusable or which sent a message or a message id that cannot be converted; every request
  before that one has been answered.
\<close>

theorem requester_answers_in_order:
  assumes "shuffles net" and "distinct endpoints"
  shows "(\<exists>s w'. requester_run net evs (new_requester i endpoints per) w = Inr (s, w') \<and>
      map answered_index (rq_out s) = List.map_filter asked_index evs \<and>
      set (rq_endpoints s) = fold topology evs (set endpoints) \<and> distinct (rq_endpoints s)) \<or>
    requester_run net evs (new_requester i endpoints per) w = Inl Panic \<and>
    (\<exists>before ev rest s w' u. evs = before @ ev # rest \<and>
      requester_run net before (new_requester i endpoints per) w = Inr (s, w') \<and>
      map answered_index (rq_out s) = List.map_filter asked_index before \<and>
      handle_requester_event net ev s w' = Inl Panic \<and> asked_index ev \<noteq> None \<and>
      u \<in> fold topology before (set endpoints) \<and> \<not> convertible net u)"
proof -
  obtain es w1 where sh: "nt_shuffle net endpoints w = (es, w1)" by fastforce
  then have m: "mset es = mset endpoints" using assms(1) unfolding shuffles_def by (metis fst_conv)
  then have es: "set es = set endpoints" "distinct es"
    using assms(2) mset_eq_setD mset_eq_imp_distinct_iff by blast+
  let ?s = "(new_requester i endpoints per)\<lparr>rq_endpoints := es\<rparr>"
  have run: "requester_run net evs (new_requester i endpoints per) w = requester_loop net evs ?s w1" for evs
    using sh by (simp add: requester_run_def rq_shuffle_def new_requester_def)
  have s: "rq_out ?s = []" "set (rq_endpoints ?s) = set endpoints" "distinct (rq_endpoints ?s)"
    using es by (simp_all add: new_requester_def)
  show ?thesis
    using loop_answers [OF assms(1) s(3), of evs w1]
    unfolding run stops_at_panic_def s(1,2) list.map append_Nil by blast
qed

text \<open>
  C17. A message is found when one of the endpoints delivers it, as long as the retries reach every
  endpoint once and no other endpoint makes the requester panic; the answer carries the id that was
  asked for.
\<close>

theorem requester_finds_message:
  assumes "list_all (convertible net) (rq_endpoints s)" and "u \<in> set (rq_endpoints s)"
    and "length (rq_endpoints s) \<le> unat (rq_retries s)"
    and "\<And>w. \<exists>fm w'. request_message_and_metadata net u i w = (Inr (Some fm), w')"
  shows "\<exists>fm es w'. handle_requester_event net (RequestFullMessage i mi) s w =
    Inr (s\<lparr>rq_endpoints := es, rq_out := rq_out s @ [MessageAndMeta (rq_id s) mi (Some i) (Some fm)]\<rparr>, w') \<and>
    mset es = mset (rq_endpoints s)"
proof -
  obtain us vs where "rq_endpoints s = us @ u # vs" using split_list [OF assms(2)] by blast
  moreover from this have "length us < unat (rq_retries s)" using assms(3) by simp
  ultimately obtain fm es w' where
    "retry_loop (unat (rq_retries s)) (\<lambda>u. request_message_and_metadata net u i) (rq_endpoints s) w = Inr (Some fm, es, w')"
    "mset es = mset (rq_endpoints s)"
    using message_retry.finds [OF _ _ assms(1,4), of us vs "unat (rq_retries s)" w] by blast
  then show ?thesis
    by (intro exI [of _ fm] exI [of _ es] exI [of _ w'])
       (simp add: handle_requester_event_def request_full_message_with_retries_def respond_to_collector_def)
qed

text \<open>
  The number of retries is fixed by the endpoints of the configuration: a requester built
  without endpoints never asks a node, not even those added to it later.
\<close>

lemma no_endpoints_no_requests:
  "handle_requester_event net (RequestFullMessage i mi) ((new_requester r [] per)\<lparr>rq_endpoints := es\<rparr>) w =
     Inr (respond_to_collector mi None None ((new_requester r [] per)\<lparr>rq_endpoints := es\<rparr>), w)"
  by (simp add: handle_requester_event_def request_full_message_with_retries_def new_requester_def)

text \<open>One message that cannot be converted is enough for a panic.\<close>

lemma malformed_message_panics:
  assumes "nt_joins net u" and "nt_message net u i w = (Body None, w1)" and "nt_metadata net u i w1 = (Body meta, w2)"
    and "rq_endpoints s = u # es" and "rq_retries s \<noteq> 0"
  shows "handle_requester_event net (RequestFullMessage i mi) s w = Inl Panic"
proof -
  obtain n where "unat (rq_retries s) = Suc n" using assms(5) by (metis gr0_conv_Suc unat_gt_0)
  then show ?thesis using assms(1-4)
    by (simp add: handle_requester_event_def request_full_message_with_retries_def request_message_and_metadata_def)
qed

text \<open>Two nodes: node 0 never answers, node 1 knows the message 7.\<close>

definition wit_net :: "(nat, unit) network" where
  "wit_net = \<lparr>nt_joins = (\<lambda>_. True),
     nt_message = (\<lambda>u i w. (if u = 1 then Body (Some (fm_message (wit_fm 7 [5]))) else SendError, w)),
     nt_metadata = (\<lambda>u i w. (if u = 1 then Body (fm_metadata (wit_fm 7 [5])) else NoSuccess, w)),
     nt_milestone = (\<lambda>u mi w. (BadJson, w)), nt_shuffle = (\<lambda>es w. (rev es, w))\<rparr>"

lemma wit_net_ok: "shuffles wit_net" "convertible wit_net u"
  by (simp_all add: shuffles_def convertible_def wit_net_def)

lemma requester_answers_in_order_witness:
  "\<exists>s w'. requester_run wit_net [RequestFullMessage 7 10, AddEndpoint 1, RequestMilestone 11] (new_requester 3 [0] None) () = Inr (s, w') \<and>
    map answered_index (rq_out s) = List.map_filter asked_index [RequestFullMessage 7 10, AddEndpoint (1::nat), RequestMilestone 11] \<and>
    set (rq_endpoints s) = fold topology [RequestFullMessage 7 10, AddEndpoint 1, RequestMilestone 11] (set [0]) \<and> distinct (rq_endpoints s)"
  using requester_answers_in_order [OF wit_net_ok(1), of "[0]" "[RequestFullMessage 7 10, AddEndpoint 1, RequestMilestone 11]" 3 None "()"]
  by (auto simp: wit_net_ok)

lemma requester_finds_message_witness:
  "\<exists>fm es w'. handle_requester_event wit_net (RequestFullMessage 7 10) (new_requester 3 [0, 1] None) () =
    Inr ((new_requester 3 [0, 1] None)\<lparr>rq_endpoints := es,
      rq_out := rq_out (new_requester 3 [0, 1::nat] None) @ [MessageAndMeta (rq_id (new_requester 3 [0, 1::nat] None)) 10 (Some 7) (Some fm)]\<rparr>, w') \<and>
    mset es = mset (rq_endpoints (new_requester 3 [0, 1] None))"
proof (rule requester_finds_message [where u = 1])
  show "\<exists>fm w'. request_message_and_metadata wit_net 1 7 w = (Inr (Some fm), w')" for w
    by (simp add: request_message_and_metadata_def wit_net_def wit_fm_def)
qed (simp_all add: wit_net_ok new_requester_def list_all_iff)

end
