(* ===== verification/Storage_Rows.thy ===== *)
theory Storage_Rows
  imports Milestone_Data
begin

text \<open>
  The rows of the database: the records of \<^verbatim>\<open>chronicle-storage/src/access/mod.rs\<close> and \<^verbatim>\<open>types.rs\<close>,
  the partitioning of milestones (\<^verbatim>\<open>chronicle-common/src/config/storage.rs\<close>), the statements and
  bound values of every insert and delete, the tokens that route them, and the tables that
  \<^verbatim>\<open>chronicle/src/main.rs\<close> creates.
\<close>

section \<open>Partitions\<close>

record partition_config =
  pc_partition_count :: u16
  pc_milestone_chunk_size :: u32

definition default_partition_config :: partition_config where
  "default_partition_config = \<lparr>pc_partition_count = 1000, pc_milestone_chunk_size = 8640\<rparr>"

text \<open>\<^verbatim>\<open>PartitionConfig::partition_id\<close>: division and remainder panic for zero.\<close>

definition partition_id :: "partition_config \<Rightarrow> u32 \<Rightarrow> u16 result" where
  "partition_id c mi =
     (if pc_milestone_chunk_size c = 0 \<or> pc_partition_count c = 0 then Inl Panic
      else Inr (ucast ((mi div pc_milestone_chunk_size c) mod ucast (pc_partition_count c))))"

record partition =
  pt_id :: u16
  pt_milestone_index :: u32

record 'k partitioned =
  pd_inner :: 'k
  pd_partition :: partition

definition new_partitioned :: "'k \<Rightarrow> u16 \<Rightarrow> u32 \<Rightarrow> 'k partitioned" where
  "new_partitioned k p mi = \<lparr>pd_inner = k, pd_partition = \<lparr>pt_id = p, pt_milestone_index = mi\<rparr>\<rparr>"

section \<open>Records\<close>

datatype hint_variant = HAddress | HIndex | HParent

fun hint_variant_string :: "hint_variant \<Rightarrow> string" where
  "hint_variant_string HAddress = ''address''"
| "hint_variant_string HIndex = ''index''"
| "hint_variant_string HParent = ''parent''"

record hint =
  hint_text :: string
  hint_variant :: hint_variant

definition index_hint :: "string \<Rightarrow> hint" where
  "index_hint t = \<lparr>hint_text = t, hint_variant = HIndex\<rparr>"

definition address_hint :: "string \<Rightarrow> hint" where
  "address_hint t = \<lparr>hint_text = t, hint_variant = HAddress\<rparr>"

definition parent_hint :: "string \<Rightarrow> hint" where
  "parent_hint t = \<lparr>hint_text = t, hint_variant = HParent\<rparr>"

record address_record =
  ad_output_type :: u8
  ad_transaction_id :: transaction_id
  ad_index :: u16
  ad_amount :: u64
  ad_inclusion_state :: "ledger_inclusion_state option"

record indexation_record =
  ir_message_id :: message_id
  ir_inclusion_state :: "ledger_inclusion_state option"

record parent_record =
  pr_message_id :: message_id
  pr_inclusion_state :: "ledger_inclusion_state option"

record transaction_record =
  tr_variant :: transaction_variant
  tr_message_id :: message_id
  tr_data :: transaction_data
  tr_inclusion_state :: "ledger_inclusion_state option"
  tr_milestone_index :: "u32 option"

definition input_record :: "message_id \<Rightarrow> input_data \<Rightarrow> ledger_inclusion_state option \<Rightarrow> u32 option \<Rightarrow> transaction_record" where
  "input_record i d st mi = \<lparr>tr_variant = VInput, tr_message_id = i, tr_data = TInput d, tr_inclusion_state = st,
     tr_milestone_index = mi\<rparr>"

definition output_record :: "message_id \<Rightarrow> output_t \<Rightarrow> ledger_inclusion_state option \<Rightarrow> u32 option \<Rightarrow> transaction_record" where
  "output_record i d st mi = \<lparr>tr_variant = VOutput, tr_message_id = i, tr_data = TOutput d, tr_inclusion_state = st,
     tr_milestone_index = mi\<rparr>"

definition unlock_record :: "message_id \<Rightarrow> unlock_data \<Rightarrow> ledger_inclusion_state option \<Rightarrow> u32 option \<Rightarrow> transaction_record" where
  "unlock_record i d st mi = \<lparr>tr_variant = VUnlock, tr_message_id = i, tr_data = TUnlock d, tr_inclusion_state = st,
     tr_milestone_index = mi\<rparr>"

text \<open>The text column of \<^verbatim>\<open>TransactionVariant\<close>, both ways.\<close>

fun variant_string :: "transaction_variant \<Rightarrow> string" where
  "variant_string VInput = ''input''"
| "variant_string VOutput = ''output''"
| "variant_string VUnlock = ''unlock''"

definition variant_of_string :: "string \<Rightarrow> transaction_variant result" where
  "variant_of_string t =
     (if t = ''input'' then Inr VInput else if t = ''output'' then Inr VOutput
      else if t = ''unlock'' then Inr VUnlock else Inl (Failed ''Unexpected variant type''))"

section \<open>Inserts\<close>

text \<open>
  A value bound to a statement, before the driver puts it on the wire. \<open>VHex\<close> is the text that
  \<^verbatim>\<open>to_string\<close> gives for an id of 32 bytes; packed or serialised objects stay as they are.
\<close>

datatype cql_value =
    VText string
  | VHex "256 word"
  | V8 u8
  | V16 u16
  | V32 u32
  | V64 u64
  | VOpt8 "u8 option"
  | VOpt32 "u32 option"
  | VMessage message
  | VMetadata message_metadata
  | VPayload milestone_payload
  | VData transaction_data
  | VInclusion "ledger_inclusion_state option"

text \<open>The \<^verbatim>\<open>Insert<K, V>\<close> instances of \<^verbatim>\<open>ChronicleKeyspace\<close>, with their keys and values.\<close>

datatype db_insert =
    Ins_message message_id message
  | Ins_metadata message_id message_metadata
  | Ins_full message_id message message_metadata
  | Ins_address "ed25519_address partitioned" address_record
  | Ins_index "string partitioned" indexation_record
  | Ins_parent "message_id partitioned" parent_record
  | Ins_transaction transaction_id u16 transaction_record
  | Ins_output output_id transaction_record
  | Ins_hint hint partition
  | Ins_milestone u32 message_id milestone_payload
  | Ins_sync sync_record
  | Ins_analytic analytic_record

text \<open>A statement: its table, the columns it names, how many markers it has, the values bound.\<close>

record cql_insert =
  ci_table :: string
  ci_columns :: "string list"
  ci_markers :: nat
  ci_values :: "cql_value list"

definition insert_message_stmt :: "message_id \<Rightarrow> message \<Rightarrow> cql_insert" where
  "insert_message_stmt i m =
     \<lparr>ci_table = ''messages'', ci_columns = [''message_id'', ''message''], ci_markers = 2,
      ci_values = [VHex i, VMessage m]\<rparr>"

definition insert_metadata_stmt :: "message_id \<Rightarrow> message_metadata \<Rightarrow> cql_insert" where
  "insert_metadata_stmt i meta =
     \<lparr>ci_table = ''messages'', ci_columns = [''message_id'', ''metadata''], ci_markers = 2,
      ci_values = [VHex i, VMetadata meta]\<rparr>"

definition insert_full_stmt :: "message_id \<Rightarrow> message \<Rightarrow> message_metadata \<Rightarrow> cql_insert" where
  "insert_full_stmt i m meta =
     \<lparr>ci_table = ''messages'', ci_columns = [''message_id'', ''message'', ''metadata''], ci_markers = 3,
      ci_values = [VHex i, VMessage m, VMetadata meta]\<rparr>"

text \<open>\<^verbatim>\<open>Ed25519Address::KIND\<close> is 0 in \<^verbatim>\<open>bee_message\<close>; it is an argument here.\<close>

definition insert_address_stmt :: "u8 \<Rightarrow> ed25519_address partitioned \<Rightarrow> address_record \<Rightarrow> cql_insert" where
  "insert_address_stmt kind k r =
     \<lparr>ci_table = ''addresses'',
      ci_columns = [''address'', ''partition_id'', ''milestone_index'', ''output_type'', ''transaction_id'', ''idx'',
        ''amount'', ''address_type'', ''inclusion_state''],
      ci_markers = 9,
      ci_values = [VHex (pd_inner k), V16 (pt_id (pd_partition k)), V32 (pt_milestone_index (pd_partition k)),
        V8 (ad_output_type r), VHex (ad_transaction_id r), V16 (ad_index r), V64 (ad_amount r), V8 kind,
        VInclusion (ad_inclusion_state r)]\<rparr>"

definition insert_index_stmt :: "string partitioned \<Rightarrow> indexation_record \<Rightarrow> cql_insert" where
  "insert_index_stmt k r =
     \<lparr>ci_table = ''indexes'',
      ci_columns = [''indexation'', ''partition_id'', ''milestone_index'', ''message_id'', ''inclusion_state''],
      ci_markers = 5,
      ci_values = [VText (pd_inner k), V16 (pt_id (pd_partition k)), V32 (pt_milestone_index (pd_partition k)),
        VHex (ir_message_id r), VInclusion (ir_inclusion_state r)]\<rparr>"

definition insert_parent_stmt :: "message_id partitioned \<Rightarrow> parent_record \<Rightarrow> cql_insert" where
  "insert_parent_stmt k r =
     \<lparr>ci_table = ''parents'',
      ci_columns = [''parent_id'', ''partition_id'', ''milestone_index'', ''message_id'', ''inclusion_state''],
      ci_markers = 5,
      ci_values = [VHex (pd_inner k), V16 (pt_id (pd_partition k)), V32 (pt_milestone_index (pd_partition k)),
        VHex (pr_message_id r), VInclusion (pr_inclusion_state r)]\<rparr>"

definition transaction_columns :: "string list" where
  "transaction_columns = [''transaction_id'', ''idx'', ''variant'', ''message_id'', ''data'', ''inclusion_state'',
     ''milestone_index'']"

definition insert_transaction_stmt :: "transaction_id \<Rightarrow> u16 \<Rightarrow> transaction_record \<Rightarrow> cql_insert" where
  "insert_transaction_stmt t i r =
     \<lparr>ci_table = ''transactions'', ci_columns = transaction_columns, ci_markers = 7,
      ci_values = [VHex t, V16 i, VText (variant_string (tr_variant r)), VHex (tr_message_id r), VData (tr_data r),
        VInclusion (tr_inclusion_state r), VOpt32 (tr_milestone_index r)]\<rparr>"

text \<open>The insert keyed by an output id panics for data that is no output.\<close>

definition insert_output_stmt :: "output_id \<Rightarrow> transaction_record \<Rightarrow> cql_insert result" where
  "insert_output_stmt k r =
     (case tr_data r of
        TOutput d \<Rightarrow> Inr
          \<lparr>ci_table = ''transactions'', ci_columns = transaction_columns, ci_markers = 8,
           ci_values = [VHex (oi_transaction_id k), V16 (oi_index k), VText (variant_string (tr_variant r)),
             VHex (tr_message_id r), VData (tr_data r), VInclusion (tr_inclusion_state r), VOpt32 (tr_milestone_index r)]\<rparr>
      | _ \<Rightarrow> Inl Panic)"

definition insert_hint_stmt :: "hint \<Rightarrow> partition \<Rightarrow> cql_insert" where
  "insert_hint_stmt h p =
     \<lparr>ci_table = ''hints'', ci_columns = [''hint'', ''variant'', ''partition_id'', ''milestone_index''], ci_markers = 4,
      ci_values = [VText (hint_text h), VText (hint_variant_string (hint_variant h)), V16 (pt_id p),
        V32 (pt_milestone_index p)]\<rparr>"

definition insert_milestone_stmt :: "u32 \<Rightarrow> message_id \<Rightarrow> milestone_payload \<Rightarrow> cql_insert" where
  "insert_milestone_stmt mi i p =
     \<lparr>ci_table = ''milestones'', ci_columns = [''milestone_index'', ''message_id'', ''timestamp'', ''payload''],
      ci_markers = 4, ci_values = [V32 mi, VHex i, V64 (mp_timestamp p), VPayload p]\<rparr>"

definition insert_sync_stmt :: "sync_record \<Rightarrow> cql_insert" where
  "insert_sync_stmt r =
     \<lparr>ci_table = ''sync'', ci_columns = [''key'', ''milestone_index'', ''synced_by'', ''logged_by''], ci_markers = 4,
      ci_values = [VText ''permanode'', V32 (milestone_index r), VOpt8 (synced_by r), VOpt8 (logged_by r)]\<rparr>"

definition insert_analytic_stmt :: "analytic_record \<Rightarrow> cql_insert" where
  "insert_analytic_stmt r =
     \<lparr>ci_table = ''analytics'',
      ci_columns = [''key'', ''milestone_index'', ''message_count'', ''transaction_count'', ''transferred_tokens''],
      ci_markers = 5,
      ci_values = [VText ''permanode'', V32 (ar_milestone_index r), V32 (ar_message_count r),
        V32 (ar_transaction_count r), V64 (ar_transferred_tokens r)]\<rparr>"

fun insert_stmt :: "u8 \<Rightarrow> db_insert \<Rightarrow> cql_insert result" where
  "insert_stmt kind (Ins_message i m) = Inr (insert_message_stmt i m)"
| "insert_stmt kind (Ins_metadata i meta) = Inr (insert_metadata_stmt i meta)"
| "insert_stmt kind (Ins_full i m meta) = Inr (insert_full_stmt i m meta)"
| "insert_stmt kind (Ins_address k r) = Inr (insert_address_stmt kind k r)"
| "insert_stmt kind (Ins_index k r) = Inr (insert_index_stmt k r)"
| "insert_stmt kind (Ins_parent k r) = Inr (insert_parent_stmt k r)"
| "insert_stmt kind (Ins_transaction t i r) = Inr (insert_transaction_stmt t i r)"
| "insert_stmt kind (Ins_output k r) = insert_output_stmt k r"
| "insert_stmt kind (Ins_hint h p) = Inr (insert_hint_stmt h p)"
| "insert_stmt kind (Ins_milestone mi i p) = Inr (insert_milestone_stmt mi i p)"
| "insert_stmt kind (Ins_sync r) = Inr (insert_sync_stmt r)"
| "insert_stmt kind (Ins_analytic r) = Inr (insert_analytic_stmt r)"

section \<open>Deletes\<close>

record address_pk =
  ak_address :: ed25519_address
  ak_partition_id :: u16
  ak_milestone_index :: u32
  ak_output_type :: u8
  ak_transaction_id :: transaction_id
  ak_index :: u16

record index_pk =
  xk_indexation :: string
  xk_partition_id :: u16
  xk_milestone_index :: u32
  xk_message_id :: message_id

record parent_pk =
  pk_parent_id :: message_id
  pk_partition_id :: u16
  pk_milestone_index :: u32
  pk_message_id :: message_id

datatype db_delete = Del_address address_pk | Del_index index_pk | Del_parent parent_pk

record cql_delete =
  cd_table :: string
  cd_where :: "string list"
  cd_values :: "cql_value list"

definition delete_address_stmt :: "address_pk \<Rightarrow> cql_delete" where
  "delete_address_stmt k =
     \<lparr>cd_table = ''addresses'',
      cd_where = [''address'', ''partition_id'', ''milestone_index'', ''output_type'', ''transaction_id'', ''idx''],
      cd_values = [VHex (ak_address k), V16 (ak_partition_id k), V32 (ak_milestone_index k), V8 (ak_output_type k),
        VHex (ak_transaction_id k), V16 (ak_index k)]\<rparr>"

definition delete_index_stmt :: "index_pk \<Rightarrow> cql_delete" where
  "delete_index_stmt k =
     \<lparr>cd_table = ''indexes'', cd_where = [''indexation'', ''partition_id'', ''milestone_index'', ''message_id''],
      cd_values = [VText (xk_indexation k), V16 (xk_partition_id k), V32 (xk_milestone_index k), VHex (xk_message_id k)]\<rparr>"

definition delete_parent_stmt :: "parent_pk \<Rightarrow> cql_delete" where
  "delete_parent_stmt k =
     \<lparr>cd_table = ''parents'', cd_where = [''parent_id'', ''partition_id'', ''milestone_index'', ''message_id''],
      cd_values = [VHex (pk_parent_id k), V16 (pk_partition_id k), V32 (pk_milestone_index k), VHex (pk_message_id k)]\<rparr>"

fun delete_stmt :: "db_delete \<Rightarrow> cql_delete" where
  "delete_stmt (Del_address k) = delete_address_stmt k"
| "delete_stmt (Del_index k) = delete_index_stmt k"
| "delete_stmt (Del_parent k) = delete_parent_stmt k"

section \<open>Tokens\<close>

text \<open>The values that \<^verbatim>\<open>ComputeToken\<close> hashes, in order, for the keys of inserts and deletes.\<close>

fun insert_token :: "db_insert \<Rightarrow> cql_value list" where
  "insert_token (Ins_message i m) = [VHex i]"
| "insert_token (Ins_metadata i meta) = [VHex i]"
| "insert_token (Ins_full i m meta) = [VHex i]"
| "insert_token (Ins_address k r) = [VHex (pd_inner k), V16 (pt_id (pd_partition k))]"
| "insert_token (Ins_index k r) = [VText (pd_inner k), V16 (pt_id (pd_partition k))]"
| "insert_token (Ins_parent k r) = [VHex (pd_inner k), V16 (pt_id (pd_partition k))]"
| "insert_token (Ins_transaction t i r) = [VHex t, V16 i]"
| "insert_token (Ins_output k r) = [VHex (oi_transaction_id k), V16 (oi_index k)]"
| "insert_token (Ins_hint h p) = [VText (hint_text h), VText (hint_variant_string (hint_variant h))]"
| "insert_token (Ins_milestone mi i p) = [V32 mi]"
| "insert_token (Ins_sync r) = [VText ''permanode'']"
| "insert_token (Ins_analytic r) = [VText ''permanode'']"

fun delete_token :: "db_delete \<Rightarrow> cql_value list" where
  "delete_token (Del_address k) = [VHex (ak_address k), V16 (ak_partition_id k)]"
| "delete_token (Del_index k) = [VText (xk_indexation k), V16 (xk_partition_id k)]"
| "delete_token (Del_parent k) = [VHex (pk_parent_id k), V16 (pk_partition_id k)]"

section \<open>Tables\<close>

record cql_table =
  tb_columns :: "string list"
  tb_partition_key :: "string list"
  tb_clustering :: "string list"

text \<open>The tables of \<^verbatim>\<open>init_database\<close>.\<close>

definition schema :: "(string \<times> cql_table) list" where
  "schema =
     [(''messages'', \<lparr>tb_columns = [''message_id'', ''message'', ''metadata''],
         tb_partition_key = [''message_id''], tb_clustering = []\<rparr>),
      (''addresses'', \<lparr>tb_columns = [''address'', ''partition_id'', ''milestone_index'', ''output_type'',
           ''transaction_id'', ''idx'', ''amount'', ''address_type'', ''inclusion_state''],
         tb_partition_key = [''address'', ''partition_id''],
         tb_clustering = [''milestone_index'', ''output_type'', ''transaction_id'', ''idx'']\<rparr>),
      (''indexes'', \<lparr>tb_columns = [''indexation'', ''partition_id'', ''milestone_index'', ''message_id'', ''inclusion_state''],
         tb_partition_key = [''indexation'', ''partition_id''], tb_clustering = [''milestone_index'', ''message_id'']\<rparr>),
      (''parents'', \<lparr>tb_columns = [''parent_id'', ''partition_id'', ''milestone_index'', ''message_id'', ''inclusion_state''],
         tb_partition_key = [''parent_id'', ''partition_id''], tb_clustering = [''milestone_index'', ''message_id'']\<rparr>),
      (''transactions'', \<lparr>tb_columns = transaction_columns,
         tb_partition_key = [''transaction_id''], tb_clustering = [''idx'', ''variant'', ''message_id'', ''data'']\<rparr>),
      (''milestones'', \<lparr>tb_columns = [''milestone_index'', ''message_id'', ''timestamp'', ''payload''],
         tb_partition_key = [''milestone_index''], tb_clustering = [''message_id'']\<rparr>),
      (''hints'', \<lparr>tb_columns = [''hint'', ''variant'', ''partition_id'', ''milestone_index''],
         tb_partition_key = [''hint''], tb_clustering = [''variant'', ''partition_id'']\<rparr>),
      (''sync'', \<lparr>tb_columns = [''key'', ''milestone_index'', ''synced_by'', ''logged_by''],
         tb_partition_key = [''key''], tb_clustering = [''milestone_index'']\<rparr>),
      (''analytics'', \<lparr>tb_columns = [''key'', ''milestone_index'', ''message_count'', ''transaction_count'', ''transferred_tokens''],
         tb_partition_key = [''key''], tb_clustering = [''milestone_index'']\<rparr>)]"

definition primary_key :: "cql_table \<Rightarrow> string list" where
  "primary_key t = tb_partition_key t @ tb_clustering t"

text \<open>The value an insert binds to a column.\<close>

definition bound :: "cql_insert \<Rightarrow> string \<Rightarrow> cql_value option" where
  "bound st c = map_of (zip (ci_columns st) (ci_values st)) c"

text \<open>A statement that the server accepts: known columns, the whole primary key, a value per marker per column.\<close>

definition well_formed_insert :: "cql_insert \<Rightarrow> bool" where
  "well_formed_insert st \<longleftrightarrow>
     (case map_of schema (ci_table st) of
        None \<Rightarrow> False
      | Some t \<Rightarrow> set (ci_columns st) \<subseteq> set (tb_columns t) \<and> set (primary_key t) \<subseteq> set (ci_columns st) \<and>
          distinct (ci_columns st) \<and> ci_markers st = length (ci_columns st) \<and> ci_markers st = length (ci_values st))"

definition partition_key_values :: "cql_insert \<Rightarrow> cql_value option list" where
  "partition_key_values st =
     (case map_of schema (ci_table st) of None \<Rightarrow> [] | Some t \<Rightarrow> map (bound st) (tb_partition_key t))"

text \<open>A delete hits the row of an insert: same table, and every value it asks for is the one inserted.\<close>

definition hits :: "db_delete \<Rightarrow> cql_insert \<Rightarrow> bool" where
  "hits d st \<longleftrightarrow> ci_table st = cd_table (delete_stmt d) \<and>
     map (bound st) (cd_where (delete_stmt d)) = map Some (cd_values (delete_stmt d))"

fun is_output :: "db_insert \<Rightarrow> bool" where
  "is_output (Ins_output k r) = True"
| "is_output ins = False"

lemmas insert_stmt_defs =
  insert_message_stmt_def insert_metadata_stmt_def insert_full_stmt_def insert_address_stmt_def insert_index_stmt_def
  insert_parent_stmt_def insert_transaction_stmt_def insert_output_stmt_def insert_hint_stmt_def
  insert_milestone_stmt_def insert_sync_stmt_def insert_analytic_stmt_def

lemmas delete_stmt_defs = delete_address_stmt_def delete_index_stmt_def delete_parent_stmt_def

text \<open>
  C19. Every insert but the one keyed by an output id is accepted by the tables that the program
  creates: it names columns of the table, the whole primary key among them, and has as many markers
  and bound values as columns. That one has a marker too many for its columns and its values.
\<close>

theorem inserts_fit_schema:
  "if is_output ins
   then (case insert_stmt kind ins of
           Inl e \<Rightarrow> e = Panic
         | Inr st \<Rightarrow> ci_markers st = length (ci_columns st) + 1 \<and> ci_markers st = length (ci_values st) + 1)
   else (case insert_stmt kind ins of Inl e \<Rightarrow> False | Inr st \<Rightarrow> well_formed_insert st)"
proof (cases ins)
  case (Ins_output k r)
  then show ?thesis by (cases "tr_data r") (simp_all add: insert_stmt_defs transaction_columns_def)
qed (simp_all add: insert_stmt_defs well_formed_insert_def schema_def primary_key_def transaction_columns_def)

text \<open>
  C20. An insert is routed by the values of the partition key of its table, except the inserts into
  the transactions and the hints table, which hash a clustering column as well.
\<close>

fun misrouted :: "db_insert \<Rightarrow> bool" where
  "misrouted (Ins_transaction t i r) = True"
| "misrouted (Ins_output k r) = True"
| "misrouted (Ins_hint h p) = True"
| "misrouted ins = False"

theorem tokens_match_partition_key:
  "case insert_stmt kind ins of
     Inl e \<Rightarrow> is_output ins
   | Inr st \<Rightarrow> map Some (insert_token ins) = partition_key_values st \<longleftrightarrow> \<not> misrouted ins"
  by (cases ins)
     (auto simp: insert_stmt_defs partition_key_values_def schema_def transaction_columns_def bound_def
       split: transaction_data.splits)

text \<open>
  A delete names the whole primary key, is routed like the insert of its row, and hits exactly the
  rows with that key.
\<close>

lemma delete_full_key:
  "map_of schema (cd_table (delete_stmt d)) \<noteq> None"
  "cd_where (delete_stmt d) = primary_key (the (map_of schema (cd_table (delete_stmt d))))"
  by (cases d; simp add: delete_stmt_defs schema_def primary_key_def)+

lemma hits_simps [simp]:
  "hits (Del_parent k) (insert_parent_stmt (new_partitioned p pid mi) r) \<longleftrightarrow>
     k = \<lparr>pk_parent_id = p, pk_partition_id = pid, pk_milestone_index = mi, pk_message_id = pr_message_id r\<rparr>"
  "hits (Del_index x) (insert_index_stmt (new_partitioned t pid mi) ri) \<longleftrightarrow>
     x = \<lparr>xk_indexation = t, xk_partition_id = pid, xk_milestone_index = mi, xk_message_id = ir_message_id ri\<rparr>"
  "hits (Del_address a) (insert_address_stmt kind (new_partitioned ad pid mi) ra) \<longleftrightarrow>
     a = \<lparr>ak_address = ad, ak_partition_id = pid, ak_milestone_index = mi, ak_output_type = ad_output_type ra,
          ak_transaction_id = ad_transaction_id ra, ak_index = ad_index ra\<rparr>"
  by (cases k; cases x; cases a;
      auto simp: hits_def delete_stmt_defs insert_stmt_defs bound_def new_partitioned_def)+

end
