(* ===== verification/Collector.thy ===== *)
theory Collector
  imports Requester Storage_Rows
begin

text \<open>
  The collectors (\<^verbatim>\<open>chronicle-broker/src/collector/\<close>): each keeps recent messages and metadata in two
  caches, answers what the solidifiers ask for, has requesters fetch what it lacks, and writes the
  rows of every message, under the milestone it estimates until it knows the one that references it.

  The rows that one call writes are a list of actions in the order of the code; \<open>run_actions\<close> carries
  them out until the first that fails. The \<^verbatim>\<open>filter\<close> feature, off by default, is not modelled, nor is
  the metric that the time stamps of cached messages feed.
\<close>

section \<open>State and events\<close>

datatype collector_event =
    CoResponse requester_out
  | CoMessage message_id message
  | CoReferenced message_metadata
  | CoAsk ask_collector
  | CoShutdown

text \<open>\<^verbatim>\<open>SimpleWorker\<close> and \<^verbatim>\<open>AtomicWorker\<close>: the latter reports to a solidifier when all its rows are written.\<close>

datatype db_worker = SimpleWorker usize | AtomicWorker u8 u32 message_id usize

datatype collector_out =
    CoToSolidifier u8 solidifier_event
  | ToRequester u8 "unit requester_event"
  | Persist db_worker db_insert
  | Erase usize db_delete
  | AbortRequester u8

text \<open>
  From outside: the two caches, whether a statement can be built, the hash that identifies a
  transaction, the texts of ids and of index bytes, and the type byte of an output.
\<close>

record ('c, 'd) collector_env =
  ce_lru_msg :: "('c, message_id, u32 \<times> message) lru_api"
  ce_lru_ref :: "('d, message_id, message_metadata) lru_api"
  ce_insert_builds :: "db_insert \<Rightarrow> bool"
  ce_delete_builds :: "db_delete \<Rightarrow> bool"
  ce_transaction_id :: "payload \<Rightarrow> transaction_id"
  ce_id_string :: "256 word \<Rightarrow> string"
  ce_hex :: "u8 list \<Rightarrow> string"
  ce_output_kind :: "output_t \<Rightarrow> u8"

record ('c, 'd) collector =
  co_partition_id :: u8
  co_collector_count :: u8
  co_requesters :: "requester_handle list"
  co_est_ms :: u32
  co_ref_ms :: u32
  co_lru_msg :: 'c
  co_lru_ref :: 'd
  co_solidifiers :: "u8 list"
  co_retries :: usize
  co_pending :: "(message_id, u32 \<times> message) hmap"
  co_partition_config :: partition_config
  co_out :: "collector_out list"

text \<open>\<^verbatim>\<open>CollectorBuilder::build\<close> and the requesters that \<^verbatim>\<open>init\<close> spawns.\<close>

definition spawn_requesters :: "u8 \<Rightarrow> requester_handle list" where
  "spawn_requesters n = map (\<lambda>i. RequesterHandle (of_nat i) 0) [0..<unat n]"

definition new_collector ::
  "'c \<Rightarrow> 'd \<Rightarrow> u8 \<Rightarrow> u8 \<Rightarrow> u8 option \<Rightarrow> u8 list \<Rightarrow> usize option \<Rightarrow> partition_config option \<Rightarrow> ('c, 'd) collector" where
  "new_collector c d p n requesters solidifiers retries pc =
     \<lparr>co_partition_id = p, co_collector_count = n,
      co_requesters = spawn_requesters (case requesters of None \<Rightarrow> 10 | Some k \<Rightarrow> k),
      co_est_ms = 0, co_ref_ms = 0, co_lru_msg = c, co_lru_ref = d, co_solidifiers = solidifiers,
      co_retries = (case retries of None \<Rightarrow> 100 | Some k \<Rightarrow> k), co_pending = [],
      co_partition_config = (case pc of None \<Rightarrow> default_partition_config | Some pc \<Rightarrow> pc), co_out = []\<rparr>"

definition co_emit :: "collector_out list \<Rightarrow> ('c, 'd) collector \<Rightarrow> ('c, 'd) collector" where
  "co_emit os s = s\<lparr>co_out := co_out s @ os\<rparr>"

section \<open>Messages to solidifiers and requesters\<close>

text \<open>The owner of a milestone; the remainder by a zero count panics.\<close>

definition solidifier_id :: "('c, 'd) collector \<Rightarrow> u32 \<Rightarrow> u8 result" where
  "solidifier_id s mi =
     (if co_collector_count s = 0 then Inl Panic else Inr (ucast (mi mod ucast (co_collector_count s))))"

definition tell :: "u8 \<Rightarrow> solidifier_event \<Rightarrow> ('c, 'd) collector \<Rightarrow> ('c, 'd) collector" where
  "tell i ev s = (if i \<in> set (co_solidifiers s) then co_emit [CoToSolidifier i ev] s else s)"

definition push_fullmsg_to_solidifier :: "u8 \<Rightarrow> message \<Rightarrow> message_metadata \<Rightarrow> ('c, 'd) collector \<Rightarrow> ('c, 'd) collector" where
  "push_fullmsg_to_solidifier i m meta s = tell i (SoMessage (FullMessage m meta)) s"

definition push_close_to_solidifier :: "u8 \<Rightarrow> message_id \<Rightarrow> u32 \<Rightarrow> ('c, 'd) collector \<Rightarrow> ('c, 'd) collector" where
  "push_close_to_solidifier i m mi s = tell i (SoClose m mi) s"

text \<open>A handle that is unwrapped.\<close>

definition solidifier_handle :: "('c, 'd) collector \<Rightarrow> u32 \<Rightarrow> u8 result" where
  "solidifier_handle s mi =
     rbind (solidifier_id s mi) (\<lambda>i. if i \<in> set (co_solidifiers s) then Inr i else Inl Panic)"

definition send_err_solidify :: "u32 \<Rightarrow> ('c, 'd) collector \<Rightarrow> ('c, 'd) collector result" where
  "send_err_solidify mi s =
     rbind (solidifier_handle s mi) (\<lambda>i. Inr (co_emit [CoToSolidifier i (SoSolidify (Inl mi))] s))"

text \<open>The top of the heap is a requester with the fewest requests in progress; it gets the event.\<close>

definition send_to_requester :: "unit requester_event \<Rightarrow> ('c, 'd) collector \<Rightarrow> ('c, 'd) collector" where
  "send_to_requester ev s =
     (case pop_min rh_processed (co_requesters s) of
        None \<Rightarrow> s
      | Some (h, hs) \<Rightarrow> co_emit [ToRequester (rh_id h) ev] (s\<lparr>co_requesters := rh_increment h # hs\<rparr>))"

definition request_full_message_from :: "message_id \<Rightarrow> u32 \<Rightarrow> ('c, 'd) collector \<Rightarrow> ('c, 'd) collector" where
  "request_full_message_from i mi s = send_to_requester (RequestFullMessage i mi) s"

definition request_milestone_from :: "u32 \<Rightarrow> ('c, 'd) collector \<Rightarrow> ('c, 'd) collector" where
  "request_milestone_from mi s = send_to_requester (RequestMilestone mi) s"

definition adjust_heap :: "u8 \<Rightarrow> ('c, 'd) collector \<Rightarrow> ('c, 'd) collector" where
  "adjust_heap i s =
     s\<lparr>co_requesters := map (\<lambda>h. if rh_id h = i then rh_decrement h else h) (co_requesters s)\<rparr>"

text \<open>\<^verbatim>\<open>process_pending_requests\<close>, in some order of the map.\<close>

definition process_pending_requests :: "u32 \<Rightarrow> ('c, 'd) collector \<Rightarrow> ('c, 'd) collector" where
  "process_pending_requests mi s =
     fold (\<lambda>(i, ms, m) s. request_full_message_from i ms s) (filter (\<lambda>(i, ms, m). ms < mi) (co_pending s))
       (s\<lparr>co_pending := filter (\<lambda>(i, ms, m). \<not> ms < mi) (co_pending s)\<rparr>)"

section \<open>Rows\<close>

datatype action = Put db_insert | Del db_delete | Tell u8 solidifier_event | Fail string | Crash

definition in_partition :: "('c, 'd) collector \<Rightarrow> u32 \<Rightarrow> (u16 \<Rightarrow> action list) \<Rightarrow> action list" where
  "in_partition s mi rows =
     (case partition_id (co_partition_config s) mi of Inl e \<Rightarrow> [Crash] | Inr pid \<Rightarrow> rows pid)"

definition insert_parents ::
  "('c, 'd) collector_env \<Rightarrow> ('c, 'd) collector \<Rightarrow> message_id \<Rightarrow> message_id list \<Rightarrow> u32 \<Rightarrow> ledger_inclusion_state option \<Rightarrow> action list" where
  "insert_parents env s i parents mi st =
     in_partition s mi (\<lambda>pid. concat (map (\<lambda>p.
       [Put (Ins_parent (new_partitioned p pid mi) \<lparr>pr_message_id = i, pr_inclusion_state = st\<rparr>),
        Put (Ins_hint (parent_hint (ce_id_string env p)) \<lparr>pt_id = pid, pt_milestone_index = mi\<rparr>)]) parents))"

definition insert_index ::
  "('c, 'd) collector \<Rightarrow> message_id \<Rightarrow> string \<Rightarrow> u32 \<Rightarrow> ledger_inclusion_state option \<Rightarrow> action list" where
  "insert_index s i t mi st =
     in_partition s mi (\<lambda>pid.
       [Put (Ins_index (new_partitioned t pid mi) \<lparr>ir_message_id = i, ir_inclusion_state = st\<rparr>),
        Put (Ins_hint (index_hint t) \<lparr>pt_id = pid, pt_milestone_index = mi\<rparr>)])"

definition insert_address ::
  "('c, 'd) collector_env \<Rightarrow> ('c, 'd) collector \<Rightarrow> output_t \<Rightarrow> transaction_id \<Rightarrow> u16 \<Rightarrow> u32 \<Rightarrow> ledger_inclusion_state option \<Rightarrow> action list" where
  "insert_address env s out t k mi st =
     in_partition s mi (\<lambda>pid.
       let rows = (\<lambda>a amount.
         [Put (Ins_address (new_partitioned a pid mi)
            \<lparr>ad_output_type = ce_output_kind env out, ad_transaction_id = t, ad_index = k, ad_amount = amount,
             ad_inclusion_state = st\<rparr>),
          Put (Ins_hint (address_hint (ce_id_string env a)) \<lparr>pt_id = pid, pt_milestone_index = mi\<rparr>)])
       in case out of
            SignatureLockedSingle a v \<Rightarrow> rows a v
          | SignatureLockedDustAllowance a v \<Rightarrow> rows a v
          | TreasuryOut v \<Rightarrow> []
          | OtherOutput \<Rightarrow> [Fail ''Unexpected new output variant''])"

text \<open>One input, with its unlock block; a missing block panics.\<close>

definition insert_input_rows ::
  "message_id \<Rightarrow> transaction_id \<Rightarrow> unlock_block list \<Rightarrow> ledger_inclusion_state option \<Rightarrow> u32 option \<Rightarrow> nat \<Rightarrow> input_t \<Rightarrow> action list" where
  "insert_input_rows i t ubs st conf k inp =
     (case inp of
        Utxo oid \<Rightarrow>
          (if k < length ubs
           then [Put (Ins_transaction t (of_nat k) (input_record i (UtxoData oid (ubs ! k)) st conf)),
                 Put (Ins_transaction (oi_transaction_id oid) (oi_index oid)
                   (unlock_record i \<lparr>ud_input_tx_id = t, ud_input_index = of_nat k, ud_unlock_block = ubs ! k\<rparr> st conf))]
           else [Crash])
      | TreasuryIn m \<Rightarrow> [Put (Ins_transaction t (of_nat k) (input_record i (TreasuryData m) st conf))]
      | OtherInput \<Rightarrow> [])"

definition insert_output_rows ::
  "('c, 'd) collector_env \<Rightarrow> ('c, 'd) collector \<Rightarrow> message_id \<Rightarrow> transaction_id \<Rightarrow> ledger_inclusion_state option \<Rightarrow> u32 option \<Rightarrow> u32
     \<Rightarrow> nat \<Rightarrow> output_t \<Rightarrow> action list" where
  "insert_output_rows env s i t st conf mi k out =
     Put (Ins_transaction t (of_nat k) (output_record i out st conf)) #
     insert_address env s out t (of_nat k) mi st"

definition insert_transaction ::
  "('c, 'd) collector_env \<Rightarrow> ('c, 'd) collector \<Rightarrow> message_id \<Rightarrow> transaction_id \<Rightarrow> input_t list \<Rightarrow> output_t list \<Rightarrow> unlock_block list
     \<Rightarrow> u32 \<Rightarrow> ledger_inclusion_state option \<Rightarrow> action list" where
  "insert_transaction env s i t ins outs ubs mi st =
     (let conf = (if st \<noteq> None then Some mi else None) in
      concat (map (\<lambda>(k, inp). insert_input_rows i t ubs st conf k inp) (enumerate 0 ins)) @
      concat (map (\<lambda>(k, out). insert_output_rows env s i t st conf mi k out) (enumerate 0 outs)))"

fun insert_payload ::
  "('c, 'd) collector_env \<Rightarrow> ('c, 'd) collector \<Rightarrow> message_id \<Rightarrow> message \<Rightarrow> u32 \<Rightarrow> ledger_inclusion_state option
     \<Rightarrow> message_metadata option \<Rightarrow> payload \<Rightarrow> action list" where
  "insert_payload env s i m mi st meta (Indexation_P x d) = insert_index s i (ce_hex env x) mi st"
| "insert_payload env s i m mi st meta (Transaction_P ins outs p ubs) =
     insert_transaction env s i (ce_transaction_id env (Transaction_P ins outs p ubs)) ins outs ubs mi st @
     (case p of None \<Rightarrow> [] | Some q \<Rightarrow> insert_payload env s i m mi st meta q)"
| "insert_payload env s i m mi st meta (Milestone_P mp) =
     (if meta \<noteq> None \<and> msg_parents m = mp_parents mp
      then (case solidifier_id s (mp_index mp) of
              Inl e \<Rightarrow> [Crash]
            | Inr sid \<Rightarrow>
                (if sid \<in> set (co_solidifiers s)
                 then [Tell sid (SoMilestone \<lparr>mm_message_id = i, mm_payload = mp, mm_message = m, mm_metadata = meta\<rparr>)]
                 else [])
                @ [Put (Ins_milestone (mp_index mp) i mp)])
      else [])"
| "insert_payload env s i m mi st meta Other_P = []"

definition payload_rows ::
  "('c, 'd) collector_env \<Rightarrow> ('c, 'd) collector \<Rightarrow> message_id \<Rightarrow> message \<Rightarrow> u32 \<Rightarrow> ledger_inclusion_state option
     \<Rightarrow> message_metadata option \<Rightarrow> action list" where
  "payload_rows env s i m mi st meta =
     (case msg_payload m of None \<Rightarrow> [] | Some p \<Rightarrow> insert_payload env s i m mi st meta p)"

fun run_actions :: "('c, 'd) collector_env \<Rightarrow> db_worker \<Rightarrow> action list \<Rightarrow> ('c, 'd) collector \<Rightarrow> ('c, 'd) collector step" where
  "run_actions env w [] s = Inr (None, s)"
| "run_actions env w (Put r # as) s =
     (if ce_insert_builds env r then run_actions env w as (co_emit [Persist w r] s)
      else Inr (Some ''cannot build the insert'', s))"
| "run_actions env w (Del d # as) s =
     (if ce_delete_builds env d then run_actions env w as (co_emit [Erase (co_retries s) d] s)
      else Inr (Some ''cannot build the delete'', s))"
| "run_actions env w (Tell i ev # as) s = run_actions env w as (co_emit [CoToSolidifier i ev] s)"
| "run_actions env w (Fail e # as) s = Inr (Some e, s)"
| "run_actions env w (Crash # as) s = Inl Panic"

text \<open>The rows of a message stored under an estimated milestone, without metadata.\<close>

definition unreferenced_rows ::
  "('c, 'd) collector_env \<Rightarrow> ('c, 'd) collector \<Rightarrow> message_id \<Rightarrow> message \<Rightarrow> u32 \<Rightarrow> action list" where
  "unreferenced_rows env s i m mi =
     Put (Ins_message i m) # insert_parents env s i (msg_parents m) mi None @ payload_rows env s i m mi None None"

definition insert_message ::
  "('c, 'd) collector_env \<Rightarrow> message_id \<Rightarrow> message \<Rightarrow> ('c, 'd) collector \<Rightarrow> ('c, 'd) collector step" where
  "insert_message env i m s =
     (let (meta, d) = lru_get (ce_lru_ref env) (co_lru_ref s) i; s = s\<lparr>co_lru_ref := d\<rparr> in
      case meta of
        Some meta \<Rightarrow>
          (case md_referenced_by meta of
             None \<Rightarrow> Inl Panic
           | Some mi \<Rightarrow>
               rbind (solidifier_handle s mi)
                 (\<lambda>sid. run_actions env (AtomicWorker sid mi i (co_retries s))
                   (Put (Ins_full i m meta) #
                    insert_parents env s i (msg_parents m) mi (md_inclusion_state meta) @
                    payload_rows env s i m mi (md_inclusion_state meta) (Some meta)) s))
      | None \<Rightarrow> run_actions env (SimpleWorker (co_retries s)) (unreferenced_rows env s i m (co_est_ms s)) s)"

definition insert_message_metadata ::
  "('c, 'd) collector_env \<Rightarrow> message_metadata \<Rightarrow> ('c, 'd) collector \<Rightarrow> ('c, 'd) collector step" where
  "insert_message_metadata env meta s =
     run_actions env (SimpleWorker (co_retries s))
       (Put (Ins_metadata (md_message_id meta) meta) #
        insert_parents env s (md_message_id meta) (md_parent_message_ids meta) (co_ref_ms s) (md_inclusion_state meta)) s"

definition referenced_rows ::
  "('c, 'd) collector_env \<Rightarrow> ('c, 'd) collector \<Rightarrow> message_id \<Rightarrow> message \<Rightarrow> message_metadata \<Rightarrow> u32 \<Rightarrow> action list" where
  "referenced_rows env s i m meta mi =
     insert_parents env s i (msg_parents m) mi (md_inclusion_state meta) @
     payload_rows env s i m mi (md_inclusion_state meta) (Some meta) @ [Put (Ins_full i m meta)]"

definition insert_message_with_metadata ::
  "('c, 'd) collector_env \<Rightarrow> message_id \<Rightarrow> message \<Rightarrow> message_metadata \<Rightarrow> ('c, 'd) collector \<Rightarrow> ('c, 'd) collector step" where
  "insert_message_with_metadata env i m meta s =
     rbind (solidifier_handle s (co_ref_ms s))
       (\<lambda>sid. run_actions env (AtomicWorker sid (co_ref_ms s) i (co_retries s))
                (referenced_rows env s i m meta (co_ref_ms s)) s)"

section \<open>Clean-up of wrongly estimated rows\<close>

definition delete_parents :: "('c, 'd) collector \<Rightarrow> message_id \<Rightarrow> message_id list \<Rightarrow> u32 \<Rightarrow> action list" where
  "delete_parents s i parents mi =
     in_partition s mi (\<lambda>pid. map (\<lambda>p. Del (Del_parent \<lparr>pk_parent_id = p, pk_partition_id = pid, pk_milestone_index = mi,
       pk_message_id = i\<rparr>)) parents)"

definition delete_indexation :: "('c, 'd) collector \<Rightarrow> message_id \<Rightarrow> string \<Rightarrow> u32 \<Rightarrow> action list" where
  "delete_indexation s i t mi =
     in_partition s mi (\<lambda>pid. [Del (Del_index \<lparr>xk_indexation = t, xk_partition_id = pid, xk_milestone_index = mi,
       xk_message_id = i\<rparr>)])"

definition delete_address ::
  "('c, 'd) collector_env \<Rightarrow> ('c, 'd) collector \<Rightarrow> output_t \<Rightarrow> transaction_id \<Rightarrow> u16 \<Rightarrow> u32 \<Rightarrow> action list" where
  "delete_address env s out t k mi =
     in_partition s mi (\<lambda>pid.
       let row = (\<lambda>a. [Del (Del_address \<lparr>ak_address = a, ak_partition_id = pid, ak_milestone_index = mi,
         ak_output_type = ce_output_kind env out, ak_transaction_id = t, ak_index = k\<rparr>)])
       in case out of
            SignatureLockedSingle a v \<Rightarrow> row a
          | SignatureLockedDustAllowance a v \<Rightarrow> row a
          | _ \<Rightarrow> [])"

definition delete_transaction_partitioned_rows ::
  "('c, 'd) collector_env \<Rightarrow> ('c, 'd) collector \<Rightarrow> message_id \<Rightarrow> transaction_id \<Rightarrow> output_t list \<Rightarrow> payload option \<Rightarrow> u32 \<Rightarrow> action list" where
  "delete_transaction_partitioned_rows env s i t outs p mi =
     (case p of Some (Indexation_P x d) \<Rightarrow> delete_indexation s i (ce_hex env x) mi | _ \<Rightarrow> []) @
     concat (map (\<lambda>(k, out). delete_address env s out t (of_nat k) mi) (enumerate 0 outs))"

definition clean_up_rows ::
  "('c, 'd) collector_env \<Rightarrow> ('c, 'd) collector \<Rightarrow> message_id \<Rightarrow> message \<Rightarrow> u32 \<Rightarrow> action list" where
  "clean_up_rows env s i m mi =
     delete_parents s i (msg_parents m) mi @
     (case msg_payload m of
        Some (Indexation_P x d) \<Rightarrow> delete_indexation s i (ce_hex env x) mi
      | Some (Transaction_P ins outs p ubs) \<Rightarrow>
          delete_transaction_partitioned_rows env s i (ce_transaction_id env (Transaction_P ins outs p ubs)) outs p mi
      | _ \<Rightarrow> [])"

definition clean_up_wrong_est_msg ::
  "('c, 'd) collector_env \<Rightarrow> message_id \<Rightarrow> message \<Rightarrow> u32 \<Rightarrow> ('c, 'd) collector \<Rightarrow> ('c, 'd) collector step" where
  "clean_up_wrong_est_msg env i m mi s = run_actions env (SimpleWorker (co_retries s)) (clean_up_rows env s i m mi) s"

section \<open>Handlers\<close>

text \<open>An error that is only logged.\<close>

definition logs :: "'s step \<Rightarrow> 's result" where
  "logs r = rbind r (\<lambda>(e, s). Inr s)"

text \<open>The cached message is corrected to the referencing milestone; a wrong estimate is returned.\<close>

definition correct_estimate ::
  "('c, 'd) collector_env \<Rightarrow> message_id \<Rightarrow> u32 \<times> message \<Rightarrow> u32 \<Rightarrow> ('c, 'd) collector \<Rightarrow> u32 option \<times> ('c, 'd) collector" where
  "correct_estimate env i e ref s =
     (if fst e \<noteq> ref
      then (Some (fst e), s\<lparr>co_lru_msg := lru_put (ce_lru_msg env) (co_lru_msg s) i (ref, snd e)\<rparr>)
      else (None, s))"

definition clean_up_and_insert ::
  "('c, 'd) collector_env \<Rightarrow> message_id \<Rightarrow> message \<Rightarrow> message_metadata \<Rightarrow> u32 option \<Rightarrow> ('c, 'd) collector \<Rightarrow> ('c, 'd) collector result" where
  "clean_up_and_insert env i m meta wrong s =
     rbind (case wrong of None \<Rightarrow> Inr s | Some mi \<Rightarrow> logs (clean_up_wrong_est_msg env i m mi s))
       (\<lambda>s. logs (insert_message_with_metadata env i m meta s))"

text \<open>What a response with a message leaves in the caches and the database.\<close>

definition store_response ::
  "('c, 'd) collector_env \<Rightarrow> message_id \<Rightarrow> message \<Rightarrow> message_metadata \<Rightarrow> u32 \<Rightarrow> ('c, 'd) collector \<Rightarrow> ('c, 'd) collector result" where
  "store_response env i m meta ref s =
     (let (cached, c) = lru_get (ce_lru_msg env) (co_lru_msg s) i;
          s = s\<lparr>co_lru_msg := c\<rparr>;
          (wrong, s) =
            (case cached of
               Some e \<Rightarrow> correct_estimate env i e ref s
             | None \<Rightarrow>
                 (None, s\<lparr>co_lru_msg := lru_put (ce_lru_msg env) (co_lru_msg s) i (co_ref_ms s, m)\<rparr>));
          s = s\<lparr>co_lru_ref := lru_put (ce_lru_ref env) (co_lru_ref s) i meta\<rparr>
      in clean_up_and_insert env i m meta wrong s)"

definition handle_response ::
  "('c, 'd) collector_env \<Rightarrow> requester_out \<Rightarrow> ('c, 'd) collector \<Rightarrow> ('c, 'd) collector result" where
  "handle_response env r s =
     (case r of MessageAndMeta rid try_ms mid fm \<Rightarrow>
        let s = adjust_heap rid s in
        case fm of
          None \<Rightarrow> send_err_solidify try_ms s
        | Some (FullMessage m meta) \<Rightarrow>
            (case mid of
               None \<Rightarrow> Inl Panic
             | Some i \<Rightarrow>
                 rbind (solidifier_id s try_ms) (\<lambda>p.
                 case md_referenced_by meta of
                   None \<Rightarrow> Inl Panic
                 | Some ref \<Rightarrow>
                     (let s = (if ref = try_ms then push_fullmsg_to_solidifier p m meta s
                               else push_close_to_solidifier p i try_ms s)
                      in store_response env i m meta ref (s\<lparr>co_ref_ms := ref\<rparr>)))))"

definition handle_message ::
  "('c, 'd) collector_env \<Rightarrow> message_id \<Rightarrow> message \<Rightarrow> ('c, 'd) collector \<Rightarrow> ('c, 'd) collector result" where
  "handle_message env i m s =
     (let (cached, c) = lru_get (ce_lru_msg env) (co_lru_msg s) i; s = s\<lparr>co_lru_msg := c\<rparr> in
      case cached of
        Some e \<Rightarrow> Inr s
      | None \<Rightarrow>
          rbind (logs (insert_message env i m s))
            (\<lambda>s. Inr (s\<lparr>co_lru_msg := lru_put (ce_lru_msg env) (co_lru_msg s) i (co_est_ms s, m)\<rparr>)))"

text \<open>A pending request for a message that is now referenced is closed unless it is for that milestone.\<close>

definition close_if_other :: "message_id \<Rightarrow> u32 \<Rightarrow> u32 \<Rightarrow> ('c, 'd) collector \<Rightarrow> ('c, 'd) collector result" where
  "close_if_other i asked_by ref s =
     (if asked_by \<noteq> ref
      then rbind (solidifier_id s asked_by) (\<lambda>sid. Inr (push_close_to_solidifier sid i asked_by s))
      else Inr s)"

text \<open>The two branches of a newly referenced message: it is cached or not.\<close>

definition referenced_cached ::
  "('c, 'd) collector_env \<Rightarrow> message_metadata \<Rightarrow> u32 \<Rightarrow> u8 \<Rightarrow> u32 \<times> message \<Rightarrow> ('c, 'd) collector \<Rightarrow> ('c, 'd) collector result" where
  "referenced_cached env meta ref p e s =
     (let i = md_message_id meta;
          (wrong, s) = correct_estimate env i e ref s;
          s = push_fullmsg_to_solidifier p (snd e) meta s
      in rbind (case hm_get (co_pending s) i of
                  None \<Rightarrow> Inr s
                | Some (asked_by, pm) \<Rightarrow>
                    close_if_other i asked_by ref (s\<lparr>co_pending := hm_remove i (co_pending s)\<rparr>))
           (\<lambda>s. clean_up_and_insert env i (snd e) meta wrong (process_pending_requests ref s)))"

definition referenced_uncached ::
  "('c, 'd) collector_env \<Rightarrow> message_metadata \<Rightarrow> u32 \<Rightarrow> u8 \<Rightarrow> ('c, 'd) collector \<Rightarrow> ('c, 'd) collector result" where
  "referenced_uncached env meta ref p s =
     (let i = md_message_id meta in
      case hm_get (co_pending s) i of
        Some (asked_by, pm) \<Rightarrow>
          rbind (let s = s\<lparr>co_pending := hm_remove i (co_pending s)\<rparr> in
                 if asked_by = ref then Inr (push_fullmsg_to_solidifier p pm meta s)
                 else close_if_other i asked_by ref s)
            (\<lambda>s. clean_up_and_insert env i pm meta None (process_pending_requests ref s))
      | None \<Rightarrow> logs (insert_message_metadata env meta (process_pending_requests ref s)))"

definition handle_referenced ::
  "('c, 'd) collector_env \<Rightarrow> message_metadata \<Rightarrow> ('c, 'd) collector \<Rightarrow> ('c, 'd) collector result" where
  "handle_referenced env meta s =
     (case md_referenced_by meta of
        None \<Rightarrow> Inr s
      | Some ref \<Rightarrow>
          rbind (solidifier_id s ref) (\<lambda>p.
            let i = md_message_id meta;
                s = s\<lparr>co_ref_ms := ref\<rparr>;
                s = (if co_est_ms s < co_ref_ms s + 1 then s\<lparr>co_est_ms := co_ref_ms s + 1\<rparr> else s);
                (known, d) = lru_get (ce_lru_ref env) (co_lru_ref s) i;
                s = s\<lparr>co_lru_ref := d\<rparr>
            in case known of
                 Some old \<Rightarrow> Inr s
               | None \<Rightarrow>
                   (let s = s\<lparr>co_lru_ref := lru_put (ce_lru_ref env) (co_lru_ref s) i meta\<rparr>;
                        (cached, c) = lru_get (ce_lru_msg env) (co_lru_msg s) i;
                        s = s\<lparr>co_lru_msg := c\<rparr>
                    in case cached of
                         Some e \<Rightarrow> referenced_cached env meta ref p e s
                       | None \<Rightarrow> referenced_uncached env meta ref p s)))"

definition handle_ask_message ::
  "('c, 'd) collector_env \<Rightarrow> u8 \<Rightarrow> u32 \<Rightarrow> message_id \<Rightarrow> created_by \<Rightarrow> ('c, 'd) collector \<Rightarrow> ('c, 'd) collector result" where
  "handle_ask_message env sid try_ms i by s =
     (let (cached, c) = lru_get (ce_lru_msg env) (co_lru_msg s) i; s = s\<lparr>co_lru_msg := c\<rparr> in
      case cached of
        None \<Rightarrow> Inr (request_full_message_from i try_ms s)
      | Some (est, m) \<Rightarrow>
          (let (known, d) = lru_get (ce_lru_ref env) (co_lru_ref s) i; s = s\<lparr>co_lru_ref := d\<rparr> in
           case known of
             Some meta \<Rightarrow>
               (case md_referenced_by meta of
                  None \<Rightarrow> Inl Panic
                | Some ref \<Rightarrow>
                    (if ref \<noteq> try_ms then Inr (push_close_to_solidifier sid i try_ms s)
                     else (let s = push_fullmsg_to_solidifier sid m meta s in
                           if by = Syncer_C
                           then logs (insert_message_with_metadata env i m meta (s\<lparr>co_ref_ms := try_ms\<rparr>))
                           else Inr s)))
           | None \<Rightarrow>
               (if co_est_ms s \<noteq> 0 \<and> co_est_ms s - 1 \<le> try_ms
                then (case hm_get (co_pending s) i of
                        Some (old, pm) \<Rightarrow>
                          (if old < try_ms then Inr (push_close_to_solidifier sid i try_ms s)
                           else (let s = s\<lparr>co_pending := hm_insert i (try_ms, pm) (co_pending s)\<rparr> in
                                 rbind (solidifier_id s old) (\<lambda>sid. Inr (push_close_to_solidifier sid i old s))))
                      | None \<Rightarrow> Inr (s\<lparr>co_pending := hm_insert i (try_ms, m) (co_pending s)\<rparr>))
                else Inr (request_full_message_from i try_ms s))))"

definition handle_collector_event ::
  "('c, 'd) collector_env \<Rightarrow> collector_event \<Rightarrow> ('c, 'd) collector \<Rightarrow> ('c, 'd) collector result" where
  "handle_collector_event env ev s =
     (case ev of
        CoResponse r \<Rightarrow> handle_response env r s
      | CoMessage i m \<Rightarrow> handle_message env i m s
      | CoReferenced meta \<Rightarrow> handle_referenced env meta s
      | CoAsk (AskFullMessage sid try_ms i by) \<Rightarrow> handle_ask_message env sid try_ms i by s
      | CoAsk (AskMilestoneMessage mi) \<Rightarrow> Inr (request_milestone_from mi s)
      | CoShutdown \<Rightarrow>
          Inr (co_emit (map (\<lambda>h. AbortRequester (rh_id h)) (co_requesters s)) (s\<lparr>co_requesters := []\<rparr>)))"

fun collector_loop ::
  "('c, 'd) collector_env \<Rightarrow> collector_event list \<Rightarrow> ('c, 'd) collector \<Rightarrow> ('c, 'd) collector result" where
  "collector_loop env [] s = Inr s"
| "collector_loop env (ev # evs) s = rbind (handle_collector_event env ev s) (collector_loop env evs)"

lemma isl_cases: "\<not> isl r \<Longrightarrow> \<exists>x. r = Inr x"
  by (cases r) auto

text \<open>A concrete environment for the witnesses.\<close>

definition plain_env :: "((message_id, u32 \<times> message) hmap, (message_id, message_metadata) hmap) collector_env" where
  "plain_env = \<lparr>ce_lru_msg = unbounded_lru, ce_lru_ref = unbounded_lru, ce_insert_builds = (\<lambda>r. True),
     ce_delete_builds = (\<lambda>d. True), ce_transaction_id = (\<lambda>p. 7), ce_id_string = (\<lambda>i. ''id''), ce_hex = (\<lambda>x. ''hex''),
     ce_output_kind = (\<lambda>out. 0)\<rparr>"

definition indexed_message :: message where
  "indexed_message = \<lparr>msg_parents = [4], msg_payload = Some (Indexation_P [1] []), msg_nonce = 0\<rparr>"

definition metadata_at :: "u32 \<Rightarrow> message_id \<Rightarrow> message_metadata" where
  "metadata_at mi i = \<lparr>md_message_id = i, md_parent_message_ids = [4], md_is_solid = True, md_referenced_by = Some mi,
     md_inclusion_state = Some NoTransaction, md_should_promote = None, md_should_reattach = None\<rparr>"

definition two_collectors :: "((message_id, u32 \<times> message) hmap, (message_id, message_metadata) hmap) collector" where
  "two_collectors = new_collector [] [] 0 2 (Some 1) [0, 1] None None"

lemmas plain_defs = plain_env_def indexed_message_def metadata_at_def two_collectors_def new_collector_def
  spawn_requesters_def unbounded_lru_def

section \<open>Rows of a message\<close>

lemma in_partition_set: "x \<in> set (in_partition s mi rows) \<Longrightarrow> x = Crash \<or> (\<exists>pid. partition_id (co_partition_config s) mi = Inr pid \<and> x \<in> set (rows pid))"
  by (auto simp: in_partition_def split: sum.splits)

text \<open>The rows whose place depends on the milestone.\<close>

fun partitioned_row :: "db_insert \<Rightarrow> bool" where
  "partitioned_row (Ins_parent k r) = True"
| "partitioned_row (Ins_index k r) = True"
| "partitioned_row (Ins_address k r) = True"
| "partitioned_row r = False"

definition hits_row :: "u8 \<Rightarrow> db_delete \<Rightarrow> db_insert \<Rightarrow> bool" where
  "hits_row kind d r \<longleftrightarrow> (case insert_stmt kind r of Inl e \<Rightarrow> False | Inr st \<Rightarrow> hits d st)"

text \<open>The milestone of a key.\<close>

fun del_milestone :: "db_delete \<Rightarrow> u32" where
  "del_milestone (Del_parent k) = pk_milestone_index k"
| "del_milestone (Del_index k) = xk_milestone_index k"
| "del_milestone (Del_address k) = ak_milestone_index k"

fun row_milestone :: "db_insert \<Rightarrow> u32 option" where
  "row_milestone (Ins_parent k r) = Some (pt_milestone_index (pd_partition k))"
| "row_milestone (Ins_index k r) = Some (pt_milestone_index (pd_partition k))"
| "row_milestone (Ins_address k r) = Some (pt_milestone_index (pd_partition k))"
| "row_milestone r = None"

lemma hits_row_milestone: "hits_row kind d r \<Longrightarrow> row_milestone r = Some (del_milestone d)"
proof (cases d)
  case (Del_address k)
  then show "hits_row kind d r \<Longrightarrow> ?thesis"
    by (cases r) (auto simp: hits_row_def hits_def delete_stmt_defs insert_stmt_defs bound_def split: sum.splits transaction_data.splits)
next
  case (Del_index k)
  then show "hits_row kind d r \<Longrightarrow> ?thesis"
    by (cases r) (auto simp: hits_row_def hits_def delete_stmt_defs insert_stmt_defs bound_def split: sum.splits transaction_data.splits)
next
  case (Del_parent k)
  then show "hits_row kind d r \<Longrightarrow> ?thesis"
    by (cases r) (auto simp: hits_row_def hits_def delete_stmt_defs insert_stmt_defs bound_def split: sum.splits transaction_data.splits)
qed

lemma insert_address_milestone:
  "Put r \<in> set (insert_address env s out t k mi st) \<Longrightarrow> row_milestone r = Some mi \<or> \<not> partitioned_row r"
  by (auto simp: insert_address_def Let_def new_partitioned_def dest!: in_partition_set split: output_t.splits)

lemma insert_input_unpartitioned: "Put r \<in> set (insert_input_rows i t ubs st conf k inp) \<Longrightarrow> \<not> partitioned_row r"
  by (cases inp) (auto simp: insert_input_rows_def split: if_splits)

lemma insert_transaction_puts:
  assumes "Put r \<in> set (insert_transaction env s i t ins outs ubs mi st)" and "partitioned_row r"
  shows "\<exists>k out. (k, out) \<in> set (enumerate 0 outs) \<and> Put r \<in> set (insert_address env s out t (of_nat k) mi st)"
  using assms insert_input_unpartitioned
  by (fastforce simp: insert_transaction_def Let_def insert_output_rows_def)

lemma insert_transaction_milestone:
  "Put r \<in> set (insert_transaction env s i t ins outs ubs mi st) \<Longrightarrow> row_milestone r = Some mi \<or> \<not> partitioned_row r"
  using insert_transaction_puts insert_address_milestone by blast

lemma insert_payload_milestone:
  "Put r \<in> set (insert_payload env s i m mi st meta p) \<Longrightarrow> row_milestone r = Some mi \<or> \<not> partitioned_row r"
proof (induction env s i m mi st meta p rule: insert_payload.induct)
  case (1 env s i m mi st meta x d)
  then show ?case by (auto simp: insert_index_def new_partitioned_def dest!: in_partition_set)
next
  case (2 env s i m mi st meta ins outs p ubs)
  then show ?case using insert_transaction_milestone by (fastforce split: option.splits)
next
  case (3 env s i m mi st meta mp)
  then show ?case by (auto split: if_splits sum.splits)
qed simp

lemma insert_parents_milestone:
  "Put r \<in> set (insert_parents env s i ps mi st) \<Longrightarrow> row_milestone r = Some mi \<or> \<not> partitioned_row r"
  by (auto simp: insert_parents_def new_partitioned_def dest!: in_partition_set)

lemma delete_milestones:
  "Del d \<in> set (delete_parents s i ps mi) \<Longrightarrow> del_milestone d = mi"
  "Del d \<in> set (delete_indexation s i t mi) \<Longrightarrow> del_milestone d = mi"
  "Del d \<in> set (delete_address env s out tid k mi) \<Longrightarrow> del_milestone d = mi"
  by (cases out; auto simp: delete_parents_def delete_indexation_def delete_address_def Let_def dest!: in_partition_set)+

lemma delete_transaction_milestone:
  assumes "Del d \<in> set (delete_transaction_partitioned_rows env s i t outs p mi)"
  shows "del_milestone d = mi"
proof -
  have "Del d \<in> set (case p of Some (Indexation_P x d) \<Rightarrow> delete_indexation s i (ce_hex env x) mi | _ \<Rightarrow> []) \<Longrightarrow> ?thesis"
    by (cases p; cases "the p") (auto dest: delete_milestones)
  then show ?thesis using assms
    by (auto simp: delete_transaction_partitioned_rows_def dest: delete_milestones)
qed

lemma clean_up_milestone:
  assumes "Del d \<in> set (clean_up_rows env s i m mi)"
  shows "del_milestone d = mi"
proof (cases "msg_payload m")
  case (Some p)
  then show ?thesis using assms
    by (cases p) (auto simp: clean_up_rows_def dest: delete_milestones delete_transaction_milestone)
qed (use assms in \<open>auto simp: clean_up_rows_def dest: delete_milestones\<close>)

text \<open>A transaction carries at most an indexation (or something without rows of its own), as the protocol has it.\<close>

definition flat_payload :: "message \<Rightarrow> bool" where
  "flat_payload m \<longleftrightarrow>
     (case msg_payload m of
        Some (Transaction_P ins outs p ubs) \<Rightarrow>
          (case p of Some (Transaction_P ins' outs' p' ubs') \<Rightarrow> False | _ \<Rightarrow> True)
      | _ \<Rightarrow> True)"

lemma parents_covered:
  assumes "Put r \<in> set (insert_parents env s i ps mi st)" and "partitioned_row r"
  shows "\<exists>d. Del d \<in> set (delete_parents s i ps mi) \<and> hits_row kind d r"
  using assms
  by (auto simp: insert_parents_def delete_parents_def in_partition_def hits_row_def split: sum.splits)
     (rule exI, rule conjI, rule imageI, assumption, simp)

lemma index_covered:
  assumes "Put r \<in> set (insert_index s i t mi st)" and "partitioned_row r"
  shows "\<exists>d. Del d \<in> set (delete_indexation s i t mi) \<and> hits_row kind d r"
  using assms by (auto simp: insert_index_def delete_indexation_def in_partition_def hits_row_def split: sum.splits)

lemma address_covered:
  assumes "Put r \<in> set (insert_address env s out t k mi st)" and "partitioned_row r"
  shows "\<exists>d. Del d \<in> set (delete_address env s out t k mi) \<and> hits_row kind d r"
  using assms
  by (auto simp: insert_address_def delete_address_def Let_def in_partition_def hits_row_def split: sum.splits output_t.splits)

lemma transaction_covered:
  assumes "Put r \<in> set (insert_transaction env s i t ins outs ubs mi st)" and "partitioned_row r"
  shows "\<exists>d. Del d \<in> set (delete_transaction_partitioned_rows env s i t outs p mi) \<and> hits_row kind d r"
proof -
  from insert_transaction_puts [OF assms] obtain k out where "(k, out) \<in> set (enumerate 0 outs)"
    "Put r \<in> set (insert_address env s out t (of_nat k) mi st)" by blast
  then show ?thesis using address_covered [OF _ assms(2)]
    by (fastforce simp: delete_transaction_partitioned_rows_def)
qed

lemma payload_covered:
  assumes "Put r \<in> set (payload_rows env s i m mi st meta)" and "partitioned_row r" and "flat_payload m"
  shows "\<exists>d. Del d \<in> set (clean_up_rows env s i m mi) \<and> hits_row kind d r"
proof (cases "msg_payload m")
  case (Some p)
  show ?thesis
  proof (cases p)
    case (Indexation_P x d)
    then show ?thesis using Some assms(1,2) index_covered [of r s i "ce_hex env x" mi st kind]
      by (auto simp: payload_rows_def clean_up_rows_def)
  next
    case (Transaction_P ins outs q ubs)
    let ?t = "ce_transaction_id env p"
    have "Put r \<in> set (insert_transaction env s i ?t ins outs ubs mi st) \<or>
        (\<exists>x d. q = Some (Indexation_P x d) \<and> Put r \<in> set (insert_index s i (ce_hex env x) mi st))"
      using Some Transaction_P assms
      by (auto simp: payload_rows_def flat_payload_def split: option.splits payload.splits if_splits sum.splits)
    then have "\<exists>d. Del d \<in> set (delete_transaction_partitioned_rows env s i ?t outs q mi) \<and> hits_row kind d r"
    proof
      assume "Put r \<in> set (insert_transaction env s i ?t ins outs ubs mi st)"
      then show ?thesis by (rule transaction_covered [OF _ assms(2)])
    next
      assume "\<exists>x d. q = Some (Indexation_P x d) \<and> Put r \<in> set (insert_index s i (ce_hex env x) mi st)"
      then show ?thesis using index_covered [OF _ assms(2)]
        by (fastforce simp: delete_transaction_partitioned_rows_def)
    qed
    then show ?thesis using Some Transaction_P by (auto simp: clean_up_rows_def)
  qed (use Some assms in \<open>auto simp: payload_rows_def split: if_splits sum.splits\<close>)
qed (use assms in \<open>simp add: payload_rows_def\<close>)

text \<open>
  C21. When a message turns out to be referenced by another milestone than estimated, the clean-up
  deletes every row that was partitioned by the estimate, and none of the rows written for it under
  the right milestone.
\<close>

definition covers :: "u8 \<Rightarrow> action list \<Rightarrow> action list \<Rightarrow> bool" where
  "covers kind dels puts \<longleftrightarrow>
     list_all (\<lambda>a. case a of
       Put r \<Rightarrow> partitioned_row r \<longrightarrow> list_ex (\<lambda>b. case b of Del d \<Rightarrow> hits_row kind d r | _ \<Rightarrow> False) dels
     | _ \<Rightarrow> True) puts"

definition spares :: "u8 \<Rightarrow> action list \<Rightarrow> action list \<Rightarrow> bool" where
  "spares kind dels puts \<longleftrightarrow>
     list_all (\<lambda>a. case a of
       Put r \<Rightarrow> list_all (\<lambda>b. case b of Del d \<Rightarrow> \<not> hits_row kind d r | _ \<Rightarrow> True) dels
     | _ \<Rightarrow> True) puts"

theorem clean_up_exact:
  assumes "flat_payload m" and "ref \<noteq> est"
  shows "covers kind (clean_up_rows env s i m est) (unreferenced_rows env s i m est) \<and>
    spares kind (clean_up_rows env s i m est) (referenced_rows env s i m meta ref)"
proof
  have "\<exists>d. Del d \<in> set (clean_up_rows env s i m est) \<and> hits_row kind d r"
    if "Put r \<in> set (unreferenced_rows env s i m est)" "partitioned_row r" for r
    using that payload_covered [OF _ that(2) assms(1)] parents_covered [OF _ that(2)]
    by (fastforce simp: unreferenced_rows_def clean_up_rows_def)
  then show "covers kind (clean_up_rows env s i m est) (unreferenced_rows env s i m est)"
    by (fastforce simp: covers_def list_all_iff list_ex_iff split: action.splits)
  have "\<not> hits_row kind d r"
    if "Put r \<in> set (referenced_rows env s i m meta ref)" "Del d \<in> set (clean_up_rows env s i m est)" for d r
  proof
    assume "hits_row kind d r"
    then have "row_milestone r = Some est" using hits_row_milestone clean_up_milestone [OF that(2)] by blast
    moreover have "row_milestone r = Some ref \<or> \<not> partitioned_row r"
      using that(1)
      by (auto simp: referenced_rows_def payload_rows_def dest: insert_parents_milestone insert_payload_milestone
          split: option.splits)
    ultimately show False using assms(2) by (cases r) auto
  qed
  then show "spares kind (clean_up_rows env s i m est) (referenced_rows env s i m meta ref)"
    by (auto simp: spares_def list_all_iff split: action.splits)
qed

theorem clean_up_exact_witness:
  "covers 0 (clean_up_rows plain_env two_collectors 9 indexed_message 6) (unreferenced_rows plain_env two_collectors 9 indexed_message 6) \<and>
   spares 0 (clean_up_rows plain_env two_collectors 9 indexed_message 6)
     (referenced_rows plain_env two_collectors 9 indexed_message (metadata_at 5 9) 5)"
  by (rule clean_up_exact) (simp_all add: flat_payload_def indexed_message_def)

section \<open>What a call sends\<close>

text \<open>\<open>s'\<close> comes from \<open>s\<close> by sending, only what satisfies \<open>P\<close>; what is fixed at start stays.\<close>

definition sends :: "(collector_out \<Rightarrow> bool) \<Rightarrow> ('c, 'd) collector \<Rightarrow> ('c, 'd) collector \<Rightarrow> bool" where
  "sends P s s' \<longleftrightarrow> (\<exists>os. co_out s' = co_out s @ os \<and> list_all P os) \<and>
     co_collector_count s' = co_collector_count s \<and> co_solidifiers s' = co_solidifiers s \<and>
     co_partition_config s' = co_partition_config s \<and> co_retries s' = co_retries s"

lemma sends_refl [intro, simp]: "sends P s s"
  by (simp add: sends_def)

lemma sends_trans [trans]: "sends P s s1 \<Longrightarrow> sends P s1 s2 \<Longrightarrow> sends P s s2"
  by (fastforce simp: sends_def)

lemma sends_mono: "sends P s s' \<Longrightarrow> (\<And>out. P out \<Longrightarrow> Q out) \<Longrightarrow> sends Q s s'"
  by (auto simp: sends_def list_all_iff)

lemma sends_emit: "list_all P os \<Longrightarrow> sends P s (co_emit os s)"
  by (simp add: sends_def co_emit_def)

lemma sends_frame [simp]:
  "sends P s (s'\<lparr>co_est_ms := a\<rparr>) \<longleftrightarrow> sends P s s'" "sends P s (s'\<lparr>co_ref_ms := a\<rparr>) \<longleftrightarrow> sends P s s'"
  "sends P s (s'\<lparr>co_lru_msg := c\<rparr>) \<longleftrightarrow> sends P s s'" "sends P s (s'\<lparr>co_lru_ref := d\<rparr>) \<longleftrightarrow> sends P s s'"
  "sends P s (s'\<lparr>co_requesters := h\<rparr>) \<longleftrightarrow> sends P s s'" "sends P s (s'\<lparr>co_pending := q\<rparr>) \<longleftrightarrow> sends P s s'"
  "sends P (s\<lparr>co_est_ms := a\<rparr>) s' \<longleftrightarrow> sends P s s'" "sends P (s\<lparr>co_ref_ms := a\<rparr>) s' \<longleftrightarrow> sends P s s'"
  "sends P (s\<lparr>co_lru_msg := c\<rparr>) s' \<longleftrightarrow> sends P s s'" "sends P (s\<lparr>co_lru_ref := d\<rparr>) s' \<longleftrightarrow> sends P s s'"
  "sends P (s\<lparr>co_requesters := h\<rparr>) s' \<longleftrightarrow> sends P s s'" "sends P (s\<lparr>co_pending := q\<rparr>) s' \<longleftrightarrow> sends P s s'"
  by (simp_all add: sends_def)

text \<open>What an action sends when it is carried out by a worker.\<close>

fun sent_by :: "usize \<Rightarrow> db_worker \<Rightarrow> action \<Rightarrow> collector_out option" where
  "sent_by k w (Put r) = Some (Persist w r)"
| "sent_by k w (Del d) = Some (Erase k d)"
| "sent_by k w (Tell i ev) = Some (CoToSolidifier i ev)"
| "sent_by k w (Fail e) = None"
| "sent_by k w Crash = None"

lemma run_actions_sends:
  "run_actions env w as s = Inr (e, s') \<Longrightarrow> list_all (\<lambda>a. pred_option P (sent_by (co_retries s) w a)) as \<Longrightarrow> sends P s s'"
proof (induction as arbitrary: s)
  case (Cons a as)
  have step: "sends P s s'" if "run_actions env w as (co_emit [out] s) = Inr (e, s')" "P out" for out
    using Cons.IH [OF that(1)] Cons.prems(2) that(2) sends_trans [OF sends_emit [of P "[out]" s]]
    by (simp add: co_emit_def)
  show ?case using Cons.prems step by (cases a) (auto split: if_splits)
qed simp


section \<open>Everything goes to its owner\<close>

definition owner :: "u8 \<Rightarrow> u32 \<Rightarrow> u8" where
  "owner n mi = ucast (mi mod ucast n)"

fun routed :: "u8 \<Rightarrow> collector_out \<Rightarrow> bool" where
  "routed n (CoToSolidifier sid ev) =
     (case ev of
        SoMessage fm \<Rightarrow> (case fm_ref_ms fm of Some mi \<Rightarrow> sid = owner n mi | None \<Rightarrow> False)
      | SoClose i mi \<Rightarrow> sid = owner n mi
      | SoSolidify r \<Rightarrow> (case r of Inl mi \<Rightarrow> sid = owner n mi | Inr mi \<Rightarrow> False)
      | SoMilestone mm \<Rightarrow> sid = owner n (mp_index (mm_payload mm))
      | _ \<Rightarrow> False)"
| "routed n (Persist w r) = (case w of SimpleWorker k \<Rightarrow> True | AtomicWorker sid mi i k \<Rightarrow> sid = owner n mi)"
| "routed n (ToRequester i ev) = True"
| "routed n (Erase k d) = True"
| "routed n (AbortRequester i) = True"

text \<open>An answer to what a solidifier asked; a row or a milestone is not one.\<close>

fun answer :: "collector_out \<Rightarrow> bool" where
  "answer (CoToSolidifier sid ev) = (case ev of SoMilestone mm \<Rightarrow> False | _ \<Rightarrow> True)"
| "answer out = False"

definition rows_only :: "u8 \<Rightarrow> collector_out \<Rightarrow> bool" where
  "rows_only n out \<longleftrightarrow> routed n out \<and> \<not> answer out"

text \<open>Actions tell solidifiers of milestones only, and the right one.\<close>

fun action_ok :: "u8 \<Rightarrow> action \<Rightarrow> bool" where
  "action_ok n (Tell sid ev) = (case ev of SoMilestone mm \<Rightarrow> sid = owner n (mp_index (mm_payload mm)) | _ \<Rightarrow> False)"
| "action_ok n a = True"

lemma solidifier_id_owner: "solidifier_id s mi = Inr i \<Longrightarrow> i = owner (co_collector_count s) mi"
  by (auto simp: solidifier_id_def owner_def split: if_splits)

lemma solidifier_handle_owner: "solidifier_handle s mi = Inr i \<Longrightarrow> i = owner (co_collector_count s) mi \<and> i \<in> set (co_solidifiers s)"
  by (auto simp: solidifier_handle_def rbind_Inr_iff dest: solidifier_id_owner split: if_splits)

lemma in_partition_ok: "(\<And>pid. list_all Q (rows pid)) \<Longrightarrow> Q Crash \<Longrightarrow> list_all Q (in_partition s mi rows)"
  by (simp add: in_partition_def split: sum.splits)

lemma insert_rows_ok [simp]:
  "list_all (action_ok n) (insert_parents env s i ps mi st)"
  "list_all (action_ok n) (insert_index s i t mi st)"
  "list_all (action_ok n) (insert_address env s out tid k mi st)"
  "list_all (action_ok n) (insert_input_rows i tid ubs st conf j inp)"
  by (auto simp: insert_parents_def insert_index_def insert_address_def insert_input_rows_def Let_def list_all_iff
      dest!: in_partition_set split: output_t.splits input_t.splits)

lemma insert_transaction_ok [simp]: "list_all (action_ok n) (insert_transaction env s i t ins outs ubs mi st)"
  using insert_rows_ok(3,4) by (fastforce simp: insert_transaction_def insert_output_rows_def Let_def list_all_iff)

lemma insert_payload_ok: "list_all (action_ok (co_collector_count s)) (insert_payload env s i m mi st meta p)"
proof (induction env s i m mi st meta p rule: insert_payload.induct)
  case (2 env s i m mi st meta ins outs p ubs)
  then show ?case by (cases p) auto
next
  case (3 env s i m mi st meta mp)
  then show ?case by (auto dest: solidifier_id_owner split: sum.splits)
qed simp_all

lemma payload_rows_ok [simp]: "list_all (action_ok (co_collector_count s)) (payload_rows env s i m mi st meta)"
  by (simp add: payload_rows_def insert_payload_ok split: option.splits)

lemma delete_rows_ok [simp]:
  "list_all (action_ok n) (delete_parents s i ps mi)" "list_all (action_ok n) (delete_indexation s i t mi)"
  "list_all (action_ok n) (delete_address env s out tid k mi)"
  by (cases out; auto simp: delete_parents_def delete_indexation_def delete_address_def Let_def list_all_iff
      dest!: in_partition_set)+

lemma delete_transaction_ok [simp]: "list_all (action_ok n) (delete_transaction_partitioned_rows env s i t outs p mi)"
  using delete_rows_ok(3)
  by (fastforce simp: delete_transaction_partitioned_rows_def list_all_iff split: option.splits payload.splits
      dest: delete_rows_ok(2) [unfolded list_all_iff, rule_format])

lemma clean_up_ok: "list_all (action_ok n) (clean_up_rows env s i m mi)"
  by (simp add: clean_up_rows_def split: option.splits payload.splits)

lemma run_rows:
  assumes "run_actions env w as s = Inr (e, s')" and "list_all (action_ok (co_collector_count s)) as"
    and "case w of SimpleWorker k \<Rightarrow> True | AtomicWorker sid mi i k \<Rightarrow> sid = owner (co_collector_count s) mi"
  shows "sends (rows_only (co_collector_count s)) s s'"
proof (rule run_actions_sends [OF assms(1)])
  have "pred_option (rows_only (co_collector_count s)) (sent_by (co_retries s) w a)" if "action_ok (co_collector_count s) a" for a
    using that assms(3) by (cases a) (auto simp: rows_only_def split: solidifier_event.splits)
  then show "list_all (\<lambda>a. pred_option (rows_only (co_collector_count s)) (sent_by (co_retries s) w a)) as"
    using assms(2) by (simp add: list_all_iff)
qed

lemma sends_routed: "sends (rows_only n) s s' \<Longrightarrow> sends (routed n) s s'"
  by (erule sends_mono) (simp add: rows_only_def)

lemmas run_routed = run_rows [THEN sends_routed]

lemma tell_routed:
  "routed n (CoToSolidifier i ev) \<Longrightarrow> sends (routed n) s (tell i ev s)"
  by (simp add: tell_def sends_emit)

lemma requester_sends: "sends (routed n) s (send_to_requester ev s)"
  by (auto simp: send_to_requester_def sends_def co_emit_def split: option.splits)

lemma requests_sends: "sends (routed n) s (fold (\<lambda>(i, ms, m) s. request_full_message_from i ms s) qs s)"
proof (induction qs arbitrary: s)
  case (Cons q qs)
  obtain i ms m where q: "q = (i, ms, m)" by (cases q) auto
  show ?case
    using sends_trans [OF requester_sends Cons.IH] by (simp add: q request_full_message_from_def)
qed simp

lemma process_pending_sends: "sends (routed n) s (process_pending_requests mi s)"
  unfolding process_pending_requests_def by (rule sends_trans [OF _ requests_sends]) simp

lemma adjust_heap_sends: "sends P s (adjust_heap i s)"
  by (simp add: adjust_heap_def)

lemma insert_message_sends:
  assumes "insert_message env i m s = Inr (e, s')"
  shows "sends (routed (co_collector_count s)) s s'"
proof (cases "lru_peek (ce_lru_ref env) (co_lru_ref s) i")
  case None
  let ?s = "s\<lparr>co_lru_ref := lru_touch (ce_lru_ref env) (co_lru_ref s) i\<rparr>"
  have "run_actions env (SimpleWorker (co_retries s)) (unreferenced_rows env ?s i m (co_est_ms s)) ?s = Inr (e, s')"
    using assms None by (simp add: insert_message_def lru_get_def Let_def)
  moreover have "list_all (action_ok (co_collector_count ?s)) (unreferenced_rows env ?s i m (co_est_ms s))"
    unfolding unreferenced_rows_def using payload_rows_ok [of ?s env i m "co_est_ms s" None None] by simp
  ultimately show ?thesis using run_routed [of env _ _ ?s] by fastforce
next
  case (Some meta)
  let ?s = "s\<lparr>co_lru_ref := lru_touch (ce_lru_ref env) (co_lru_ref s) i\<rparr>"
  obtain mi sid where r: "md_referenced_by meta = Some mi" "solidifier_handle ?s mi = Inr sid"
    and run: "run_actions env (AtomicWorker sid mi i (co_retries s)) (Put (Ins_full i m meta) #
      insert_parents env ?s i (msg_parents m) mi (md_inclusion_state meta) @
      payload_rows env ?s i m mi (md_inclusion_state meta) (Some meta)) ?s = Inr (e, s')"
    using assms Some
    by (auto simp: insert_message_def lru_get_def Let_def rbind_Inr_iff simp del: run_actions.simps split: option.splits)
  have "sends (routed (co_collector_count ?s)) ?s s'"
    by (rule run_routed [OF run])
       (use solidifier_handle_owner [OF r(2)] payload_rows_ok [of ?s env i m mi "md_inclusion_state meta" "Some meta"] in simp_all)
  then show ?thesis by simp
qed

lemma insert_metadata_sends:
  "insert_message_metadata env meta s = Inr (e, s') \<Longrightarrow> sends (routed (co_collector_count s)) s s'"
  unfolding insert_message_metadata_def by (erule run_routed) simp_all

lemma insert_full_rows:
  "insert_message_with_metadata env i m meta s = Inr (e, s') \<Longrightarrow> sends (rows_only (co_collector_count s)) s s'"
  by (auto simp: insert_message_with_metadata_def referenced_rows_def rbind_Inr_iff dest!: solidifier_handle_owner
      dest: run_rows)

lemma clean_up_sends:
  "clean_up_wrong_est_msg env i m mi s = Inr (e, s') \<Longrightarrow> sends (rows_only (co_collector_count s)) s s'"
  unfolding clean_up_wrong_est_msg_def by (erule run_rows) (simp_all add: clean_up_ok)

lemmas insert_full_sends = insert_full_rows [THEN sends_routed]

lemma sends_count: "sends P s s' \<Longrightarrow> co_collector_count s' = co_collector_count s"
  by (simp add: sends_def)

lemma clean_up_and_insert_rows:
  assumes "clean_up_and_insert env i m meta wrong s = Inr s'"
  shows "sends (rows_only (co_collector_count s)) s s'"
proof -
  obtain s1 where s1: "(case wrong of None \<Rightarrow> Inr s | Some mi \<Rightarrow> logs (clean_up_wrong_est_msg env i m mi s)) = Inr s1"
    "logs (insert_message_with_metadata env i m meta s1) = Inr s'"
    using assms by (auto simp: clean_up_and_insert_def rbind_Inr_iff)
  have "sends (rows_only (co_collector_count s)) s s1"
    using s1(1) by (auto simp: logs_def rbind_Inr_iff dest: clean_up_sends split: option.splits)
  moreover have "sends (rows_only (co_collector_count s1)) s1 s'"
    using s1(2) by (auto simp: logs_def rbind_Inr_iff dest: insert_full_rows)
  ultimately show ?thesis by (metis sends_count sends_trans)
qed

lemmas clean_up_and_insert_sends = clean_up_and_insert_rows [THEN sends_routed]

lemma close_if_other_sends:
  "close_if_other i a ref s = Inr s' \<Longrightarrow> sends (routed (co_collector_count s)) s s'"
  by (auto simp: close_if_other_def push_close_to_solidifier_def rbind_Inr_iff dest!: solidifier_id_owner
      intro!: tell_routed split: if_splits)

lemma correct_estimate_sends: "correct_estimate env i e ref s = (wrong, s') \<Longrightarrow> sends P s s'"
  by (auto simp: correct_estimate_def split: if_splits)


lemma push_sends:
  assumes "solidifier_id s0 mi = Inr p" and "co_collector_count s0 = n"
  shows "md_referenced_by meta = Some mi \<Longrightarrow> sends (routed n) s (push_fullmsg_to_solidifier p m meta s)"
    and "sends (routed n) s (push_close_to_solidifier p i mi s)"
  using solidifier_id_owner [OF assms(1)] assms(2)
  by (auto simp: push_fullmsg_to_solidifier_def push_close_to_solidifier_def intro!: tell_routed)

lemma sends_tell: "sends P s s1 \<Longrightarrow> P (CoToSolidifier i ev) \<Longrightarrow> sends P s (tell i ev s1)"
  by (erule sends_trans) (simp add: tell_def sends_emit)

lemma sends_request: "sends (routed n) s s1 \<Longrightarrow> sends (routed n) s (send_to_requester ev s1)"
  using requester_sends by (rule sends_trans [rotated])

lemma store_response_rows:
  assumes "store_response env i m meta ref s = Inr s'"
  shows "sends (rows_only (co_collector_count s)) s s'"
proof -
  define s2 where "s2 = s\<lparr>co_lru_msg := lru_touch (ce_lru_msg env) (co_lru_msg s) i\<rparr>"
  obtain wrong s3 where s3: "(case lru_peek (ce_lru_msg env) (co_lru_msg s) i of
      Some e \<Rightarrow> correct_estimate env i e ref s2
    | None \<Rightarrow> (None, s2\<lparr>co_lru_msg := lru_put (ce_lru_msg env) (co_lru_msg s2) i (co_ref_ms s2, m)\<rparr>)) = (wrong, s3)"
    by fastforce
  have fin: "clean_up_and_insert env i m meta wrong (s3\<lparr>co_lru_ref := lru_put (ce_lru_ref env) (co_lru_ref s3) i meta\<rparr>) = Inr s'"
    using assms s3 [unfolded s2_def] by (simp add: store_response_def Let_def lru_get_def)
  have "sends (rows_only (co_collector_count s)) s2 s3"
    using s3 by (auto dest: correct_estimate_sends split: option.splits)
  then have "sends (rows_only (co_collector_count s)) s (s3\<lparr>co_lru_ref := lru_put (ce_lru_ref env) (co_lru_ref s3) i meta\<rparr>)"
    by (simp add: s2_def)
  then show ?thesis using clean_up_and_insert_rows [OF fin] by (metis sends_count sends_trans)
qed

lemmas store_response_sends = store_response_rows [THEN sends_routed]

lemma response_sends:
  assumes "handle_response env r s = Inr s'"
  shows "sends (routed (co_collector_count s)) s s'"
proof (cases r)
  case r: (MessageAndMeta rid try_ms mid fm)
  let ?s = "adjust_heap rid s" and ?n = "co_collector_count s"
  have n: "co_collector_count ?s = ?n" by (simp add: adjust_heap_def)
  show ?thesis
  proof (cases fm)
    case None
    then show ?thesis using assms r n
      by (auto simp: handle_response_def Let_def rbind_Inr_iff send_err_solidify_def dest!: solidifier_handle_owner
          intro!: sends_trans [OF adjust_heap_sends sends_emit])
  next
    case (Some full)
    obtain m meta where full: "full = FullMessage m meta" by (cases full)
    obtain i p ref where f: "mid = Some i" "solidifier_id ?s try_ms = Inr p" "md_referenced_by meta = Some ref"
      using assms r Some full by (auto simp: handle_response_def rbind_Inr_iff Let_def split: option.splits)
    define s1 where "s1 = (if ref = try_ms then push_fullmsg_to_solidifier p m meta ?s
      else push_close_to_solidifier p i try_ms ?s)\<lparr>co_ref_ms := ref\<rparr>"
    have a: "sends (routed ?n) s s1"
      using f(3) solidifier_id_owner [OF f(2)] n
      by (simp add: s1_def push_fullmsg_to_solidifier_def push_close_to_solidifier_def sends_tell [OF adjust_heap_sends])
    have "store_response env i m meta ref s1 = Inr s'"
      using assms r Some full f by (simp add: handle_response_def Let_def s1_def)
    from store_response_sends [OF this] a show ?thesis by (metis sends_count sends_trans)
  qed
qed

lemma message_sends:
  "handle_message env i m s = Inr s' \<Longrightarrow> sends (routed (co_collector_count s)) s s'"
  using insert_message_sends [of env i m "s\<lparr>co_lru_msg := lru_touch (ce_lru_msg env) (co_lru_msg s) i\<rparr>"]
  by (auto simp: handle_message_def Let_def lru_get_def logs_def rbind_Inr_iff split: option.splits)

lemma then_clean_up_sends:
  assumes "sends (routed (co_collector_count s)) s s1"
    and "clean_up_and_insert env i m meta wrong (process_pending_requests ref s1) = Inr s'"
  shows "sends (routed (co_collector_count s)) s s'"
proof -
  have "sends (routed (co_collector_count s)) s (process_pending_requests ref s1)"
    using sends_trans [OF assms(1) process_pending_sends] .
  with clean_up_and_insert_sends [OF assms(2)] show ?thesis by (metis sends_count sends_trans)
qed

lemma referenced_cached_sends:
  assumes "referenced_cached env meta ref p e s = Inr s'" and "md_referenced_by meta = Some ref"
    and "solidifier_id s0 ref = Inr p" and "co_collector_count s0 = co_collector_count s"
  shows "sends (routed (co_collector_count s)) s s'"
proof -
  let ?n = "co_collector_count s" and ?i = "md_message_id meta"
  obtain wrong s1 where c: "correct_estimate env ?i e ref s = (wrong, s1)" by fastforce
  let ?s2 = "push_fullmsg_to_solidifier p (snd e) meta s1"
  have a2: "sends (routed ?n) s ?s2"
    using sends_trans [OF correct_estimate_sends [OF c] push_sends(1) [OF assms(3,4,2)]] .
  obtain s3 where s3: "(case hm_get (co_pending ?s2) ?i of None \<Rightarrow> Inr ?s2
      | Some (asked_by, pm) \<Rightarrow> close_if_other ?i asked_by ref (?s2\<lparr>co_pending := hm_remove ?i (co_pending ?s2)\<rparr>)) = Inr s3"
    "clean_up_and_insert env ?i (snd e) meta wrong (process_pending_requests ref s3) = Inr s'"
    using assms(1) c by (auto simp: referenced_cached_def Let_def rbind_Inr_iff)
  have "sends (routed ?n) ?s2 s3"
    using s3(1) sends_count [OF a2] by (auto dest!: close_if_other_sends split: option.splits)
  then show ?thesis using then_clean_up_sends [OF sends_trans [OF a2] s3(2)] by blast
qed

lemma referenced_uncached_sends:
  assumes "referenced_uncached env meta ref p s = Inr s'" and "md_referenced_by meta = Some ref"
    and "solidifier_id s0 ref = Inr p" and "co_collector_count s0 = co_collector_count s"
  shows "sends (routed (co_collector_count s)) s s'"
proof (cases "hm_get (co_pending s) (md_message_id meta)")
  case None
  then obtain e where "insert_message_metadata env meta (process_pending_requests ref s) = Inr (e, s')"
    using assms(1) by (auto simp: referenced_uncached_def logs_def rbind_Inr_iff)
  from insert_metadata_sends [OF this] process_pending_sends show ?thesis by (metis sends_count sends_trans)
next
  case (Some q)
  let ?i = "md_message_id meta" and ?s = "s\<lparr>co_pending := hm_remove (md_message_id meta) (co_pending s)\<rparr>"
  obtain a pm where q: "q = (a, pm)" by fastforce
  obtain s1 where s1: "(if a = ref then Inr (push_fullmsg_to_solidifier p pm meta ?s) else close_if_other ?i a ref ?s) = Inr s1"
    "clean_up_and_insert env ?i pm meta None (process_pending_requests ref s1) = Inr s'"
    using assms(1) Some q by (auto simp: referenced_uncached_def Let_def rbind_Inr_iff)
  have "sends (routed (co_collector_count s)) ?s s1"
  proof (cases "a = ref")
    case True
    then show ?thesis using s1(1) push_sends(1) [OF assms(3,4,2), of ?s pm] by simp
  next
    case False
    then show ?thesis using s1(1) close_if_other_sends [of ?i a ref ?s s1] by simp
  qed
  then show ?thesis using then_clean_up_sends [OF _ s1(2)] by simp
qed

lemma referenced_sends:
  assumes "handle_referenced env meta s = Inr s'"
  shows "sends (routed (co_collector_count s)) s s'"
proof (cases "md_referenced_by meta")
  case (Some ref)
  obtain p where p: "solidifier_id s ref = Inr p"
    using assms Some by (auto simp: handle_referenced_def rbind_Inr_iff)
  obtain s1 where "sends (routed (co_collector_count s)) s s1" "co_collector_count s1 = co_collector_count s"
    "s1 = s' \<or> (\<exists>e. referenced_cached env meta ref p e s1 = Inr s') \<or> referenced_uncached env meta ref p s1 = Inr s'"
  proof -
    let ?s1 = "(if co_est_ms s < ref + 1 then s\<lparr>co_ref_ms := ref, co_est_ms := ref + 1\<rparr> else s\<lparr>co_ref_ms := ref\<rparr>)
      \<lparr>co_lru_ref := lru_touch (ce_lru_ref env) (co_lru_ref s) (md_message_id meta)\<rparr>"
    let ?s2 = "?s1\<lparr>co_lru_ref := lru_put (ce_lru_ref env) (co_lru_ref ?s1) (md_message_id meta) meta,
      co_lru_msg := lru_touch (ce_lru_msg env) (co_lru_msg s) (md_message_id meta)\<rparr>"
    have f: "sends P s ?s1" "sends P s ?s2" for P by simp_all
    have r: "?s1 = s' \<or> (\<exists>e. referenced_cached env meta ref p e ?s2 = Inr s') \<or> referenced_uncached env meta ref p ?s2 = Inr s'"
      using assms Some p
      by (auto simp: handle_referenced_def Let_def lru_get_def split: option.splits if_splits)
    show thesis
      using r f that [of ?s1] that [of ?s2] sends_count [OF f(1)] sends_count [OF f(2)] by blast
  qed
  then show ?thesis
    using referenced_cached_sends [OF _ Some p] referenced_uncached_sends [OF _ Some p] sends_trans by metis
qed (use assms in \<open>simp add: handle_referenced_def\<close>)

lemma full_insert_sends:
  "logs (insert_message_with_metadata env i m meta s1) = Inr s' \<Longrightarrow> sends (routed n) s s1 \<Longrightarrow> co_collector_count s = n
     \<Longrightarrow> sends (routed n) s s'"
  by (auto simp: logs_def rbind_Inr_iff sends_count dest!: insert_full_sends elim: sends_trans)

lemma ask_sends:
  assumes "handle_ask_message env sid try_ms i by s = Inr s'" and "sid = owner (co_collector_count s) try_ms"
  shows "sends (routed (co_collector_count s)) s s'"
  using assms
  by (auto simp: handle_ask_message_def Let_def lru_get_def request_full_message_from_def rbind_Inr_iff
      push_close_to_solidifier_def push_fullmsg_to_solidifier_def
      dest!: solidifier_id_owner intro!: sends_tell sends_request elim!: full_insert_sends
      split: option.splits if_splits prod.splits)

fun event_addressed :: "u8 \<Rightarrow> collector_event \<Rightarrow> bool" where
  "event_addressed n (CoAsk a) = (case a of AskFullMessage sid mi i by \<Rightarrow> sid = owner n mi | AskMilestoneMessage mi \<Rightarrow> True)"
| "event_addressed n ev = True"

lemma shutdown_sends: "sends (routed n) s (co_emit (map (\<lambda>h. AbortRequester (rh_id h)) hs) (s\<lparr>co_requesters := []\<rparr>))"
  by (rule sends_trans [OF _ sends_emit]) (simp_all add: list_all_iff)

lemma event_sends:
  "handle_collector_event env ev s = Inr s' \<Longrightarrow> event_addressed (co_collector_count s) ev
     \<Longrightarrow> sends (routed (co_collector_count s)) s s'"
  by (auto simp: handle_collector_event_def request_milestone_from_def requester_sends shutdown_sends
      dest: response_sends message_sends referenced_sends ask_sends split: collector_event.splits ask_collector.splits)

lemma loop_sends:
  "collector_loop env evs s = Inr s' \<Longrightarrow> list_all (event_addressed (co_collector_count s)) evs
     \<Longrightarrow> sends (routed (co_collector_count s)) s s'"
proof (induction evs arbitrary: s)
  case (Cons ev evs)
  then obtain s1 where s1: "handle_collector_event env ev s = Inr s1" "collector_loop env evs s1 = Inr s'"
    by (auto simp: rbind_Inr_iff)
  then have a: "sends (routed (co_collector_count s)) s s1" using Cons.prems event_sends by fastforce
  then show ?case using Cons.IH [OF s1(2)] Cons.prems(2) sends_count [OF a] sends_trans by fastforce
qed simp

text \<open>
  C22. Whatever events a collector handles, everything it sends to a solidifier goes to the owner of
  the milestone it is about: full messages to the owner of the milestone that references them,
  closed and failed requests to the owner of the milestone that asked, milestones to their owner,
  and a row written with a report names the owner of the referencing milestone.
\<close>

theorem collector_routes_to_owner:
  assumes "collector_loop env evs (new_collector c d p n reqs sols retries pc) = Inr s"
    and "list_all (event_addressed n) evs"
  shows "list_all (routed n) (co_out s)"
proof -
  have "sends (routed n) (new_collector c d p n reqs sols retries pc) s"
    using loop_sends [OF assms(1)] assms(2) by (simp add: new_collector_def)
  then show ?thesis by (auto simp: sends_def new_collector_def)
qed

theorem collector_routes_to_owner_witness:
  "case collector_loop plain_env [CoMessage 9 indexed_message, CoReferenced (metadata_at 5 9), CoAsk (AskFullMessage 1 5 9 Incoming)]
     two_collectors of Inl e \<Rightarrow> False | Inr s \<Rightarrow> list_all (routed 2) (co_out s)"
proof -
  let ?evs = "[CoMessage 9 indexed_message, CoReferenced (metadata_at 5 9), CoAsk (AskFullMessage 1 5 9 Incoming)]"
  have "\<not> isl (collector_loop plain_env ?evs two_collectors)" by code_simp
  then obtain s where s: "collector_loop plain_env ?evs two_collectors = Inr s" using isl_cases by blast
  have "list_all (routed 2) (co_out s)"
    by (rule collector_routes_to_owner [OF s [unfolded two_collectors_def]]) (simp add: owner_def)
  with s show ?thesis by (simp del: collector_loop.simps)
qed

section \<open>Requests are answered\<close>

text \<open>
  C23. A response of a requester that does not panic the collector gives the solidifier that asked
  one answer: the message when it is referenced by the milestone that asked, its close when it is
  referenced by another, and the failure of the milestone when nothing was found. All else the
  response makes the collector send are rows and milestones.
\<close>

theorem response_answers_once:
  assumes "handle_response env (MessageAndMeta rid mi mid fm) s = Inr s'"
    and "owner (co_collector_count s) mi \<in> set (co_solidifiers s)"
  shows "\<exists>os. co_out s' = co_out s @ os \<and>
    filter answer os = [CoToSolidifier (owner (co_collector_count s) mi)
      (case fm of None \<Rightarrow> SoSolidify (Inl mi)
       | Some full \<Rightarrow> (if fm_ref_ms full = Some mi then SoMessage full else SoClose (the mid) mi))]"
proof (cases fm)
  case None
  then show ?thesis using assms
    by (auto simp: handle_response_def Let_def rbind_Inr_iff send_err_solidify_def co_emit_def adjust_heap_def
        dest!: solidifier_handle_owner)
next
  case (Some full)
  let ?s = "adjust_heap rid s"
  obtain m meta where full: "full = FullMessage m meta" by (cases full)
  obtain i p ref where f: "mid = Some i" "solidifier_id ?s mi = Inr p" "md_referenced_by meta = Some ref"
    using assms Some full by (auto simp: handle_response_def rbind_Inr_iff Let_def split: option.splits)
  have p: "p = owner (co_collector_count s) mi" using solidifier_id_owner [OF f(2)] by (simp add: adjust_heap_def)
  define s1 where "s1 = (if ref = mi then push_fullmsg_to_solidifier p m meta ?s
    else push_close_to_solidifier p i mi ?s)\<lparr>co_ref_ms := ref\<rparr>"
  have s1: "co_out s1 = co_out s @ [CoToSolidifier p (if ref = mi then SoMessage full else SoClose i mi)]"
    using assms(2) p full
    by (simp add: s1_def push_fullmsg_to_solidifier_def push_close_to_solidifier_def tell_def co_emit_def adjust_heap_def)
  have "store_response env i m meta ref s1 = Inr s'"
    using assms Some full f by (simp add: handle_response_def Let_def s1_def)
  from store_response_rows [OF this]
  obtain os where os: "co_out s' = co_out s1 @ os" "list_all (rows_only (co_collector_count s1)) os"
    by (auto simp: sends_def)
  have "filter answer os = []"
    using os(2) by (simp add: filter_empty_conv list_all_iff rows_only_def)
  then show ?thesis
    using os(1) s1 p Some full f(1,3) by simp
qed

theorem response_answers_once_witness:
  "\<exists>s' os. handle_response plain_env (MessageAndMeta 0 4 (Some 9) (Some (FullMessage indexed_message (metadata_at 5 9)))) two_collectors
      = Inr s' \<and> co_out s' = co_out two_collectors @ os \<and>
    filter answer os = [CoToSolidifier (owner (co_collector_count two_collectors) 4) (SoClose 9 4)]"
proof -
  have "\<not> isl (handle_response plain_env
    (MessageAndMeta 0 4 (Some 9) (Some (FullMessage indexed_message (metadata_at 5 9)))) two_collectors)"
    by code_simp
  then obtain s' where "handle_response plain_env
    (MessageAndMeta 0 4 (Some 9) (Some (FullMessage indexed_message (metadata_at 5 9)))) two_collectors = Inr s'"
    using isl_cases by blast
  moreover have "owner (co_collector_count two_collectors) 4 \<in> set (co_solidifiers two_collectors)"
    by (simp add: plain_defs owner_def)
  ultimately show ?thesis
    using response_answers_once [of plain_env 0 4 "Some 9" "Some (FullMessage indexed_message (metadata_at 5 9))" two_collectors s']
    by (simp add: metadata_at_def)
qed

text \<open>
  A solidifier that asks again for a message that is pending for the same milestone gets its
  request closed although the message stays pending for it: the branch meant for a request of a
  later milestone is also taken for an equal one.
\<close>

lemma repeated_ask_is_closed:
  assumes "lru_peek (ce_lru_msg env) (co_lru_msg s) i = Some (est, m)"
    and "lru_peek (ce_lru_ref env) (co_lru_ref s) i = None"
    and "co_est_ms s \<noteq> 0" and "co_est_ms s - 1 \<le> mi"
    and "hm_get (co_pending s) i = Some (mi, pm)"
    and "co_collector_count s \<noteq> 0" and "owner (co_collector_count s) mi \<in> set (co_solidifiers s)"
  shows "\<exists>s'. handle_ask_message env sid mi i by s = Inr s' \<and>
    co_out s' = co_out s @ [CoToSolidifier (owner (co_collector_count s) mi) (SoClose i mi)] \<and>
    hm_get (co_pending s') i = Some (mi, pm)"
  using assms
  by (simp add: handle_ask_message_def Let_def lru_get_def solidifier_id_def owner_def push_close_to_solidifier_def
      tell_def co_emit_def)

end
