(* ===== verification/Selects.thy ===== *)
theory Selects
  imports Storage_Rows
begin

text \<open>
  Reading the database: the statement and bound values of every \<^verbatim>\<open>Select\<close>, the row readers
  (\<^verbatim>\<open>Row::try_decode_row\<close>) and the decoders of whole responses (\<^verbatim>\<open>RowsDecoder\<close>) of
  \<^verbatim>\<open>chronicle-storage/src/access/select.rs\<close>.

  What the driver does with the wire format is third-party: a row that a select reads is the list of
  the stored values of the columns that it names, a null being a missing value, and a reader that
  asks for another type fails. A response is the rows of a page, already read, with the state for the
  next page, or something that is not rows.
\<close>

section \<open>Statements\<close>

datatype cond =
    Is string
  | AtMost string
  | AtLeast string
  | Below string
  | OneOf string "string list"
  | IsText string string

record cql_select =
  cs_table :: string
  cs_columns :: "string list"
  cs_where :: "cond list"
  cs_values :: "cql_value list"

definition select_message :: "message_id \<Rightarrow> cql_select" where
  "select_message i = \<lparr>cs_table = ''messages'', cs_columns = [''message''], cs_where = [Is ''message_id''], cs_values = [VHex i]\<rparr>"

definition select_metadata :: "message_id \<Rightarrow> cql_select" where
  "select_metadata i = \<lparr>cs_table = ''messages'', cs_columns = [''metadata''], cs_where = [Is ''message_id''], cs_values = [VHex i]\<rparr>"

definition select_both :: "message_id \<Rightarrow> cql_select" where
  "select_both i =
     \<lparr>cs_table = ''messages'', cs_columns = [''message'', ''metadata''], cs_where = [Is ''message_id''], cs_values = [VHex i]\<rparr>"

definition select_full :: "message_id \<Rightarrow> cql_select" where
  "select_full i =
     \<lparr>cs_table = ''messages'', cs_columns = [''message'', ''metadata''], cs_where = [Is ''message_id''], cs_values = [VHex i]\<rparr>"

definition select_parents :: "message_id partitioned \<Rightarrow> cql_select" where
  "select_parents k =
     \<lparr>cs_table = ''parents'', cs_columns = [''partition_id'', ''milestone_index'', ''message_id'', ''inclusion_state''],
      cs_where = [Is ''parent_id'', Is ''partition_id'', AtMost ''milestone_index''],
      cs_values = [VHex (pd_inner k), V16 (pt_id (pd_partition k)), V32 (pt_milestone_index (pd_partition k))]\<rparr>"

definition select_indexes :: "string partitioned \<Rightarrow> cql_select" where
  "select_indexes k =
     \<lparr>cs_table = ''indexes'', cs_columns = [''partition_id'', ''milestone_index'', ''message_id'', ''inclusion_state''],
      cs_where = [Is ''indexation'', Is ''partition_id'', AtMost ''milestone_index''],
      cs_values = [VText (pd_inner k), V16 (pt_id (pd_partition k)), V32 (pt_milestone_index (pd_partition k))]\<rparr>"

definition select_addresses :: "ed25519_address partitioned \<Rightarrow> cql_select" where
  "select_addresses k =
     \<lparr>cs_table = ''addresses'',
      cs_columns = [''partition_id'', ''milestone_index'', ''output_type'', ''transaction_id'', ''idx'', ''amount'', ''inclusion_state''],
      cs_where = [Is ''address'', Is ''partition_id'', AtMost ''milestone_index''],
      cs_values = [VHex (pd_inner k), V16 (pt_id (pd_partition k)), V32 (pt_milestone_index (pd_partition k))]\<rparr>"

definition select_output :: "output_id \<Rightarrow> cql_select" where
  "select_output k =
     \<lparr>cs_table = ''transactions'', cs_columns = [''message_id'', ''data'', ''inclusion_state''],
      cs_where = [Is ''transaction_id'', Is ''idx'', OneOf ''variant'' [''output'', ''unlock'']],
      cs_values = [VHex (oi_transaction_id k), V16 (oi_index k)]\<rparr>"

definition select_transaction :: "transaction_id \<Rightarrow> cql_select" where
  "select_transaction t =
     \<lparr>cs_table = ''transactions'', cs_columns = [''message_id'', ''data'', ''idx'', ''inclusion_state'', ''milestone_index''],
      cs_where = [Is ''transaction_id''], cs_values = [VHex t]\<rparr>"

definition select_included_message :: "transaction_id \<Rightarrow> cql_select" where
  "select_included_message t =
     \<lparr>cs_table = ''transactions'', cs_columns = [''message_id''],
      cs_where = [Is ''transaction_id'', Is ''inclusion_state'', IsText ''variant'' ''input''],
      cs_values = [VHex t, VInclusion (Some Included)]\<rparr>"

definition select_milestone :: "u32 \<Rightarrow> cql_select" where
  "select_milestone mi =
     \<lparr>cs_table = ''milestones'', cs_columns = [''message_id'', ''timestamp''], cs_where = [Is ''milestone_index''], cs_values = [V32 mi]\<rparr>"

definition select_hints :: "hint \<Rightarrow> cql_select" where
  "select_hints h =
     \<lparr>cs_table = ''hints'', cs_columns = [''milestone_index'', ''partition_id''], cs_where = [Is ''hint'', Is ''variant''],
      cs_values = [VText (hint_text h), VText (hint_variant_string (hint_variant h))]\<rparr>"

definition select_sync :: "sync_range \<Rightarrow> cql_select" where
  "select_sync r =
     \<lparr>cs_table = ''sync'', cs_columns = [''milestone_index'', ''synced_by'', ''logged_by''],
      cs_where = [Is ''key'', AtLeast ''milestone_index'', Below ''milestone_index''],
      cs_values = [VText ''permanode'', V32 (sr_from r), V32 (sr_to r)]\<rparr>"

definition select_analytics :: "sync_range \<Rightarrow> cql_select" where
  "select_analytics r =
     \<lparr>cs_table = ''analytics'', cs_columns = [''milestone_index'', ''message_count'', ''transaction_count'', ''transferred_tokens''],
      cs_where = [Is ''key'', AtLeast ''milestone_index'', Below ''milestone_index''],
      cs_values = [VText ''permanode'', V32 (sr_from r), V32 (sr_to r)]\<rparr>"

text \<open>The \<^verbatim>\<open>Select<K, V>\<close> instances of \<^verbatim>\<open>ChronicleKeyspace\<close>, with their keys.\<close>

datatype db_select =
    Sel_message message_id
  | Sel_metadata message_id
  | Sel_both message_id
  | Sel_full message_id
  | Sel_parents "message_id partitioned"
  | Sel_indexes "string partitioned"
  | Sel_addresses "ed25519_address partitioned"
  | Sel_output output_id
  | Sel_transaction transaction_id
  | Sel_included_message transaction_id
  | Sel_milestone u32
  | Sel_hints hint
  | Sel_sync sync_range
  | Sel_analytics sync_range

fun select_stmt :: "db_select \<Rightarrow> cql_select" where
  "select_stmt (Sel_message i) = select_message i"
| "select_stmt (Sel_metadata i) = select_metadata i"
| "select_stmt (Sel_both i) = select_both i"
| "select_stmt (Sel_full i) = select_full i"
| "select_stmt (Sel_parents k) = select_parents k"
| "select_stmt (Sel_indexes k) = select_indexes k"
| "select_stmt (Sel_addresses k) = select_addresses k"
| "select_stmt (Sel_output k) = select_output k"
| "select_stmt (Sel_transaction t) = select_transaction t"
| "select_stmt (Sel_included_message t) = select_included_message t"
| "select_stmt (Sel_milestone mi) = select_milestone mi"
| "select_stmt (Sel_hints h) = select_hints h"
| "select_stmt (Sel_sync r) = select_sync r"
| "select_stmt (Sel_analytics r) = select_analytics r"

section \<open>The server\<close>

text \<open>
  The database server is not part of the program: what a row has in a column after an insert, and
  whether a condition of a \<^verbatim>\<open>WHERE\<close> clause holds of a column (and of the value bound to the marker of the
  condition, if it has one), is a parameter.
\<close>

record cql_server =
  sv_column :: "cql_insert \<Rightarrow> string \<Rightarrow> cql_value option"
  sv_test :: "cond \<Rightarrow> cql_value option \<Rightarrow> cql_value option \<Rightarrow> bool"

text \<open>The stored form of a bound value: nothing for a null.\<close>

fun stored :: "cql_value \<Rightarrow> cql_value option" where
  "stored (VOpt8 x) = map_option V8 x"
| "stored (VOpt32 x) = map_option V32 x"
| "stored (VInclusion st) = map_option (\<lambda>s. VInclusion (Some s)) st"
| "stored v = Some v"

definition stored_column :: "cql_insert \<Rightarrow> string \<Rightarrow> cql_value option" where
  "stored_column st c = Option.bind (bound st c) stored"

text \<open>
  What CQL documents: an accepted insert leaves the bound values in the columns it names; \<^verbatim>\<open>=\<close> and \<^verbatim>\<open>IN\<close>
  compare for equality; and the inequalities compare the values of an \<^verbatim>\<open>int\<close> column, such as every
  \<^verbatim>\<open>milestone_index\<close> of the schema, as signed numbers.
\<close>

definition cql_documented :: "cql_server \<Rightarrow> bool" where
  "cql_documented srv \<longleftrightarrow>
     (\<forall>st c. well_formed_insert st \<longrightarrow> sv_column srv st c = stored_column st c) \<and>
     (\<forall>c x v. sv_test srv (Is c) x (Some v) \<longleftrightarrow> x = Some v) \<and>
     (\<forall>c ts x. sv_test srv (OneOf c ts) x None \<longleftrightarrow> (\<exists>t\<in>set ts. x = Some (VText t))) \<and>
     (\<forall>c t x. sv_test srv (IsText c t) x None \<longleftrightarrow> x = Some (VText t)) \<and>
     (\<forall>c x y. sv_test srv (AtMost c) (Some (V32 x)) (Some (V32 y)) \<longleftrightarrow> sint x \<le> sint y) \<and>
     (\<forall>c x y. sv_test srv (AtLeast c) (Some (V32 x)) (Some (V32 y)) \<longleftrightarrow> sint y \<le> sint x) \<and>
     (\<forall>c x y. sv_test srv (Below c) (Some (V32 x)) (Some (V32 y)) \<longleftrightarrow> sint x < sint y)"

text \<open>The conditions with a marker take the bound values in order.\<close>

fun holds :: "cql_server \<Rightarrow> (string \<Rightarrow> cql_value option) \<Rightarrow> cond list \<Rightarrow> cql_value list \<Rightarrow> bool" where
  "holds srv col [] vs \<longleftrightarrow> vs = []"
| "holds srv col (Is c # cs) (v # vs) \<longleftrightarrow> sv_test srv (Is c) (col c) (Some v) \<and> holds srv col cs vs"
| "holds srv col (AtMost c # cs) (v # vs) \<longleftrightarrow> sv_test srv (AtMost c) (col c) (Some v) \<and> holds srv col cs vs"
| "holds srv col (AtLeast c # cs) (v # vs) \<longleftrightarrow> sv_test srv (AtLeast c) (col c) (Some v) \<and> holds srv col cs vs"
| "holds srv col (Below c # cs) (v # vs) \<longleftrightarrow> sv_test srv (Below c) (col c) (Some v) \<and> holds srv col cs vs"
| "holds srv col (OneOf c ts # cs) vs \<longleftrightarrow> sv_test srv (OneOf c ts) (col c) None \<and> holds srv col cs vs"
| "holds srv col (IsText c t # cs) vs \<longleftrightarrow> sv_test srv (IsText c t) (col c) None \<and> holds srv col cs vs"
| "holds srv col cs vs \<longleftrightarrow> False"

text \<open>A select finds the row of an insert when the tables agree and the conditions hold.\<close>

definition selects :: "cql_server \<Rightarrow> cql_select \<Rightarrow> cql_insert \<Rightarrow> bool" where
  "selects srv sel st \<longleftrightarrow> cs_table sel = ci_table st \<and> holds srv (sv_column srv st) (cs_where sel) (cs_values sel)"

type_synonym columns = "cql_value option list"

section \<open>Row readers\<close>

text \<open>\<^verbatim>\<open>column_value::<T>()\<close> and \<^verbatim>\<open>column_value::<Option<T>>()\<close> take the next column.\<close>

definition col :: "(cql_value \<Rightarrow> 'a option) \<Rightarrow> columns \<Rightarrow> ('a \<times> columns) result" where
  "col as cs = (case cs of
     Some v # cs \<Rightarrow> (case as v of Some x \<Rightarrow> Inr (x, cs) | None \<Rightarrow> Inl (Failed ''type''))
   | _ \<Rightarrow> Inl (Failed ''column''))"

definition col_opt :: "(cql_value \<Rightarrow> 'a option) \<Rightarrow> columns \<Rightarrow> ('a option \<times> columns) result" where
  "col_opt as cs = (case cs of
     [] \<Rightarrow> Inl (Failed ''column'')
   | None # cs \<Rightarrow> Inr (None, cs)
   | Some v # cs \<Rightarrow> (case as v of Some x \<Rightarrow> Inr (Some x, cs) | None \<Rightarrow> Inl (Failed ''type'')))"

fun as_hex where "as_hex (VHex x) = Some x" | "as_hex v = None"
fun as_u8 where "as_u8 (V8 x) = Some x" | "as_u8 v = None"
fun as_u16 where "as_u16 (V16 x) = Some x" | "as_u16 v = None"
fun as_u32 where "as_u32 (V32 x) = Some x" | "as_u32 v = None"
fun as_u64 where "as_u64 (V64 x) = Some x" | "as_u64 v = None"
fun as_message where "as_message (VMessage x) = Some x" | "as_message v = None"
fun as_metadata where "as_metadata (VMetadata x) = Some x" | "as_metadata v = None"
fun as_data where "as_data (VData x) = Some x" | "as_data v = None"
fun as_inclusion where "as_inclusion (VInclusion x) = x" | "as_inclusion v = None"

definition read_message :: "columns \<Rightarrow> message option result" where
  "read_message cs = rbind (col_opt as_message cs) (\<lambda>(m, cs). Inr m)"

definition read_metadata :: "columns \<Rightarrow> message_metadata option result" where
  "read_metadata cs = rbind (col_opt as_metadata cs) (\<lambda>(m, cs). Inr m)"

definition read_both :: "columns \<Rightarrow> (message option \<times> message_metadata option) result" where
  "read_both cs = rbind (col_opt as_message cs) (\<lambda>(m, cs). rbind (col_opt as_metadata cs) (\<lambda>(meta, cs). Inr (m, meta)))"

definition read_message_id :: "columns \<Rightarrow> message_id option result" where
  "read_message_id cs = rbind (col_opt as_hex cs) (\<lambda>(i, cs). Inr i)"

definition read_output_row :: "columns \<Rightarrow> (message_id \<times> transaction_data \<times> ledger_inclusion_state option) result" where
  "read_output_row cs =
     rbind (col as_hex cs) (\<lambda>(i, cs). rbind (col as_data cs) (\<lambda>(d, cs). rbind (col_opt as_inclusion cs) (\<lambda>(st, cs).
     Inr (i, d, st))))"

type_synonym transaction_row = "message_id \<times> transaction_data \<times> u16 \<times> ledger_inclusion_state option \<times> u32 option"

definition read_transaction_row :: "columns \<Rightarrow> transaction_row result" where
  "read_transaction_row cs =
     rbind (col as_hex cs) (\<lambda>(i, cs). rbind (col as_data cs) (\<lambda>(d, cs). rbind (col as_u16 cs) (\<lambda>(k, cs).
     rbind (col_opt as_inclusion cs) (\<lambda>(st, cs). rbind (col_opt as_u32 cs) (\<lambda>(mi, cs). Inr (i, d, k, st, mi))))))"

definition read_milestone_row :: "columns \<Rightarrow> (message_id \<times> u64) result" where
  "read_milestone_row cs = rbind (col as_hex cs) (\<lambda>(i, cs). rbind (col as_u64 cs) (\<lambda>(t, cs). Inr (i, t)))"

definition read_hint_row :: "columns \<Rightarrow> (u32 \<times> u16) result" where
  "read_hint_row cs = rbind (col as_u32 cs) (\<lambda>(mi, cs). rbind (col as_u16 cs) (\<lambda>(p, cs). Inr (mi, p)))"

type_synonym partitioned_row = "u16 \<times> u32 \<times> message_id \<times> ledger_inclusion_state option"

definition read_partitioned_row :: "columns \<Rightarrow> partitioned_row result" where
  "read_partitioned_row cs =
     rbind (col as_u16 cs) (\<lambda>(p, cs). rbind (col as_u32 cs) (\<lambda>(mi, cs). rbind (col as_hex cs) (\<lambda>(i, cs).
     rbind (col_opt as_inclusion cs) (\<lambda>(st, cs). Inr (p, mi, i, st)))))"

type_synonym address_row = "u16 \<times> u32 \<times> u8 \<times> transaction_id \<times> u16 \<times> u64 \<times> ledger_inclusion_state option"

definition read_address_row :: "columns \<Rightarrow> address_row result" where
  "read_address_row cs =
     rbind (col as_u16 cs) (\<lambda>(p, cs). rbind (col as_u32 cs) (\<lambda>(mi, cs). rbind (col as_u8 cs) (\<lambda>(ty, cs).
     rbind (col as_hex cs) (\<lambda>(t, cs). rbind (col as_u16 cs) (\<lambda>(k, cs). rbind (col as_u64 cs) (\<lambda>(v, cs).
     rbind (col_opt as_inclusion cs) (\<lambda>(st, cs). Inr (p, mi, ty, t, k, v, st))))))))"

definition read_sync_row :: "columns \<Rightarrow> sync_record result" where
  "read_sync_row cs =
     rbind (col as_u32 cs) (\<lambda>(mi, cs). rbind (col_opt as_u8 cs) (\<lambda>(s, cs). rbind (col_opt as_u8 cs) (\<lambda>(l, cs).
     Inr \<lparr>milestone_index = mi, synced_by = s, logged_by = l\<rparr>)))"

definition read_analytic_row :: "columns \<Rightarrow> analytic_record result" where
  "read_analytic_row cs =
     rbind (col as_u32 cs) (\<lambda>(mi, cs). rbind (col as_u32 cs) (\<lambda>(m, cs). rbind (col as_u32 cs) (\<lambda>(t, cs).
     rbind (col as_u64 cs) (\<lambda>(v, cs).
     Inr \<lparr>ar_milestone_index = mi, ar_message_count = m, ar_transaction_count = t, ar_transferred_tokens = v\<rparr>))))"

section \<open>Decoders\<close>

datatype 'r response = RowsResponse "'r list" "u8 list option" | NotRows

text \<open>\<^verbatim>\<open>ensure!(decoder.is_rows()?)\<close>.\<close>

definition with_rows :: "'r response \<Rightarrow> ('r list \<Rightarrow> u8 list option \<Rightarrow> 'a) \<Rightarrow> 'a result" where
  "with_rows r f = (case r of RowsResponse rows st \<Rightarrow> Inr (f rows st) | NotRows \<Rightarrow> Inl (Failed ''Decoded response is not rows!''))"

definition first_row :: "'r list \<Rightarrow> 'r option" where
  "first_row rows = (case rows of [] \<Rightarrow> None | r # _ \<Rightarrow> Some r)"

definition decode_message :: "message option response \<Rightarrow> message option result" where
  "decode_message r = with_rows r (\<lambda>rows st. Option.bind (first_row rows) id)"

definition decode_metadata :: "message_metadata option response \<Rightarrow> message_metadata option result" where
  "decode_metadata r = with_rows r (\<lambda>rows st. Option.bind (first_row rows) id)"

definition decode_both ::
  "(message option \<times> message_metadata option) response \<Rightarrow> (message option \<times> message_metadata option) option result" where
  "decode_both r = with_rows r (\<lambda>rows st. first_row rows)"

definition decode_full :: "(message option \<times> message_metadata option) response \<Rightarrow> full_message option result" where
  "decode_full r = with_rows r (\<lambda>rows st.
     case first_row rows of Some (Some m, Some meta) \<Rightarrow> Some (FullMessage m meta) | _ \<Rightarrow> None)"

definition decode_parents :: "partitioned_row response \<Rightarrow> (parent_record partitioned list \<times> u8 list option) result" where
  "decode_parents r = with_rows r (\<lambda>rows st.
     (map (\<lambda>(p, mi, i, s). new_partitioned \<lparr>pr_message_id = i, pr_inclusion_state = s\<rparr> p mi) rows, st))"

definition decode_indexes :: "partitioned_row response \<Rightarrow> (indexation_record partitioned list \<times> u8 list option) result" where
  "decode_indexes r = with_rows r (\<lambda>rows st.
     (map (\<lambda>(p, mi, i, s). new_partitioned \<lparr>ir_message_id = i, ir_inclusion_state = s\<rparr> p mi) rows, st))"

text \<open>
  The addresses of a page: one record per output. A later row replaces the record of its output as
  long as that one has no inclusion state; rows whose index \<^verbatim>\<open>OutputId::new\<close> refuses are dropped.
\<close>

definition address_entry :: "address_row \<Rightarrow> address_record partitioned" where
  "address_entry row = (case row of (p, mi, ty, t, k, v, st) \<Rightarrow>
     new_partitioned \<lparr>ad_output_type = ty, ad_transaction_id = t, ad_index = k, ad_amount = v, ad_inclusion_state = st\<rparr> p mi)"

definition address_step ::
  "(u16 \<Rightarrow> bool) \<Rightarrow> address_row \<Rightarrow> (output_id, nat) hmap \<times> address_record partitioned list
     \<Rightarrow> (output_id, nat) hmap \<times> address_record partitioned list" where
  "address_step index_ok row acc =
     (case acc of (m, values) \<Rightarrow> case row of (p, mi, ty, t, k, v, st) \<Rightarrow>
        if index_ok k then
          (case hm_get m \<lparr>oi_transaction_id = t, oi_index = k\<rparr> of
             Some j \<Rightarrow>
               (if j < length values \<and> ad_inclusion_state (pd_inner (values ! j)) = None
                then (m, values[j := address_entry row]) else (m, values))
           | None \<Rightarrow> (hm_insert \<lparr>oi_transaction_id = t, oi_index = k\<rparr> (length values) m, values @ [address_entry row]))
        else (m, values))"

definition decode_addresses ::
  "(u16 \<Rightarrow> bool) \<Rightarrow> address_row response \<Rightarrow> (address_record partitioned list \<times> u8 list option) result" where
  "decode_addresses index_ok r = with_rows r (\<lambda>rows st. (snd (fold (address_step index_ok) rows ([], [])), st))"

record unlock_res =
  ur_message_id :: message_id
  ur_block :: unlock_block
  ur_inclusion_state :: "ledger_inclusion_state option"

record output_res =
  or_message_id :: message_id
  or_output :: output_t
  or_unlock_blocks :: "unlock_res list"

type_synonym output_row = "message_id \<times> transaction_data \<times> ledger_inclusion_state option"

fun output_step :: "output_row \<Rightarrow> (message_id \<times> output_t) option \<times> unlock_res list \<Rightarrow> (message_id \<times> output_t) option \<times> unlock_res list" where
  "output_step (i, TOutput d, st) (out, us) = (Some (i, d), us)"
| "output_step (i, TUnlock u, st) (out, us) =
     (out, us @ [\<lparr>ur_message_id = i, ur_block = ud_unlock_block u, ur_inclusion_state = st\<rparr>])"
| "output_step (i, TInput d, st) (out, us) = (out, us)"

definition decode_output :: "output_row response \<Rightarrow> output_res option result" where
  "decode_output r = with_rows r (\<lambda>rows st.
     case fold output_step rows (None, []) of
       (Some (i, d), us) \<Rightarrow> Some \<lparr>or_message_id = i, or_output = d, or_unlock_blocks = us\<rparr>
     | (None, us) \<Rightarrow> None)"

record transaction_res =
  xr_message_id :: message_id
  xr_milestone_index :: "u32 option"
  xr_outputs :: "(output_t \<times> unlock_res option) list"
  xr_inputs :: "input_data list"
  xr_inclusion_state :: "ledger_inclusion_state option"

text \<open>The variables of the loop over the rows of a transaction; the maps are ordered by index.\<close>

record transaction_acc =
  ta_outputs :: "(u16, output_t) hmap"
  ta_unlocks :: "(u16, unlock_res) hmap"
  ta_inputs :: "(u16, input_data) hmap"
  ta_metadata :: "(message_id \<times> u32 option) option"
  ta_inclusion_state :: "ledger_inclusion_state option"

fun transaction_step :: "transaction_row \<Rightarrow> transaction_acc \<Rightarrow> transaction_acc" where
  "transaction_step (i, TOutput d, k, st, mi) a =
     a\<lparr>ta_outputs := hm_insert k d (ta_outputs a),
       ta_metadata := (case ta_metadata a of None \<Rightarrow> Some (i, mi) | m \<Rightarrow> m), ta_inclusion_state := st\<rparr>"
| "transaction_step (i, TUnlock u, k, st, mi) a =
     a\<lparr>ta_unlocks := hm_insert k \<lparr>ur_message_id = i, ur_block = ud_unlock_block u, ur_inclusion_state = st\<rparr> (ta_unlocks a)\<rparr>"
| "transaction_step (i, TInput d, k, st, mi) a = a\<lparr>ta_inputs := hm_insert k d (ta_inputs a)\<rparr>"

text \<open>The entries of a \<^verbatim>\<open>BTreeMap\<close> in its order.\<close>

definition ordered :: "(u16, 'v) hmap \<Rightarrow> (u16 \<times> 'v) list" where
  "ordered m = sort_key fst m"

definition decode_transaction :: "transaction_row response \<Rightarrow> transaction_res option result" where
  "decode_transaction r = with_rows r (\<lambda>rows st.
     let a = fold transaction_step rows
           \<lparr>ta_outputs = [], ta_unlocks = [], ta_inputs = [], ta_metadata = None, ta_inclusion_state = None\<rparr>
     in case ta_metadata a of
          None \<Rightarrow> None
        | Some (i, mi) \<Rightarrow> Some
            \<lparr>xr_message_id = i, xr_milestone_index = mi,
             xr_outputs = map (\<lambda>(k, d). (d, hm_get (ta_unlocks a) k)) (ordered (ta_outputs a)),
             xr_inputs = map snd (ordered (ta_inputs a)), xr_inclusion_state = ta_inclusion_state a\<rparr>)"

definition decode_included_message :: "message_id option response \<Rightarrow> message_id option result" where
  "decode_included_message r = with_rows r (\<lambda>rows st. Option.bind (first_row rows) id)"

definition decode_milestone :: "(message_id \<times> u64) response \<Rightarrow> (message_id \<times> u64) option result" where
  "decode_milestone r = with_rows r (\<lambda>rows st. first_row rows)"

definition decode_hints :: "(u32 \<times> u16) response \<Rightarrow> (u32 \<times> u16) list result" where
  "decode_hints r = with_rows r (\<lambda>rows st. rows)"

section \<open>Reading back what was written\<close>

text \<open>What the reader of a select makes of a row.\<close>

datatype db_answer =
    A_message "message option"
  | A_metadata "message_metadata option"
  | A_both "message option \<times> message_metadata option"
  | A_partitioned partitioned_row
  | A_address address_row
  | A_output output_row
  | A_transaction transaction_row
  | A_message_id "message_id option"
  | A_milestone "message_id \<times> u64"
  | A_hint "u32 \<times> u16"
  | A_sync sync_record
  | A_analytic analytic_record

definition read_row :: "db_select \<Rightarrow> columns \<Rightarrow> db_answer result" where
  "read_row sel cs =
     (case sel of
        Sel_message i \<Rightarrow> map_sum id A_message (read_message cs)
      | Sel_metadata i \<Rightarrow> map_sum id A_metadata (read_metadata cs)
      | Sel_both i \<Rightarrow> map_sum id A_both (read_both cs)
      | Sel_full i \<Rightarrow> map_sum id A_both (read_both cs)
      | Sel_parents k \<Rightarrow> map_sum id A_partitioned (read_partitioned_row cs)
      | Sel_indexes k \<Rightarrow> map_sum id A_partitioned (read_partitioned_row cs)
      | Sel_addresses k \<Rightarrow> map_sum id A_address (read_address_row cs)
      | Sel_output k \<Rightarrow> map_sum id A_output (read_output_row cs)
      | Sel_transaction t \<Rightarrow> map_sum id A_transaction (read_transaction_row cs)
      | Sel_included_message t \<Rightarrow> map_sum id A_message_id (read_message_id cs)
      | Sel_milestone mi \<Rightarrow> map_sum id A_milestone (read_milestone_row cs)
      | Sel_hints h \<Rightarrow> map_sum id A_hint (read_hint_row cs)
      | Sel_sync r \<Rightarrow> map_sum id A_sync (read_sync_row cs)
      | Sel_analytics r \<Rightarrow> map_sum id A_analytic (read_analytic_row cs))"

text \<open>The row of an insert, as the reader of a select gives it back when the select finds it.\<close>

definition query :: "cql_server \<Rightarrow> db_select \<Rightarrow> cql_insert \<Rightarrow> db_answer result option" where
  "query srv sel st =
     (if selects srv (select_stmt sel) st
      then Some (read_row sel (map (sv_column srv st) (cs_columns (select_stmt sel)))) else None)"

text \<open>What is to be found: the key is the one inserted under, and the milestone is in the range, as signed numbers.\<close>

definition up_to :: "'k partitioned \<Rightarrow> 'k partitioned \<Rightarrow> bool" where
  "up_to k k' \<longleftrightarrow> pd_inner k' = pd_inner k \<and> pt_id (pd_partition k') = pt_id (pd_partition k) \<and>
     sint (pt_milestone_index (pd_partition k')) \<le> sint (pt_milestone_index (pd_partition k))"

definition in_signed_range :: "sync_range \<Rightarrow> u32 \<Rightarrow> bool" where
  "in_signed_range r mi \<longleftrightarrow> sint (sr_from r) \<le> sint mi \<and> sint mi < sint (sr_to r)"

fun message_fields :: "db_insert \<Rightarrow> (message_id \<times> message option \<times> message_metadata option) option" where
  "message_fields (Ins_message i m) = Some (i, Some m, None)"
| "message_fields (Ins_metadata i meta) = Some (i, None, Some meta)"
| "message_fields (Ins_full i m meta) = Some (i, Some m, Some meta)"
| "message_fields ins = None"

definition found :: "bool \<Rightarrow> 'a \<Rightarrow> 'a option" where
  "found b x = (if b then Some x else None)"

fun answer :: "db_select \<Rightarrow> db_insert \<Rightarrow> db_answer option" where
  "answer (Sel_message i) ins = (case message_fields ins of
     Some (j, m, meta) \<Rightarrow> found (j = i) (A_message m) | None \<Rightarrow> None)"
| "answer (Sel_metadata i) ins = (case message_fields ins of
     Some (j, m, meta) \<Rightarrow> found (j = i) (A_metadata meta) | None \<Rightarrow> None)"
| "answer (Sel_both i) ins = (case message_fields ins of
     Some (j, m, meta) \<Rightarrow> found (j = i) (A_both (m, meta)) | None \<Rightarrow> None)"
| "answer (Sel_full i) ins = (case message_fields ins of
     Some (j, m, meta) \<Rightarrow> found (j = i) (A_both (m, meta)) | None \<Rightarrow> None)"
| "answer (Sel_parents k) ins = (case ins of
     Ins_parent k' r \<Rightarrow> found (up_to k k')
       (A_partitioned (pt_id (pd_partition k'), pt_milestone_index (pd_partition k'), pr_message_id r, pr_inclusion_state r))
   | _ \<Rightarrow> None)"
| "answer (Sel_indexes k) ins = (case ins of
     Ins_index k' r \<Rightarrow> found (up_to k k')
       (A_partitioned (pt_id (pd_partition k'), pt_milestone_index (pd_partition k'), ir_message_id r, ir_inclusion_state r))
   | _ \<Rightarrow> None)"
| "answer (Sel_addresses k) ins = (case ins of
     Ins_address k' r \<Rightarrow> found (up_to k k')
       (A_address (pt_id (pd_partition k'), pt_milestone_index (pd_partition k'), ad_output_type r, ad_transaction_id r,
          ad_index r, ad_amount r, ad_inclusion_state r))
   | _ \<Rightarrow> None)"
| "answer (Sel_output k) ins = (case ins of
     Ins_transaction t n r \<Rightarrow> found (t = oi_transaction_id k \<and> n = oi_index k \<and> (tr_variant r = VOutput \<or> tr_variant r = VUnlock))
       (A_output (tr_message_id r, tr_data r, tr_inclusion_state r))
   | _ \<Rightarrow> None)"
| "answer (Sel_transaction t) ins = (case ins of
     Ins_transaction t' n r \<Rightarrow> found (t' = t)
       (A_transaction (tr_message_id r, tr_data r, n, tr_inclusion_state r, tr_milestone_index r))
   | _ \<Rightarrow> None)"
| "answer (Sel_included_message t) ins = (case ins of
     Ins_transaction t' n r \<Rightarrow> found (t' = t \<and> tr_variant r = VInput \<and> tr_inclusion_state r = Some Included)
       (A_message_id (Some (tr_message_id r)))
   | _ \<Rightarrow> None)"
| "answer (Sel_milestone mi) ins = (case ins of
     Ins_milestone mi' i p \<Rightarrow> found (mi' = mi) (A_milestone (i, mp_timestamp p)) | _ \<Rightarrow> None)"
| "answer (Sel_hints h) ins = (case ins of
     Ins_hint h' p \<Rightarrow> found (h' = h) (A_hint (pt_milestone_index p, pt_id p)) | _ \<Rightarrow> None)"
| "answer (Sel_sync rng) ins = (case ins of
     Ins_sync r \<Rightarrow> found (in_signed_range rng (milestone_index r)) (A_sync r) | _ \<Rightarrow> None)"
| "answer (Sel_analytics rng) ins = (case ins of
     Ins_analytic r \<Rightarrow> found (in_signed_range rng (ar_milestone_index r)) (A_analytic r) | _ \<Rightarrow> None)"

lemmas select_defs =
  select_message_def select_metadata_def select_both_def select_full_def select_parents_def select_indexes_def
  select_addresses_def select_output_def select_transaction_def select_included_message_def select_milestone_def
  select_hints_def select_sync_def select_analytics_def

lemmas read_defs =
  read_message_def read_metadata_def read_both_def read_message_id_def read_output_row_def read_transaction_row_def
  read_milestone_row_def read_hint_row_def read_partitioned_row_def read_address_row_def read_sync_row_def
  read_analytic_row_def

lemma col_Cons [simp]:
  "col f (Some v # cs) = (case f v of Some x \<Rightarrow> Inr (x, cs) | None \<Rightarrow> Inl (Failed ''type''))"
  "col_opt f (None # cs) = Inr (None, cs)"
  "col_opt f (Some v # cs) = (case f v of Some x \<Rightarrow> Inr (Some x, cs) | None \<Rightarrow> Inl (Failed ''type''))"
  by (simp_all add: col_def col_opt_def)

lemma col_opt_null [simp]:
  "col_opt as_inclusion (map_option (\<lambda>s. VInclusion (Some s)) st # cs) = Inr (st, cs)"
  "col_opt as_u8 (map_option V8 a # cs) = Inr (a, cs)"
  "col_opt as_u32 (map_option V32 b # cs) = Inr (b, cs)"
  by ((cases st; simp), (cases a; simp), (cases b; simp))

lemma variant_text [simp]:
  "variant_string v = ''output'' \<longleftrightarrow> v = VOutput" "variant_string v = ''unlock'' \<longleftrightarrow> v = VUnlock"
  "variant_string v = ''input'' \<longleftrightarrow> v = VInput"
  by (cases v; simp)+

lemma hint_eq: "h' = (h :: hint) \<longleftrightarrow> hint_text h' = hint_text h \<and> hint_variant_string (hint_variant h') = hint_variant_string (hint_variant h)"
  by (cases h; cases h'; cases "hint_variant h"; cases "hint_variant h'") auto

text \<open>With a server that does as documented the columns and the conditions of a query are these.\<close>

lemma query_stored:
  assumes "cql_documented srv" and "well_formed_insert st"
  shows "query srv sel st =
    (if cs_table (select_stmt sel) = ci_table st \<and> holds srv (stored_column st) (cs_where (select_stmt sel)) (cs_values (select_stmt sel))
     then Some (read_row sel (map (stored_column st) (cs_columns (select_stmt sel)))) else None)"
proof -
  have "sv_column srv st = stored_column st" using assms by (auto simp: cql_documented_def)
  then show ?thesis by (simp add: query_def selects_def)
qed

lemma tests:
  assumes "cql_documented srv"
  shows "sv_test srv (Is c) x (Some v) \<longleftrightarrow> x = Some v"
    and "sv_test srv (OneOf c ts) x None \<longleftrightarrow> (\<exists>t\<in>set ts. x = Some (VText t))"
    and "sv_test srv (IsText c t) x None \<longleftrightarrow> x = Some (VText t)"
    and "sv_test srv (AtMost c) (Some (V32 m)) (Some (V32 n)) \<longleftrightarrow> sint m \<le> sint n"
    and "sv_test srv (AtLeast c) (Some (V32 m)) (Some (V32 n)) \<longleftrightarrow> sint n \<le> sint m"
    and "sv_test srv (Below c) (Some (V32 m)) (Some (V32 n)) \<longleftrightarrow> sint m < sint n"
  using assms by (simp_all add: cql_documented_def)

lemmas query_simps = stored_column_def bound_def select_defs read_row_def read_defs insert_stmt_defs found_def
  transaction_columns_def

text \<open>A row is found only in its own table.\<close>

fun insert_table :: "db_insert \<Rightarrow> string" where
  "insert_table (Ins_message i m) = ''messages''"
| "insert_table (Ins_metadata i meta) = ''messages''"
| "insert_table (Ins_full i m meta) = ''messages''"
| "insert_table (Ins_address k r) = ''addresses''"
| "insert_table (Ins_index k r) = ''indexes''"
| "insert_table (Ins_parent k r) = ''parents''"
| "insert_table (Ins_transaction t n r) = ''transactions''"
| "insert_table (Ins_output k r) = ''transactions''"
| "insert_table (Ins_hint h p) = ''hints''"
| "insert_table (Ins_milestone mi i p) = ''milestones''"
| "insert_table (Ins_sync r) = ''sync''"
| "insert_table (Ins_analytic r) = ''analytics''"

lemma insert_stmt_table: "insert_stmt kind ins = Inr st \<Longrightarrow> ci_table st = insert_table ins"
  by (cases ins) (auto simp: insert_stmt_defs split: transaction_data.splits)

lemma select_stmt_table:
  "cs_table (select_stmt sel) =
     (case sel of Sel_message i \<Rightarrow> ''messages'' | Sel_metadata i \<Rightarrow> ''messages'' | Sel_both i \<Rightarrow> ''messages''
      | Sel_full i \<Rightarrow> ''messages'' | Sel_parents k \<Rightarrow> ''parents'' | Sel_indexes k \<Rightarrow> ''indexes''
      | Sel_addresses k \<Rightarrow> ''addresses'' | Sel_output k \<Rightarrow> ''transactions'' | Sel_transaction t \<Rightarrow> ''transactions''
      | Sel_included_message t \<Rightarrow> ''transactions'' | Sel_milestone mi \<Rightarrow> ''milestones'' | Sel_hints h \<Rightarrow> ''hints''
      | Sel_sync r \<Rightarrow> ''sync'' | Sel_analytics r \<Rightarrow> ''analytics'')"
  by (cases sel) (simp_all add: select_defs)

lemma answer_table: "cs_table (select_stmt sel) \<noteq> insert_table ins \<Longrightarrow> answer sel ins = None"
  unfolding select_stmt_table by (cases ins; cases sel) simp_all

lemma query_own_table:
  assumes srv: "cql_documented srv"
  shows "well_formed_insert (insert_message_stmt i m) \<Longrightarrow> cs_table (select_stmt sel) = ''messages'' \<Longrightarrow>
      query srv sel (insert_message_stmt i m) = map_option Inr (answer sel (Ins_message i m))"
    and "well_formed_insert (insert_metadata_stmt i meta) \<Longrightarrow> cs_table (select_stmt sel) = ''messages'' \<Longrightarrow>
      query srv sel (insert_metadata_stmt i meta) = map_option Inr (answer sel (Ins_metadata i meta))"
    and "well_formed_insert (insert_full_stmt i m meta) \<Longrightarrow> cs_table (select_stmt sel) = ''messages'' \<Longrightarrow>
      query srv sel (insert_full_stmt i m meta) = map_option Inr (answer sel (Ins_full i m meta))"
    and "well_formed_insert (insert_address_stmt kind ka ra) \<Longrightarrow> cs_table (select_stmt sel) = ''addresses'' \<Longrightarrow>
      query srv sel (insert_address_stmt kind ka ra) = map_option Inr (answer sel (Ins_address ka ra))"
    and "well_formed_insert (insert_index_stmt kx rx) \<Longrightarrow> cs_table (select_stmt sel) = ''indexes'' \<Longrightarrow>
      query srv sel (insert_index_stmt kx rx) = map_option Inr (answer sel (Ins_index kx rx))"
    and "well_formed_insert (insert_parent_stmt kp rp) \<Longrightarrow> cs_table (select_stmt sel) = ''parents'' \<Longrightarrow>
      query srv sel (insert_parent_stmt kp rp) = map_option Inr (answer sel (Ins_parent kp rp))"
    and "well_formed_insert (insert_transaction_stmt t n rt) \<Longrightarrow> cs_table (select_stmt sel) = ''transactions'' \<Longrightarrow>
      query srv sel (insert_transaction_stmt t n rt) = map_option Inr (answer sel (Ins_transaction t n rt))"
    and "well_formed_insert (insert_hint_stmt h p) \<Longrightarrow> cs_table (select_stmt sel) = ''hints'' \<Longrightarrow>
      query srv sel (insert_hint_stmt h p) = map_option Inr (answer sel (Ins_hint h p))"
    and "well_formed_insert (insert_milestone_stmt mi i mp) \<Longrightarrow> cs_table (select_stmt sel) = ''milestones'' \<Longrightarrow>
      query srv sel (insert_milestone_stmt mi i mp) = map_option Inr (answer sel (Ins_milestone mi i mp))"
    and "well_formed_insert (insert_sync_stmt rs) \<Longrightarrow> cs_table (select_stmt sel) = ''sync'' \<Longrightarrow>
      query srv sel (insert_sync_stmt rs) = map_option Inr (answer sel (Ins_sync rs))"
    and "well_formed_insert (insert_analytic_stmt rn) \<Longrightarrow> cs_table (select_stmt sel) = ''analytics'' \<Longrightarrow>
      query srv sel (insert_analytic_stmt rn) = map_option Inr (answer sel (Ins_analytic rn))"
  by (subst query_stored [OF srv], assumption,
      (cases sel; simp add: select_stmt_table query_simps tests [OF srv] up_to_def in_signed_range_def hint_eq))+

lemma insert_accepted:
  "\<not> is_output ins \<Longrightarrow> insert_stmt kind ins = Inr st \<Longrightarrow> well_formed_insert st"
proof -
  have "case insert_stmt kind ins of Inl e \<Rightarrow> False | Inr st \<Rightarrow> well_formed_insert st" if "\<not> is_output ins"
    using that by (cases ins) (simp_all add: insert_stmt_defs well_formed_insert_def schema_def primary_key_def transaction_columns_def)
  then show "\<not> is_output ins \<Longrightarrow> insert_stmt kind ins = Inr st \<Longrightarrow> ?thesis" by simp
qed

lemma output_refused: "insert_output_stmt k r = Inr st \<Longrightarrow> \<not> well_formed_insert st"
  by (cases "tr_data r") (auto simp: insert_output_stmt_def well_formed_insert_def transaction_columns_def split: option.splits)

lemma query_answer:
  assumes srv: "cql_documented srv" and st: "insert_stmt kind ins = Inr st" and wf: "well_formed_insert st"
  shows "query srv sel st = map_option Inr (answer sel ins)"
proof (cases "cs_table (select_stmt sel) = insert_table ins")
  case False
  then show ?thesis
    using answer_table [OF False] insert_stmt_table [OF st] by (simp add: query_stored [OF srv wf])
next
  case True
  then show ?thesis
    using st wf output_refused query_own_table [OF srv] by (cases ins) auto
qed

text \<open>
  C26. With a server that behaves as CQL documents, every row that the tables accept is found by
  exactly the selects meant for it, those for the key it was inserted under and with a milestone bound or range
  that, as signed numbers, includes its milestone; and the reader of the select gives back what was
  inserted. Transaction rows are found as output or unlock by output id, and as the message of an included
  transaction only when they are an input that is included. The one insert that yields no such row
  is the one keyed by an output id, which panics or is refused.
\<close>

theorem rows_read_back:
  assumes "cql_documented srv"
  shows "case insert_stmt kind ins of
      Inl e \<Rightarrow> is_output ins \<and> e = Panic
    | Inr st \<Rightarrow> (if well_formed_insert st then query srv sel st = map_option Inr (answer sel ins) else is_output ins)"
proof (cases "insert_stmt kind ins")
  case (Inl e)
  then show ?thesis by (cases ins) (auto simp: insert_output_stmt_def split: transaction_data.splits)
next
  case (Inr st)
  then show ?thesis using query_answer [OF assms Inr, of sel] insert_accepted [OF _ Inr] by auto
qed

definition plain_server :: cql_server where
  "plain_server = \<lparr>sv_column = stored_column,
     sv_test = (\<lambda>c x v. case c of
        Is n \<Rightarrow> v \<noteq> None \<and> x = v
      | OneOf n ts \<Rightarrow> list_ex (\<lambda>t. x = Some (VText t)) ts
      | IsText n t \<Rightarrow> x = Some (VText t)
      | AtMost n \<Rightarrow> (case (x, v) of (Some (V32 a), Some (V32 b)) \<Rightarrow> sint a \<le> sint b | _ \<Rightarrow> False)
      | AtLeast n \<Rightarrow> (case (x, v) of (Some (V32 a), Some (V32 b)) \<Rightarrow> sint b \<le> sint a | _ \<Rightarrow> False)
      | Below n \<Rightarrow> (case (x, v) of (Some (V32 a), Some (V32 b)) \<Rightarrow> sint a < sint b | _ \<Rightarrow> False))\<rparr>"

lemma plain_server_documented: "cql_documented plain_server"
  by (auto simp: cql_documented_def plain_server_def list_ex_iff)

lemma rows_read_back_witness:
  "query plain_server (Sel_sync \<lparr>sr_from = 5, sr_to = 9\<rparr>)
     (insert_sync_stmt \<lparr>milestone_index = 7, synced_by = Some 1, logged_by = None\<rparr>) =
     Some (Inr (A_sync \<lparr>milestone_index = 7, synced_by = Some 1, logged_by = None\<rparr>))"
proof -
  let ?r = "\<lparr>milestone_index = 7, synced_by = Some 1, logged_by = None\<rparr>"
  have "well_formed_insert (insert_sync_stmt ?r)" by code_simp
  moreover have "answer (Sel_sync \<lparr>sr_from = 5, sr_to = 9\<rparr>) (Ins_sync ?r) = Some (A_sync ?r)" by code_simp
  ultimately show ?thesis
    using rows_read_back [OF plain_server_documented, where ins = "Ins_sync ?r" and sel = "Sel_sync \<lparr>sr_from = 5, sr_to = 9\<rparr>"]
    by simp
qed

text \<open>
  For milestones below 2 ^ 31 the signed order is that of the indices. A bound of 2 ^ 31 or more is
  negative for the server: such a range finds no milestone at all, although the program takes any
  \<^verbatim>\<open>u32\<close> for the end of a sync range.
\<close>

lemma sint_small: "x < 2 ^ 31 \<Longrightarrow> sint (x :: u32) = uint x"
proof -
  have "- (2 ^ 31) \<le> uint x" by (rule order_trans [OF _ uint_ge_0]) simp
  then show "x < 2 ^ 31 \<Longrightarrow> ?thesis"
    using signed_take_bit_int_eq_self [of 31 "uint x"] by (simp add: sint_uint word_less_def)
qed

lemma sint_big: "2 ^ 31 \<le> x \<Longrightarrow> sint (x :: u32) < 0"
proof -
  assume "2 ^ 31 \<le> x"
  then have "2 ^ 31 \<le> uint x" "uint x < 2 ^ 32" using uint_lt2p [of x] by (simp_all add: word_le_def)
  then have "(uint x + 2 ^ 31) mod 2 ^ 32 = uint x - 2 ^ 31"
    using mod_add_self2 [of "uint x - 2 ^ 31" "2 ^ 32"] by (simp add: mod_pos_pos_trivial add.commute)
  then have "take_bit 32 (uint x + 2 ^ 31) = uint x - 2 ^ 31" by (simp only: take_bit_eq_mod)
  then show ?thesis using \<open>uint x < 2 ^ 32\<close> by (simp add: sint_uint signed_take_bit_eq_take_bit_shift)
qed

lemma signed_range_small:
  assumes "sr_from r < 2 ^ 31" and "sr_to r < 2 ^ 31" and "mi < 2 ^ 31"
  shows "in_signed_range r mi \<longleftrightarrow> sr_from r \<le> mi \<and> mi < sr_to r"
  using assms by (simp add: in_signed_range_def sint_small word_le_def word_less_def)

lemma large_end_finds_nothing: "sr_from r < 2 ^ 31 \<Longrightarrow> 2 ^ 31 \<le> sr_to r \<Longrightarrow> \<not> in_signed_range r mi"
  using sint_big [of "sr_to r"] sint_small [of "sr_from r"]
  by (metis in_signed_range_def leD less_trans order_le_less_trans uint_ge_0)

section \<open>Addresses\<close>

fun row_output :: "address_row \<Rightarrow> output_id" where
  "row_output (p, mi, ty, t, k, v, st) = \<lparr>oi_transaction_id = t, oi_index = k\<rparr>"

fun row_state :: "address_row \<Rightarrow> ledger_inclusion_state option" where
  "row_state (p, mi, ty, t, k, v, st) = st"

text \<open>What an output's rows amount to: the first with an inclusion state, or else the last.\<close>

definition best_row :: "address_row list \<Rightarrow> address_row" where
  "best_row rows = (case find (\<lambda>r. row_state r \<noteq> None) rows of Some r \<Rightarrow> r | None \<Rightarrow> last rows)"

text \<open>The outputs in the order of their first rows.\<close>

definition first_seen :: "'a list \<Rightarrow> 'a list" where
  "first_seen xs = rev (remdups (rev xs))"

definition addresses_of :: "address_row list \<Rightarrow> address_record partitioned list" where
  "addresses_of rows = map (\<lambda>out. address_entry (best_row (filter (\<lambda>r. row_output r = out) rows))) (first_seen (map row_output rows))"

lemma first_seen_snoc: "first_seen (xs @ [x]) = (if x \<in> set xs then first_seen xs else first_seen xs @ [x])"
  by (simp add: first_seen_def)

lemma first_seen_set [simp]: "set (first_seen xs) = set xs" "distinct (first_seen xs)"
  by (simp_all add: first_seen_def)

lemma find_snoc: "find P (xs @ [x]) = (case find P xs of Some y \<Rightarrow> Some y | None \<Rightarrow> if P x then Some x else None)"
  by (induction xs) auto

lemma find_holds: "find P xs = Some y \<Longrightarrow> P y"
  by (auto simp: find_Some_iff)

lemma best_row_snoc:
  "rows \<noteq> [] \<Longrightarrow> best_row (rows @ [r]) = (if row_state (best_row rows) = None then r else best_row rows)"
proof (cases "find (\<lambda>r. row_state r \<noteq> None) rows")
  case None
  moreover assume "rows \<noteq> []"
  ultimately have "row_state (last rows) = None" using last_in_set [of rows] unfolding find_None_iff by blast
  then show ?thesis using None by (simp add: best_row_def find_snoc)
next
  case (Some y)
  then show ?thesis using find_holds [OF Some] by (auto simp: best_row_def find_snoc)
qed

lemma entry_state [simp]: "ad_inclusion_state (pd_inner (address_entry r)) = row_state r"
  by (cases r) (simp add: address_entry_def new_partitioned_def)

definition pos :: "'a list \<Rightarrow> 'a \<Rightarrow> nat" where
  "pos xs x = length (takeWhile (\<lambda>y. y \<noteq> x) xs)"

lemma pos_less: "x \<in> set xs \<Longrightarrow> pos xs x < length xs"
  by (induction xs) (auto simp: pos_def)

lemma nth_pos: "x \<in> set xs \<Longrightarrow> xs ! pos xs x = x"
  using nth_length_takeWhile [of "\<lambda>y. y \<noteq> x" xs] pos_less [of x xs] by (auto simp: pos_def)

lemma pos_snoc: "pos (xs @ [y]) x = (if x \<in> set xs then pos xs x else if y = x then length xs else Suc (length xs))"
  by (auto simp: pos_def takeWhile_append)

lemma map_at_pos:
  "distinct xs \<Longrightarrow> x \<in> set xs \<Longrightarrow> (\<And>y. y \<noteq> x \<Longrightarrow> g y = f y) \<Longrightarrow> map g xs = (map f xs)[pos xs x := g x]"
proof (induction xs)
  case (Cons y ys)
  show ?case
  proof (cases "x = y")
    case True
    then have "\<forall>z\<in>set ys. g z = f z" using Cons.prems by (metis distinct.simps(2))
    then show ?thesis using True by (simp add: pos_def)
  qed (use Cons in \<open>auto simp: pos_def\<close>)
qed simp

text \<open>The accumulator after some rows: the positions of the outputs seen, and their records.\<close>

definition address_inv :: "address_row list \<Rightarrow> (output_id, nat) hmap \<times> address_record partitioned list \<Rightarrow> bool" where
  "address_inv rows acc \<longleftrightarrow> snd acc = addresses_of rows \<and>
     (\<forall>out. hm_get (fst acc) out =
        (let outs = first_seen (map row_output rows) in if out \<in> set outs then Some (pos outs out) else None))"

definition index_valid :: "(u16 \<Rightarrow> bool) \<Rightarrow> address_row \<Rightarrow> bool" where
  "index_valid index_ok r \<longleftrightarrow> index_ok (oi_index (row_output r))"

lemma addresses_snoc_new:
  "row_output r \<notin> set (map row_output rows) \<Longrightarrow> addresses_of (rows @ [r]) = addresses_of rows @ [address_entry r]"
proof -
  assume new: "row_output r \<notin> set (map row_output rows)"
  then have e: "filter (\<lambda>x. row_output x = row_output r) rows = []"
    unfolding filter_empty_conv by (metis imageI list.set_map)
  have b: "best_row [r] = r" by (simp add: best_row_def)
  have "map (\<lambda>out. address_entry (best_row (filter (\<lambda>x. row_output x = out) (rows @ [r])))) (first_seen (map row_output rows))
      = addresses_of rows"
    unfolding addresses_of_def by (rule map_cong [OF refl]) (use new in \<open>force simp del: split_paired_All split_paired_Ex\<close>)
  then show ?thesis
    using new e by (simp add: addresses_of_def first_seen_snoc b)
qed

lemma addresses_snoc_old:
  assumes "row_output r \<in> set (map row_output rows)"
  defines "j \<equiv> pos (first_seen (map row_output rows)) (row_output r)"
  shows "j < length (addresses_of rows)"
    and "addresses_of (rows @ [r]) =
      (if ad_inclusion_state (pd_inner (addresses_of rows ! j)) = None then (addresses_of rows)[j := address_entry r]
       else addresses_of rows)"
proof -
  let ?outs = "first_seen (map row_output rows)"
  let ?f = "\<lambda>rows out. address_entry (best_row (filter (\<lambda>x. row_output x = out) rows))"
  have j: "j < length ?outs" "?outs ! j = row_output r"
    using pos_less nth_pos assms(1) unfolding j_def by (metis first_seen_set(1))+
  then show "j < length (addresses_of rows)" by (simp add: addresses_of_def)
  have old: "addresses_of rows ! j = ?f rows (row_output r)" using j by (simp add: addresses_of_def)
  have ne: "filter (\<lambda>x. row_output x = row_output r) rows \<noteq> []" using assms(1) unfolding filter_empty_conv by force
  have "addresses_of (rows @ [r]) = map (?f (rows @ [r])) ?outs"
    using assms(1) by (simp add: addresses_of_def first_seen_snoc)
  also have "\<dots> = (map (?f rows) ?outs)[j := ?f (rows @ [r]) (row_output r)]"
    unfolding j_def by (rule map_at_pos) (use assms(1) in auto)
  finally have new: "addresses_of (rows @ [r]) = (addresses_of rows)[j := ?f (rows @ [r]) (row_output r)]"
    by (simp add: addresses_of_def)
  have "?f (rows @ [r]) (row_output r) = (if ad_inclusion_state (pd_inner (addresses_of rows ! j)) = None
      then address_entry r else addresses_of rows ! j)"
    using best_row_snoc [OF ne] old by simp
  then show "addresses_of (rows @ [r]) =
      (if ad_inclusion_state (pd_inner (addresses_of rows ! j)) = None then (addresses_of rows)[j := address_entry r]
       else addresses_of rows)"
    using new by simp
qed

lemma address_step_eq:
  "address_step ok r (m, vals) =
     (if index_valid ok r then
        (case hm_get m (row_output r) of
           Some j \<Rightarrow>
             (if j < length vals \<and> ad_inclusion_state (pd_inner (vals ! j)) = None then (m, vals[j := address_entry r])
              else (m, vals))
         | None \<Rightarrow> (hm_insert (row_output r) (length vals) m, vals @ [address_entry r]))
      else (m, vals))"
  by (cases r) (simp add: address_step_def index_valid_def split: option.splits)

lemma address_inv_step:
  assumes "address_inv rows acc" and "index_valid ok r"
  shows "address_inv (rows @ [r]) (address_step ok r acc)"
proof -
  obtain m vals where acc: "acc = (m, vals)" by fastforce
  let ?outs = "first_seen (map row_output rows)"
  have inv: "vals = addresses_of rows" "\<And>out. hm_get m out = (if out \<in> set ?outs then Some (pos ?outs out) else None)"
    using assms(1) by (simp_all add: address_inv_def acc Let_def)
  have len: "length (addresses_of rows) = length ?outs" by (simp add: addresses_of_def)
  show ?thesis
  proof (cases "row_output r \<in> set (map row_output rows)")
    case True
    then have step: "address_step ok r acc = (m, addresses_of (rows @ [r]))"
      using addresses_snoc_old [OF True] inv assms(2) by (simp add: address_step_eq acc)
    show ?thesis using True inv(2) by (simp add: step address_inv_def Let_def first_seen_snoc)
  next
    case False
    then have "address_step ok r acc = (hm_insert (row_output r) (length ?outs) m, addresses_of (rows @ [r]))"
      using addresses_snoc_new [OF False] inv assms(2) len by (simp add: address_step_eq acc)
    then show ?thesis using False inv(2) by (auto simp: address_inv_def Let_def first_seen_snoc pos_snoc)
  qed
qed

lemma fold_address_inv: "address_inv (filter (index_valid ok) rows) (fold (address_step ok) rows ([], []))"
proof (induction rows rule: rev_induct)
  case Nil
  show ?case by (simp add: address_inv_def addresses_of_def first_seen_def)
next
  case (snoc r rows)
  show ?case
  proof (cases "index_valid ok r")
    case True
    then show ?thesis using address_inv_step [OF snoc.IH] by simp
  next
    case False
    then have "address_step ok r acc = acc" for acc
      by (cases acc) (simp add: address_step_eq)
    then show ?thesis using snoc.IH False by simp
  qed
qed

text \<open>
  C27. A page of address rows decodes to one record per output, in the order of their first rows: the
  first row with an inclusion state, or else the last one. Rows with an index that no output can have
  do not count.
\<close>

theorem addresses_decoded:
  "decode_addresses ok (RowsResponse rows st) = Inr (addresses_of (filter (index_valid ok) rows), st)"
  using fold_address_inv [of ok rows] by (simp add: decode_addresses_def with_rows_def address_inv_def)

end
