(* ===== verification/Transaction_Rows.thy ===== *)
theory Transaction_Rows
  imports Collector Selects "HOL-Library.Multiset"
begin

text \<open>
  The rows that a collector writes for a transaction, as the API reads them back: the composition of
  \<^verbatim>\<open>insert_transaction\<close> with the \<^verbatim>\<open>transactions\<close> table and the decoder of \<^verbatim>\<open>TransactionRes\<close>.
\<close>

section \<open>The rows of a transaction in the database\<close>

text \<open>
  The rows of the transaction among what was persisted: those in the \<^verbatim>\<open>transactions\<close> table whose partition key
  is its id, as the select of a transaction reads them.
\<close>

definition transaction_row_of :: "transaction_id \<Rightarrow> db_insert \<Rightarrow> transaction_row list" where
  "transaction_row_of t ins =
     (case insert_stmt 0 ins of
        Inl e \<Rightarrow> []
      | Inr st \<Rightarrow>
          (if ci_table st = cs_table (select_transaction t) \<and> partition_key_values st = [Some (VHex t)]
           then (case read_transaction_row (map (stored_column st) (cs_columns (select_transaction t))) of Inl e \<Rightarrow> [] | Inr row \<Rightarrow> [row])
           else []))"

definition persisted_rows :: "transaction_id \<Rightarrow> collector_out list \<Rightarrow> transaction_row list" where
  "persisted_rows t os = concat (map (\<lambda>out. case out of Persist w ins \<Rightarrow> transaction_row_of t ins | _ \<Rightarrow> []) os)"

lemma persisted_rows_simps [simp]:
  "persisted_rows t [] = []" "persisted_rows t (os @ os') = persisted_rows t os @ persisted_rows t os'"
  "persisted_rows t (Persist w ins # os) = transaction_row_of t ins @ persisted_rows t os"
  "persisted_rows t (CoToSolidifier sid ev # os) = persisted_rows t os"
  "persisted_rows t (Erase k d # os) = persisted_rows t os"
  by (simp_all add: persisted_rows_def)

lemma transaction_row_of_simps [simp]:
  "transaction_row_of t (Ins_transaction t' k r) =
     (if t' = t then [(tr_message_id r, tr_data r, k, tr_inclusion_state r, tr_milestone_index r)] else [])"
  "transaction_row_of t (Ins_address a ar) = []"
  "transaction_row_of t (Ins_hint h p) = []"
  by (simp_all add: transaction_row_of_def query_simps partition_key_values_def schema_def)

text \<open>These are the rows that the select finds on a server that behaves as documented.\<close>

lemma transaction_row_queried:
  assumes "cql_documented srv" and "\<not> is_output ins"
  shows "transaction_row_of t ins =
    (case insert_stmt 0 ins of Inl e \<Rightarrow> []
     | Inr st \<Rightarrow> (case query srv (Sel_transaction t) st of Some (Inr (A_transaction row)) \<Rightarrow> [row] | _ \<Rightarrow> []))"
proof (cases "insert_stmt 0 ins")
  case (Inr st)
  show ?thesis
    using query_answer [OF assms(1) Inr insert_accepted [OF assms(2) Inr]] Inr assms(2)
    by (cases ins) (auto simp: found_def transaction_row_of_def query_simps partition_key_values_def schema_def)
qed (simp add: transaction_row_of_def)

text \<open>What a list of actions persists when it is carried out to its end.\<close>

fun action_rows :: "transaction_id \<Rightarrow> action \<Rightarrow> transaction_row list" where
  "action_rows t (Put ins) = transaction_row_of t ins"
| "action_rows t a = []"

lemma run_actions_rows:
  "run_actions env w as s = Inr (None, s') \<Longrightarrow>
     \<exists>os. co_out s' = co_out s @ os \<and> persisted_rows t os = concat (map (action_rows t) as) \<and> Crash \<notin> set as"
proof (induction as arbitrary: s)
  case (Cons a as)
  have step: "\<exists>os. co_out s' = co_out s @ os \<and> persisted_rows t os = action_rows t a @ concat (map (action_rows t) as) \<and> Crash \<notin> set as"
    if r: "run_actions env w as (co_emit [out] s) = Inr (None, s')" and p: "persisted_rows t [out] = action_rows t a" for out
  proof -
    obtain os where "co_out s' = co_out s @ out # os" "persisted_rows t os = concat (map (action_rows t) as)" "Crash \<notin> set as"
      using Cons.IH [OF r] by (auto simp: co_emit_def)
    moreover have "persisted_rows t (out # os) = persisted_rows t [out] @ persisted_rows t os"
      by (simp add: persisted_rows_def)
    ultimately show ?thesis using p by (intro exI [of _ "out # os"]) simp
  qed
  show ?case using Cons.prems step by (cases a) (fastforce split: if_splits)+
qed simp

section \<open>What the loop over the rows collects\<close>

definition output_pairs :: "transaction_row list \<Rightarrow> (u16 \<times> output_t) list" where
  "output_pairs rows = concat (map (\<lambda>(i, d, k, st, mi). case d of TOutput out \<Rightarrow> [(k, out)] | _ \<Rightarrow> []) rows)"

definition input_pairs :: "transaction_row list \<Rightarrow> (u16 \<times> input_data) list" where
  "input_pairs rows = concat (map (\<lambda>(i, d, k, st, mi). case d of TInput inp \<Rightarrow> [(k, inp)] | _ \<Rightarrow> []) rows)"

definition unlock_pairs :: "transaction_row list \<Rightarrow> (u16 \<times> unlock_data) list" where
  "unlock_pairs rows = concat (map (\<lambda>(i, d, k, st, mi). case d of TUnlock u \<Rightarrow> [(k, u)] | _ \<Rightarrow> []) rows)"

lemma pairs_simps [simp]:
  "output_pairs [] = []" "input_pairs [] = []" "unlock_pairs [] = []"
  "output_pairs ((i, d, k, st, mi) # rows) = (case d of TOutput out \<Rightarrow> [(k, out)] | _ \<Rightarrow> []) @ output_pairs rows"
  "input_pairs ((i, d, k, st, mi) # rows) = (case d of TInput inp \<Rightarrow> [(k, inp)] | _ \<Rightarrow> []) @ input_pairs rows"
  "unlock_pairs ((i, d, k, st, mi) # rows) = (case d of TUnlock u \<Rightarrow> [(k, u)] | _ \<Rightarrow> []) @ unlock_pairs rows"
  "output_pairs (rows @ rows') = output_pairs rows @ output_pairs rows'"
  "input_pairs (rows @ rows') = input_pairs rows @ input_pairs rows'"
  "unlock_pairs (rows @ rows') = unlock_pairs rows @ unlock_pairs rows'"
  by (simp_all add: output_pairs_def input_pairs_def unlock_pairs_def)

abbreviation insert_all :: "('k \<times> 'v) list \<Rightarrow> ('k, 'v) hmap \<Rightarrow> ('k, 'v) hmap" where
  "insert_all kvs m \<equiv> fold (\<lambda>(k, v). hm_insert k v) kvs m"

lemma transaction_fold:
  assumes "list_all (\<lambda>(i, d, k, st, mi). i = i0 \<and> st = st0 \<and> mi = mi0) rows" and "unlock_pairs rows = []"
  shows "fold transaction_step rows a =
    (if output_pairs rows = [] then a\<lparr>ta_inputs := insert_all (input_pairs rows) (ta_inputs a)\<rparr>
     else a\<lparr>ta_outputs := insert_all (output_pairs rows) (ta_outputs a),
       ta_inputs := insert_all (input_pairs rows) (ta_inputs a),
       ta_metadata := (case ta_metadata a of None \<Rightarrow> Some (i0, mi0) | m \<Rightarrow> m), ta_inclusion_state := st0\<rparr>)"
  using assms
proof (induction rows arbitrary: a)
  case (Cons row rows)
  obtain i d k st mi where row: "row = (i, d, k, st, mi)" by (cases row)
  have IH: "fold transaction_step rows b =
    (if output_pairs rows = [] then b\<lparr>ta_inputs := insert_all (input_pairs rows) (ta_inputs b)\<rparr>
     else b\<lparr>ta_outputs := insert_all (output_pairs rows) (ta_outputs b),
       ta_inputs := insert_all (input_pairs rows) (ta_inputs b),
       ta_metadata := (case ta_metadata b of None \<Rightarrow> Some (i0, mi0) | m \<Rightarrow> m), ta_inclusion_state := st0\<rparr>)" for b
    using Cons.IH Cons.prems by (simp add: row)
  show ?case using Cons.prems
    by (cases d) (auto simp: row IH split: option.splits)
qed simp

lemma hm_insert_new: "k \<notin> fst ` set m \<Longrightarrow> hm_insert k v m = m @ [(k, v)]"
  by (induction m) auto

lemma insert_all_new:
  "distinct (map fst kvs) \<Longrightarrow> fst ` set kvs \<inter> fst ` set m = {} \<Longrightarrow> insert_all kvs m = m @ kvs"
proof (induction kvs arbitrary: m)
  case (Cons kv kvs)
  obtain k v where kv: "kv = (k, v)" by fastforce
  have "hm_insert k v m = m @ [(k, v)]" using Cons.prems by (simp add: kv hm_insert_new)
  then show ?case using Cons by (auto simp: kv)
qed simp

lemma ordered_unique:
  assumes "mset kvs = mset kvs'" and "distinct (map fst kvs')" and "sorted (map fst kvs')"
  shows "ordered (insert_all kvs []) = kvs'"
proof -
  have "distinct (map fst kvs)" using assms(1,2) by (metis mset_eq_imp_distinct_iff mset_map)
  then have "insert_all kvs [] = kvs" using insert_all_new [of kvs "[]"] by simp
  moreover have "inj_on fst (set kvs)" using \<open>distinct (map fst kvs)\<close> by (simp add: distinct_map)
  ultimately show ?thesis unfolding ordered_def using assms(1,3) by (simp add: sort_key_inj_key_eq)
qed

section \<open>The rows that a transaction leaves\<close>

text \<open>The data stored for an input; the variant that writes nothing does not occur below.\<close>

fun input_data_of :: "unlock_block list \<Rightarrow> nat \<times> input_t \<Rightarrow> input_data" where
  "input_data_of ubs (k, Utxo oid) = UtxoData oid (ubs ! k)"
| "input_data_of ubs (k, TreasuryIn m) = TreasuryData m"
| "input_data_of ubs (k, OtherInput) = TreasuryData 0"

text \<open>The variants the protocol has, no output of the transaction itself spent, indices within \<^verbatim>\<open>u16\<close>.\<close>

definition regular_transaction :: "transaction_id \<Rightarrow> input_t list \<Rightarrow> output_t list \<Rightarrow> bool" where
  "regular_transaction t ins outs \<longleftrightarrow>
     list_all (\<lambda>inp. case inp of Utxo oid \<Rightarrow> oi_transaction_id oid \<noteq> t | TreasuryIn m \<Rightarrow> True | OtherInput \<Rightarrow> False) ins \<and>
     outs \<noteq> [] \<and> length ins \<le> 2 ^ 16 \<and> length outs \<le> 2 ^ 16"

lemma input_action_rows:
  assumes "case inp of Utxo oid \<Rightarrow> oi_transaction_id oid \<noteq> t | TreasuryIn m \<Rightarrow> True | OtherInput \<Rightarrow> False"
    and "Crash \<notin> set (insert_input_rows i t ubs st conf k inp)"
  shows "concat (map (action_rows t) (insert_input_rows i t ubs st conf k inp)) =
    [(i, TInput (input_data_of ubs (k, inp)), of_nat k, st, conf)]"
  using assms by (cases inp) (auto simp: insert_input_rows_def input_record_def unlock_record_def split: if_splits)

lemma address_action_rows: "concat (map (action_rows t) (insert_address env s out t' k mi st)) = []"
  by (auto simp: insert_address_def in_partition_def Let_def split: sum.splits output_t.splits)

lemma output_action_rows:
  "concat (map (action_rows t) (insert_output_rows env s i t st conf mi k out)) = [(i, TOutput out, of_nat k, st, conf)]"
  using address_action_rows by (simp add: insert_output_rows_def output_record_def)

lemma concat_map_concat: "concat (map f (concat xss)) = concat (map (\<lambda>xs. concat (map f xs)) xss)"
  by (induction xss) simp_all

definition transaction_table_rows ::
  "message_id \<Rightarrow> input_t list \<Rightarrow> output_t list \<Rightarrow> unlock_block list \<Rightarrow> ledger_inclusion_state option \<Rightarrow> u32 option
     \<Rightarrow> transaction_row list" where
  "transaction_table_rows i ins outs ubs st conf =
     map (\<lambda>(k, inp). (i, TInput (input_data_of ubs (k, inp)), of_nat k, st, conf)) (enumerate 0 ins) @
     map (\<lambda>(k, out). (i, TOutput out, of_nat k, st, conf)) (enumerate 0 outs)"

lemma transaction_action_rows:
  assumes "regular_transaction t ins outs" and "Crash \<notin> set (insert_transaction env s i t ins outs ubs mi st)"
  shows "concat (map (action_rows t) (insert_transaction env s i t ins outs ubs mi st)) =
    transaction_table_rows i ins outs ubs st (if st \<noteq> None then Some mi else None)"
proof -
  let ?conf = "if st \<noteq> None then Some mi else None"
  have "concat (map (action_rows t) (insert_input_rows i t ubs st ?conf k inp)) =
      [(i, TInput (input_data_of ubs (k, inp)), of_nat k, st, ?conf)]"
    if "(k, inp) \<in> set (enumerate 0 ins)" for k inp
  proof (rule input_action_rows)
    show "case inp of Utxo oid \<Rightarrow> oi_transaction_id oid \<noteq> t | TreasuryIn m \<Rightarrow> True | OtherInput \<Rightarrow> False"
      using assms(1) that by (auto simp: regular_transaction_def list_all_iff in_set_enumerate_eq)
    show "Crash \<notin> set (insert_input_rows i t ubs st ?conf k inp)"
      using assms(2) that unfolding insert_transaction_def Let_def by fastforce
  qed
  then have ins: "concat (map (\<lambda>x. concat (map (action_rows t) ((\<lambda>(k, inp). insert_input_rows i t ubs st ?conf k inp) x))) (enumerate 0 ins))
      = concat (map (\<lambda>(k, inp). [(i, TInput (input_data_of ubs (k, inp)), of_nat k, st, ?conf)]) (enumerate 0 ins))"
    by (intro arg_cong [of _ _ concat] map_cong refl) auto
  have outs: "concat (map (\<lambda>x. concat (map (action_rows t) ((\<lambda>(k, out). insert_output_rows env s i t st ?conf mi k out) x))) (enumerate 0 outs))
      = concat (map (\<lambda>(k, out). [(i, TOutput out, of_nat k, st, ?conf)]) (enumerate 0 outs))"
    by (intro arg_cong [of _ _ concat] map_cong refl) (auto simp: output_action_rows)
  have single: "concat (map (\<lambda>(k, x). [f k x]) kxs) = map (\<lambda>(k, x). f k x) kxs" for f :: "nat \<Rightarrow> 'x \<Rightarrow> 'y" and kxs
    by (induction kxs) auto
  have single': "concat (map (\<lambda>(k, x). [g k x]) kys) = map (\<lambda>(k, x). g k x) kys" for g :: "nat \<Rightarrow> 'z \<Rightarrow> 'y" and kys
    by (induction kys) auto
  show ?thesis
    unfolding insert_transaction_def Let_def map_append concat_append concat_map_concat map_map comp_def ins outs
      transaction_table_rows_def
    by (simp add: concat_map_singleton case_prod_unfold)
qed

lemma of_nat_indices:
  assumes "n \<le> 2 ^ 16"
  shows "distinct (map (of_nat :: nat \<Rightarrow> u16) [0..<n])" and "sorted (map (of_nat :: nat \<Rightarrow> u16) [0..<n])"
proof -
  have un: "unat (of_nat k :: u16) = k" if "k < n" for k
    using that assms by (simp add: unat_of_nat take_bit_nat_eq_self)
  show "distinct (map (of_nat :: nat \<Rightarrow> u16) [0..<n])"
    unfolding distinct_map by (auto intro!: inj_onI dest: un [symmetric] arg_cong [of _ _ unat]) (metis un)
  show "sorted (map (of_nat :: nat \<Rightarrow> u16) [0..<n])"
    unfolding sorted_map by (rule sorted_wrt_mono_rel [of _ "(<)"]) (auto simp: word_le_nat_alt un)
qed

lemma table_pairs:
  "output_pairs (transaction_table_rows i ins outs ubs st conf) = map (\<lambda>(k, out). (of_nat k, out)) (enumerate 0 outs)"
  "input_pairs (transaction_table_rows i ins outs ubs st conf) = map (\<lambda>(k, inp). (of_nat k, input_data_of ubs (k, inp))) (enumerate 0 ins)"
  "unlock_pairs (transaction_table_rows i ins outs ubs st conf) = []"
proof -
  have "output_pairs (map (\<lambda>(k, inp). (i, TInput (f (k, inp)), of_nat k, st, conf)) kxs) = []"
    "unlock_pairs (map (\<lambda>(k, inp). (i, TInput (f (k, inp)), of_nat k, st, conf)) kxs) = []"
    "input_pairs (map (\<lambda>(k, inp). (i, TInput (f (k, inp)), of_nat k, st, conf)) kxs) = map (\<lambda>(k, inp). (of_nat k, f (k, inp))) kxs"
    for f and kxs :: "(nat \<times> input_t) list"
    by (induction kxs) auto
  moreover have "input_pairs (map (\<lambda>(k, out). (i, TOutput out, of_nat k, st, conf)) kys) = []"
    "unlock_pairs (map (\<lambda>(k, out). (i, TOutput out, of_nat k, st, conf)) kys) = []"
    "output_pairs (map (\<lambda>(k, out). (i, TOutput out, of_nat k, st, conf)) kys) = map (\<lambda>(k, out). (of_nat k, out)) kys"
    for kys :: "(nat \<times> output_t) list"
    by (induction kys) auto
  ultimately show
    "output_pairs (transaction_table_rows i ins outs ubs st conf) = map (\<lambda>(k, out). (of_nat k, out)) (enumerate 0 outs)"
    "input_pairs (transaction_table_rows i ins outs ubs st conf) = map (\<lambda>(k, inp). (of_nat k, input_data_of ubs (k, inp))) (enumerate 0 ins)"
    "unlock_pairs (transaction_table_rows i ins outs ubs st conf) = []"
    by (simp_all add: transaction_table_rows_def)
qed

lemma mset_concat_map: "mset xs = mset ys \<Longrightarrow> mset (concat (map f xs)) = mset (concat (map f ys))"
  by (metis mset_concat mset_map multiset.map_comp sum_mset_sum_list)

lemma mset_pairs:
  assumes "mset rows = mset rows'"
  shows "mset (output_pairs rows) = mset (output_pairs rows')" "mset (input_pairs rows) = mset (input_pairs rows')"
    "mset (unlock_pairs rows) = mset (unlock_pairs rows')"
  unfolding output_pairs_def input_pairs_def unlock_pairs_def using assms by (rule mset_concat_map)+

lemma table_rows_alike:
  "list_all (\<lambda>(i', d, k, st', mi). i' = i \<and> st' = st \<and> mi = conf) (transaction_table_rows i ins outs ubs st conf)"
  by (auto simp: transaction_table_rows_def list_all_iff)

lemma decode_table_rows:
  assumes "mset rows = mset (transaction_table_rows i ins outs ubs st conf)"
    and "outs \<noteq> []" "length ins \<le> 2 ^ 16" "length outs \<le> 2 ^ 16"
  shows "decode_transaction (RowsResponse rows page) = Inr (Some
    \<lparr>xr_message_id = i, xr_milestone_index = conf, xr_outputs = map (\<lambda>out. (out, None)) outs,
     xr_inputs = map (input_data_of ubs) (enumerate 0 ins), xr_inclusion_state = st\<rparr>)"
proof -
  let ?outs = "map (\<lambda>(k, out). (of_nat k :: u16, out)) (enumerate 0 outs)"
  let ?ins = "map (\<lambda>(k, inp). (of_nat k :: u16, input_data_of ubs (k, inp))) (enumerate 0 ins)"
  note pairs = mset_pairs [OF assms(1), unfolded table_pairs]
  have keys: "map fst ?outs = map of_nat [0..<length outs]" "map fst ?ins = map of_nat [0..<length ins]"
    by (rule nth_equalityI; simp add: nth_enumerate_eq)+
  have o: "ordered (insert_all (output_pairs rows) []) = ?outs"
    by (rule ordered_unique [OF pairs(1)]) (simp_all only: keys of_nat_indices assms)
  have n: "ordered (insert_all (input_pairs rows) []) = ?ins"
    by (rule ordered_unique [OF pairs(2)]) (simp_all only: keys of_nat_indices assms)
  have "set rows = set (transaction_table_rows i ins outs ubs st conf)" using assms(1) by (metis set_mset_mset)
  then have alike: "list_all (\<lambda>(i', d, k, st', mi). i' = i \<and> st' = st \<and> mi = conf) rows"
    using table_rows_alike by (simp only: list_all_iff)
  have "output_pairs rows \<noteq> []" using pairs(1) assms(2) by (cases outs) auto
  then have "decode_transaction (RowsResponse rows page) = Inr (Some
      \<lparr>xr_message_id = i, xr_milestone_index = conf, xr_outputs = map (\<lambda>(k, d). (d, None)) ?outs,
       xr_inputs = map snd ?ins, xr_inclusion_state = st\<rparr>)"
    using o n transaction_fold [OF alike] pairs(3)
    by (simp add: decode_transaction_def with_rows_def Let_def)
  moreover have "map (\<lambda>(k, d). (d, None)) ?outs = map (\<lambda>out. (out, None :: unlock_res option)) outs"
    by (rule nth_equalityI) (simp_all add: nth_enumerate_eq)
  moreover have "map snd ?ins = map (input_data_of ubs) (enumerate 0 ins)"
    by (simp add: case_prod_unfold)
  ultimately show ?thesis by simp
qed

text \<open>
  C28. What a collector persists for a transaction is read back by the API as that transaction,
  whatever order the database returns the rows in: its outputs and its inputs with their unlock
  blocks in their order, its message, its inclusion state, and the milestone when it has one.
\<close>

theorem transaction_read_back:
  assumes "run_actions env w (insert_transaction env s i t ins outs ubs mi st) s = Inr (None, s')"
    and "regular_transaction t ins outs"
    and "co_out s' = co_out s @ os" and "mset rows = mset (persisted_rows t os)"
  shows "decode_transaction (RowsResponse rows page) = Inr (Some
    \<lparr>xr_message_id = i, xr_milestone_index = (if st \<noteq> None then Some mi else None),
     xr_outputs = map (\<lambda>out. (out, None)) outs, xr_inputs = map (input_data_of ubs) (enumerate 0 ins),
     xr_inclusion_state = st\<rparr>)"
proof -
  obtain os' where os: "co_out s' = co_out s @ os'"
    "persisted_rows t os' = concat (map (action_rows t) (insert_transaction env s i t ins outs ubs mi st))"
    "Crash \<notin> set (insert_transaction env s i t ins outs ubs mi st)"
    using run_actions_rows [OF assms(1)] by blast
  have "mset rows = mset (transaction_table_rows i ins outs ubs st (if st \<noteq> None then Some mi else None))"
    using assms(3,4) os(1,2) unfolding transaction_action_rows [OF assms(2) os(3)] by simp
  then show ?thesis using assms(2) by (intro decode_table_rows) (simp_all add: regular_transaction_def)
qed

text \<open>A transaction that spends one output, with two outputs of its own.\<close>

theorem transaction_read_back_witness:
  "case run_actions plain_env (SimpleWorker 1) (insert_transaction plain_env two_collectors 9 7
      [Utxo \<lparr>oi_transaction_id = 3, oi_index = 1\<rparr>] [SignatureLockedSingle 5 10, SignatureLockedSingle 6 20] [[1]] 4 (Some Included))
      two_collectors of
     Inl e \<Rightarrow> False
   | Inr (e, s') \<Rightarrow> decode_transaction (RowsResponse (rev (persisted_rows 7 (co_out s'))) None) = Inr (Some
      \<lparr>xr_message_id = 9, xr_milestone_index = Some 4,
       xr_outputs = [(SignatureLockedSingle 5 10, None), (SignatureLockedSingle 6 20, None)],
       xr_inputs = [UtxoData \<lparr>oi_transaction_id = 3, oi_index = 1\<rparr> [1]], xr_inclusion_state = Some Included\<rparr>)"
proof -
  let ?ins = "[Utxo \<lparr>oi_transaction_id = 3, oi_index = 1\<rparr>]"
  let ?outs = "[SignatureLockedSingle 5 10, SignatureLockedSingle 6 20]"
  let ?run = "run_actions plain_env (SimpleWorker 1)
    (insert_transaction plain_env two_collectors 9 7 ?ins ?outs [[1]] 4 (Some Included)) two_collectors"
  have "case ?run of Inl e \<Rightarrow> False | Inr (e, s') \<Rightarrow> e = None" by code_simp
  then obtain s' where s': "?run = Inr (None, s')" by (auto split: sum.splits)
  have "co_out s' = co_out two_collectors @ co_out s'" by (simp add: two_collectors_def new_collector_def)
  moreover have "regular_transaction 7 ?ins ?outs" by (simp add: regular_transaction_def)
  ultimately show ?thesis
    using transaction_read_back [OF s', of "co_out s'" "rev (persisted_rows 7 (co_out s'))" None] s'
    by simp
qed

end
