(* ===== verification/Codecs.thy ===== *)
theory Codecs
  imports Storage_Rows
begin

unbundle bit_operations_syntax

text \<open>
  The column codecs of \<^verbatim>\<open>chronicle-storage/src/access/types.rs\<close>: the packed form of the data of a
  \<^verbatim>\<open>transactions\<close> row and the length prefix under which a column goes into a statement.

  The codecs of the \<^verbatim>\<open>bee\<close> types inside (integers, ids, outputs, unlock blocks) and \<^verbatim>\<open>bincode\<close> are
  third-party, so they are parameters, with the values they are defined for; \<open>bee_ok\<close> is what
  \<^verbatim>\<open>Packable\<close> promises of them: unpacking consumes exactly what packing wrote and gives the value
  back, and \<^verbatim>\<open>packed_len\<close> is the number of bytes written.
\<close>

section \<open>Third-party codecs\<close>

type_synonym bytes = "u8 list"

record 'a packer =
  bp_pack :: "'a \<Rightarrow> bytes"
  bp_unpack :: "bytes \<Rightarrow> ('a \<times> bytes) result"
  bp_len :: "'a \<Rightarrow> nat"
  bp_valid :: "'a \<Rightarrow> bool"

definition packer_ok :: "'a packer \<Rightarrow> bool" where
  "packer_ok c \<longleftrightarrow>
     (\<forall>x rest. bp_valid c x \<longrightarrow> bp_unpack c (bp_pack c x @ rest) = Inr (x, rest)) \<and>
     (\<forall>x. bp_valid c x \<longrightarrow> length (bp_pack c x) = bp_len c x)"

record bee =
  bee_u8 :: "u8 packer"
  bee_u16 :: "u16 packer"
  bee_transaction_id :: "transaction_id packer"
  bee_utxo_input :: "output_id packer"
  bee_treasury_input :: "milestone_id packer"
  bee_unlock_block :: "unlock_block packer"
  bee_output :: "output_t packer"

definition bee_ok :: "bee \<Rightarrow> bool" where
  "bee_ok b \<longleftrightarrow> packer_ok (bee_u8 b) \<and> packer_ok (bee_u16 b) \<and> packer_ok (bee_transaction_id b) \<and>
     packer_ok (bee_utxo_input b) \<and> packer_ok (bee_treasury_input b) \<and> packer_ok (bee_unlock_block b) \<and>
     packer_ok (bee_output b) \<and> (\<forall>x. bp_valid (bee_u8 b) x)"

section \<open>\<^verbatim>\<open>UnlockData\<close>\<close>

definition unlock_data_len :: "bee \<Rightarrow> unlock_data \<Rightarrow> nat" where
  "unlock_data_len b d =
     bp_len (bee_transaction_id b) (ud_input_tx_id d) + bp_len (bee_u16 b) (ud_input_index d) +
     bp_len (bee_unlock_block b) (ud_unlock_block d)"

definition unlock_data_pack :: "bee \<Rightarrow> unlock_data \<Rightarrow> bytes" where
  "unlock_data_pack b d =
     bp_pack (bee_transaction_id b) (ud_input_tx_id d) @ bp_pack (bee_u16 b) (ud_input_index d) @
     bp_pack (bee_unlock_block b) (ud_unlock_block d)"

definition unlock_data_unpack :: "bee \<Rightarrow> bytes \<Rightarrow> (unlock_data \<times> bytes) result" where
  "unlock_data_unpack b r =
     rbind (bp_unpack (bee_transaction_id b) r) (\<lambda>(t, r).
     rbind (bp_unpack (bee_u16 b) r) (\<lambda>(k, r).
     rbind (bp_unpack (bee_unlock_block b) r) (\<lambda>(u, r).
     Inr (\<lparr>ud_input_tx_id = t, ud_input_index = k, ud_unlock_block = u\<rparr>, r))))"

definition unlock_data_valid :: "bee \<Rightarrow> unlock_data \<Rightarrow> bool" where
  "unlock_data_valid b d \<longleftrightarrow> bp_valid (bee_transaction_id b) (ud_input_tx_id d) \<and>
     bp_valid (bee_u16 b) (ud_input_index d) \<and> bp_valid (bee_unlock_block b) (ud_unlock_block d)"

section \<open>\<^verbatim>\<open>InputData\<close>\<close>

fun input_data_len :: "bee \<Rightarrow> input_data \<Rightarrow> nat" where
  "input_data_len b (UtxoData i u) = bp_len (bee_u8 b) 0 + bp_len (bee_utxo_input b) i + bp_len (bee_unlock_block b) u"
| "input_data_len b (TreasuryData m) = bp_len (bee_u8 b) 0 + bp_len (bee_treasury_input b) m"

fun input_data_pack :: "bee \<Rightarrow> input_data \<Rightarrow> bytes" where
  "input_data_pack b (UtxoData i u) = bp_pack (bee_u8 b) 0 @ bp_pack (bee_utxo_input b) i @ bp_pack (bee_unlock_block b) u"
| "input_data_pack b (TreasuryData m) = bp_pack (bee_u8 b) 1 @ bp_pack (bee_treasury_input b) m"

definition input_data_unpack :: "bee \<Rightarrow> bytes \<Rightarrow> (input_data \<times> bytes) result" where
  "input_data_unpack b r =
     rbind (bp_unpack (bee_u8 b) r) (\<lambda>(tag, r).
       if tag = 0 then
         rbind (bp_unpack (bee_utxo_input b) r) (\<lambda>(i, r).
         rbind (bp_unpack (bee_unlock_block b) r) (\<lambda>(u, r). Inr (UtxoData i u, r)))
       else if tag = 1 then rbind (bp_unpack (bee_treasury_input b) r) (\<lambda>(m, r). Inr (TreasuryData m, r))
       else Inl (Failed ''Tried to unpack an invalid inputdata variant!''))"

fun input_data_valid :: "bee \<Rightarrow> input_data \<Rightarrow> bool" where
  "input_data_valid b (UtxoData i u) \<longleftrightarrow> bp_valid (bee_utxo_input b) i \<and> bp_valid (bee_unlock_block b) u"
| "input_data_valid b (TreasuryData m) \<longleftrightarrow> bp_valid (bee_treasury_input b) m"

section \<open>\<^verbatim>\<open>TransactionData\<close>\<close>

fun transaction_data_len :: "bee \<Rightarrow> transaction_data \<Rightarrow> nat" where
  "transaction_data_len b (TInput d) = bp_len (bee_u8 b) 0 + input_data_len b d"
| "transaction_data_len b (TOutput out) = bp_len (bee_u8 b) 0 + bp_len (bee_output b) out"
| "transaction_data_len b (TUnlock d) = bp_len (bee_u8 b) 0 + unlock_data_len b d"

fun transaction_data_pack :: "bee \<Rightarrow> transaction_data \<Rightarrow> bytes" where
  "transaction_data_pack b (TInput d) = bp_pack (bee_u8 b) 0 @ input_data_pack b d"
| "transaction_data_pack b (TOutput out) = bp_pack (bee_u8 b) 1 @ bp_pack (bee_output b) out"
| "transaction_data_pack b (TUnlock d) = bp_pack (bee_u8 b) 2 @ unlock_data_pack b d"

definition transaction_data_unpack :: "bee \<Rightarrow> bytes \<Rightarrow> (transaction_data \<times> bytes) result" where
  "transaction_data_unpack b r =
     rbind (bp_unpack (bee_u8 b) r) (\<lambda>(tag, r).
       if tag = 0 then rbind (input_data_unpack b r) (\<lambda>(d, r). Inr (TInput d, r))
       else if tag = 1 then rbind (bp_unpack (bee_output b) r) (\<lambda>(out, r). Inr (TOutput out, r))
       else if tag = 2 then rbind (unlock_data_unpack b r) (\<lambda>(d, r). Inr (TUnlock d, r))
       else Inl (Failed ''Tried to unpack an invalid transaction variant!''))"

fun transaction_data_valid :: "bee \<Rightarrow> transaction_data \<Rightarrow> bool" where
  "transaction_data_valid b (TInput d) = input_data_valid b d"
| "transaction_data_valid b (TOutput out) = bp_valid (bee_output b) out"
| "transaction_data_valid b (TUnlock d) = unlock_data_valid b d"

text \<open>\<^verbatim>\<open>ColumnDecoder::try_decode\<close>: what follows the value is ignored.\<close>

definition transaction_data_decode :: "bee \<Rightarrow> bytes \<Rightarrow> transaction_data result" where
  "transaction_data_decode b col = rbind (transaction_data_unpack b col) (\<lambda>(d, r). Inr d)"

definition bee_decode :: "'a packer \<Rightarrow> bytes \<Rightarrow> 'a result" where
  "bee_decode c col = rbind (bp_unpack c col) (\<lambda>(x, r). Inr x)"

section \<open>Columns\<close>

definition be32 :: "u32 \<Rightarrow> bytes" where
  "be32 w = [ucast (drop_bit 24 w), ucast (drop_bit 16 w), ucast (drop_bit 8 w), ucast w]"

text \<open>How a reader of four bytes in network order takes them.\<close>

definition read_be32 :: "bytes \<Rightarrow> u32" where
  "read_be32 r = foldl (\<lambda>w x. w * 256 + ucast x) 0 (take 4 r)"

text \<open>
  \<^verbatim>\<open>ColumnEncoder::encode\<close> extends the buffer by the length, cast to \<^verbatim>\<open>i32\<close>, and the bytes:
  of the packed data of a transaction row, and of what \<^verbatim>\<open>bincode\<close> makes of the metadata.
\<close>

definition transaction_data_encode :: "bee \<Rightarrow> transaction_data \<Rightarrow> bytes \<Rightarrow> bytes" where
  "transaction_data_encode b d buffer =
     (let col = transaction_data_pack b d in buffer @ be32 (of_nat (length col)) @ col)"

definition inclusion_state_encode :: "(ledger_inclusion_state \<Rightarrow> bytes) \<Rightarrow> ledger_inclusion_state \<Rightarrow> bytes \<Rightarrow> bytes" where
  "inclusion_state_encode ser st buffer = (let col = ser st in buffer @ be32 (of_nat (length col)) @ col)"

definition metadata_encode :: "(message_metadata \<Rightarrow> bytes) \<Rightarrow> message_metadata \<Rightarrow> bytes \<Rightarrow> bytes" where
  "metadata_encode ser meta buffer = (let col = ser meta in buffer @ be32 (of_nat (length col)) @ col)"

section \<open>Codecs that can be read back\<close>

locale codec =
  fixes pack :: "'a \<Rightarrow> bytes"
    and unpack :: "bytes \<Rightarrow> ('a \<times> bytes) result"
    and packed_len :: "'a \<Rightarrow> nat"
    and valid :: "'a \<Rightarrow> bool"
  assumes unpack_pack: "valid x \<Longrightarrow> unpack (pack x @ rest) = Inr (x, rest)"
    and length_pack: "valid x \<Longrightarrow> length (pack x) = packed_len x"
begin

lemma decode_exact: "valid x \<Longrightarrow> unpack (pack x) = Inr (x, [])"
  using unpack_pack [of x "[]"] by simp

lemma prefix_free:
  assumes "valid x" "valid y" "pack x @ r = pack y @ r'"
  shows "x = y \<and> r = r'"
  by (metis Pair_inject assms sum.inject(2) unpack_pack)

lemma pack_inj: "inj_on pack {x. valid x}"
  using prefix_free [of _ _ "[]" "[]"] by (auto intro: inj_onI)

lemma decode_column:
  "valid x \<Longrightarrow> rbind (unpack (pack x @ junk)) (\<lambda>(y, r). Inr y) = (Inr x :: 'a result)"
  by (simp add: unpack_pack)

end

named_theorems packer_simps \<open>reading back what a third-party codec wrote\<close>

lemma packer_unpack [packer_simps]:
  "packer_ok c \<Longrightarrow> bp_valid c x \<Longrightarrow> bp_unpack c (bp_pack c x @ rest) = Inr (x, rest)"
  "packer_ok c \<Longrightarrow> bp_valid c x \<Longrightarrow> length (bp_pack c x) = bp_len c x"
  by (simp_all add: packer_ok_def)

text \<open>Every tag byte has the same length as the one that \<^verbatim>\<open>packed_len\<close> measures.\<close>

definition tags_ok :: "bee \<Rightarrow> bool" where
  "tags_ok b \<longleftrightarrow> bee_ok b \<and> (\<forall>x. bp_len (bee_u8 b) x = bp_len (bee_u8 b) 0)"

interpretation unlock_codec: codec "unlock_data_pack b" "unlock_data_unpack b" "unlock_data_len b"
    "\<lambda>d. bee_ok b \<and> unlock_data_valid b d" for b
proof
  show "unlock_data_unpack b (unlock_data_pack b d @ rest) = Inr (d, rest)" if "bee_ok b \<and> unlock_data_valid b d" for d rest
  proof -
    have "packer_ok (bee_transaction_id b)" "packer_ok (bee_u16 b)" "packer_ok (bee_unlock_block b)"
      using that by (simp_all add: bee_ok_def)
    moreover have "bp_valid (bee_transaction_id b) (ud_input_tx_id d)" "bp_valid (bee_u16 b) (ud_input_index d)"
      "bp_valid (bee_unlock_block b) (ud_unlock_block d)"
      using that by (simp_all add: unlock_data_valid_def)
    ultimately show ?thesis by (simp add: unlock_data_pack_def unlock_data_unpack_def packer_unpack(1))
  qed
  show "length (unlock_data_pack b d) = unlock_data_len b d" if "bee_ok b \<and> unlock_data_valid b d" for d
    using that by (simp add: bee_ok_def unlock_data_valid_def unlock_data_pack_def unlock_data_len_def packer_simps)
qed

lemma input_data_unpack_pack:
  "bee_ok b \<Longrightarrow> input_data_valid b d \<Longrightarrow> input_data_unpack b (input_data_pack b d @ rest) = Inr (d, rest)"
  by (cases d) (simp_all add: bee_ok_def input_data_unpack_def packer_simps)

interpretation input_codec: codec "input_data_pack b" "input_data_unpack b" "input_data_len b"
    "\<lambda>d. tags_ok b \<and> input_data_valid b d" for b
proof
  show "length (input_data_pack b d) = input_data_len b d" if "tags_ok b \<and> input_data_valid b d" for d
    using that by (cases d) (auto simp: tags_ok_def bee_ok_def packer_simps)
qed (simp add: tags_ok_def input_data_unpack_pack)

interpretation transaction_codec: codec "transaction_data_pack b" "transaction_data_unpack b" "transaction_data_len b"
    "\<lambda>d. tags_ok b \<and> transaction_data_valid b d" for b
proof
  fix d rest assume v: "tags_ok b \<and> transaction_data_valid b d"
  then have "bee_ok b" by (simp add: tags_ok_def)
  then show "transaction_data_unpack b (transaction_data_pack b d @ rest) = Inr (d, rest)"
    using v unlock_codec.unpack_pack [of b] input_codec.unpack_pack [of b]
    by (cases d) (simp_all add: transaction_data_unpack_def bee_ok_def packer_simps)
  show "length (transaction_data_pack b d) = transaction_data_len b d"
    using v \<open>bee_ok b\<close> unlock_codec.length_pack [of b] input_codec.length_pack [of b]
    by (cases d) (simp_all add: tags_ok_def bee_ok_def packer_simps)
qed

lemma shift_byte:
  fixes x :: u32 and y :: u8
  shows "x * 256 + ucast y = push_bit 8 x OR ucast y"
proof -
  have "push_bit 8 x + ucast y = push_bit 8 x OR ucast y"
    by (rule disjunctive_add_eq_or, rule bit_word_eqI) (auto simp: bit_simps dest: bit_imp_le_length)
  then show ?thesis by (simp add: push_bit_eq_mult mult.commute)
qed

lemma read_be32_be32: "read_be32 (be32 w @ r) = w"
proof -
  have "read_be32 (be32 w @ r) = push_bit 8 (push_bit 8 (push_bit 8 (push_bit 8 0 OR ucast (ucast (drop_bit 24 w) :: u8))
      OR ucast (ucast (drop_bit 16 w) :: u8)) OR ucast (ucast (drop_bit 8 w) :: u8)) OR ucast (ucast w :: u8)"
  proof -
    have t: "take 4 (a # b # c # d # r) = [a, b, c, d]" for a b c d :: u8 by simp
    show ?thesis unfolding read_be32_def be32_def append_Cons append_Nil t by (simp only: foldl.simps shift_byte)
  qed
  also have "\<dots> = w"
  proof (rule bit_word_eqI)
    fix n assume n: "n < LENGTH(32)"
    consider "n < 8" | "8 \<le> n" "n < 16" | "16 \<le> n" "n < 24" | "24 \<le> n" by linarith
    then show "bit (push_bit 8 (push_bit 8 (push_bit 8 (push_bit 8 (0 :: u32) OR ucast (ucast (drop_bit 24 w) :: u8))
      OR ucast (ucast (drop_bit 16 w) :: u8)) OR ucast (ucast (drop_bit 8 w) :: u8)) OR ucast (ucast w :: u8)) n = bit w n"
      by cases (use n in \<open>auto simp: bit_simps\<close>)
  qed
  finally show ?thesis .
qed

lemma read_be32_length: "n < 2 ^ 32 \<Longrightarrow> unat (read_be32 (be32 (of_nat n) @ r)) = n"
  by (simp add: read_be32_be32 unat_of_nat take_bit_nat_eq_self)

text \<open>
  C25. The data column of a transaction row is read back: after the four bytes of the length, which
  is what \<^verbatim>\<open>packed_len\<close> says, its bytes decode to the data that was encoded, whatever was already in the
  buffer and whatever follows; and two data with the same bytes are the same.
\<close>

theorem transaction_data_roundtrip:
  assumes "tags_ok b" and "transaction_data_valid b d" and "transaction_data_len b d < 2 ^ 31"
  shows "(let col = drop (length buffer) (transaction_data_encode b d buffer) in
      unat (read_be32 col) = transaction_data_len b d \<and> length col = 4 + transaction_data_len b d \<and>
      transaction_data_decode b (drop 4 col @ junk) = Inr d) \<and>
    inj_on (transaction_data_pack b) {d. transaction_data_valid b d}"
proof
  have v: "tags_ok b \<and> transaction_data_valid b d" using assms by simp
  note len = transaction_codec.length_pack [OF v]
  have "length (be32 w) = 4" for w by (simp add: be32_def)
  then show "let col = drop (length buffer) (transaction_data_encode b d buffer) in
      unat (read_be32 col) = transaction_data_len b d \<and> length col = 4 + transaction_data_len b d \<and>
      transaction_data_decode b (drop 4 col @ junk) = Inr d"
    using assms(3) transaction_codec.decode_column [OF v]
    by (simp add: Let_def transaction_data_encode_def transaction_data_decode_def len read_be32_length)
  show "inj_on (transaction_data_pack b) {d. transaction_data_valid b d}"
    using transaction_codec.pack_inj [of b] assms(1) by simp
qed

text \<open>A concrete codec for the witness: words as one byte per byte, lists with their length before them.\<close>

definition byte_packer :: "u8 packer" where
  "byte_packer = \<lparr>bp_pack = (\<lambda>x. [x]), bp_unpack = (\<lambda>r. case r of [] \<Rightarrow> Inl (Failed ''end'') | x # r \<Rightarrow> Inr (x, r)),
     bp_len = (\<lambda>x. 1), bp_valid = (\<lambda>x. True)\<rparr>"

definition narrow_packer :: "('a::len word) packer" where
  "narrow_packer = \<lparr>bp_pack = (\<lambda>x. [ucast x]), bp_unpack = (\<lambda>r. case r of [] \<Rightarrow> Inl (Failed ''end'') | x # r \<Rightarrow> Inr (ucast x, r)),
     bp_len = (\<lambda>x. 1), bp_valid = (\<lambda>x. ucast (ucast x :: u8) = x)\<rparr>"

definition bytes_packer :: "bytes packer" where
  "bytes_packer = \<lparr>bp_pack = (\<lambda>x. of_nat (length x) # x),
     bp_unpack = (\<lambda>r. case r of [] \<Rightarrow> Inl (Failed ''end'') | n # r \<Rightarrow> Inr (take (unat n) r, drop (unat n) r)),
     bp_len = (\<lambda>x. Suc (length x)), bp_valid = (\<lambda>x. length x < 256)\<rparr>"

definition utxo_packer :: "output_id packer" where
  "utxo_packer = \<lparr>bp_pack = (\<lambda>x. [ucast (oi_transaction_id x), ucast (oi_index x)]),
     bp_unpack = (\<lambda>r. case r of x # y # r \<Rightarrow> Inr (\<lparr>oi_transaction_id = ucast x, oi_index = ucast y\<rparr>, r) | _ \<Rightarrow> Inl (Failed ''end'')),
     bp_len = (\<lambda>x. 2),
     bp_valid = (\<lambda>x. ucast (ucast (oi_transaction_id x) :: u8) = oi_transaction_id x \<and> ucast (ucast (oi_index x) :: u8) = oi_index x)\<rparr>"

definition output_packer :: "output_t packer" where
  "output_packer = \<lparr>bp_pack = (\<lambda>x. []), bp_unpack = (\<lambda>r. Inr (OtherOutput, r)), bp_len = (\<lambda>x. 0), bp_valid = (\<lambda>x. x = OtherOutput)\<rparr>"

definition small_bee :: bee where
  "small_bee = \<lparr>bee_u8 = byte_packer, bee_u16 = narrow_packer, bee_transaction_id = narrow_packer, bee_utxo_input = utxo_packer,
     bee_treasury_input = narrow_packer, bee_unlock_block = bytes_packer, bee_output = output_packer\<rparr>"

lemma small_packers_ok:
  "packer_ok byte_packer" "packer_ok narrow_packer" "packer_ok bytes_packer" "packer_ok utxo_packer" "packer_ok output_packer"
  by (simp_all add: packer_ok_def byte_packer_def narrow_packer_def bytes_packer_def utxo_packer_def output_packer_def
      unat_of_nat take_bit_nat_eq_self)

theorem transaction_data_roundtrip_witness:
  "transaction_data_decode small_bee
     (drop 4 (transaction_data_encode small_bee (TInput (UtxoData \<lparr>oi_transaction_id = 3, oi_index = 1\<rparr> [7, 8])) []) @ [9])
   = Inr (TInput (UtxoData \<lparr>oi_transaction_id = 3, oi_index = 1\<rparr> [7, 8]))"
proof -
  let ?d = "TInput (UtxoData \<lparr>oi_transaction_id = 3, oi_index = 1\<rparr> [7, 8])"
  have "tags_ok small_bee"
    by (simp add: tags_ok_def bee_ok_def small_bee_def small_packers_ok) (simp add: byte_packer_def)
  moreover have "transaction_data_valid small_bee ?d" "transaction_data_len small_bee ?d < 2 ^ 31"
    by (simp_all add: small_bee_def byte_packer_def utxo_packer_def bytes_packer_def)
  ultimately show ?thesis
    using transaction_data_roundtrip [of small_bee ?d "[]" "[9]"] by (simp add: Let_def)
qed

end
