(* ===== verification/Api_Paging.thy ===== *)
theory Api_Paging
  imports Selects
begin

text \<open>
  Paged queries of the API (\<^verbatim>\<open>page_filtered\<close> in \<^verbatim>\<open>chronicle-api/src/listener/rocket_event_loop.rs\<close>): the
  rows of a key are spread over partitions, one per chunk of milestones; a page walks the partitions
  in turn, chunk by chunk, and leaves a state from which the client asks for the next page.

  The outcome of each query (the events its worker receives) is a parameter. The walk has no bound of
  its own in the code, so it takes fuel, one unit per iteration of either of its loops, and has no
  outcome when that runs out. The timing and debug output is left out.
\<close>

section \<open>Errors and queries\<close>

datatype listener_error =
    NoResults
  | NoResponseError
  | IndexTooLarge
  | InvalidHex
  | InvalidKeyspace string
  | InvalidState
  | NotFound
  | BadParse string
  | OtherError string

type_synonym 'a listener_result = "listener_error + 'a"

definition error_status :: "listener_error \<Rightarrow> nat" where
  "error_status e =
     (case e of
        NoResults \<Rightarrow> 404
      | InvalidKeyspace k \<Rightarrow> 404
      | IndexTooLarge \<Rightarrow> 400
      | InvalidHex \<Rightarrow> 400
      | BadParse m \<Rightarrow> 400
      | _ \<Rightarrow> 500)"

text \<open>\<^verbatim>\<open>query\<close>: the first event of the worker decides; a closed channel without one is no response.\<close>

datatype 'v query_outcome = NotBuilt string | Events "(string + 'v option) list"

definition query :: "'v query_outcome \<Rightarrow> 'v listener_result" where
  "query q =
     (case q of
        NotBuilt e \<Rightarrow> Inl (OtherError e)
      | Events [] \<Rightarrow> Inl NoResponseError
      | Events (Inl e # evs) \<Rightarrow> Inl (OtherError e)
      | Events (Inr None # evs) \<Rightarrow> Inl NoResults
      | Events (Inr (Some v) # evs) \<Rightarrow> Inr v)"

section \<open>The state of a paged query\<close>

record state_data =
  sd_paging_state :: "u8 list option"
  sd_last_partition_id :: "u16 option"
  sd_last_milestone_index :: "u32 option"
  sd_partition_ids :: "(u32 \<times> u16) list"

definition new_state_data :: "(u32 \<times> u16) list \<Rightarrow> state_data" where
  "new_state_data ids =
     \<lparr>sd_paging_state = None, sd_last_partition_id = None, sd_last_milestone_index = None, sd_partition_ids = ids\<rparr>"

text \<open>\<^verbatim>\<open>max_by_key\<close> gives the last of the highest.\<close>

fun max_by_index :: "(u32 \<times> u16) list \<Rightarrow> (u32 \<times> u16) option" where
  "max_by_index [] = None"
| "max_by_index (x # xs) = (case max_by_index xs of None \<Rightarrow> Some x | Some y \<Rightarrow> Some (if fst y < fst x then x else y))"

text \<open>The partitions start with that of the latest milestone.\<close>

definition reorder :: "u16 \<Rightarrow> (u32 \<times> u16) list \<Rightarrow> (u32 \<times> u16) list" where
  "reorder p ids =
     (let i = length (takeWhile (\<lambda>(mi, q). q \<noteq> p) ids) in if i < length ids then drop i ids @ take i ids else ids)"

text \<open>The latest milestone and the state a walk starts with, from the client or from the hints.\<close>

definition start_paging ::
  "(u32 \<times> u16) list listener_result \<Rightarrow> state_data option \<Rightarrow> (u32 \<times> state_data) listener_result" where
  "start_paging hints prev =
     (case prev of
        Some st \<Rightarrow>
          (case sd_partition_ids st of
             [] \<Rightarrow> Inl InvalidState
           | x # xs \<Rightarrow>
               Inr (case sd_last_milestone_index st of Some mi \<Rightarrow> mi | None \<Rightarrow> fst x, st))
      | None \<Rightarrow>
          (case hints of
             Inl e \<Rightarrow> Inl e
           | Inr ids \<Rightarrow>
               (case max_by_index ids of
                  None \<Rightarrow> Inl NoResults
                | Some (mi, p) \<Rightarrow> Inr (mi, new_state_data (reorder p ids)))))"

section \<open>The walk\<close>

type_synonym 'v page = "'v partitioned list \<times> u8 list option"

record 'v page_env =
  pg_query :: "u16 \<Rightarrow> u32 \<Rightarrow> u32 \<Rightarrow> u8 list option \<Rightarrow> 'v page query_outcome"
  pg_filter :: "'v partitioned \<Rightarrow> bool"
  pg_size :: usize
  pg_chunk :: u32
  pg_latest :: u32
  pg_ids :: "(u32 \<times> u16) list"
  pg_prev_partition :: "u16 option"
  pg_prev_paging :: "u8 list option"

record 'v walk =
  wk_results :: "'v partitioned list"
  wk_depleted :: "u16 list"
  wk_last :: "(u16, u32) hmap"
  wk_lists :: "(u16, 'v page) hmap"

text \<open>A panic (index out of bounds, division by zero) or the answer with the state left for the client.\<close>

type_synonym 'v page_outcome = "('v partitioned list \<times> state_data option) listener_result option"

datatype ('w, 'r) move = Continue 'w | Break 'w | Stop 'r

definition row_ms :: "'v partitioned \<Rightarrow> u32" where
  "row_ms r = pt_milestone_index (pd_partition r)"

text \<open>The state as the walk leaves it: what it took out of the client's state is gone.\<close>

definition left_state :: "'v page_env \<Rightarrow> state_data" where
  "left_state env = new_state_data (pg_ids env)"

definition run_query :: "'v page_env \<Rightarrow> u16 \<Rightarrow> u32 \<Rightarrow> u8 list option \<Rightarrow> 'v page listener_result" where
  "run_query env p sz st =
     (case query (pg_query env p (pg_latest env) sz st) of
        Inl e \<Rightarrow> Inl e
      | Inr (rows, st') \<Rightarrow> Inr (filter (pg_filter env) rows, st'))"

text \<open>The first query of a partition resumes the client's paging state if that is of this partition.\<close>

definition first_paging :: "'v page_env \<Rightarrow> u16 \<Rightarrow> u8 list option" where
  "first_paging env p =
     (case pg_prev_partition env of Some q \<Rightarrow> (if p = q then pg_prev_paging env else None) | None \<Rightarrow> None)"

fun fetch_lists :: "'v page_env \<Rightarrow> u16 list \<Rightarrow> (u16, 'v page) hmap \<Rightarrow> (u16, 'v page) hmap listener_result" where
  "fetch_lists env [] ls = Inr ls"
| "fetch_lists env (p # ps) ls =
     (case run_query env p (ucast (pg_size env)) (first_paging env p) of
        Inl e \<Rightarrow> Inl e
      | Inr pg \<Rightarrow> fetch_lists env ps (hm_insert p pg ls))"

text \<open>One iteration of the inner loop, which pulls the records of the partition's chunk.\<close>

definition gather_step :: "'v page_env \<Rightarrow> u16 \<Rightarrow> 'v walk \<Rightarrow> ('v walk, 'v page_outcome) move" where
  "gather_step env p s =
     (case hm_get (wk_lists s) p of
        None \<Rightarrow> Stop (Some (Inl (OtherError ''Unexpected error retrieving list by partition!'')))
      | Some (r # rows, ps) \<Rightarrow>
          (case hm_get (wk_last s) p of
             None \<Rightarrow> Stop None
           | Some li \<Rightarrow>
               (if pg_chunk env = 0 then Stop None
                else if row_ms r div pg_chunk env = li div pg_chunk env then
                  (if unat (pg_size env) \<le> length (wk_results s) then
                     (if li = row_ms r
                      then Continue (s\<lparr>wk_results := wk_results s @ [r], wk_lists := hm_insert p (rows, ps) (wk_lists s)\<rparr>)
                      else Stop (Some (Inr (wk_results s, Some ((left_state env)
                             \<lparr>sd_last_partition_id := Some p, sd_last_milestone_index := Some (row_ms r)\<rparr>)))))
                   else Continue (s\<lparr>wk_results := wk_results s @ [r], wk_lists := hm_insert p (rows, ps) (wk_lists s),
                          wk_last := hm_insert p (row_ms r) (wk_last s)\<rparr>))
                else Break (s\<lparr>wk_last := hm_insert p (row_ms r) (wk_last s)\<rparr>)))
      | Some ([], ps) \<Rightarrow>
          (if unat (pg_size env) \<le> length (wk_results s)
           then Stop (Some (Inr (wk_results s, Some ((left_state env)
                  \<lparr>sd_paging_state := ps, sd_last_partition_id := Some p, sd_last_milestone_index := Some (pg_latest env)\<rparr>))))
           else (case ps of
                   Some st \<Rightarrow>
                     (case run_query env p (ucast (pg_size env - of_nat (length (wk_results s)))) (Some st) of
                        Inl e \<Rightarrow> Stop (Some (Inl e))
                      | Inr pg \<Rightarrow> Continue (s\<lparr>wk_lists := hm_insert p pg (wk_lists s)\<rparr>))
                 | None \<Rightarrow> Break (s\<lparr>wk_depleted := List.insert p (wk_depleted s)\<rparr>))))"

text \<open>
  One iteration of the outer loop, up to its inner loop: a break skips the partition. The loop
  fetches two partitions at a time.
\<close>

definition visit_step :: "'v page_env \<Rightarrow> nat \<Rightarrow> 'v walk \<Rightarrow> ('v walk, 'v page_outcome) move" where
  "visit_step env k s =
     (let (mi, p) = pg_ids env ! k;
          s = s\<lparr>wk_last := hm_or_insert p mi (wk_last s)\<rparr>
      in if length (wk_depleted s) = length (pg_ids env) then Stop (Some (Inr (wk_results s, None)))
         else if p \<in> set (wk_depleted s) then Break s
         else if hm_contains (wk_lists s) p then Continue s
         else (case fetch_lists env (map snd (take 2 (drop k (pg_ids env)))) (wk_lists s) of
                 Inl e \<Rightarrow> Stop (Some (Inl e))
               | Inr ls \<Rightarrow> Continue (s\<lparr>wk_lists := ls\<rparr>)))"

text \<open>The loops: \<open>inner\<close> tells in which one the walk is, \<open>k\<close> at which partition.\<close>

fun walk_loop :: "'v page_env \<Rightarrow> nat \<Rightarrow> bool \<Rightarrow> nat \<Rightarrow> 'v walk \<Rightarrow> 'v page_outcome option" where
  "walk_loop env 0 inner k s = None"
| "walk_loop env (Suc fuel) inner k s =
     (if inner
      then (case gather_step env (snd (pg_ids env ! k)) s of
              Continue s \<Rightarrow> walk_loop env fuel True k s
            | Break s \<Rightarrow> walk_loop env fuel False (Suc k mod length (pg_ids env)) s
            | Stop r \<Rightarrow> Some r)
      else (case visit_step env k s of
              Continue s \<Rightarrow> walk_loop env fuel True k s
            | Break s \<Rightarrow> walk_loop env fuel False (Suc k mod length (pg_ids env)) s
            | Stop r \<Rightarrow> Some r))"

definition start_walk :: "u32 \<Rightarrow> state_data \<Rightarrow> 'v walk" where
  "start_walk latest st =
     \<lparr>wk_results = [], wk_depleted = [],
      wk_last = [(snd (hd (sd_partition_ids st)), case sd_last_milestone_index st of Some mi \<Rightarrow> mi | None \<Rightarrow> latest)],
      wk_lists = []\<rparr>"

definition page_env_of ::
  "(u16 \<Rightarrow> u32 \<Rightarrow> u32 \<Rightarrow> u8 list option \<Rightarrow> 'v page query_outcome) \<Rightarrow> usize \<Rightarrow> partition_config \<Rightarrow> ('v partitioned \<Rightarrow> bool)
     \<Rightarrow> u32 \<Rightarrow> state_data \<Rightarrow> 'v page_env" where
  "page_env_of q sz pc flt latest st =
     \<lparr>pg_query = q, pg_filter = flt, pg_size = sz, pg_chunk = pc_milestone_chunk_size pc, pg_latest = latest,
      pg_ids = sd_partition_ids st, pg_prev_partition = sd_last_partition_id st, pg_prev_paging = sd_paging_state st\<rparr>"

definition page_filtered ::
  "(u16 \<Rightarrow> u32 \<Rightarrow> u32 \<Rightarrow> u8 list option \<Rightarrow> 'v page query_outcome) \<Rightarrow> (u32 \<times> u16) list query_outcome \<Rightarrow> usize \<Rightarrow> partition_config
     \<Rightarrow> ('v partitioned \<Rightarrow> bool) \<Rightarrow> state_data option \<Rightarrow> nat \<Rightarrow> 'v page_outcome option" where
  "page_filtered q hints sz pc flt prev fuel =
     (case start_paging (query hints) prev of
        Inl e \<Rightarrow> Some (Some (Inl e))
      | Inr (latest, st) \<Rightarrow> walk_loop (page_env_of q sz pc flt latest st) fuel False 0 (start_walk latest st))"

text \<open>\<^verbatim>\<open>page\<close>: without a filter.\<close>

definition page ::
  "(u16 \<Rightarrow> u32 \<Rightarrow> u32 \<Rightarrow> u8 list option \<Rightarrow> 'v page query_outcome) \<Rightarrow> (u32 \<times> u16) list query_outcome \<Rightarrow> usize \<Rightarrow> partition_config
     \<Rightarrow> state_data option \<Rightarrow> nat \<Rightarrow> 'v page_outcome option" where
  "page q hints sz pc prev fuel = page_filtered q hints sz pc (\<lambda>r. True) prev fuel"

section \<open>A walk ends\<close>

text \<open>
  A database that serves the pages of each partition: \<open>rest p st\<close> is what is still to come from a
  paging state, and every page brings the partition closer to its end.
\<close>

definition serves ::
  "'v page_env \<Rightarrow> (u16 \<Rightarrow> u8 list option \<Rightarrow> 'v partitioned list) \<Rightarrow> (u16 \<Rightarrow> u8 list option \<Rightarrow> nat) \<Rightarrow> bool" where
  "serves env rest cnt \<longleftrightarrow>
     (\<forall>p n st. \<exists>rows st'. query (pg_query env p (pg_latest env) n st) = Inr (rows, st') \<and>
        rest p st = rows @ (case st' of None \<Rightarrow> [] | Some x \<Rightarrow> rest p (Some x)) \<and> (st' \<noteq> None \<longrightarrow> cnt p st' < cnt p st))"

abbreviation pids :: "'v page_env \<Rightarrow> u16 list" where
  "pids env \<equiv> map snd (pg_ids env)"

text \<open>What a page and its paging state still hold.\<close>

definition held :: "'v page_env \<Rightarrow> (u16 \<Rightarrow> u8 list option \<Rightarrow> 'v partitioned list) \<Rightarrow> u16 \<Rightarrow> 'v page \<Rightarrow> 'v partitioned list" where
  "held env rest p pg = fst pg @ (case snd pg of None \<Rightarrow> [] | Some x \<Rightarrow> filter (pg_filter env) (rest p (Some x)))"

definition unread ::
  "'v page_env \<Rightarrow> (u16 \<Rightarrow> u8 list option \<Rightarrow> 'v partitioned list) \<Rightarrow> 'v walk \<Rightarrow> u16 \<Rightarrow> 'v partitioned list" where
  "unread env rest s p =
     (case hm_get (wk_lists s) p of
        None \<Rightarrow> filter (pg_filter env) (rest p (first_paging env p))
      | Some pg \<Rightarrow> held env rest p pg)"

definition pages_left :: "'v page_env \<Rightarrow> (u16 \<Rightarrow> u8 list option \<Rightarrow> nat) \<Rightarrow> 'v walk \<Rightarrow> u16 \<Rightarrow> nat" where
  "pages_left env cnt s p =
     (case hm_get (wk_lists s) p of
        None \<Rightarrow> Suc (Suc (cnt p (first_paging env p)))
      | Some pg \<Rightarrow> (case snd pg of None \<Rightarrow> 0 | Some x \<Rightarrow> Suc (cnt p (Some x))))"

text \<open>Whether the next visit only moves the partition on to its next chunk.\<close>

definition mismatch :: "'v page_env \<Rightarrow> 'v walk \<Rightarrow> u16 \<Rightarrow> nat" where
  "mismatch env s p =
     (case hm_get (wk_lists s) p of
        Some (r # rows, st) \<Rightarrow>
          (case hm_get (wk_last s) p of
             Some li \<Rightarrow> (if row_ms r div pg_chunk env = li div pg_chunk env then 0 else 1)
           | None \<Rightarrow> 1)
      | Some ([], st) \<Rightarrow> 0
      | None \<Rightarrow> 1)"

definition effort ::
  "'v page_env \<Rightarrow> (u16 \<Rightarrow> u8 list option \<Rightarrow> 'v partitioned list) \<Rightarrow> (u16 \<Rightarrow> u8 list option \<Rightarrow> nat) \<Rightarrow> 'v walk \<Rightarrow> u16 \<Rightarrow> nat" where
  "effort env rest cnt s p =
     (if p \<in> set (wk_depleted s) then 0
      else 1 + 2 * length (unread env rest s p) + 2 * pages_left env cnt s p + mismatch env s p)"

definition total_effort ::
  "'v page_env \<Rightarrow> (u16 \<Rightarrow> u8 list option \<Rightarrow> 'v partitioned list) \<Rightarrow> (u16 \<Rightarrow> u8 list option \<Rightarrow> nat) \<Rightarrow> 'v walk \<Rightarrow> nat" where
  "total_effort env rest cnt s = (\<Sum>p\<in>set (pids env). effort env rest cnt s p)"

text \<open>All the rows that the walk is after.\<close>

definition all_rows :: "'v page_env \<Rightarrow> (u16 \<Rightarrow> u8 list option \<Rightarrow> 'v partitioned list) \<Rightarrow> 'v partitioned multiset" where
  "all_rows env rest = (\<Sum>p\<in>set (pids env). mset (filter (pg_filter env) (rest p (first_paging env p))))"

definition walk_inv :: "'v page_env \<Rightarrow> (u16 \<Rightarrow> u8 list option \<Rightarrow> 'v partitioned list) \<Rightarrow> 'v walk \<Rightarrow> bool" where
  "walk_inv env rest s \<longleftrightarrow>
     distinct (wk_depleted s) \<and> set (wk_depleted s) \<subseteq> hm_keys (wk_lists s) \<and> hm_keys (wk_lists s) \<subseteq> set (pids env) \<and>
     (\<forall>p\<in>set (wk_depleted s). unread env rest s p = []) \<and>
     mset (wk_results s) + (\<Sum>p\<in>set (pids env). mset (unread env rest s p)) = all_rows env rest"

text \<open>Which partitions have been fetched, in pairs, before and after a visit of the \<open>k\<close>th.\<close>

definition fetched :: "'v page_env \<Rightarrow> nat \<Rightarrow> 'v walk \<Rightarrow> bool" where
  "fetched env m s \<longleftrightarrow> hm_keys (wk_lists s) = set (pids env) \<or> hm_keys (wk_lists s) = set (take (2 * (m div 2)) (pids env))"

definition outer_inv :: "'v page_env \<Rightarrow> (u16 \<Rightarrow> u8 list option \<Rightarrow> 'v partitioned list) \<Rightarrow> nat \<Rightarrow> 'v walk \<Rightarrow> bool" where
  "outer_inv env rest k s \<longleftrightarrow> walk_inv env rest s \<and> k < length (pids env) \<and> fetched env (Suc k) s"

definition inner_inv :: "'v page_env \<Rightarrow> (u16 \<Rightarrow> u8 list option \<Rightarrow> 'v partitioned list) \<Rightarrow> nat \<Rightarrow> 'v walk \<Rightarrow> bool" where
  "inner_inv env rest k s \<longleftrightarrow> walk_inv env rest s \<and> k < length (pids env) \<and> fetched env (k + 2) s \<and>
     pids env ! k \<in> hm_keys (wk_lists s) \<and> pids env ! k \<notin> set (wk_depleted s) \<and> hm_get (wk_last s) (pids env ! k) \<noteq> None"

text \<open>What a page may be: rows of the partitions, none twice, and all of them when no state is left.\<close>

definition good_page :: "'v page_env \<Rightarrow> (u16 \<Rightarrow> u8 list option \<Rightarrow> 'v partitioned list) \<Rightarrow> 'v page_outcome \<Rightarrow> bool" where
  "good_page env rest out \<longleftrightarrow>
     (case out of
        Some (Inr (rows, st)) \<Rightarrow> mset rows \<subseteq># all_rows env rest \<and> (if st = None then mset rows = all_rows env rest else True)
      | _ \<Rightarrow> False)"

lemma run_query_serves:
  assumes "serves env rest cnt"
  shows "\<exists>pg. run_query env p n st = Inr pg \<and> filter (pg_filter env) (rest p st) = held env rest p pg \<and>
    (case snd pg of None \<Rightarrow> True | Some x \<Rightarrow> cnt p (Some x) < cnt p st)"
proof -
  obtain rows st' where q: "query (pg_query env p (pg_latest env) n st) = Inr (rows, st')"
    "rest p st = rows @ (case st' of None \<Rightarrow> [] | Some x \<Rightarrow> rest p (Some x))" "st' \<noteq> None \<longrightarrow> cnt p st' < cnt p st"
    using assms unfolding serves_def by meson
  show ?thesis
    by (rule exI [of _ "(filter (pg_filter env) rows, st')"])
       (use q in \<open>auto simp: run_query_def held_def split: option.splits\<close>)
qed

lemma sum_change:
  fixes f g :: "'a \<Rightarrow> 'b::comm_monoid_add"
  assumes "finite A" "p \<in> A" "\<And>q. q \<in> A \<Longrightarrow> q \<noteq> p \<Longrightarrow> g q = f q"
  shows "sum g A + f p = sum f A + g p"
proof -
  have "sum g (A - {p}) = sum f (A - {p})" using assms(3) by (intro sum.cong) auto
  then show ?thesis using sum.remove [OF assms(1,2), of f] sum.remove [OF assms(1,2), of g]
    by (simp add: add.commute add.left_commute)
qed

text \<open>A step that touches one partition only.\<close>

definition only_at :: "u16 \<Rightarrow> 'v walk \<Rightarrow> 'v walk \<Rightarrow> bool" where
  "only_at p s s' \<longleftrightarrow> (\<forall>q. q \<noteq> p \<longrightarrow>
     hm_get (wk_lists s') q = hm_get (wk_lists s) q \<and> hm_get (wk_last s') q = hm_get (wk_last s) q \<and>
     (q \<in> set (wk_depleted s') \<longleftrightarrow> q \<in> set (wk_depleted s)))"

lemma only_at_same:
  assumes "only_at p s s'" and "q \<noteq> p"
  shows "unread env rest s' q = unread env rest s q" "effort env rest cnt s' q = effort env rest cnt s q"
proof -
  have q: "hm_get (wk_lists s') q = hm_get (wk_lists s) q" "hm_get (wk_last s') q = hm_get (wk_last s) q"
    "q \<in> set (wk_depleted s') \<longleftrightarrow> q \<in> set (wk_depleted s)"
    using assms by (simp_all add: only_at_def)
  show u: "unread env rest s' q = unread env rest s q" unfolding unread_def q(1) ..
  show "effort env rest cnt s' q = effort env rest cnt s q"
    unfolding effort_def pages_left_def mismatch_def u q ..
qed

lemma effort_less:
  assumes "only_at p s s'" and "p \<in> set (pids env)" and "effort env rest cnt s' p < effort env rest cnt s p"
  shows "total_effort env rest cnt s' < total_effort env rest cnt s"
proof -
  have "total_effort env rest cnt s' + effort env rest cnt s p = total_effort env rest cnt s + effort env rest cnt s' p"
    unfolding total_effort_def using only_at_same(2) [OF assms(1)] assms(2) by (intro sum_change) auto
  with assms(3) show ?thesis by simp
qed

lemma walk_inv_at:
  assumes "only_at p s s'" and "p \<in> set (pids env)" and "walk_inv env rest s"
    and "mset (wk_results s') + mset (unread env rest s' p) = mset (wk_results s) + mset (unread env rest s p)"
    and "distinct (wk_depleted s')" and "p \<in> hm_keys (wk_lists s)" "p \<in> hm_keys (wk_lists s')"
    and "p \<in> set (wk_depleted s') \<Longrightarrow> unread env rest s' p = []"
  shows "walk_inv env rest s' \<and> hm_keys (wk_lists s') = hm_keys (wk_lists s)"
proof -
  have k: "q \<in> hm_keys (wk_lists s') \<longleftrightarrow> q \<in> hm_keys (wk_lists s)" for q
    using assms(1,6,7) by (cases "q = p") (auto simp: only_at_def hm_keys_dom dom_def)
  then have keys: "hm_keys (wk_lists s') = hm_keys (wk_lists s)" by blast
  have u: "(\<Sum>q\<in>set (pids env). mset (unread env rest s' q)) + mset (unread env rest s p) =
      (\<Sum>q\<in>set (pids env). mset (unread env rest s q)) + mset (unread env rest s' p)"
    using only_at_same(1) [OF assms(1)] assms(2) by (intro sum_change) auto
  have alg: "R' + U' = T" if "R' + x' = R + x" "U' + x = U + x'" "R + U = T" for R R' U U' T x x' :: "'a partitioned multiset"
  proof -
    have "R' + U' + x = R' + (U + x')" using that(2) by (simp add: add.assoc)
    also have "\<dots> = R + x + U" using that(1) by (metis add.assoc add.commute)
    also have "\<dots> = T + x" using that(3) by (metis add.assoc add.commute)
    finally show ?thesis by simp
  qed
  have "mset (wk_results s') + (\<Sum>q\<in>set (pids env). mset (unread env rest s' q)) = all_rows env rest"
    by (rule alg [OF assms(4) u]) (use assms(3) in \<open>simp add: walk_inv_def\<close>)
  moreover have "q \<in> set (wk_depleted s') \<Longrightarrow> q \<in> hm_keys (wk_lists s') \<and> unread env rest s' q = []" for q
    using assms(1,3,7,8) only_at_same(1) [OF assms(1)] keys
    by (cases "q = p") (auto simp: only_at_def walk_inv_def subset_iff)
  ultimately show ?thesis using assms(3,5) keys by (auto simp: walk_inv_def)
qed

lemma update_at:
  "only_at p s (s\<lparr>wk_lists := hm_insert p pg (wk_lists s)\<rparr>)"
  "only_at p s (s\<lparr>wk_results := rs, wk_lists := hm_insert p pg (wk_lists s)\<rparr>)"
  "only_at p s (s\<lparr>wk_results := rs, wk_lists := hm_insert p pg (wk_lists s), wk_last := hm_insert p mi (wk_last s)\<rparr>)"
  "only_at p s (s\<lparr>wk_last := hm_insert p mi (wk_last s)\<rparr>)"
  "only_at p s (s\<lparr>wk_depleted := List.insert p (wk_depleted s)\<rparr>)"
  by (simp_all add: only_at_def)

lemma fetched_keys: "hm_keys (wk_lists s') = hm_keys (wk_lists s) \<Longrightarrow> fetched env m s' = fetched env m s"
  by (simp add: fetched_def)

text \<open>After a visit of the \<open>k\<close>th partition, the next is visited with the partitions fetched that it expects.\<close>

lemma next_fetched:
  assumes "fetched env (k + 2) s" and "k < length (pids env)"
  shows "fetched env (Suc (Suc k mod length (pids env))) s"
proof (cases "Suc k = length (pids env)")
  case True
  then have "length (pids env) \<le> 2 * ((k + 2) div 2)" by simp
  then have "take (2 * ((k + 2) div 2)) (pids env) = pids env" by simp
  with assms(1) show ?thesis unfolding fetched_def by simp
next
  case False
  then show ?thesis using assms by simp
qed

lemma pages_left_known: "hm_get (wk_lists s) p = Some (rows, st) \<Longrightarrow>
  pages_left env cnt s p = (case st of None \<Rightarrow> 0 | Some x \<Rightarrow> Suc (cnt p (Some x)))"
  by (simp add: pages_left_def)

lemma unread_known: "hm_get (wk_lists s) p = Some pg \<Longrightarrow> unread env rest s p = held env rest p pg"
  by (simp add: unread_def)

lemma effort_known: "p \<notin> set (wk_depleted s) \<Longrightarrow> hm_get (wk_lists s) p = Some (rows, st) \<Longrightarrow>
  effort env rest cnt s p = 1 + 2 * length (held env rest p (rows, st)) +
    2 * (case st of None \<Rightarrow> 0 | Some x \<Rightarrow> Suc (cnt p (Some x))) + mismatch env s p"
  by (simp add: effort_def unread_known pages_left_known)

lemma mismatch_bound: "mismatch env s p \<le> 1"
  by (auto simp: mismatch_def split: option.splits list.splits)

lemma held_Cons [simp]: "held env rest p (r # rows, st) = r # held env rest p (rows, st)"
  by (simp add: held_def)

definition inner_ok where
  "inner_ok env rest cnt k s m \<longleftrightarrow>
     (case m of
        Continue s' \<Rightarrow> inner_inv env rest k s' \<and> total_effort env rest cnt s' < total_effort env rest cnt s
      | Break s' \<Rightarrow> outer_inv env rest (Suc k mod length (pids env)) s' \<and> total_effort env rest cnt s' < total_effort env rest cnt s
      | Stop out \<Rightarrow> good_page env rest out)"

lemma results_sub: "walk_inv env rest s \<Longrightarrow> mset (wk_results s) \<subseteq># all_rows env rest"
  by (metis mset_subset_eq_add_left walk_inv_def)

lemma gather_ok:
  assumes "serves env rest cnt" and "inner_inv env rest k s" and "pg_chunk env \<noteq> 0"
  shows "inner_ok env rest cnt k s (gather_step env (pids env ! k) s)"
proof -
  let ?p = "pids env ! k"
  have inv: "walk_inv env rest s" "k < length (pids env)" "fetched env (k + 2) s" "?p \<in> hm_keys (wk_lists s)"
    "?p \<notin> set (wk_depleted s)"
    using assms(2) unfolding inner_inv_def by blast+
  obtain li where li: "hm_get (wk_last s) ?p = Some li" using assms(2) by (auto simp: inner_inv_def)
  have p: "?p \<in> set (pids env)" using inv(2) by (rule nth_mem)
  obtain l st where l: "hm_get (wk_lists s) ?p = Some (l, st)" using inv(4) by (auto simp: hm_keys_dom)
  have d: "distinct (wk_depleted s)" using inv(1) by (simp add: walk_inv_def)
  have cont: "inner_ok env rest cnt k s (Continue s')"
    if at: "only_at ?p s s'" and r: "mset (wk_results s') + mset (unread env rest s' ?p) = mset (wk_results s) + mset (unread env rest s ?p)"
      and dep: "wk_depleted s' = wk_depleted s" and key: "?p \<in> hm_keys (wk_lists s')" and lst: "hm_get (wk_last s') ?p \<noteq> None"
      and less: "effort env rest cnt s' ?p < effort env rest cnt s ?p" for s'
  proof -
    have "walk_inv env rest s' \<and> hm_keys (wk_lists s') = hm_keys (wk_lists s)"
      by (rule walk_inv_at [OF at p inv(1) r]) (use dep d inv(4,5) key in simp_all)
    then have w: "walk_inv env rest s'" and h: "hm_keys (wk_lists s') = hm_keys (wk_lists s)" by blast+
    then have "inner_inv env rest k s'"
      using fetched_keys [OF h] inv dep key lst by (simp only: inner_inv_def) simp
    then show ?thesis using effort_less [OF at p less] by (simp add: inner_ok_def)
  qed
  have brk: "inner_ok env rest cnt k s (Break s')"
    if at: "only_at ?p s s'" and r: "wk_results s' = wk_results s" "wk_lists s' = wk_lists s"
      and dep: "distinct (wk_depleted s')" "?p \<in> set (wk_depleted s') \<Longrightarrow> unread env rest s ?p = []"
      and less: "effort env rest cnt s' ?p < effort env rest cnt s ?p" for s'
  proof -
    have u: "unread env rest s' ?p = unread env rest s ?p" by (simp add: unread_def r(2))
    have "walk_inv env rest s' \<and> hm_keys (wk_lists s') = hm_keys (wk_lists s)"
      by (rule walk_inv_at [OF at p inv(1)]) (use r u dep inv(4) in simp_all)
    then have "outer_inv env rest (Suc k mod length (pids env)) s'"
      using next_fetched [OF inv(3,2)] fetched_keys [of s' s] inv(2) unfolding outer_inv_def
      by (metis gr_implies_not0 mod_less_divisor not_gr_zero)
    then show ?thesis using effort_less [OF at p less] by (simp add: inner_ok_def)
  qed
  show ?thesis
  proof (cases l)
    case (Cons r rows)
    note l = l [unfolded Cons]
    note eff = effort_known [OF inv(5) l]
    have pop: "inner_ok env rest cnt k s (Continue s')"
      if "wk_results s' = wk_results s @ [r]" "wk_lists s' = hm_insert ?p (rows, st) (wk_lists s)" "only_at ?p s s'"
        "wk_depleted s' = wk_depleted s" "hm_get (wk_last s') ?p \<noteq> None" for s'
    proof (rule cont [OF that(3) _ that(4) _ that(5)])
      have l': "hm_get (wk_lists s') ?p = Some (rows, st)" by (simp add: that(2))
      show "mset (wk_results s') + mset (unread env rest s' ?p) = mset (wk_results s) + mset (unread env rest s ?p)"
        by (simp add: that(1) unread_known [OF l'] unread_known [OF l])
      show "?p \<in> hm_keys (wk_lists s')" by (simp add: that(2))
      have "?p \<notin> set (wk_depleted s')" using inv(5) that(4) by simp
      from effort_known [OF this l'] show "effort env rest cnt s' ?p < effort env rest cnt s ?p"
        using eff mismatch_bound [of env s' ?p] by simp
    qed
    show ?thesis
    proof (cases "row_ms r div pg_chunk env = li div pg_chunk env")
      case True
      then show ?thesis
        using l li assms(3) results_sub [OF inv(1)]
        by (auto simp: gather_step_def inner_ok_def [of _ _ _ _ _ "Stop _"] good_page_def update_at intro!: pop)
    next
      case False
      let ?s' = "s\<lparr>wk_last := hm_insert ?p (row_ms r) (wk_last s)\<rparr>"
      have "mismatch env ?s' ?p = 0" "mismatch env s ?p = 1" using l li False by (simp_all add: mismatch_def)
      then have "effort env rest cnt ?s' ?p < effort env rest cnt s ?p"
        using effort_known [OF inv(5) l, of env rest cnt] effort_known [of ?p ?s' "r # rows" st env rest cnt] inv(5) l by simp
      then have "inner_ok env rest cnt k s (Break ?s')"
        by (intro brk) (use update_at d inv(5) in simp_all)
      then show ?thesis using l li False assms(3) by (simp add: gather_step_def)
    qed
  next
    case Nil
    note l = l [unfolded Nil]
    note eff = effort_known [OF inv(5) l]
    show ?thesis
    proof (cases "unat (pg_size env) \<le> length (wk_results s)")
      case True
      then show ?thesis using l results_sub [OF inv(1)] by (simp add: gather_step_def inner_ok_def good_page_def)
    next
      case more: False
      show ?thesis
      proof (cases st)
        case None
        let ?s' = "s\<lparr>wk_depleted := List.insert ?p (wk_depleted s)\<rparr>"
        have u: "unread env rest s ?p = []" using l None by (simp add: unread_def held_def)
        have "effort env rest cnt ?s' ?p < effort env rest cnt s ?p" using eff by (simp add: effort_def)
        then have "inner_ok env rest cnt k s (Break ?s')"
          by (intro brk) (use update_at d u in simp_all)
        then show ?thesis using l more None by (simp add: gather_step_def)
      next
        case (Some x)
        obtain pg where pg: "run_query env ?p (ucast (pg_size env - of_nat (length (wk_results s)))) (Some x) = Inr pg"
          "filter (pg_filter env) (rest ?p (Some x)) = held env rest ?p pg"
          "case snd pg of None \<Rightarrow> True | Some y \<Rightarrow> cnt ?p (Some y) < cnt ?p (Some x)"
          using run_query_serves [OF assms(1)] by blast
        obtain rows st' where pg': "pg = (rows, st')" by fastforce
        let ?s' = "s\<lparr>wk_lists := hm_insert ?p pg (wk_lists s)\<rparr>"
        have l': "hm_get (wk_lists ?s') ?p = Some (rows, st')" by (simp add: pg')
        have h: "held env rest ?p ([], st) = held env rest ?p pg" using pg(2) Some by (simp add: held_def)
        have "effort env rest cnt ?s' ?p < effort env rest cnt s ?p"
          using effort_known [OF _ l', of env rest cnt] eff h pg(3) mismatch_bound [of env ?s' ?p] inv(5)
          by (auto simp: Some pg' split: option.splits)
        then have "inner_ok env rest cnt k s (Continue ?s')"
          by (intro cont) (use update_at h li unread_known [OF l] unread_known [OF l'] pg' in simp_all)
        then show ?thesis using l more Some pg(1) by (simp add: gather_step_def)
      qed
    qed
  qed
qed

section \<open>Visits\<close>

lemma fetch_lists_ok:
  assumes "serves env rest cnt" and "distinct qs"
  shows "\<exists>ls'. fetch_lists env qs ls = Inr ls' \<and> hm_keys ls' = hm_keys ls \<union> set qs \<and>
    (\<forall>q. q \<notin> set qs \<longrightarrow> hm_get ls' q = hm_get ls q) \<and>
    (\<forall>q\<in>set qs. \<exists>pg. hm_get ls' q = Some pg \<and> filter (pg_filter env) (rest q (first_paging env q)) = held env rest q pg \<and>
       (case snd pg of None \<Rightarrow> True | Some x \<Rightarrow> cnt q (Some x) < cnt q (first_paging env q)))"
  using assms(2)
proof (induction qs arbitrary: ls)
  case (Cons q qs)
  obtain pg where pg: "run_query env q (ucast (pg_size env)) (first_paging env q) = Inr pg"
    "filter (pg_filter env) (rest q (first_paging env q)) = held env rest q pg"
    "case snd pg of None \<Rightarrow> True | Some x \<Rightarrow> cnt q (Some x) < cnt q (first_paging env q)"
    using run_query_serves [OF assms(1)] by blast
  obtain ls' where ls': "fetch_lists env qs (hm_insert q pg ls) = Inr ls'"
    "hm_keys ls' = hm_keys (hm_insert q pg ls) \<union> set qs"
    "\<And>r. r \<notin> set qs \<Longrightarrow> hm_get ls' r = hm_get (hm_insert q pg ls) r"
    "\<And>r. r \<in> set qs \<Longrightarrow> \<exists>pg. hm_get ls' r = Some pg \<and> filter (pg_filter env) (rest r (first_paging env r)) = held env rest r pg \<and>
       (case snd pg of None \<Rightarrow> True | Some x \<Rightarrow> cnt r (Some x) < cnt r (first_paging env r))"
    using Cons.IH [of "hm_insert q pg ls"] Cons.prems by auto
  have "q \<notin> set qs" using Cons.prems by simp
  then have "hm_get ls' q = Some pg" using ls'(3) by simp
  then have "\<forall>r\<in>set (q # qs). \<exists>pg. hm_get ls' r = Some pg \<and> filter (pg_filter env) (rest r (first_paging env r)) = held env rest r pg \<and>
       (case snd pg of None \<Rightarrow> True | Some x \<Rightarrow> cnt r (Some x) < cnt r (first_paging env r))"
    using ls'(4) pg(2,3) by (metis set_ConsD)
  then show ?case
    using ls'(1,2,3) pg(1) by (intro exI [of _ ls']) (simp del: split_paired_Ex)
qed simp

lemma mismatch_or_insert: "mismatch env (s\<lparr>wk_last := hm_or_insert p mi (wk_last s)\<rparr>) q \<le> mismatch env s q"
  by (auto simp: mismatch_def split: option.splits list.splits)

definition outer_ok where
  "outer_ok env rest cnt k s m \<longleftrightarrow>
     (case m of
        Continue s' \<Rightarrow> inner_inv env rest k s' \<and> total_effort env rest cnt s' \<le> total_effort env rest cnt s
      | Break s' \<Rightarrow> outer_inv env rest (Suc k mod length (pids env)) s' \<and> total_effort env rest cnt s' \<le> total_effort env rest cnt s \<and>
          wk_depleted s' = wk_depleted s \<and> pids env ! k \<in> set (wk_depleted s) \<and> \<not> set (pids env) \<subseteq> set (wk_depleted s)
      | Stop out \<Rightarrow> good_page env rest out)"

lemma walk_inv_last: "walk_inv env rest (s\<lparr>wk_last := l\<rparr>) = walk_inv env rest s"
  by (simp add: walk_inv_def unread_def)

lemma fetched_last: "fetched env m (s\<lparr>wk_last := l\<rparr>) = fetched env m s"
  by (simp add: fetched_def)

lemma effort_last: "effort env rest cnt (s\<lparr>wk_last := hm_or_insert p mi (wk_last s)\<rparr>) q \<le> effort env rest cnt s q"
  using mismatch_or_insert [where env = env and s = s and p = p and mi = mi and q = q] by (simp add: effort_def unread_def pages_left_def)

text \<open>A partition that is already fetched was fetched with its pair.\<close>

lemma fetched_known:
  assumes "fetched env (Suc k) s" and "pids env ! k \<in> hm_keys (wk_lists s)" and "k < length (pids env)" and "distinct (pids env)"
  shows "fetched env (k + 2) s"
proof (cases "even k")
  case True
  have "pids env ! k \<notin> set (take k (pids env))"
    using assms(3,4) by (metis drop_eq_Nil hd_drop_conv_nth hd_in_set disjoint_iff not_less set_take_disj_set_drop_if_distinct order_refl)
  then show ?thesis using assms(1,2) True by (auto simp: fetched_def)
next
  case False
  then have "2 * (Suc k div 2) = 2 * ((k + 2) div 2)" by presburger
  then show ?thesis using assms(1) by (simp add: fetched_def)
qed

lemma fetched_unknown:
  assumes "fetched env (Suc k) s" and "pids env ! k \<notin> hm_keys (wk_lists s)" and "k < length (pids env)"
  shows "even k" and "hm_keys (wk_lists s) = set (take k (pids env))"
proof -
  have p: "pids env ! k \<in> set (pids env)" using assms(3) by (rule nth_mem)
  have keys: "hm_keys (wk_lists s) = set (take (2 * (Suc k div 2)) (pids env))"
    using assms(1,2) p unfolding fetched_def by blast
  show "even k"
  proof (rule ccontr)
    assume "odd k"
    then have "2 * (Suc k div 2) = Suc k" by presburger
    then show False using keys assms(2,3) by (simp add: take_Suc_conv_app_nth)
  qed
  then have "2 * (Suc k div 2) = k" by presburger
  with keys show "hm_keys (wk_lists s) = set (take k (pids env))" by simp
qed

lemma all_depleted:
  assumes "walk_inv env rest s" and "distinct (pids env)" and "length (wk_depleted s) = length (pids env)"
  shows "mset (wk_results s) = all_rows env rest"
proof -
  have "set (wk_depleted s) \<subseteq> set (pids env)" "distinct (wk_depleted s)" using assms(1) by (auto simp: walk_inv_def)
  then have "set (wk_depleted s) = set (pids env)"
    using assms(2,3) by (metis List.finite_set card_subset_eq distinct_card)
  then have "(\<Sum>p\<in>set (pids env). mset (unread env rest s p)) = 0"
    using assms(1) by (intro sum.neutral) (auto simp: walk_inv_def)
  then show ?thesis using assms(1) by (simp add: walk_inv_def)
qed

lemma nth_in_pair: "k < length xs \<Longrightarrow> xs ! k \<in> set (take 2 (drop k xs))"
  by (cases "drop k xs") (auto simp flip: hd_drop_conv_nth)

lemma visit_ok:
  assumes "serves env rest cnt" and "outer_inv env rest k s" and "distinct (pids env)"
  shows "outer_ok env rest cnt k s (visit_step env k s)"
proof -
  let ?p = "pids env ! k"
  have inv: "walk_inv env rest s" "k < length (pids env)" "fetched env (Suc k) s"
    using assms(2) unfolding outer_inv_def by blast+
  have n: "length (pg_ids env) = length (pids env)" by simp
  obtain mi where mi: "pg_ids env ! k = (mi, ?p)" using inv(2) by (cases "pg_ids env ! k") simp
  define s1 where "s1 = s\<lparr>wk_last := hm_or_insert ?p mi (wk_last s)\<rparr>"
  have s1: "walk_inv env rest s1" "fetched env m s1 = fetched env m s" "hm_get (wk_last s1) ?p \<noteq> None"
    "wk_depleted s1 = wk_depleted s" "wk_lists s1 = wk_lists s" "wk_results s1 = wk_results s" for m
    using inv(1) by (simp_all add: s1_def walk_inv_last fetched_last)
  have eff: "total_effort env rest cnt s1 \<le> total_effort env rest cnt s"
    unfolding total_effort_def s1_def by (rule sum_mono) (rule effort_last)
  have step: "visit_step env k s =
     (if length (wk_depleted s1) = length (pids env) then Stop (Some (Inr (wk_results s1, None)))
      else if ?p \<in> set (wk_depleted s1) then Break s1
      else if hm_contains (wk_lists s1) ?p then Continue s1
      else (case fetch_lists env (map snd (take 2 (drop k (pg_ids env)))) (wk_lists s1) of
              Inl e \<Rightarrow> Stop (Some (Inl e))
            | Inr ls \<Rightarrow> Continue (s1\<lparr>wk_lists := ls\<rparr>)))"
    by (simp add: visit_step_def mi s1_def split: sum.splits)
  consider (all) "length (wk_depleted s1) = length (pids env)"
    | (skip) "length (wk_depleted s1) \<noteq> length (pids env)" "?p \<in> set (wk_depleted s1)"
    | (known) "length (wk_depleted s1) \<noteq> length (pids env)" "?p \<notin> set (wk_depleted s1)" "?p \<in> hm_keys (wk_lists s1)"
    | (unknown) "length (wk_depleted s1) \<noteq> length (pids env)" "?p \<notin> set (wk_depleted s1)" "?p \<notin> hm_keys (wk_lists s1)"
    by blast
  then show ?thesis
  proof cases
    case all
    then show ?thesis using all_depleted [OF s1(1) assms(3) all] by (simp add: step outer_ok_def good_page_def)
  next
    case skip
    have key: "?p \<in> hm_keys (wk_lists s)" using skip(2) s1 by (auto simp: walk_inv_def)
    have "fetched env (Suc (Suc k mod length (pids env))) s1"
      using next_fetched [OF fetched_known [OF inv(3) key inv(2) assms(3)] inv(2)] s1(2) by blast
    moreover have "Suc k mod length (pids env) < length (pids env)" using inv(2) by (intro mod_less_divisor) linarith
    ultimately have "outer_inv env rest (Suc k mod length (pids env)) s1" using s1(1) unfolding outer_inv_def by blast
    moreover have "\<not> set (pids env) \<subseteq> set (wk_depleted s)"
    proof
      assume "set (pids env) \<subseteq> set (wk_depleted s)"
      moreover have "set (wk_depleted s) \<subseteq> set (pids env)" "distinct (wk_depleted s)" using inv(1) by (auto simp: walk_inv_def)
      ultimately have "length (wk_depleted s) = length (pids env)"
        using assms(3) by (metis distinct_card subset_antisym)
      then show False using skip(1) s1(4) by simp
    qed
    moreover have "visit_step env k s = Break s1" using skip unfolding step by (simp only: if_False if_True)
    ultimately show ?thesis using eff s1(4) skip(2) unfolding outer_ok_def by (simp only: move.case) simp
  next
    case known
    have "fetched env (k + 2) s1" using fetched_known [OF inv(3) _ inv(2) assms(3)] known(3) s1 by auto
    then have "inner_inv env rest k s1"
      using s1(1,3) known inv(2) unfolding inner_inv_def by blast
    moreover have "visit_step env k s = Continue s1"
      using known unfolding step hm_contains_keys by (simp only: if_False if_True)
    ultimately show ?thesis using eff by (simp add: outer_ok_def)
  next
    case unknown
    let ?qs = "take 2 (drop k (pids env))"
    have ev: "even k" and keys: "hm_keys (wk_lists s1) = set (take k (pids env))"
      using fetched_unknown [OF inv(3) _ inv(2)] unknown(3) s1(5) by simp_all
    have dq: "distinct ?qs" using assms(3) by simp
    have disj: "q \<notin> hm_keys (wk_lists s1)" if "q \<in> set ?qs" for q
      using that set_take_disj_set_drop_if_distinct [OF assms(3), of k k] keys by (auto dest: in_set_takeD)
    obtain ls where ls: "fetch_lists env ?qs (wk_lists s1) = Inr ls" "hm_keys ls = hm_keys (wk_lists s1) \<union> set ?qs"
      "\<And>q. q \<notin> set ?qs \<Longrightarrow> hm_get ls q = hm_get (wk_lists s1) q"
      "\<And>q. q \<in> set ?qs \<Longrightarrow> \<exists>pg. hm_get ls q = Some pg \<and> filter (pg_filter env) (rest q (first_paging env q)) = held env rest q pg \<and>
       (case snd pg of None \<Rightarrow> True | Some x \<Rightarrow> cnt q (Some x) < cnt q (first_paging env q))"
      using fetch_lists_ok [OF assms(1) dq, of "wk_lists s1"] by auto
    let ?s2 = "s1\<lparr>wk_lists := ls\<rparr>"
    have fresh: "hm_get (wk_lists s1) q = None" if "q \<in> set ?qs" for q
      using disj [OF that] by (simp add: map_of_eq_None_iff)
    have unr: "unread env rest ?s2 q = unread env rest s1 q" for q
    proof (cases "q \<in> set ?qs")
      case True
      obtain pg where "hm_get ls q = Some pg" "filter (pg_filter env) (rest q (first_paging env q)) = held env rest q pg"
        using ls(4) [OF True] by blast
      then show ?thesis using fresh [OF True] by (simp add: unread_def)
    qed (use ls(3) in \<open>simp add: unread_def\<close>)
    have pgs: "pages_left env cnt ?s2 q \<le> pages_left env cnt s1 q \<and> mismatch env ?s2 q \<le> mismatch env s1 q" for q
    proof (cases "q \<in> set ?qs")
      case True
      have "mismatch env s1 q = 1" using fresh [OF True] by (simp add: mismatch_def)
      moreover obtain pg where "hm_get ls q = Some pg" "case snd pg of None \<Rightarrow> True | Some x \<Rightarrow> cnt q (Some x) < cnt q (first_paging env q)"
        using ls(4) [OF True] by blast
      then have "pages_left env cnt ?s2 q \<le> pages_left env cnt s1 q"
        using fresh [OF True] by (cases "snd pg") (simp_all add: pages_left_def)
      ultimately show ?thesis using mismatch_bound [of env ?s2 q] by simp
    next
      case False
      have "pages_left env cnt ?s2 q = pages_left env cnt s1 q" using ls(3) [OF False] by (simp add: pages_left_def)
      moreover have "mismatch env ?s2 q = mismatch env s1 q"
        using ls(3) [OF False] by (simp add: mismatch_def split: option.splits list.splits)
      ultimately show ?thesis by simp
    qed
    have "effort env rest cnt ?s2 q \<le> effort env rest cnt s1 q" for q
      using pgs [of q] unr [of q] by (simp add: effort_def)
    then have eff2: "total_effort env rest cnt ?s2 \<le> total_effort env rest cnt s1"
      unfolding total_effort_def by (intro sum_mono) simp
    have sub: "set ?qs \<subseteq> set (pids env)" by (meson set_drop_subset set_take_subset subset_trans)
    have w2: "walk_inv env rest ?s2" using s1(1) ls(2) sub unr by (auto simp: walk_inv_def)
    have "?p \<in> set ?qs"
      using inv(2) by (rule nth_in_pair)
    moreover have "set (take (k + 2) (pids env)) = set (take k (pids env)) \<union> set ?qs"
      by (simp only: take_add set_append)
    moreover have "2 * ((k + 2) div 2) = k + 2" using ev by presburger
    ultimately have "fetched env (k + 2) ?s2" "?p \<in> hm_keys ls"
      using ls(2) keys by (simp_all add: fetched_def)
    then have "inner_inv env rest k ?s2"
      using w2 inv(2) unknown(2) s1(3) unfolding inner_inv_def by simp
    moreover have "visit_step env k s = Continue ?s2"
      using unknown ls(1) unfolding step hm_contains_keys by (simp only: if_False take_map drop_map sum.case)
    ultimately show ?thesis using eff eff2 by (simp add: outer_ok_def)
  qed
qed

section \<open>Pages\<close>

text \<open>Steps until a visit does more than skip a depleted partition.\<close>

definition skips :: "'v page_env \<Rightarrow> nat \<Rightarrow> 'v walk \<Rightarrow> nat" where
  "skips env k s = length (takeWhile (\<lambda>p. p \<in> set (wk_depleted s)) (rotate k (pids env)))"

lemma skips_bound: "skips env k s \<le> length (pids env)"
  unfolding skips_def by (metis length_rotate length_takeWhile_le)

lemma skips_less:
  assumes "k < length (pids env)" and "pids env ! k \<in> set (wk_depleted s)" and "\<not> set (pids env) \<subseteq> set (wk_depleted s)"
    and "wk_depleted s' = wk_depleted s"
  shows "skips env (Suc k mod length (pids env)) s' < skips env k s"
proof -
  have r: "rotate k (pids env) = pids env ! k # (drop (Suc k) (pids env) @ take k (pids env))"
    unfolding rotate_drop_take mod_less [OF assms(1)] Cons_nth_drop_Suc [OF assms(1), symmetric] by (rule append_Cons)
  have "\<not> set (drop (Suc k) (pids env) @ take k (pids env)) \<subseteq> set (wk_depleted s)"
    using assms(2,3) r by (metis insert_subset list.set(2) set_rotate)
  then obtain x where x: "x \<in> set (drop (Suc k) (pids env) @ take k (pids env))" "x \<notin> set (wk_depleted s)" by blast
  have "rotate (Suc k mod length (pids env)) (pids env) = rotate1 (rotate k (pids env))"
    by (metis rotate_Suc rotate_conv_mod)
  also have "\<dots> = (drop (Suc k) (pids env) @ take k (pids env)) @ [pids env ! k]" by (simp add: r)
  finally have "skips env (Suc k mod length (pids env)) s' =
      length (takeWhile (\<lambda>p. p \<in> set (wk_depleted s)) (drop (Suc k) (pids env) @ take k (pids env)))"
    using takeWhile_append1 [OF x(1), of "\<lambda>p. p \<in> set (wk_depleted s)"] x(2) assms(4) by (simp add: skips_def)
  then show ?thesis using assms(2) by (simp add: skips_def r)
qed

definition walk_measure where
  "walk_measure env rest cnt inner k s =
     total_effort env rest cnt s * (length (pids env) + 2) + (if inner then 0 else Suc (skips env k s))"

lemma measure_less:
  "total_effort env rest cnt s' < total_effort env rest cnt s \<Longrightarrow> walk_measure env rest cnt i' k' s' < walk_measure env rest cnt i k s"
proof -
  assume "total_effort env rest cnt s' < total_effort env rest cnt s"
  then have "Suc (total_effort env rest cnt s') * (length (pids env) + 2) \<le> total_effort env rest cnt s * (length (pids env) + 2)"
    by (intro mult_le_mono1) simp
  then show ?thesis using skips_bound [of env k' s'] by (simp add: walk_measure_def)
qed

lemma measure_skip:
  "total_effort env rest cnt s' \<le> total_effort env rest cnt s \<Longrightarrow> skips env k' s' < skips env k s \<Longrightarrow>
     walk_measure env rest cnt False k' s' < walk_measure env rest cnt False k s"
  unfolding walk_measure_def by (intro add_le_less_mono mult_le_mono1) simp_all

lemma measure_enter:
  "total_effort env rest cnt s' \<le> total_effort env rest cnt s \<Longrightarrow> walk_measure env rest cnt True k s' < walk_measure env rest cnt False k s"
  unfolding walk_measure_def by (intro add_le_less_mono mult_le_mono1) simp_all

lemma walk_ends:
  assumes "serves env rest cnt" and "distinct (pids env)" and "pg_chunk env \<noteq> 0"
    and "if inner then inner_inv env rest k s else outer_inv env rest k s"
  shows "\<exists>fuel out. walk_loop env fuel inner k s = Some out \<and> good_page env rest out"
  using assms(4)
proof (induction "walk_measure env rest cnt inner k s" arbitrary: inner k s rule: less_induct)
  case less
  have k: "k < length (pids env)" "snd (pg_ids env ! k) = pids env ! k"
    using less.prems by (auto simp: inner_inv_def outer_inv_def split: if_splits)
  have step: ?case
    if "walk_loop env (Suc fuel) inner k s = walk_loop env fuel i' k' s'" "walk_measure env rest cnt i' k' s' < walk_measure env rest cnt inner k s"
      "if i' then inner_inv env rest k' s' else outer_inv env rest k' s'" "\<And>fuel. walk_loop env (Suc fuel) inner k s = walk_loop env fuel i' k' s'"
    for fuel i' k' s'
    using less.hyps [OF that(2,3)] that(4) by metis
  show ?case
  proof (cases inner)
    case True
    then have ok: "inner_ok env rest cnt k s (gather_step env (pids env ! k) s)"
      using gather_ok [OF assms(1) _ assms(3)] less.prems by simp
    show ?thesis
    proof (cases "gather_step env (pids env ! k) s")
      case (Continue s')
      then show ?thesis using ok True k measure_less [of env rest cnt s' s]
        by (intro step [of 0 True k s']) (simp_all add: inner_ok_def)
    next
      case (Break s')
      then show ?thesis using ok True k measure_less [of env rest cnt s' s]
        by (intro step [of 0 False "Suc k mod length (pids env)" s']) (simp_all add: inner_ok_def)
    next
      case (Stop out)
      have "walk_loop env 1 inner k s = Some out" using Stop True k by simp
      moreover have "good_page env rest out" using ok Stop by (simp add: inner_ok_def)
      ultimately show ?thesis by blast
    qed
  next
    case False
    then have ok: "outer_ok env rest cnt k s (visit_step env k s)"
      using visit_ok [OF assms(1) _ assms(2)] less.prems by simp
    show ?thesis
    proof (cases "visit_step env k s")
      case (Continue s')
      then show ?thesis using ok False measure_enter [of env rest cnt s' s]
        by (intro step [of 0 True k s']) (simp_all add: outer_ok_def)
    next
      case (Break s')
      then have b: "outer_inv env rest (Suc k mod length (pids env)) s'" "total_effort env rest cnt s' \<le> total_effort env rest cnt s"
        "skips env (Suc k mod length (pids env)) s' < skips env k s"
        using ok skips_less [OF k(1), of s s'] by (simp_all add: outer_ok_def)
      show ?thesis using Break b False measure_skip [OF b(2,3)]
        by (intro step [of 0 False "Suc k mod length (pids env)" s']) simp_all
    next
      case (Stop out)
      have "walk_loop env 1 inner k s = Some out" using Stop False by simp
      moreover have "good_page env rest out" using ok Stop by (simp add: outer_ok_def)
      ultimately show ?thesis by blast
    qed
  qed
qed

lemma walk_loop_more: "walk_loop env fuel inner k s = Some out \<Longrightarrow> walk_loop env (fuel + extra) inner k s = Some out"
proof (induction fuel arbitrary: inner k s)
  case (Suc fuel)
  then show ?case by (auto split: move.splits if_splits)
qed simp

lemma start_paging_ids:
  assumes "start_paging hints prev = Inr (latest, st)"
  shows "sd_partition_ids st \<noteq> []"
proof (cases prev)
  case None
  then obtain ids mi p where "hints = Inr ids" "max_by_index ids = Some (mi, p)" "st = new_state_data (reorder p ids)"
    using assms by (auto simp: start_paging_def split: sum.splits option.splits)
  moreover have "ids \<noteq> []" using calculation(2) by auto
  ultimately show ?thesis by (auto simp: new_state_data_def reorder_def Let_def)
qed (use assms in \<open>auto simp: start_paging_def split: list.splits\<close>)

text \<open>
  C29. A paged query ends: when the partitions are distinct and the database serves their pages, the
  walk gives a page, however the rows are spread and paged, and more fuel does not change it. The
  page holds rows of the partitions that pass the filter, none twice, and all of them when it leaves
  no state for a next page.
\<close>

theorem paging_ends:
  assumes "start_paging (query hints) prev = Inr (latest, st)" and "distinct (map snd (sd_partition_ids st))"
    and "pc_milestone_chunk_size pc \<noteq> 0" and "serves (page_env_of q sz pc flt latest st) rest cnt"
  shows "\<exists>fuel out. good_page (page_env_of q sz pc flt latest st) rest out \<and>
    (\<forall>extra. page_filtered q hints sz pc flt prev (fuel + extra) = Some out)"
proof -
  let ?env = "page_env_of q sz pc flt latest st"
  have ids: "pg_ids ?env = sd_partition_ids st" "pg_chunk ?env = pc_milestone_chunk_size pc"
    by (simp_all add: page_env_of_def)
  have "walk_inv ?env rest (start_walk latest st)"
    by (simp add: walk_inv_def start_walk_def unread_def all_rows_def)
  then have "outer_inv ?env rest 0 (start_walk latest st)"
    using start_paging_ids [OF assms(1)] by (simp add: outer_inv_def ids fetched_def start_walk_def)
  then obtain fuel out where f: "walk_loop ?env fuel False 0 (start_walk latest st) = Some out" "good_page ?env rest out"
    using walk_ends [OF assms(4), of False 0 "start_walk latest st"] assms(2,3) ids by auto
  then have "page_filtered q hints sz pc flt prev (fuel + extra) = Some out" for extra
    using walk_loop_more [OF f(1)] assms(1) by (simp add: page_filtered_def)
  with f(2) show ?thesis by blast
qed

text \<open>Two partitions whose rows come one at a time.\<close>

definition row_at :: "u32 \<Rightarrow> u16 \<Rightarrow> nat partitioned" where
  "row_at mi p = new_partitioned 0 p mi"

definition one_by_one :: "u16 \<Rightarrow> u32 \<Rightarrow> u32 \<Rightarrow> u8 list option \<Rightarrow> nat page query_outcome" where
  "one_by_one p mi n st = Events [Inr (Some (case st of None \<Rightarrow> ([row_at 9 p], Some [1]) | Some x \<Rightarrow> ([row_at 8 p], None)))]"

theorem paging_ends_witness:
  "\<exists>fuel out. good_page (page_env_of one_by_one 1 default_partition_config (\<lambda>r. True) 9 (new_state_data [(9, 1), (5, 0)]))
      (\<lambda>p st. case st of None \<Rightarrow> [row_at 9 p, row_at 8 p] | Some x \<Rightarrow> [row_at 8 p]) out \<and>
    (\<forall>extra. page_filtered one_by_one (NotBuilt ''unused'') 1 default_partition_config (\<lambda>r. True)
       (Some (new_state_data [(9, 1), (5, 0)])) (fuel + extra) = Some out)"
proof (rule paging_ends)
  show "start_paging (query (NotBuilt ''unused'')) (Some (new_state_data [(9, 1), (5, 0)])) = Inr (9, new_state_data [(9, 1), (5, 0)])"
    by (simp add: start_paging_def new_state_data_def)
  show "distinct (map snd (sd_partition_ids (new_state_data [(9, 1), (5, 0)])))" by (simp add: new_state_data_def)
  show "pc_milestone_chunk_size default_partition_config \<noteq> 0" by (simp add: default_partition_config_def)
  show "serves (page_env_of one_by_one 1 default_partition_config (\<lambda>r. True) 9 (new_state_data [(9, 1), (5, 0)]))
      (\<lambda>p st. case st of None \<Rightarrow> [row_at 9 p, row_at 8 p] | Some x \<Rightarrow> [row_at 8 p])
      (\<lambda>p st. case st of None \<Rightarrow> 1 | Some x \<Rightarrow> 0)"
    by (auto simp: serves_def page_env_of_def one_by_one_def query_def split: option.splits)
qed

section \<open>Pages that repeat, and walks that do not end\<close>

lemma gather_whole_list:
  assumes "pg_ids env = [(m, p)]" "pg_chunk env \<noteq> 0" "pg_latest env = m"
    and "wk_results s = rows1" "hm_get (wk_lists s) p = Some (rows2, None)"
    and "hm_get (wk_last s) p = Some li" "li div pg_chunk env = m div pg_chunk env"
    and "length rows1 + length rows2 = unat (pg_size env)"
    and "list_all (\<lambda>r. row_ms r div pg_chunk env = m div pg_chunk env) rows2"
  shows "walk_loop env (Suc (length rows2)) True 0 s = Some (Some (Inr (rows1 @ rows2,
    Some ((new_state_data [(m, p)])\<lparr>sd_last_partition_id := Some p, sd_last_milestone_index := Some m\<rparr>))))"
  using assms(4-9)
proof (induction rows2 arbitrary: s rows1 li)
  case Nil
  then show ?case using assms(1-3) by (simp add: gather_step_def left_state_def new_state_data_def)
next
  case (Cons r rows2)
  let ?s' = "s\<lparr>wk_results := wk_results s @ [r], wk_lists := hm_insert p (rows2, None) (wk_lists s),
    wk_last := hm_insert p (row_ms r) (wk_last s)\<rparr>"
  have "gather_step env p s = Continue ?s'"
    using Cons.prems assms(2) by (simp add: gather_step_def)
  moreover have "walk_loop env (Suc (length rows2)) True 0 ?s' = Some (Some (Inr ((rows1 @ [r]) @ rows2,
    Some ((new_state_data [(m, p)])\<lparr>sd_last_partition_id := Some p, sd_last_milestone_index := Some m\<rparr>))))"
    by (rule Cons.IH [where li = "row_ms r"]) (use Cons.prems in simp_all)
  ultimately show ?case using assms(1) by simp
qed

lemma one_partition_page:
  assumes "sd_partition_ids st = [(m, p)]" and "sd_paging_state st = None" and "sd_last_milestone_index st \<in> {None, Some m}"
    and "pc_milestone_chunk_size pc \<noteq> 0" and "query (q p m (ucast sz) None) = Inr (rows, None)" and "length rows = unat sz"
    and "list_all (\<lambda>r. row_ms r div pc_milestone_chunk_size pc = m div pc_milestone_chunk_size pc) rows"
  shows "page q hints sz pc (Some st) (length rows + 2) = Some (Some (Inr (rows,
    Some ((new_state_data [(m, p)])\<lparr>sd_last_partition_id := Some p, sd_last_milestone_index := Some m\<rparr>))))"
proof -
  let ?env = "page_env_of q sz pc (\<lambda>r. True) m st"
  let ?s = "(start_walk m st)\<lparr>wk_lists := [(p, (rows, None))]\<rparr>"
  have li: "(case sd_last_milestone_index st of None \<Rightarrow> m | Some mi \<Rightarrow> mi) = m" using assms(3) by auto
  then have "start_paging (query hints) (Some st) = Inr (m, st)"
    using assms(1,3) by (auto simp: start_paging_def)
  moreover have "visit_step ?env 0 (start_walk m st) = Continue ?s"
    using assms(1,2,5) li
    by (simp add: visit_step_def page_env_of_def start_walk_def hm_contains_def run_query_def first_paging_def hm_or_insert_def
        split: option.splits)
  moreover have "walk_loop ?env (Suc (length rows)) True 0 ?s = Some (Some (Inr ([] @ rows,
    Some ((new_state_data [(m, p)])\<lparr>sd_last_partition_id := Some p, sd_last_milestone_index := Some m\<rparr>))))"
    by (rule gather_whole_list [where li = m]) (use assms li in \<open>simp_all add: page_env_of_def start_walk_def\<close>)
  ultimately show ?thesis by (simp add: page_def page_filtered_def)
qed

text \<open>
  C30. When the rows of a key fill a page exactly and the database announces no further page, the
  query gives them all and yet leaves a state, and with that state it gives the same rows and the
  same state again: a client that follows the states never ends.
\<close>

theorem exact_page_repeats:
  assumes "st = new_state_data [(m, p)]" and "pc_milestone_chunk_size pc \<noteq> 0"
    and "query (q p m (ucast sz) None) = Inr (rows, None)" and "length rows = unat sz"
    and "list_all (\<lambda>r. row_ms r div pc_milestone_chunk_size pc = m div pc_milestone_chunk_size pc) rows"
  shows "\<exists>st'. page q hints sz pc (Some st) (length rows + 2) = Some (Some (Inr (rows, Some st'))) \<and>
    page q hints sz pc (Some st') (length rows + 2) = Some (Some (Inr (rows, Some st')))"
proof -
  let ?st' = "(new_state_data [(m, p)])\<lparr>sd_last_partition_id := Some p, sd_last_milestone_index := Some m\<rparr>"
  have "page q hints sz pc (Some st) (length rows + 2) = Some (Some (Inr (rows, Some ?st')))"
    by (rule one_partition_page) (use assms in \<open>simp_all add: new_state_data_def\<close>)
  moreover have "page q hints sz pc (Some ?st') (length rows + 2) = Some (Some (Inr (rows, Some ?st')))"
    by (rule one_partition_page) (use assms in \<open>simp_all add: new_state_data_def\<close>)
  ultimately show ?thesis by blast
qed

lemma small_div: "(9 :: u32) div 8640 = 0" "(8 :: u32) div 8640 = 0"
  by code_simp+

theorem exact_page_repeats_witness:
  "\<exists>st'. page (\<lambda>p mi n st. Events [Inr (Some ([row_at 9 p, row_at 8 p], None))]) (NotBuilt ''unused'') 2 default_partition_config
      (Some (new_state_data [(9, 1)])) (length [row_at 9 1, row_at 8 1] + 2) = Some (Some (Inr ([row_at 9 1, row_at 8 1], Some st'))) \<and>
    page (\<lambda>p mi n st. Events [Inr (Some ([row_at 9 p, row_at 8 p], None))]) (NotBuilt ''unused'') 2 default_partition_config
      (Some st') (length [row_at 9 1, row_at 8 1] + 2) = Some (Some (Inr ([row_at 9 1, row_at 8 1], Some st')))"
  by (rule exact_page_repeats)
     (simp_all add: query_def default_partition_config_def row_at_def row_ms_def new_partitioned_def, simp_all add: small_div)

definition empty_inv :: "'v page_env \<Rightarrow> bool \<Rightarrow> nat \<Rightarrow> 'v walk \<Rightarrow> bool" where
  "empty_inv env inner k s \<longleftrightarrow> wk_results s = [] \<and> (\<forall>p. hm_get (wk_lists s) p \<in> {None, Some ([], None)}) \<and>
     distinct (wk_depleted s) \<and> set (wk_depleted s) \<subseteq> set (pids env) \<and> k < length (pids env) \<and>
     (inner \<longrightarrow> hm_get (wk_lists s) (pids env ! k) \<noteq> None)"

lemma fetch_lists_empty:
  assumes "\<And>p n st. query (pg_query env p (pg_latest env) n st) = Inr ([], None)"
  shows "\<exists>ls'. fetch_lists env qs ls = Inr ls' \<and> (\<forall>p. hm_get ls' p = (if p \<in> set qs then Some ([], None) else hm_get ls p))"
proof (induction qs arbitrary: ls)
  case (Cons q qs)
  have "run_query env q (ucast (pg_size env)) (first_paging env q) = Inr ([], None)" by (simp add: run_query_def assms)
  moreover obtain ls' where "fetch_lists env qs (hm_insert q ([], None) ls) = Inr ls'"
    "\<forall>p. hm_get ls' p = (if p \<in> set qs then Some ([], None) else hm_get (hm_insert q ([], None) ls) p)"
    using Cons.IH by blast
  ultimately show ?case by auto
qed simp

lemma empty_walk_hangs:
  assumes "\<And>p n st. query (pg_query env p (pg_latest env) n st) = Inr ([], None)"
    and "\<not> distinct (pids env)" and "pg_size env \<noteq> 0" and "empty_inv env inner k s"
  shows "walk_loop env fuel inner k s = None"
  using assms(4)
proof (induction fuel arbitrary: inner k s)
  case (Suc fuel)
  let ?p = "pids env ! k"
  have inv: "wk_results s = []" "\<And>p. hm_get (wk_lists s) p \<in> {None, Some ([], None)}" "distinct (wk_depleted s)"
    "set (wk_depleted s) \<subseteq> set (pids env)" "k < length (pids env)"
    using Suc.prems by (auto simp: empty_inv_def)
  have sz: "\<not> unat (pg_size env) \<le> 0" using assms(3) by (simp add: unat_eq_zero)
  have "card (set (wk_depleted s)) \<le> card (set (pids env))" using inv(4) by (intro card_mono) simp_all
  moreover have "card (set (pids env)) < length (pids env)" using assms(2) by (metis card_distinct card_length le_neq_implies_less)
  ultimately have dep: "length (wk_depleted s) < length (pg_ids env)" using inv(3) by (simp add: distinct_card)
  have nxt: "Suc k mod length (pg_ids env) < length (pg_ids env)" using inv(5) by (intro mod_less_divisor) (simp only: length_map; linarith)
  have p: "snd (pg_ids env ! k) = ?p" using inv(5) by simp
  show ?case
  proof (cases inner)
    case True
    then have "hm_get (wk_lists s) ?p \<noteq> None" using Suc.prems unfolding empty_inv_def by blast
    then have "hm_get (wk_lists s) ?p = Some ([], None)" using inv(2) [of ?p] by (metis insert_iff singletonD)
    then have "gather_step env ?p s = Break (s\<lparr>wk_depleted := List.insert ?p (wk_depleted s)\<rparr>)"
      using sz inv(1) by (simp add: gather_step_def)
    moreover have "empty_inv env False (Suc k mod length (pg_ids env)) (s\<lparr>wk_depleted := List.insert ?p (wk_depleted s)\<rparr>)"
      using inv nxt nth_mem [OF inv(5)] by (simp add: empty_inv_def)
    ultimately show ?thesis using True p Suc.IH by simp
  next
    case False
    obtain mi where mi: "pg_ids env ! k = (mi, ?p)" using inv(5) by (cases "pg_ids env ! k") simp
    define s1 where "s1 = s\<lparr>wk_last := hm_or_insert ?p mi (wk_last s)\<rparr>"
    obtain ls where ls: "fetch_lists env (map snd (take 2 (drop k (pg_ids env)))) (wk_lists s) = Inr ls"
      "\<And>p. hm_get ls p = (if p \<in> set (map snd (take 2 (drop k (pg_ids env)))) then Some ([], None) else hm_get (wk_lists s) p)"
      using fetch_lists_empty [OF assms(1), of "map snd (take 2 (drop k (pg_ids env)))" "wk_lists s"] by blast
    have "?p \<in> set (take 2 (drop k (pids env)))" by (rule nth_in_pair [OF inv(5)])
    then have "hm_get ls ?p = Some ([], None)" using ls(2) [of ?p] by (simp only: take_map drop_map if_True)
    moreover have "hm_get ls q \<in> {None, Some ([], None)}" for q unfolding ls(2) [of q] using inv(2) [of q] by simp
    ultimately have "empty_inv env True k (s1\<lparr>wk_lists := ls\<rparr>)"
      using inv unfolding empty_inv_def s1_def by simp
    moreover have "empty_inv env True k s1" if "hm_contains (wk_lists s) ?p"
      using inv that unfolding empty_inv_def s1_def hm_contains_def by simp
    moreover have "empty_inv env False (Suc k mod length (pg_ids env)) s1"
      using inv nxt unfolding empty_inv_def s1_def by simp
    moreover have "visit_step env k s = (if ?p \<in> set (wk_depleted s) then Break s1
        else if hm_contains (wk_lists s) ?p then Continue s1 else Continue (s1\<lparr>wk_lists := ls\<rparr>))"
      using dep ls(1) by (simp add: visit_step_def mi s1_def)
    ultimately show ?thesis using False Suc.IH by simp
  qed
qed simp

text \<open>
  C31. A client may hand in a state that names a partition twice. When the partitions hold nothing for
  its key, the walk then never ends: it counts depleted partitions once and waits for as many as the
  state names.
\<close>

theorem duplicate_partitions_hang:
  assumes "sd_partition_ids st \<noteq> []" and "\<not> distinct (map snd (sd_partition_ids st))" and "sz \<noteq> 0"
    and "\<And>p mi n ps. query (q p mi n ps) = Inr ([], None)"
  shows "page q hints sz pc (Some st) fuel = None"
proof -
  obtain latest where l: "start_paging (query hints) (Some st) = Inr (latest, st)"
    using assms(1) by (cases "sd_partition_ids st") (auto simp: start_paging_def)
  let ?env = "page_env_of q sz pc (\<lambda>r. True) latest st"
  have "walk_loop ?env fuel False 0 (start_walk latest st) = None"
    by (rule empty_walk_hangs) (use assms in \<open>simp_all add: page_env_of_def empty_inv_def start_walk_def\<close>)
  then show ?thesis using l by (simp add: page_def page_filtered_def)
qed

theorem duplicate_partitions_hang_witness:
  "page (\<lambda>p mi n ps. Events [Inr (Some ([] :: nat partitioned list, None))]) (NotBuilt ''unused'') 100 default_partition_config
     (Some (new_state_data [(9, 1), (9, 1)])) 1000 = None"
  by (rule duplicate_partitions_hang) (simp_all add: new_state_data_def query_def)

end
