(* ===== verification/Api_Listener.thy ===== *)
theory Api_Listener
  imports Api_Paging
begin

text \<open>
  The endpoints of the API (\<^verbatim>\<open>chronicle-api/src/listener/rocket_event_loop.rs\<close>) and their responses
  (\<^verbatim>\<open>responses.rs\<close>).

  The web framework, parsing of ids and hex text, the serialisation of the paging state and the
  outcomes of the queries are parameters. Ids appear in responses as values, not as their text, and
  a message, an input or an output as itself, not as the third-party transfer object made of it.
\<close>

section \<open>Responses\<close>

datatype record_id = MessageRef message_id | OutputRef output_id

record api_record =
  rc_id :: record_id
  rc_inclusion_state :: "ledger_inclusion_state option"
  rc_milestone_index :: u32

definition record_of_parent :: "parent_record partitioned \<Rightarrow> api_record" where
  "record_of_parent r = \<lparr>rc_id = MessageRef (pr_message_id (pd_inner r)), rc_inclusion_state = pr_inclusion_state (pd_inner r),
     rc_milestone_index = row_ms r\<rparr>"

definition record_of_index :: "indexation_record partitioned \<Rightarrow> api_record" where
  "record_of_index r = \<lparr>rc_id = MessageRef (ir_message_id (pd_inner r)), rc_inclusion_state = ir_inclusion_state (pd_inner r),
     rc_milestone_index = row_ms r\<rparr>"

text \<open>\<^verbatim>\<open>OutputId::new\<close> refuses an index out of the range of outputs.\<close>

definition output_id_of :: "(u16 \<Rightarrow> bool) \<Rightarrow> transaction_id \<Rightarrow> u16 \<Rightarrow> output_id option" where
  "output_id_of index_ok t k = (if index_ok k then Some \<lparr>oi_transaction_id = t, oi_index = k\<rparr> else None)"

definition record_of_address :: "(u16 \<Rightarrow> bool) \<Rightarrow> address_record partitioned \<Rightarrow> api_record option" where
  "record_of_address index_ok r =
     (case output_id_of index_ok (ad_transaction_id (pd_inner r)) (ad_index (pd_inner r)) of
        None \<Rightarrow> None
      | Some i \<Rightarrow> Some \<lparr>rc_id = OutputRef i, rc_inclusion_state = ad_inclusion_state (pd_inner r), rc_milestone_index = row_ms r\<rparr>)"

record api_transaction =
  tx_message_id :: message_id
  tx_milestone_index :: "u32 option"
  tx_outputs :: "(output_t \<times> message_id option) list"
  tx_inputs :: "input_t list"
  tx_inclusion_state :: "ledger_inclusion_state option"

definition maybe_spent_output :: "output_t \<times> unlock_res option \<Rightarrow> output_t \<times> message_id option" where
  "maybe_spent_output ou = (fst ou, map_option ur_message_id (snd ou))"

fun input_of_data :: "input_data \<Rightarrow> input_t" where
  "input_of_data (UtxoData i u) = Utxo i"
| "input_of_data (TreasuryData m) = TreasuryIn m"

definition transaction_of :: "transaction_res \<Rightarrow> api_transaction" where
  "transaction_of x =
     \<lparr>tx_message_id = xr_message_id x, tx_milestone_index = xr_milestone_index x,
      tx_outputs = map maybe_spent_output (xr_outputs x), tx_inputs = map input_of_data (xr_inputs x),
      tx_inclusion_state = xr_inclusion_state x\<rparr>"

datatype listener_response =
    R_Info string string bool
  | R_Message message
  | R_Metadata message_metadata
  | R_Children message_id usize nat "message_id list" "string option"
  | R_ChildrenExpanded message_id usize nat "api_record list" "string option"
  | R_Index string usize nat "message_id list" "string option"
  | R_IndexExpanded string usize nat "api_record list" "string option"
  | R_Outputs u8 string usize nat "output_id list" "string option"
  | R_OutputsExpanded u8 string usize nat "api_record list" "string option"
  | R_Output message_id transaction_id u16 bool output_t
  | R_Transaction api_transaction
  | R_Transactions "api_transaction list" "string option"
  | R_Milestone u32 message_id u64
  | R_Analytics "analytic_data list"
  | R_Sync sync_data

section \<open>The environment\<close>

record api_env =
  ae_keyspaces :: "string list"
  ae_partition_config :: partition_config
  ae_parse_message_id :: "string \<Rightarrow> message_id option"
  ae_parse_transaction_id :: "string \<Rightarrow> transaction_id option"
  ae_parse_address :: "string \<Rightarrow> ed25519_address option"
  ae_parse_output_id :: "string \<Rightarrow> output_id option"
  ae_id_string :: "256 word \<Rightarrow> string"
  ae_output_string :: "output_id \<Rightarrow> string"
  ae_hex_encode :: "string \<Rightarrow> string"
  ae_from_hex :: "string \<Rightarrow> u8 list option"
  ae_decode_state :: "string \<Rightarrow> state_data option"
  ae_encode_state :: "state_data \<Rightarrow> string option"
  ae_index_ok :: "u16 \<Rightarrow> bool"
  ae_transaction_id :: "payload \<Rightarrow> transaction_id"
  ae_hints :: "string \<Rightarrow> hint \<Rightarrow> (u32 \<times> u16) list query_outcome"
  ae_parents :: "string \<Rightarrow> message_id \<Rightarrow> u16 \<Rightarrow> u32 \<Rightarrow> u32 \<Rightarrow> u8 list option \<Rightarrow> parent_record page query_outcome"
  ae_indexes :: "string \<Rightarrow> string \<Rightarrow> u16 \<Rightarrow> u32 \<Rightarrow> u32 \<Rightarrow> u8 list option \<Rightarrow> indexation_record page query_outcome"
  ae_addresses :: "string \<Rightarrow> ed25519_address \<Rightarrow> u16 \<Rightarrow> u32 \<Rightarrow> u32 \<Rightarrow> u8 list option \<Rightarrow> address_record page query_outcome"
  ae_message :: "string \<Rightarrow> message_id \<Rightarrow> message query_outcome"
  ae_metadata :: "string \<Rightarrow> message_id \<Rightarrow> message_metadata query_outcome"
  ae_output :: "string \<Rightarrow> output_id \<Rightarrow> output_res query_outcome"
  ae_transaction :: "string \<Rightarrow> transaction_id \<Rightarrow> transaction_res query_outcome"
  ae_included_message :: "string \<Rightarrow> transaction_id \<Rightarrow> message_id query_outcome"
  ae_milestone :: "string \<Rightarrow> u32 \<Rightarrow> (message_id \<times> u64) query_outcome"

section \<open>Plain endpoints\<close>

text \<open>The checks and queries of an endpoint in sequence.\<close>

definition lbind :: "'a listener_result \<Rightarrow> ('a \<Rightarrow> 'b listener_result) \<Rightarrow> 'b listener_result" where
  "lbind r k = (case r of Inl e \<Rightarrow> Inl e | Inr x \<Rightarrow> k x)"

lemma lbind_simps [simp]: "lbind (Inl e) k = Inl e" "lbind (Inr x) k = k x"
  by (simp_all add: lbind_def)

definition check_keyspace :: "api_env \<Rightarrow> string \<Rightarrow> unit listener_result" where
  "check_keyspace env ks = (if ks \<in> set (ae_keyspaces env) then Inr () else Inl (InvalidKeyspace ks))"

definition parsed :: "'a option \<Rightarrow> 'a listener_result" where
  "parsed x = (case x of None \<Rightarrow> Inl (BadParse ''cannot parse'') | Some x \<Rightarrow> Inr x)"

text \<open>The health of the service and its microservices: degraded, in maintenance, stopped.\<close>

definition info :: "api_env \<Rightarrow> string \<Rightarrow> (bool \<times> bool \<times> bool) list \<Rightarrow> string \<Rightarrow> listener_response listener_result" where
  "info env version services ks =
     lbind (check_keyspace env ks) (\<lambda>_.
     Inr (R_Info ''Chronicle'' version (\<not> list_ex (\<lambda>(degraded, maintenance, stopped). degraded \<or> maintenance \<or> stopped) services)))"

definition get_message :: "api_env \<Rightarrow> string \<Rightarrow> string \<Rightarrow> listener_response listener_result" where
  "get_message env ks mid =
     lbind (check_keyspace env ks) (\<lambda>_.
     lbind (parsed (ae_parse_message_id env mid)) (\<lambda>i.
     lbind (query (ae_message env ks i)) (\<lambda>m. Inr (R_Message m))))"

definition get_message_metadata :: "api_env \<Rightarrow> string \<Rightarrow> string \<Rightarrow> listener_response listener_result" where
  "get_message_metadata env ks mid =
     lbind (check_keyspace env ks) (\<lambda>_.
     lbind (parsed (ae_parse_message_id env mid)) (\<lambda>i.
     lbind (query (ae_metadata env ks i)) (\<lambda>meta. Inr (R_Metadata meta))))"

text \<open>
  Whether an output is spent: the unlocks up to the first that is included are gone through; if there
  are any before it, the metadata of their messages decides.
\<close>

fun scan_unlocks :: "unlock_res list \<Rightarrow> bool \<times> message_id list" where
  "scan_unlocks [] = (False, [])"
| "scan_unlocks (u # us) =
     (if ur_inclusion_state u = Some Included then (True, [])
      else (case scan_unlocks us of (spent, ids) \<Rightarrow> (spent, ur_message_id u # ids)))"

definition included_message :: "api_env \<Rightarrow> string \<Rightarrow> message_id \<Rightarrow> bool" where
  "included_message env ks i =
     (case query (ae_metadata env ks i) of Inl e \<Rightarrow> False | Inr meta \<Rightarrow> md_inclusion_state meta = Some Included)"

definition is_spent :: "api_env \<Rightarrow> string \<Rightarrow> unlock_res list \<Rightarrow> bool" where
  "is_spent env ks us =
     (if us = [] then False
      else (case scan_unlocks us of (spent, ids) \<Rightarrow> if ids \<noteq> [] then list_ex (included_message env ks) ids else spent))"

definition get_output :: "api_env \<Rightarrow> string \<Rightarrow> string \<Rightarrow> listener_response listener_result" where
  "get_output env ks oid =
     lbind (check_keyspace env ks) (\<lambda>_.
     lbind (parsed (ae_parse_output_id env oid)) (\<lambda>i.
     lbind (query (ae_output env ks i)) (\<lambda>out.
     Inr (R_Output (or_message_id out) (oi_transaction_id i) (oi_index i) (is_spent env ks (or_unlock_blocks out)) (or_output out)))))"

definition get_output_by_transaction_id :: "api_env \<Rightarrow> string \<Rightarrow> string \<Rightarrow> u16 \<Rightarrow> listener_response listener_result" where
  "get_output_by_transaction_id env ks t k =
     lbind (parsed (Option.bind (ae_parse_transaction_id env t) (\<lambda>t. output_id_of (ae_index_ok env) t k)))
       (\<lambda>i. get_output env ks (ae_output_string env i))"

definition get_transaction_for_message :: "api_env \<Rightarrow> string \<Rightarrow> string \<Rightarrow> listener_response listener_result" where
  "get_transaction_for_message env ks mid =
     lbind (check_keyspace env ks) (\<lambda>_.
     lbind (parsed (ae_parse_message_id env mid)) (\<lambda>i.
     lbind (query (ae_message env ks i)) (\<lambda>m.
     case msg_payload m of
       Some (Transaction_P ins outs p ubs) \<Rightarrow>
         lbind (query (ae_transaction env ks (ae_transaction_id env (Transaction_P ins outs p ubs)))) (\<lambda>x.
         Inr (R_Transaction (transaction_of x)))
     | _ \<Rightarrow> Inl NoResults)))"

definition get_transaction_included_message :: "api_env \<Rightarrow> string \<Rightarrow> string \<Rightarrow> listener_response listener_result" where
  "get_transaction_included_message env ks t =
     lbind (check_keyspace env ks) (\<lambda>_.
     lbind (case ae_parse_transaction_id env t of None \<Rightarrow> Inl (OtherError ''cannot parse'') | Some t \<Rightarrow> Inr t) (\<lambda>t.
     lbind (query (ae_included_message env ks t)) (\<lambda>i.
     lbind (query (ae_message env ks i)) (\<lambda>m. Inr (R_Message m)))))"

definition get_milestone :: "api_env \<Rightarrow> string \<Rightarrow> u32 \<Rightarrow> listener_response listener_result" where
  "get_milestone env ks mi =
     lbind (check_keyspace env ks) (\<lambda>_.
     lbind (query (ae_milestone env ks mi)) (\<lambda>(i, t). Inr (R_Milestone mi i t)))"

text \<open>The endpoints that gather the sync and analytics tables, from what their pages bring.\<close>

fun other_error :: "failure \<Rightarrow> listener_error" where
  "other_error Panic = OtherError ''panic''"
| "other_error (Failed e) = OtherError e"

definition sync_endpoint ::
  "api_env \<Rightarrow> string \<Rightarrow> (u8 list option \<Rightarrow> failure option) \<Rightarrow> (failure + sync_page) list \<Rightarrow> listener_response listener_result option" where
  "sync_endpoint env ks build rx =
     (case check_keyspace env ks of
        Inl e \<Rightarrow> Some (Inl e)
      | Inr _ \<Rightarrow>
          map_option (\<lambda>r. case r of Inl e \<Rightarrow> Inl (other_error e) | Inr sd \<Rightarrow> Inr (R_Sync sd)) (try_fetch build default_sync_range rx))"

definition get_analytics ::
  "api_env \<Rightarrow> string \<Rightarrow> u32 option \<Rightarrow> u32 option
     \<Rightarrow> (u32_range \<Rightarrow> u8 list option \<Rightarrow> failure option) \<Rightarrow> (u32_range \<Rightarrow> (failure + analytic_page) list)
     \<Rightarrow> listener_response listener_result option" where
  "get_analytics env ks start_ms end_ms build rx =
     (case check_keyspace env ks of
        Inl e \<Rightarrow> Some (Inl e)
      | Inr _ \<Rightarrow>
          (let r = Range (case start_ms of None \<Rightarrow> 1 | Some s \<Rightarrow> s) (case end_ms of None \<Rightarrow> i32_max | Some e \<Rightarrow> e) in
           map_option (\<lambda>r. case r of Inl e \<Rightarrow> Inl (other_error e) | Inr ad \<Rightarrow> Inr (R_Analytics (analytics ad)))
             (fetch_analytics (build r) (rx r))))"

section \<open>Paged endpoints\<close>

text \<open>The client's paging state is text; a text that cannot be read is refused.\<close>

definition read_state :: "api_env \<Rightarrow> string option \<Rightarrow> state_data option listener_result" where
  "read_state env st =
     (case st of
        None \<Rightarrow> Inr None
      | Some t \<Rightarrow> (case ae_decode_state env t of None \<Rightarrow> Inl InvalidState | Some sd \<Rightarrow> Inr (Some sd)))"

definition write_state :: "api_env \<Rightarrow> state_data option \<Rightarrow> string option listener_result" where
  "write_state env st =
     (case st of
        None \<Rightarrow> Inr None
      | Some sd \<Rightarrow> (case ae_encode_state env sd of None \<Rightarrow> Inl (OtherError ''state'') | Some t \<Rightarrow> Inr (Some t)))"

text \<open>What follows a page, when the walk has an outcome that is not a panic.\<close>

definition with_page ::
  "api_env \<Rightarrow> 'v page_outcome option \<Rightarrow> ('v partitioned list \<Rightarrow> string option \<Rightarrow> listener_response listener_result)
     \<Rightarrow> listener_response listener_result option option" where
  "with_page env out k =
     map_option (map_option (\<lambda>r. lbind r (\<lambda>(rows, st). lbind (write_state env st) (k rows)))) out"

definition get_message_children ::
  "api_env \<Rightarrow> string \<Rightarrow> string \<Rightarrow> usize option \<Rightarrow> bool option \<Rightarrow> string option \<Rightarrow> nat \<Rightarrow> listener_response listener_result option option" where
  "get_message_children env ks mid page_size expanded st fuel =
     (case lbind (check_keyspace env ks) (\<lambda>_. lbind (parsed (ae_parse_message_id env mid)) (\<lambda>i.
             lbind (read_state env st) (\<lambda>sd. Inr (i, sd)))) of
        Inl e \<Rightarrow> Some (Some (Inl e))
      | Inr (i, sd) \<Rightarrow>
          (let n = (case page_size of None \<Rightarrow> 100 | Some n \<Rightarrow> n) in
           with_page env (page (ae_parents env ks i) (ae_hints env ks (parent_hint (ae_id_string env i))) n (ae_partition_config env) sd fuel)
             (\<lambda>rows st. Inr
               (if expanded = Some True
                then R_ChildrenExpanded i (2 * n) (length rows) (map record_of_parent rows) st
                else R_Children i (2 * n) (length rows) (map (\<lambda>r. pr_message_id (pd_inner r)) rows) st))))"

definition get_message_by_index ::
  "api_env \<Rightarrow> string \<Rightarrow> string \<Rightarrow> usize option \<Rightarrow> bool option \<Rightarrow> bool option \<Rightarrow> string option \<Rightarrow> nat
     \<Rightarrow> listener_response listener_result option option" where
  "get_message_by_index env ks index page_size utf8 expanded st fuel =
     (let t = (if utf8 = Some True then ae_hex_encode env index else index) in
      case lbind (check_keyspace env ks) (\<lambda>_.
           lbind (case ae_from_hex env t of
                    None \<Rightarrow> Inl InvalidHex
                  | Some bs \<Rightarrow> if 64 < length bs then Inl IndexTooLarge else Inr ()) (\<lambda>_.
           read_state env st)) of
        Inl e \<Rightarrow> Some (Some (Inl e))
      | Inr sd \<Rightarrow>
          (let n = (case page_size of None \<Rightarrow> 1000 | Some n \<Rightarrow> n) in
           with_page env (page (ae_indexes env ks t) (ae_hints env ks (index_hint t)) n (ae_partition_config env) sd fuel)
             (\<lambda>rows st. Inr
               (if expanded = Some True
                then R_IndexExpanded t (2 * n) (length rows) (map record_of_index rows) st
                else R_Index t (2 * n) (length rows) (map (\<lambda>r. ir_message_id (pd_inner r)) rows) st))))"

definition get_ed25519_outputs ::
  "api_env \<Rightarrow> string \<Rightarrow> string \<Rightarrow> usize option \<Rightarrow> bool option \<Rightarrow> string option \<Rightarrow> nat \<Rightarrow> listener_response listener_result option option" where
  "get_ed25519_outputs env ks addr page_size expanded st fuel =
     (case lbind (check_keyspace env ks) (\<lambda>_. lbind (read_state env st) (\<lambda>sd.
             lbind (parsed (ae_parse_address env addr)) (\<lambda>a. Inr (a, sd)))) of
        Inl e \<Rightarrow> Some (Some (Inl e))
      | Inr (a, sd) \<Rightarrow>
          (let n = (case page_size of None \<Rightarrow> 100 | Some n \<Rightarrow> n) in
           with_page env (page (ae_addresses env ks a) (ae_hints env ks (address_hint (ae_id_string env a))) n (ae_partition_config env) sd fuel)
             (\<lambda>rows st. Inr
               (if expanded = Some True
                then R_OutputsExpanded 1 addr (2 * n) (length rows) (List.map_filter (record_of_address (ae_index_ok env)) rows) st
                else R_Outputs 1 addr (2 * n) (length rows)
                  (List.map_filter (\<lambda>r. output_id_of (ae_index_ok env) (ad_transaction_id (pd_inner r)) (ad_index (pd_inner r))) rows) st))))"

text \<open>The transactions of a page of addresses; the first that cannot be had fails them all.\<close>

fun transactions_of :: "api_env \<Rightarrow> string \<Rightarrow> address_record partitioned list \<Rightarrow> api_transaction list listener_result" where
  "transactions_of env ks [] = Inr []"
| "transactions_of env ks (r # rows) =
     lbind (query (ae_transaction env ks (ad_transaction_id (pd_inner r)))) (\<lambda>x.
     lbind (transactions_of env ks rows) (\<lambda>xs. Inr (transaction_of x # xs)))"

definition ledger_filter :: "bool \<Rightarrow> bool \<Rightarrow> bool \<Rightarrow> address_record partitioned \<Rightarrow> bool" where
  "ledger_filter none included conflicting r \<longleftrightarrow>
     included \<and> ad_inclusion_state (pd_inner r) = Some Included \<or>
     conflicting \<and> ad_inclusion_state (pd_inner r) = Some Conflicting \<or>
     none \<and> ad_inclusion_state (pd_inner r) = None"

definition get_transactions_for_address ::
  "api_env \<Rightarrow> string \<Rightarrow> string \<Rightarrow> bool option \<Rightarrow> bool option \<Rightarrow> bool option \<Rightarrow> usize option \<Rightarrow> string option \<Rightarrow> nat
     \<Rightarrow> listener_response listener_result option option" where
  "get_transactions_for_address env ks addr ledger_none ledger_included ledger_conflicting page_size st fuel =
     (let none = (case ledger_none of None \<Rightarrow> True | Some b \<Rightarrow> b);
          included = (case ledger_included of None \<Rightarrow> True | Some b \<Rightarrow> b);
          conflicting = (case ledger_conflicting of None \<Rightarrow> True | Some b \<Rightarrow> b)
      in case lbind (check_keyspace env ks) (\<lambda>_.
              lbind (if \<not> none \<and> \<not> included \<and> \<not> conflicting then Inl NoResults else Inr ()) (\<lambda>_.
              lbind (read_state env st) (\<lambda>sd.
              lbind (parsed (ae_parse_address env addr)) (\<lambda>a. Inr (a, sd))))) of
           Inl e \<Rightarrow> Some (Some (Inl e))
         | Inr (a, sd) \<Rightarrow>
             (let n = (case page_size of None \<Rightarrow> 100 | Some n \<Rightarrow> n) in
              map_option (map_option (\<lambda>r.
                  lbind r (\<lambda>(rows, st). lbind (transactions_of env ks rows) (\<lambda>xs. lbind (write_state env st) (\<lambda>t. Inr (R_Transactions xs t))))))
                (page_filtered (ae_addresses env ks a) (ae_hints env ks (address_hint (ae_id_string env a))) n (ae_partition_config env)
                   (ledger_filter none included conflicting) sd fuel)))"

section \<open>Whether an output is spent\<close>

text \<open>What \<open>is_spent\<close> computes, without the scan.\<close>

lemma scan_unlocks_eq:
  "scan_unlocks us =
     (list_ex (\<lambda>u. ur_inclusion_state u = Some Included) us,
      map ur_message_id (takeWhile (\<lambda>u. ur_inclusion_state u \<noteq> Some Included) us))"
  by (induction us) auto

lemma is_spent_eq:
  "is_spent env ks us =
     (case us of
        [] \<Rightarrow> False
      | u # us' \<Rightarrow>
          (if ur_inclusion_state u = Some Included then True
           else list_ex (\<lambda>u. included_message env ks (ur_message_id u))
             (takeWhile (\<lambda>u. ur_inclusion_state u \<noteq> Some Included) us)))"
  by (cases us) (auto simp: is_spent_def scan_unlocks_eq list_ex_iff)

text \<open>
  C32. An output that a message of the ledger spends is answered as unspent when the row of another
  attempt to spend it comes first: the included unlock that ends the scan is overruled by the
  metadata of the messages before it.
\<close>

theorem spent_output_answered_unspent:
  assumes "ks \<in> set (ae_keyspaces env)" and "ae_parse_output_id env oid = Some i"
    and "query (ae_output env ks i) = Inr out" and "or_unlock_blocks out = us @ u # vs"
    and "ur_inclusion_state u = Some Included" and "us \<noteq> []"
    and "list_all (\<lambda>u. ur_inclusion_state u \<noteq> Some Included \<and> \<not> included_message env ks (ur_message_id u)) us"
  shows "get_output env ks oid = Inr (R_Output (or_message_id out) (oi_transaction_id i) (oi_index i) False (or_output out))"
proof -
  have "takeWhile (\<lambda>u. ur_inclusion_state u \<noteq> Some Included) (or_unlock_blocks out) = us"
    using assms(4,5,7) by (auto simp: takeWhile_tail list_all_iff)
  moreover obtain u' us' where "us = u' # us'" using assms(6) by (cases us) auto
  ultimately have "\<not> is_spent env ks (or_unlock_blocks out)"
    using assms(4,7) by (auto simp: is_spent_eq list_all_iff list_ex_iff split: list.splits)
  then show ?thesis using assms(1-3) by (simp add: get_output_def check_keyspace_def parsed_def)
qed

text \<open>An environment with one keyspace and no data, for concrete inputs.\<close>

definition empty_api :: "string \<Rightarrow> api_env" where
  "empty_api ks =
     \<lparr>ae_keyspaces = [ks], ae_partition_config = default_partition_config,
      ae_parse_message_id = (\<lambda>s. None), ae_parse_transaction_id = (\<lambda>s. None), ae_parse_address = (\<lambda>s. None),
      ae_parse_output_id = (\<lambda>s. None), ae_id_string = (\<lambda>i. []), ae_output_string = (\<lambda>i. []),
      ae_hex_encode = (\<lambda>s. s), ae_from_hex = (\<lambda>s. None), ae_decode_state = (\<lambda>s. None), ae_encode_state = (\<lambda>s. None),
      ae_index_ok = (\<lambda>i. i < 127), ae_transaction_id = (\<lambda>p. 0), ae_hints = (\<lambda>ks h. Events []),
      ae_parents = (\<lambda>ks i p mi n st. Events []), ae_indexes = (\<lambda>ks i p mi n st. Events []),
      ae_addresses = (\<lambda>ks i p mi n st. Events []), ae_message = (\<lambda>ks i. Events [Inr None]),
      ae_metadata = (\<lambda>ks i. Events [Inr None]), ae_output = (\<lambda>ks i. Events [Inr None]),
      ae_transaction = (\<lambda>ks i. Events [Inr None]), ae_included_message = (\<lambda>ks i. Events [Inr None]),
      ae_milestone = (\<lambda>ks i. Events [Inr None])\<rparr>"

theorem spent_output_answered_unspent_witness:
  "get_output
     ((empty_api ''permanode'')
        \<lparr>ae_parse_output_id := (\<lambda>s. Some \<lparr>oi_transaction_id = 7, oi_index = 1\<rparr>),
         ae_output := (\<lambda>ks i. Events [Inr (Some
           \<lparr>or_message_id = 3, or_output = TreasuryOut 5,
            or_unlock_blocks =
              [\<lparr>ur_message_id = 4, ur_block = [], ur_inclusion_state = Some Conflicting\<rparr>,
               \<lparr>ur_message_id = 6, ur_block = [], ur_inclusion_state = Some Included\<rparr>]\<rparr>)])\<rparr>)
     ''permanode'' ''output'' =
   Inr (R_Output 3 7 1 False (TreasuryOut 5))"
  by (subst spent_output_answered_unspent
      [where us = "[\<lparr>ur_message_id = 4, ur_block = [], ur_inclusion_state = Some Conflicting\<rparr>]" and vs = "[]"
        and u = "\<lparr>ur_message_id = 6, ur_block = [], ur_inclusion_state = Some Included\<rparr>"
        and i = "\<lparr>oi_transaction_id = 7, oi_index = 1\<rparr>"
        and out = "\<lparr>or_message_id = 3, or_output = TreasuryOut 5,
            or_unlock_blocks =
              [\<lparr>ur_message_id = 4, ur_block = [], ur_inclusion_state = Some Conflicting\<rparr>,
               \<lparr>ur_message_id = 6, ur_block = [], ur_inclusion_state = Some Included\<rparr>]\<rparr>"])
    (simp_all add: empty_api_def query_def included_message_def)

end
