(* ===== verification/Cql_Workers.thy ===== *)
theory Cql_Workers
  imports Collector
begin

text \<open>
  The workers that write the rows of the solidifiers' milestones
  (\<^verbatim>\<open>chronicle-broker/src/solidifier/mod.rs\<close>): each retries its statement, and the workers of one
  message share a handle that reports to the solidifier when the last of them is gone.

  What a node answers is a parameter: it accepts the row, it answers with a frame that is not the
  expected void, or it reports an error, which may name an unprepared statement. So is the driver's
  \<^verbatim>\<open>handle_insert_unprepared_error\<close>: how many clones of the worker it sends again, or that it fails.
\<close>

section \<open>Replies\<close>

datatype db_reply = Accepted | BadFrame | CqlError bool

record worker_env =
  we_rebuilds :: "db_insert \<Rightarrow> bool"
  we_resends :: "db_insert \<Rightarrow> nat option"
  we_reporter :: bool

text \<open>The copies a failed worker leaves in flight by re-preparing: none of it when that fails too.\<close>

definition reprepared :: "worker_env \<Rightarrow> bool \<Rightarrow> db_insert \<Rightarrow> 'w \<Rightarrow> 'w list option" where
  "reprepared env unprepared r w =
     (if unprepared \<and> we_reporter env then map_option (\<lambda>n. replicate n w) (we_resends env r) else Some [])"

section \<open>Workers that share a handle\<close>

datatype atomic_worker = AtomicRow (aw_row: db_insert) (aw_retries: usize)

text \<open>\<^verbatim>\<open>handle_error\<close>: the copies in flight afterwards, and whether the handle's flag is set.\<close>

definition atomic_error :: "worker_env \<Rightarrow> bool \<Rightarrow> atomic_worker \<Rightarrow> atomic_worker list \<times> bool" where
  "atomic_error env unprepared w =
     (case reprepared env unprepared (aw_row w) w of
        None \<Rightarrow> ([], False)
      | Some ws \<Rightarrow>
          (if 0 < aw_retries w
           then (if we_rebuilds env (aw_row w) then (ws @ [AtomicRow (aw_row w) (aw_retries w - 1)], False) else (ws, True))
           else (ws, True)))"

definition atomic_reply :: "worker_env \<Rightarrow> db_reply \<Rightarrow> atomic_worker \<Rightarrow> atomic_worker list \<times> bool" where
  "atomic_reply env reply w = (case reply of CqlError u \<Rightarrow> atomic_error env u w | _ \<Rightarrow> ([], False))"

text \<open>The workers of a message in flight, the flag of their handle, the rows written, the reports sent.\<close>

record atomic_run =
  at_workers :: "atomic_worker list"
  at_error :: bool
  at_accepted :: "db_insert list"
  at_reported :: "solidifier_event list"

text \<open>\<^verbatim>\<open>Drop for AtomicSolidifierHandle\<close>, when no worker holds the handle any more.\<close>

definition atomic_drop :: "message_id \<Rightarrow> u32 \<Rightarrow> atomic_run \<Rightarrow> atomic_run" where
  "atomic_drop i mi st =
     (if at_workers st = []
      then st\<lparr>at_reported := at_reported st @
             [SoCqlResult (if at_error st then Inl (PersistedMsg i mi) else Inr (PersistedMsg i mi))]\<rparr>
      else st)"

definition atomic_start :: "message_id \<Rightarrow> u32 \<Rightarrow> usize \<Rightarrow> db_insert list \<Rightarrow> atomic_run" where
  "atomic_start i mi retries rows =
     atomic_drop i mi \<lparr>at_workers = map (\<lambda>r. AtomicRow r retries) rows, at_error = False, at_accepted = [], at_reported = []\<rparr>"

text \<open>One reply, to some worker in flight.\<close>

definition atomic_step :: "worker_env \<Rightarrow> message_id \<Rightarrow> u32 \<Rightarrow> nat \<times> db_reply \<Rightarrow> atomic_run \<Rightarrow> atomic_run" where
  "atomic_step env i mi ev st =
     (case at_workers st of
        [] \<Rightarrow> st
      | ws \<Rightarrow>
          (let k = fst ev mod length ws; w = ws ! k; (again, err) = atomic_reply env (snd ev) w in
           atomic_drop i mi (st\<lparr>at_workers := take k ws @ drop (Suc k) ws @ again, at_error := at_error st \<or> err,
             at_accepted := (if snd ev = Accepted then at_accepted st @ [aw_row w] else at_accepted st)\<rparr>)))"

definition atomic_replies ::
  "worker_env \<Rightarrow> message_id \<Rightarrow> u32 \<Rightarrow> usize \<Rightarrow> db_insert list \<Rightarrow> (nat \<times> db_reply) list \<Rightarrow> atomic_run" where
  "atomic_replies env i mi retries rows evs = fold (atomic_step env i mi) evs (atomic_start i mi retries rows)"

section \<open>Workers with a response of their own\<close>

text \<open>\<^verbatim>\<open>SyncedMilestoneWorker\<close> and \<^verbatim>\<open>AnalyzedMilestoneWorker\<close>: the row, what they respond with, the retries.\<close>

datatype milestone_worker = SyncedWorker u32 db_insert u16 | AnalyzedWorker u32 db_insert u16

text \<open>What a reply leaves in flight and what it makes the worker respond, with its retry and its result.\<close>

definition answer ::
  "worker_env \<Rightarrow> db_reply \<Rightarrow> db_insert \<Rightarrow> u16 \<Rightarrow> milestone_worker \<Rightarrow> milestone_worker \<Rightarrow> cql_result
     \<Rightarrow> milestone_worker list \<times> solidifier_event list" where
  "answer env reply r n w retry res =
     (case reply of
        Accepted \<Rightarrow> ([], [SoCqlResult (Inr res)])
      | BadFrame \<Rightarrow> ([], [])
      | CqlError u \<Rightarrow>
          (case reprepared env u r w of
             None \<Rightarrow> ([], [])
           | Some ws \<Rightarrow>
               (if 0 < n \<and> we_rebuilds env r then (ws @ [retry], []) else (ws, [SoCqlResult (Inl res)]))))"

definition synced_worker_reply :: "worker_env \<Rightarrow> db_reply \<Rightarrow> u32 \<Rightarrow> db_insert \<Rightarrow> u16 \<Rightarrow> milestone_worker list \<times> solidifier_event list" where
  "synced_worker_reply env reply mi r n =
     answer env reply r n (SyncedWorker mi r n) (SyncedWorker mi r (n - 1)) (SyncedMilestone mi)"

definition analyzed_worker_reply :: "worker_env \<Rightarrow> db_reply \<Rightarrow> u32 \<Rightarrow> db_insert \<Rightarrow> u16 \<Rightarrow> milestone_worker list \<times> solidifier_event list" where
  "analyzed_worker_reply env reply mi r n =
     answer env reply r n (AnalyzedWorker mi r n) (AnalyzedWorker mi r (n - 1)) (AnalyzedMilestone mi)"

text \<open>An unprepared statement leaves two copies of such a worker in flight, so it is answered twice.\<close>

lemma unprepared_answers_twice:
  assumes "we_reporter env" and "we_resends env r = Some 1" and "we_rebuilds env r" and "0 < n"
  shows "fst (synced_worker_reply env (CqlError True) mi r n) = [SyncedWorker mi r n, SyncedWorker mi r (n - 1)] \<and>
    snd (synced_worker_reply env Accepted mi r n) @ snd (synced_worker_reply env Accepted mi r (n - 1)) =
      replicate 2 (SoCqlResult (Inr (SyncedMilestone mi)))"
  using assms by (simp add: synced_worker_reply_def answer_def reprepared_def numeral_2_eq_2)

section \<open>One report\<close>

text \<open>What is left to do, at most: each reply uses up one, an unprepared statement adds the retries left.\<close>

definition work_left :: "atomic_worker list \<Rightarrow> nat" where
  "work_left ws = sum_list (map (\<lambda>w. Suc (unat (aw_retries w))) ws)"

lemma work_left_simps [simp]:
  "work_left [] = 0" "work_left (w # ws) = Suc (unat (aw_retries w)) + work_left ws"
  "work_left (xs @ ys) = work_left xs + work_left ys"
  by (simp_all add: work_left_def)

definition unprepared_reply :: "nat \<times> db_reply \<Rightarrow> bool" where
  "unprepared_reply ev \<longleftrightarrow> snd ev = CqlError True"

definition atomic_inv :: "usize \<Rightarrow> message_id \<Rightarrow> u32 \<Rightarrow> atomic_run \<Rightarrow> bool" where
  "atomic_inv retries i mi st \<longleftrightarrow>
     (\<forall>w\<in>set (at_workers st). aw_retries w \<le> retries) \<and>
     at_reported st = (if at_workers st = []
       then [SoCqlResult (if at_error st then Inl (PersistedMsg i mi) else Inr (PersistedMsg i mi))] else [])"

lemma Suc_unat_pred: "0 < (x :: 'a::len word) \<Longrightarrow> Suc (unat (x - 1)) = unat x"
proof -
  assume "0 < x"
  hence "0 < unat x" by (simp add: word_less_nat_alt)
  moreover from this have "x \<noteq> 0" by auto
  ultimately show ?thesis by (simp add: unat_minus_one)
qed

definition resends_one :: "worker_env \<Rightarrow> bool" where
  "resends_one env \<longleftrightarrow> (\<forall>r n. we_resends env r = Some n \<longrightarrow> n \<le> 1)"

lemma reprepared_copies:
  assumes "resends_one env" and "reprepared env un r w = Some ws"
  shows "ws = [] \<or> ws = [w] \<and> un"
proof (cases "un \<and> we_reporter env")
  case True
  then obtain n where n: "we_resends env r = Some n" "ws = replicate n w"
    using assms(2) by (auto simp: reprepared_def)
  hence "n \<le> 1" using assms(1) by (simp add: resends_one_def)
  hence "n = 0 \<or> n = 1" by linarith
  thus ?thesis using n True by auto
next
  case False
  thus ?thesis using assms(2) by (auto simp: reprepared_def split: if_splits)
qed

lemma atomic_error_left:
  assumes env: "resends_one env" and le: "aw_retries w \<le> retries"
  shows "(\<forall>w'\<in>set (fst (atomic_error env un w)). aw_retries w' \<le> retries) \<and>
    work_left (fst (atomic_error env un w)) \<le> unat (aw_retries w) + (if un then Suc (unat retries) else 0)"
proof (cases "reprepared env un (aw_row w) w")
  case None
  thus ?thesis by (simp add: atomic_error_def)
next
  case (Some ws)
  have pred: "aw_retries w - 1 \<le> retries" "Suc (unat (aw_retries w - 1)) = unat (aw_retries w)" if "0 < aw_retries w"
  proof -
    show s: "Suc (unat (aw_retries w - 1)) = unat (aw_retries w)" using that by (rule Suc_unat_pred)
    show "aw_retries w - 1 \<le> retries" using s le unfolding word_le_nat_alt by linarith
  qed
  have u: "unat (aw_retries w) \<le> unat retries" using le by (simp add: word_le_nat_alt)
  from reprepared_copies [OF env Some] show ?thesis
    using Some pred u le by (auto simp: atomic_error_def)
qed

lemma atomic_reply_left:
  assumes "resends_one env" and "aw_retries w \<le> retries"
  shows "(\<forall>w'\<in>set (fst (atomic_reply env r w)). aw_retries w' \<le> retries) \<and>
    work_left (fst (atomic_reply env r w)) \<le> unat (aw_retries w) + (if r = CqlError True then Suc (unat retries) else 0)"
  using atomic_error_left [OF assms] by (cases r) (auto simp: atomic_reply_def)

text \<open>The row of a worker survives a reply: it is written, flagged, or a copy carries it on.\<close>

lemma atomic_reply_row:
  assumes "r \<noteq> BadFrame" and "we_resends env (aw_row w) \<noteq> None"
  shows "r = Accepted \<or> snd (atomic_reply env r w) \<or> aw_row w \<in> aw_row ` set (fst (atomic_reply env r w))"
  using assms by (cases r) (auto simp: atomic_reply_def atomic_error_def reprepared_def split: option.splits)

lemma work_left_take_drop:
  assumes "k < length ws"
  shows "work_left ws = Suc (unat (aw_retries (ws ! k))) + work_left (take k ws @ drop (Suc k) ws)"
  using arg_cong [OF id_take_nth_drop [OF assms], of work_left] by simp

lemma set_take_drop:
  assumes "k < length ws"
  shows "set ws = insert (ws ! k) (set (take k ws @ drop (Suc k) ws))"
  using arg_cong [OF id_take_nth_drop [OF assms], of set] by simp

lemma atomic_drop_simps [simp]:
  "at_workers (atomic_drop i mi st) = at_workers st" "at_error (atomic_drop i mi st) = at_error st"
  "at_accepted (atomic_drop i mi st) = at_accepted st"
  by (simp_all add: atomic_drop_def)

lemma atomic_inv_drop:
  assumes "\<forall>w\<in>set (at_workers st). aw_retries w \<le> retries" and "at_reported st = []"
  shows "atomic_inv retries i mi (atomic_drop i mi st)"
  using assms by (simp add: atomic_inv_def) (simp add: atomic_drop_def)

text \<open>Every row is written, or carried by a worker in flight, unless the flag is set.\<close>

definition rows_carried :: "db_insert list \<Rightarrow> atomic_run \<Rightarrow> bool" where
  "rows_carried rows st \<longleftrightarrow> at_error st \<or> (\<forall>r\<in>set rows. r \<in> set (at_accepted st) \<or> r \<in> aw_row ` set (at_workers st))"

lemma atomic_start_inv: "atomic_inv retries i mi (atomic_start i mi retries rows)"
  unfolding atomic_start_def by (rule atomic_inv_drop) auto

lemma atomic_start_left: "work_left (at_workers (atomic_start i mi retries rows)) = length rows * Suc (unat retries)"
  by (simp add: atomic_start_def) (induction rows, simp_all)

lemma atomic_start_rows: "rows_carried rows (atomic_start i mi retries rows)"
  by (auto simp: rows_carried_def atomic_start_def image_image)

text \<open>A step with workers in flight, by the worker that is answered.\<close>

lemma atomic_step_busy:
  assumes "at_workers st \<noteq> []"
  obtains k where "k < length (at_workers st)" and
    "atomic_step env i mi ev st = atomic_drop i mi (st\<lparr>
       at_workers := take k (at_workers st) @ drop (Suc k) (at_workers st) @ fst (atomic_reply env (snd ev) (at_workers st ! k)),
       at_error := at_error st \<or> snd (atomic_reply env (snd ev) (at_workers st ! k)),
       at_accepted := (if snd ev = Accepted then at_accepted st @ [aw_row (at_workers st ! k)] else at_accepted st)\<rparr>)"
proof
  show "fst ev mod length (at_workers st) < length (at_workers st)" using assms by simp
  show "atomic_step env i mi ev st = atomic_drop i mi (st\<lparr>
       at_workers := take (fst ev mod length (at_workers st)) (at_workers st) @
         drop (Suc (fst ev mod length (at_workers st))) (at_workers st) @
         fst (atomic_reply env (snd ev) (at_workers st ! (fst ev mod length (at_workers st)))),
       at_error := at_error st \<or> snd (atomic_reply env (snd ev) (at_workers st ! (fst ev mod length (at_workers st)))),
       at_accepted := (if snd ev = Accepted then at_accepted st @ [aw_row (at_workers st ! (fst ev mod length (at_workers st)))]
         else at_accepted st)\<rparr>)"
    using assms unfolding atomic_step_def by (cases "at_workers st") (simp_all add: Let_def case_prod_beta)
qed

lemma atomic_step_idle: "at_workers st = [] \<Longrightarrow> atomic_step env i mi ev st = st"
  by (simp add: atomic_step_def)

lemma atomic_step_inv:
  assumes env: "resends_one env" and inv: "atomic_inv retries i mi st"
  shows "atomic_inv retries i mi (atomic_step env i mi ev st) \<and>
    work_left (at_workers (atomic_step env i mi ev st)) \<le>
      work_left (at_workers st) - 1 + (if unprepared_reply ev then Suc (unat retries) else 0)"
proof (cases "at_workers st = []")
  case True
  thus ?thesis using inv by (simp add: atomic_step_idle)
next
  case False
  obtain k where k: "k < length (at_workers st)" and step: "atomic_step env i mi ev st = atomic_drop i mi (st\<lparr>
       at_workers := take k (at_workers st) @ drop (Suc k) (at_workers st) @ fst (atomic_reply env (snd ev) (at_workers st ! k)),
       at_error := at_error st \<or> snd (atomic_reply env (snd ev) (at_workers st ! k)),
       at_accepted := (if snd ev = Accepted then at_accepted st @ [aw_row (at_workers st ! k)] else at_accepted st)\<rparr>)"
    using atomic_step_busy [OF False] by metis
  have retr: "\<forall>w\<in>set (at_workers st). aw_retries w \<le> retries" and rep: "at_reported st = []"
    using inv False by (simp_all add: atomic_inv_def)
  have "aw_retries (at_workers st ! k) \<le> retries" using retr k by simp
  note left = atomic_reply_left [OF env this, of "snd ev"]
  have "atomic_inv retries i mi (atomic_step env i mi ev st)"
    unfolding step by (rule atomic_inv_drop) (use retr left rep set_take_drop [OF k] in auto)
  moreover have "work_left (at_workers (atomic_step env i mi ev st)) \<le>
      work_left (at_workers st) - 1 + (if unprepared_reply ev then Suc (unat retries) else 0)"
    using left work_left_take_drop [OF k] unfolding step unprepared_reply_def by simp
  ultimately show ?thesis by (rule conjI)
qed

lemma atomic_step_rows:
  assumes "snd ev \<noteq> BadFrame" and "\<forall>r. we_resends env r \<noteq> None" and car: "rows_carried rows st"
  shows "rows_carried rows (atomic_step env i mi ev st)"
proof (cases "at_workers st = []")
  case True
  thus ?thesis using car by (simp add: atomic_step_idle)
next
  case False
  obtain k where k: "k < length (at_workers st)" and step: "atomic_step env i mi ev st = atomic_drop i mi (st\<lparr>
       at_workers := take k (at_workers st) @ drop (Suc k) (at_workers st) @ fst (atomic_reply env (snd ev) (at_workers st ! k)),
       at_error := at_error st \<or> snd (atomic_reply env (snd ev) (at_workers st ! k)),
       at_accepted := (if snd ev = Accepted then at_accepted st @ [aw_row (at_workers st ! k)] else at_accepted st)\<rparr>)"
    using atomic_step_busy [OF False] by metis
  have "we_resends env (aw_row (at_workers st ! k)) \<noteq> None" using assms(2) by simp
  from atomic_reply_row [OF assms(1) this] show ?thesis
    using car set_take_drop [OF k] unfolding step rows_carried_def by auto
qed

lemma atomic_fold_idle: "at_workers st = [] \<Longrightarrow> fold (atomic_step env i mi) evs st = st"
  by (induction evs) (simp_all add: atomic_step_idle)

lemma atomic_fold:
  assumes "resends_one env" and "atomic_inv retries i mi st"
  shows "atomic_inv retries i mi (fold (atomic_step env i mi) evs st) \<and>
    work_left (at_workers (fold (atomic_step env i mi) evs st)) \<le>
      work_left (at_workers st) + length (filter unprepared_reply evs) * Suc (unat retries) - length evs"
  using assms(2)
proof (induction evs arbitrary: st)
  case Nil
  thus ?case by simp
next
  case (Cons ev evs)
  note step = atomic_step_inv [OF assms(1) Cons.prems, of ev]
  show ?case
  proof (cases "at_workers st = []")
    case True
    thus ?thesis using Cons.prems by (simp add: atomic_fold_idle atomic_step_idle)
  next
    case False
    hence "0 < work_left (at_workers st)" by (cases "at_workers st") simp_all
    with Cons.IH [OF conjunct1 [OF step]] step show ?thesis by (cases "unprepared_reply ev") auto
  qed
qed

lemma atomic_fold_rows:
  assumes "\<forall>ev\<in>set evs. snd ev \<noteq> BadFrame" and "\<forall>r. we_resends env r \<noteq> None" and "rows_carried rows st"
  shows "rows_carried rows (fold (atomic_step env i mi) evs st)"
  using assms by (induction evs arbitrary: st) (simp_all add: atomic_step_rows)

text \<open>
  C37. A message whose rows are being written is reported to the solidifier exactly once, whatever
  the nodes answer and in whatever order: once the replies are as many as the tries its rows may
  take (one try and the retries for each row, as many again for each reply that names an unprepared
  statement), its handle is gone and one result is out. Where no reply was a malformed frame and
  re-preparing never failed, a success is the truth: every row of the message was accepted.
\<close>

theorem atomic_reports_once:
  assumes env: "\<forall>r n. we_resends env r = Some n \<longrightarrow> n \<le> 1"
    and enough: "(length rows + length (filter unprepared_reply evs)) * Suc (unat retries) \<le> length evs"
  shows "\<exists>res. at_reported (atomic_replies env i mi retries rows evs) = [SoCqlResult res] \<and>
    res \<in> {Inl (PersistedMsg i mi), Inr (PersistedMsg i mi)} \<and>
    (res = Inr (PersistedMsg i mi) \<and> (\<forall>ev\<in>set evs. snd ev \<noteq> BadFrame) \<and> (\<forall>r. we_resends env r \<noteq> None) \<longrightarrow>
      set rows \<subseteq> set (at_accepted (atomic_replies env i mi retries rows evs)))"
proof -
  have one: "resends_one env" using env by (simp add: resends_one_def)
  have run: "atomic_inv retries i mi (fold (atomic_step env i mi) evs (atomic_start i mi retries rows)) \<and>
      work_left (at_workers (fold (atomic_step env i mi) evs (atomic_start i mi retries rows))) \<le>
      work_left (at_workers (atomic_start i mi retries rows)) + length (filter unprepared_reply evs) * Suc (unat retries) - length evs"
    by (rule atomic_fold [OF one atomic_start_inv])
  have idle: "at_workers (atomic_replies env i mi retries rows evs) = []"
    using run enough unfolding atomic_start_left atomic_replies_def
    by (cases "at_workers (fold (atomic_step env i mi) evs (atomic_start i mi retries rows))") (auto simp: algebra_simps)
  have rep: "at_reported (atomic_replies env i mi retries rows evs) =
      [SoCqlResult (if at_error (atomic_replies env i mi retries rows evs) then Inl (PersistedMsg i mi) else Inr (PersistedMsg i mi))]"
    using run idle unfolding atomic_inv_def atomic_replies_def by simp
  have "set rows \<subseteq> set (at_accepted (atomic_replies env i mi retries rows evs))"
    if "\<not> at_error (atomic_replies env i mi retries rows evs)" "\<forall>ev\<in>set evs. snd ev \<noteq> BadFrame" "\<forall>r. we_resends env r \<noteq> None"
    using atomic_fold_rows [OF that(2) that(3) atomic_start_rows [of rows i mi retries], of i mi] that(1) idle
    unfolding rows_carried_def atomic_replies_def by auto
  with rep show ?thesis by (cases "at_error (atomic_replies env i mi retries rows evs)") auto
qed

abbreviation analytic_row :: "u32 \<Rightarrow> db_insert" where
  "analytic_row mi \<equiv> Ins_analytic
     \<lparr>ar_milestone_index = mi, ar_message_count = 1, ar_transaction_count = 0, ar_transferred_tokens = 0\<rparr>"

abbreviation helpful_env :: worker_env where
  "helpful_env \<equiv> \<lparr>we_rebuilds = (\<lambda>_. True), we_resends = (\<lambda>_. Some 1), we_reporter = True\<rparr>"

abbreviation mixed_replies :: "(nat \<times> db_reply) list" where
  "mixed_replies \<equiv> [(0, CqlError True), (1, Accepted), (0, CqlError False), (1, Accepted), (0, Accepted), (0, Accepted)]"

theorem atomic_reports_once_witness:
  "at_reported (atomic_replies helpful_env 7 3 1 [analytic_row 3, analytic_row 4] mixed_replies) =
     [SoCqlResult (Inr (PersistedMsg 7 3))] \<and>
   set [analytic_row 3, analytic_row 4] \<subseteq> set (at_accepted (atomic_replies helpful_env 7 3 1 [analytic_row 3, analytic_row 4] mixed_replies))"
proof -
  have "at_reported (atomic_replies helpful_env 7 3 1 [analytic_row 3, analytic_row 4] mixed_replies) =
      [SoCqlResult (Inr (PersistedMsg 7 3))]"
    by code_simp
  with atomic_reports_once [of helpful_env "[analytic_row 3, analytic_row 4]" mixed_replies 1 7 3]
  show ?thesis by (auto simp: unprepared_reply_def)
qed

text \<open>A malformed frame drops the worker and leaves the flag alone: the row is lost, the report is a success.\<close>

lemma bad_frame_reported_ok:
  "at_reported (atomic_replies env i mi retries [r] [(k, BadFrame)]) = [SoCqlResult (Inr (PersistedMsg i mi))] \<and>
   at_accepted (atomic_replies env i mi retries [r] [(k, BadFrame)]) = []"
  by (simp add: atomic_replies_def atomic_start_def atomic_step_def atomic_drop_def atomic_reply_def)

text \<open>An unprepared answer to the last try flags the message, though the copy the driver sends is accepted.\<close>

lemma unprepared_last_try_reported_failed:
  assumes "we_reporter env" and "we_resends env r = Some 1"
  shows "at_reported (atomic_replies env i mi 0 [r] [(0, CqlError True), (0, Accepted)]) = [SoCqlResult (Inl (PersistedMsg i mi))] \<and>
    at_accepted (atomic_replies env i mi 0 [r] [(0, CqlError True), (0, Accepted)]) = [r]"
  using assms
  by (simp add: atomic_replies_def atomic_start_def atomic_step_def atomic_drop_def atomic_reply_def atomic_error_def reprepared_def)

end
