(* ===== verification/Importer.thy ===== *)
theory Importer
  imports Collector Archiver Cql_Workers
begin

text \<open>
  The importer (\<^verbatim>\<open>chronicle-broker/src/importer/\<close>): it reads the milestone data of a finished log file
  line by line, writes the rows of each milestone in batches, and when all are written inserts the
  analytic row and then the sync row of the milestone. \<^verbatim>\<open>parallelism\<close> bounds both the milestones in
  progress and the messages of a batch.

  The workers of a batch share a handle; when the last of them is gone it asks the importer to
  process more of the milestone. The importer together with its workers in flight is the subject of
  \<^verbatim>\<open>Importer_Run\<close>.
\<close>

section \<open>Reading log files\<close>

text \<open>A reader: the lines that are left, and the failures of reading that are to come.\<close>

record log_reader = log_file +
  lr_rest :: "log_line list"
  lr_faults :: "bool list"

text \<open>\<^verbatim>\<open>TryFrom<PathBuf> for LogFile\<close>: the name has to be of a finished file; \<open>line_len\<close> counts its bytes.\<close>

definition log_try_from :: "(log_line \<Rightarrow> u64) \<Rightarrow> bool list \<Rightarrow> log_name \<Rightarrow> world \<Rightarrow> log_reader result" where
  "log_try_from line_len faults n w =
     (case n of
        PartName mi \<Rightarrow> Inl (Failed ''Invalid filename!'')
      | LogName a b \<Rightarrow>
          (case hm_get (w_fs w) n of
             None \<Rightarrow> Inl (Failed ''No such file'')
           | Some ls \<Rightarrow>
               Inr \<lparr>lf_len = sum_list (map line_len ls), lf_filename = n, lf_from = a, lf_to = b, lf_upper = b,
                 lf_corrupted = False, lf_finished = False, lr_rest = ls, lr_faults = faults\<rparr>))"

text \<open>\<^verbatim>\<open>LogFile::next\<close>.\<close>

definition log_next :: "(log_line \<Rightarrow> u64) \<Rightarrow> log_reader \<Rightarrow> milestone_data option result \<times> log_reader" where
  "log_next line_len lf =
     (if lf_corrupted lf then (Inl (Failed ''maybe corrupted LogFile''), lf)
      else if lf_len lf = 0 then (Inr None, lf\<lparr>lf_finished := True\<rparr>)
      else if lr_faults lf \<noteq> [] \<and> hd (lr_faults lf)
      then (Inl (Failed ''read_line''), lf\<lparr>lf_corrupted := True, lr_faults := tl (lr_faults lf)\<rparr>)
      else
        (let lf = lf\<lparr>lr_faults := tl (lr_faults lf)\<rparr> in
         case lr_rest lf of
           [] \<Rightarrow> (Inr None, lf\<lparr>lf_finished := True\<rparr>)
         | Partial # ls \<Rightarrow>
             (Inl (Failed ''Unable to deserialize milestone data bytes''), lf\<lparr>lf_corrupted := True, lr_rest := ls\<rparr>)
         | Line md # ls \<Rightarrow> (Inr (Some md), lf\<lparr>lf_len := lf_len lf - line_len (Line md), lr_rest := ls\<rparr>)))"

section \<open>State\<close>

datatype import_mode = All_Mode | Analytics_Mode

datatype import_worker =
    AnalyzeAndSync analytic_record bool sync_record usize
  | Analyze analytic_record usize

text \<open>What an importer sends: the rows of a batch under one handle, single workers, its progress.\<close>

datatype importer_out =
    SendBatch u32 "db_insert list"
  | SendWorker import_worker
  | ProgressBar u32 usize bool

datatype importer_event = ImCqlResult "u32 + u32" | ProcessMore u32 | ImShutdown

type_synonym remaining = "(message_id \<times> full_message) list"

record importer =
  im_mode :: import_mode
  im_log :: "log_reader option"
  im_log_size :: u64
  im_from :: u32
  im_to :: u32
  im_retries :: usize
  im_chronicle_id :: u8
  im_parallelism :: u8
  im_resume :: bool
  im_range :: u32_range
  im_sync_data :: sync_data
  im_progress :: "(u32, remaining \<times> analytic_record) hmap"
  im_sizes :: "(u32, usize) hmap"
  im_handle :: bool
  im_stopping :: bool
  im_eof :: bool
  im_out :: "importer_out list"

text \<open>From outside: what the workers and the collector have of it, and the bytes of a line.\<close>

record importer_env = worker_env +
  ie_partition_config :: partition_config
  ie_insert_builds :: "db_insert \<Rightarrow> bool"
  ie_transaction_id :: "payload \<Rightarrow> transaction_id"
  ie_id_string :: "256 word \<Rightarrow> string"
  ie_hex :: "u8 list \<Rightarrow> string"
  ie_output_kind :: "output_t \<Rightarrow> u8"
  ie_line_len :: "log_line \<Rightarrow> u64"

text \<open>\<^verbatim>\<open>ImporterBuilder::build\<close>.\<close>

definition new_importer ::
  "import_mode \<Rightarrow> usize option \<Rightarrow> bool option \<Rightarrow> u32_range option \<Rightarrow> u8 option \<Rightarrow> u8 \<Rightarrow> importer" where
  "new_importer mode retries resume rng par cid =
     \<lparr>im_mode = mode, im_log = None, im_log_size = 0, im_from = 0, im_to = 0,
      im_retries = (case retries of None \<Rightarrow> 10 | Some n \<Rightarrow> n), im_chronicle_id = cid,
      im_parallelism = (case par of None \<Rightarrow> 10 | Some n \<Rightarrow> n),
      im_resume = (case resume of None \<Rightarrow> True | Some b \<Rightarrow> b),
      im_range = (case rng of None \<Rightarrow> Range 1 i32_max | Some r \<Rightarrow> r), im_sync_data = default_sync_data,
      im_progress = [], im_sizes = [], im_handle = True, im_stopping = False, im_eof = False, im_out = []\<rparr>"

definition im_emit :: "importer_out list \<Rightarrow> importer \<Rightarrow> importer" where
  "im_emit os s = s\<lparr>im_out := im_out s @ os\<rparr>"

section \<open>Rows\<close>

definition im_in_partition :: "importer_env \<Rightarrow> u32 \<Rightarrow> (u16 \<Rightarrow> action list) \<Rightarrow> action list" where
  "im_in_partition env mi rows =
     (case partition_id (ie_partition_config env) mi of Inl e \<Rightarrow> [Crash] | Inr pid \<Rightarrow> rows pid)"

definition im_insert_parents ::
  "importer_env \<Rightarrow> message_id \<Rightarrow> message_id list \<Rightarrow> u32 \<Rightarrow> ledger_inclusion_state option \<Rightarrow> action list" where
  "im_insert_parents env i parents mi st =
     im_in_partition env mi (\<lambda>pid. concat (map (\<lambda>p.
       [Put (Ins_parent (new_partitioned p pid mi) \<lparr>pr_message_id = i, pr_inclusion_state = st\<rparr>),
        Put (Ins_hint (parent_hint (ie_id_string env p)) \<lparr>pt_id = pid, pt_milestone_index = mi\<rparr>)]) parents))"

definition im_insert_index ::
  "importer_env \<Rightarrow> message_id \<Rightarrow> string \<Rightarrow> u32 \<Rightarrow> ledger_inclusion_state option \<Rightarrow> action list" where
  "im_insert_index env i t mi st =
     im_in_partition env mi (\<lambda>pid.
       [Put (Ins_index (new_partitioned t pid mi) \<lparr>ir_message_id = i, ir_inclusion_state = st\<rparr>),
        Put (Ins_hint (index_hint t) \<lparr>pt_id = pid, pt_milestone_index = mi\<rparr>)])"

definition im_insert_input :: "message_id \<Rightarrow> transaction_id \<Rightarrow> u16 \<Rightarrow> input_data \<Rightarrow> ledger_inclusion_state option \<Rightarrow> u32 option \<Rightarrow> action" where
  "im_insert_input i t k d st conf = Put (Ins_transaction t k (input_record i d st conf))"

definition im_insert_unlock :: "message_id \<Rightarrow> transaction_id \<Rightarrow> u16 \<Rightarrow> unlock_data \<Rightarrow> ledger_inclusion_state option \<Rightarrow> u32 option \<Rightarrow> action" where
  "im_insert_unlock i t k d st conf = Put (Ins_transaction t k (unlock_record i d st conf))"

definition im_insert_output :: "message_id \<Rightarrow> transaction_id \<Rightarrow> u16 \<Rightarrow> output_t \<Rightarrow> ledger_inclusion_state option \<Rightarrow> u32 option \<Rightarrow> action" where
  "im_insert_output i t k out st conf = Put (Ins_transaction t k (output_record i out st conf))"

text \<open>An output of a variant that is not known is only logged.\<close>

definition im_insert_address ::
  "importer_env \<Rightarrow> output_t \<Rightarrow> transaction_id \<Rightarrow> u16 \<Rightarrow> u32 \<Rightarrow> ledger_inclusion_state option \<Rightarrow> action list" where
  "im_insert_address env out t k mi st =
     im_in_partition env mi (\<lambda>pid.
       let rows = (\<lambda>a amount.
         [Put (Ins_address (new_partitioned a pid mi)
            \<lparr>ad_output_type = ie_output_kind env out, ad_transaction_id = t, ad_index = k, ad_amount = amount,
             ad_inclusion_state = st\<rparr>),
          Put (Ins_hint (address_hint (ie_id_string env a)) \<lparr>pt_id = pid, pt_milestone_index = mi\<rparr>)])
       in case out of
            SignatureLockedSingle a v \<Rightarrow> rows a v
          | SignatureLockedDustAllowance a v \<Rightarrow> rows a v
          | TreasuryOut v \<Rightarrow> []
          | OtherOutput \<Rightarrow> [])"

definition im_input_rows ::
  "message_id \<Rightarrow> transaction_id \<Rightarrow> unlock_block list \<Rightarrow> ledger_inclusion_state option \<Rightarrow> u32 option \<Rightarrow> nat \<times> input_t \<Rightarrow> action list" where
  "im_input_rows i t ubs st conf = (\<lambda>(k, inp).
     case inp of
       Utxo oid \<Rightarrow>
         (if k < length ubs
          then [im_insert_input i t (of_nat k) (UtxoData oid (ubs ! k)) st conf,
                im_insert_unlock i (oi_transaction_id oid) (oi_index oid)
                  \<lparr>ud_input_tx_id = t, ud_input_index = of_nat k, ud_unlock_block = ubs ! k\<rparr> st conf]
          else [Crash])
     | TreasuryIn m \<Rightarrow> [im_insert_input i t (of_nat k) (TreasuryData m) st conf]
     | OtherInput \<Rightarrow> [])"

definition im_insert_transaction ::
  "importer_env \<Rightarrow> message_id \<Rightarrow> transaction_id \<Rightarrow> input_t list \<Rightarrow> output_t list \<Rightarrow> unlock_block list
     \<Rightarrow> u32 \<Rightarrow> ledger_inclusion_state option \<Rightarrow> action list" where
  "im_insert_transaction env i t ins outs ubs mi st =
     (let conf = (if st \<noteq> None then Some mi else None) in
      concat (map (im_input_rows i t ubs st conf) (enumerate 0 ins)) @
      concat (map (\<lambda>(k, out). im_insert_output i t (of_nat k) out st conf # im_insert_address env out t (of_nat k) mi st)
        (enumerate 0 outs)))"

fun im_insert_payload ::
  "importer_env \<Rightarrow> message_id \<Rightarrow> message \<Rightarrow> u32 \<Rightarrow> ledger_inclusion_state option \<Rightarrow> message_metadata option \<Rightarrow> payload \<Rightarrow> action list" where
  "im_insert_payload env i m mi st meta (Indexation_P x d) = im_insert_index env i (ie_hex env x) mi st"
| "im_insert_payload env i m mi st meta (Transaction_P ins outs p ubs) =
     im_insert_transaction env i (ie_transaction_id env (Transaction_P ins outs p ubs)) ins outs ubs mi st @
     (case p of None \<Rightarrow> [] | Some q \<Rightarrow> im_insert_payload env i m mi st meta q)"
| "im_insert_payload env i m mi st meta (Milestone_P mp) =
     (if meta \<noteq> None \<and> msg_parents m = mp_parents mp then [Put (Ins_milestone (mp_index mp) i mp)] else [])"
| "im_insert_payload env i m mi st meta Other_P = []"

text \<open>\<^verbatim>\<open>insert_message_with_metadata\<close>: a message that no milestone references panics.\<close>

definition message_rows :: "importer_env \<Rightarrow> message_id \<times> full_message \<Rightarrow> action list" where
  "message_rows env = (\<lambda>(i, fm).
     case md_referenced_by (fm_metadata fm) of
       None \<Rightarrow> [Crash]
     | Some mi \<Rightarrow>
         (let m = fm_message fm; meta = fm_metadata fm; st = md_inclusion_state meta in
          im_insert_parents env i (msg_parents m) mi st @
          (case msg_payload m of None \<Rightarrow> [] | Some p \<Rightarrow> im_insert_payload env i m mi st (Some meta) p) @
          [Put (Ins_full i m meta)]))"

text \<open>\<^verbatim>\<open>insert\<close>, one row after the other until the first failure: the rows that were sent.\<close>

fun send_rows :: "importer_env \<Rightarrow> action list \<Rightarrow> (string option \<times> db_insert list) result" where
  "send_rows env [] = Inr (None, [])"
| "send_rows env (Put r # as) =
     (if ie_insert_builds env r then rbind (send_rows env as) (\<lambda>(e, rs). Inr (e, r # rs))
      else Inr (Some ''cannot build the insert'', []))"
| "send_rows env (Fail e # as) = Inr (Some e, [])"
| "send_rows env (Crash # as) = Inl Panic"
| "send_rows env (Del d # as) = send_rows env as"
| "send_rows env (Tell i ev # as) = send_rows env as"

section \<open>Importing milestones\<close>

text \<open>
  \<^verbatim>\<open>insert_some_messages\<close>: the rows of the next \<^verbatim>\<open>parallelism\<close> messages under a new handle, which is
  dropped at the end; what remains of the iterator is returned.
\<close>

definition insert_some_messages ::
  "importer_env \<Rightarrow> u32 \<Rightarrow> remaining \<Rightarrow> importer \<Rightarrow> (string option \<times> remaining \<times> importer) result" where
  "insert_some_messages env mi ms s =
     (if \<not> im_handle s then Inr (Some ''No importer handle available!'', ms, s)
      else
        (let n = unat (im_parallelism s) in
         rbind (send_rows env (concat (map (message_rows env) (take n ms))))
           (\<lambda>(e, rows). Inr (e, drop n ms, im_emit [SendBatch mi rows] s))))"

definition insert_analytic_record :: "importer_env \<Rightarrow> analytic_record \<Rightarrow> importer \<Rightarrow> importer step" where
  "insert_analytic_record env ar s =
     (if \<not> im_handle s then Inr (Some ''Expected importer handle'', s)
      else if ie_insert_builds env (Ins_analytic ar) then Inr (None, im_emit [SendWorker (Analyze ar (im_retries s))] s)
      else Inr (Some ''cannot build the insert'', s))"

definition in_progress :: "u32 \<Rightarrow> remaining \<Rightarrow> analytic_record \<Rightarrow> importer \<Rightarrow> importer" where
  "in_progress mi ms ar s = s\<lparr>im_progress := hm_insert mi (ms, ar) (im_progress s)\<rparr>"

text \<open>\<^verbatim>\<open>ImportMode::handle_milestone_data\<close>, for both modes.\<close>

definition im_handle_milestone_data :: "importer_env \<Rightarrow> milestone_data \<Rightarrow> importer \<Rightarrow> importer step" where
  "im_handle_milestone_data env md s =
     (case get_analytic_record md of
        Inl Panic \<Rightarrow> Inl Panic
      | Inl (Failed e) \<Rightarrow> Inr (Some e, s)
      | Inr ar \<Rightarrow>
          (case im_mode s of
             All_Mode \<Rightarrow>
               rbind (insert_some_messages env (ms_index md) (ms_messages md) s)
                 (\<lambda>(e, ms, s). Inr (case e of Some e \<Rightarrow> (Some e, s) | None \<Rightarrow> (None, in_progress (ms_index md) ms ar s)))
           | Analytics_Mode \<Rightarrow>
               step_then (insert_analytic_record env ar s)
                 (\<lambda>s. Inr (None, in_progress (ms_index md) (ms_messages md) ar s))))"

definition to_be_skipped :: "importer \<Rightarrow> u32 \<Rightarrow> bool" where
  "to_be_skipped s mi \<longleftrightarrow>
     im_resume s \<and> (\<exists>r\<in>set (completed (im_sync_data s)). range_contains r mi) \<or> \<not> range_contains (im_range s) mi"

lemma log_next_rest:
  "log_next len lf = (Inr (Some md), lf') \<Longrightarrow> lr_rest lf = Line md # lr_rest lf'"
  by (auto simp: log_next_def Let_def split: if_splits list.splits log_line.splits)

text \<open>\<^verbatim>\<open>next_milestone_data\<close>: skips what is imported already or not asked for.\<close>

function next_milestone_data ::
  "importer_env \<Rightarrow> log_reader \<Rightarrow> importer \<Rightarrow> (string + milestone_data option) \<times> importer" where
  "next_milestone_data env lf s =
     (case log_next (ie_line_len env) lf of
        (Inl e, lf') \<Rightarrow> (Inl ''next'', s\<lparr>im_log := Some lf'\<rparr>)
      | (Inr None, lf') \<Rightarrow> (Inr None, s\<lparr>im_log := Some lf'\<rparr>)
      | (Inr (Some md), lf') \<Rightarrow>
          (if to_be_skipped s (ms_index md)
           then next_milestone_data env lf' (im_emit [ProgressBar (ms_index md) (lf_len lf - lf_len lf') True] s)
           else (Inr (Some md), s\<lparr>im_log := Some lf', im_sizes := hm_insert (ms_index md) (lf_len lf - lf_len lf') (im_sizes s)\<rparr>)))"
  by pat_completeness auto

termination
  by (relation "measure (\<lambda>(env, lf, s). length (lr_rest lf))") (auto dest!: log_next_rest [OF sym])

declare next_milestone_data.simps [simp del]

definition next_milestone :: "importer_env \<Rightarrow> importer \<Rightarrow> (string + milestone_data option) \<times> importer" where
  "next_milestone env s =
     (case im_log s of None \<Rightarrow> (Inl ''No LogFile in importer state'', s) | Some lf \<Rightarrow> next_milestone_data env lf s)"

section \<open>Initialisation\<close>

fun init_importing :: "importer_env \<Rightarrow> nat \<Rightarrow> importer \<Rightarrow> importer step" where
  "init_importing env 0 s = Inr (None, s)"
| "init_importing env (Suc n) s =
     (case next_milestone env s of
        (Inl e, s) \<Rightarrow> Inr (Some e, s)
      | (Inr None, s) \<Rightarrow> Inr (None, s\<lparr>im_eof := True\<rparr>)
      | (Inr (Some md), s) \<Rightarrow> step_then (im_handle_milestone_data env md s) (init_importing env n))"

text \<open>\<^verbatim>\<open>init\<close>, given the log file that was opened and the sync data that were fetched.\<close>

definition importer_init :: "importer_env \<Rightarrow> log_reader result \<Rightarrow> sync_data result \<Rightarrow> importer \<Rightarrow> importer step" where
  "importer_init env opened fetched s =
     (case opened of
        Inl e \<Rightarrow> Inr (Some ''Unable to create LogFile'', s)
      | Inr lf \<Rightarrow>
          (let s = s\<lparr>im_log_size := lf_len lf, im_from := lf_from lf, im_to := lf_to lf\<rparr>;
               go = (\<lambda>s. init_importing env (unat (im_parallelism s)) (s\<lparr>im_log := Some lf\<rparr>))
           in if im_resume s
              then (case fetched of
                      Inl e \<Rightarrow> Inr (Some ''Unable to fetch SyncData'', s)
                    | Inr sd \<Rightarrow> go (s\<lparr>im_sync_data := sd\<rparr>))
              else go s))"

section \<open>Events\<close>

text \<open>How a handler leaves the event loop, if it does.\<close>

datatype importer_exit = Finished | Aborted | Panicked

definition aborts :: "importer step \<Rightarrow> (importer_exit option \<times> importer) result" where
  "aborts r = rbind r (\<lambda>(e, s). Inr (map_option (\<lambda>_. Aborted) e, s))"

definition handle_imported :: "importer_env \<Rightarrow> u32 \<Rightarrow> importer \<Rightarrow> (importer_exit option \<times> importer) result" where
  "handle_imported env mi s =
     (case (hm_get (im_progress s) mi, hm_get (im_sizes s) mi) of
        (Some e, Some n) \<Rightarrow>
          (let s = im_emit [ProgressBar mi n False]
                 (s\<lparr>im_progress := hm_remove mi (im_progress s), im_sizes := hm_remove mi (im_sizes s)\<rparr>) in
           if im_stopping s then Inr (None, s)
           else
             (case next_milestone env s of
                (Inl e, s) \<Rightarrow> Inr (Some Aborted, s)
              | (Inr (Some md), s) \<Rightarrow> aborts (im_handle_milestone_data env md s)
              | (Inr None, s) \<Rightarrow> Inr (if im_progress s = [] then Some Finished else None, s)))
      | _ \<Rightarrow> Inl Panic)"

definition handle_process_more :: "importer_env \<Rightarrow> u32 \<Rightarrow> importer \<Rightarrow> (importer_exit option \<times> importer) result" where
  "handle_process_more env mi s =
     (if im_stopping s then Inr (None, s)
      else
        (case hm_get (im_progress s) mi of
           None \<Rightarrow> Inl Panic
         | Some (ms, ar) \<Rightarrow>
             (let s = s\<lparr>im_progress := hm_remove mi (im_progress s)\<rparr> in
              if \<not> im_handle s then Inl Panic
              else if ms \<noteq> []
              then rbind (insert_some_messages env mi ms s)
                     (\<lambda>(e, ms, s). Inr (case e of Some _ \<Rightarrow> (Some Aborted, s) | None \<Rightarrow> (None, in_progress mi ms ar s)))
              else if ie_insert_builds env (Ins_analytic ar)
              then Inr (None, in_progress mi ms ar
                     (im_emit [SendWorker (AnalyzeAndSync ar False
                        \<lparr>milestone_index = mi, synced_by = Some (im_chronicle_id s), logged_by = Some (im_chronicle_id s)\<rparr>
                        (im_retries s))] s))
              else Inr (Some Aborted, s))))"

fun handle_importer_event :: "importer_env \<Rightarrow> importer_event \<Rightarrow> importer \<Rightarrow> (importer_exit option \<times> importer) result" where
  "handle_importer_event env (ImCqlResult (Inr mi)) s = handle_imported env mi s"
| "handle_importer_event env (ImCqlResult (Inl mi)) s = Inr (Some Aborted, s)"
| "handle_importer_event env (ProcessMore mi) s = handle_process_more env mi s"
| "handle_importer_event env ImShutdown s = Inr (None, s\<lparr>im_stopping := True, im_handle := False\<rparr>)"

text \<open>The check before the loop: a file with nothing left to import.\<close>

definition already_imported :: "importer \<Rightarrow> bool" where
  "already_imported s \<longleftrightarrow> im_progress s = [] \<and> im_eof s"

section \<open>Workers\<close>

text \<open>The clones that the driver sends again when the error names an unprepared statement.\<close>

definition resent :: "importer_env \<Rightarrow> bool \<Rightarrow> db_insert \<Rightarrow> 'w \<Rightarrow> 'w list option" where
  "resent env unprepared r w =
     (if unprepared \<and> we_reporter env
      then Some (case we_resends env r of None \<Rightarrow> [] | Some n \<Rightarrow> replicate n w) else None)"

text \<open>
  \<^verbatim>\<open>AtomicImporterWorker\<close>: what is in flight after a reply, and whether the handle's flag is set.
  A retry that cannot be built leaves the worker to be dropped without the flag.
\<close>

datatype row_worker = RowWorker (rw_row: db_insert) (rw_retries: usize)

definition row_reply :: "importer_env \<Rightarrow> db_reply \<Rightarrow> row_worker \<Rightarrow> row_worker list \<times> bool" where
  "row_reply env reply w =
     (case reply of
        CqlError un \<Rightarrow>
          (case resent env un (rw_row w) w of
             Some ws \<Rightarrow> (ws, False)
           | None \<Rightarrow>
               (if 0 < rw_retries w
                then (if we_rebuilds env (rw_row w) then [RowWorker (rw_row w) (rw_retries w - 1)] else [], False)
                else ([], True)))
      | _ \<Rightarrow> ([], False))"

text \<open>\<^verbatim>\<open>AnalyzeAndSyncWorker\<close> and \<^verbatim>\<open>AnalyzeWorker\<close>.\<close>

fun worker_row :: "import_worker \<Rightarrow> db_insert" where
  "worker_row (AnalyzeAndSync ar analyzed sr n) = (if analyzed then Ins_sync sr else Ins_analytic ar)"
| "worker_row (Analyze ar n) = Ins_analytic ar"

fun worker_index :: "import_worker \<Rightarrow> u32" where
  "worker_index (AnalyzeAndSync ar analyzed sr n) = milestone_index sr"
| "worker_index (Analyze ar n) = ar_milestone_index ar"

fun worker_retries :: "import_worker \<Rightarrow> usize" where
  "worker_retries (AnalyzeAndSync ar analyzed sr n) = n"
| "worker_retries (Analyze ar n) = n"

fun worker_retry :: "import_worker \<Rightarrow> import_worker" where
  "worker_retry (AnalyzeAndSync ar analyzed sr n) = AnalyzeAndSync ar analyzed sr (n - 1)"
| "worker_retry (Analyze ar n) = Analyze ar (n - 1)"

definition worker_error :: "importer_env \<Rightarrow> bool \<Rightarrow> import_worker \<Rightarrow> import_worker list \<times> importer_event list" where
  "worker_error env un w =
     (case resent env un (worker_row w) w of
        Some ws \<Rightarrow> (ws, [])
      | None \<Rightarrow>
          (if 0 < worker_retries w then (if we_rebuilds env (worker_row w) then [worker_retry w] else [], [])
           else ([], [ImCqlResult (Inl (worker_index w))])))"

definition sync_worker_reply ::
  "importer_env \<Rightarrow> db_reply \<Rightarrow> analytic_record \<Rightarrow> bool \<Rightarrow> sync_record \<Rightarrow> usize \<Rightarrow> import_worker list \<times> importer_event list" where
  "sync_worker_reply env reply ar analyzed sr n =
     (case reply of
        Accepted \<Rightarrow>
          (if analyzed then ([], [ImCqlResult (Inr (milestone_index sr))])
           else (if ie_insert_builds env (Ins_sync sr) then [AnalyzeAndSync ar True sr n] else [], []))
      | BadFrame \<Rightarrow> ([], [])
      | CqlError un \<Rightarrow> worker_error env un (AnalyzeAndSync ar analyzed sr n))"

definition analyze_worker_reply ::
  "importer_env \<Rightarrow> db_reply \<Rightarrow> analytic_record \<Rightarrow> usize \<Rightarrow> import_worker list \<times> importer_event list" where
  "analyze_worker_reply env reply ar n =
     (case reply of
        Accepted \<Rightarrow> ([], [ImCqlResult (Inr (ar_milestone_index ar))])
      | BadFrame \<Rightarrow> ([], [])
      | CqlError un \<Rightarrow> worker_error env un (Analyze ar n))"

fun worker_reply :: "importer_env \<Rightarrow> db_reply \<Rightarrow> import_worker \<Rightarrow> import_worker list \<times> importer_event list" where
  "worker_reply env reply (AnalyzeAndSync ar analyzed sr n) = sync_worker_reply env reply ar analyzed sr n"
| "worker_reply env reply (Analyze ar n) = analyze_worker_reply env reply ar n"

lemmas worker_reply_defs = sync_worker_reply_def analyze_worker_reply_def worker_error_def resent_def

section \<open>The rows of the collector\<close>

text \<open>What the importer keeps of the collector's actions: it has nothing to tell to solidifiers.\<close>

fun is_row :: "action \<Rightarrow> bool" where
  "is_row (Put r) = True"
| "is_row Crash = True"
| "is_row a = False"

definition same_outside :: "('c, 'd) collector_env \<Rightarrow> ('c, 'd) collector \<Rightarrow> importer_env \<Rightarrow> bool" where
  "same_outside cenv s env \<longleftrightarrow>
     ce_transaction_id cenv = ie_transaction_id env \<and> ce_id_string cenv = ie_id_string env \<and>
     ce_hex cenv = ie_hex env \<and> ce_output_kind cenv = ie_output_kind env \<and>
     ce_insert_builds cenv = ie_insert_builds env \<and> co_partition_config s = ie_partition_config env"

lemma filter_all: "\<forall>x\<in>set xs. P x \<Longrightarrow> filter P xs = xs"
  by simp

lemma im_parents_rows:
  "same_outside cenv s env \<Longrightarrow> filter is_row (insert_parents cenv s i ps mi st) = im_insert_parents env i ps mi st"
  by (auto simp: same_outside_def insert_parents_def im_insert_parents_def in_partition_def im_in_partition_def
      intro!: filter_all split: sum.splits)

lemma im_index_rows:
  "same_outside cenv s env \<Longrightarrow> filter is_row (insert_index s i t mi st) = im_insert_index env i t mi st"
  by (auto simp: same_outside_def insert_index_def im_insert_index_def in_partition_def im_in_partition_def split: sum.splits)

lemma im_address_rows:
  "same_outside cenv s env \<Longrightarrow> filter is_row (insert_address cenv s out t k mi st) = im_insert_address env out t k mi st"
  by (auto simp: same_outside_def insert_address_def im_insert_address_def in_partition_def im_in_partition_def Let_def
      split: sum.splits output_t.splits)

lemma im_input_rows_eq: "filter is_row (insert_input_rows i t ubs st conf k inp) = im_input_rows i t ubs st conf (k, inp)"
  by (simp add: insert_input_rows_def im_input_rows_def im_insert_input_def im_insert_unlock_def split: input_t.splits)

lemma im_transaction_rows:
  assumes "same_outside cenv s env"
  shows "filter is_row (insert_transaction cenv s i t ins outs ubs mi st) = im_insert_transaction env i t ins outs ubs mi st"
  unfolding insert_transaction_def im_insert_transaction_def Let_def filter_append filter_concat map_map
  by (rule arg_cong2 [of _ _ _ _ "(@)"]; rule arg_cong [of _ _ concat]; rule map_cong [OF refl])
     (auto simp: im_input_rows_eq insert_output_rows_def im_insert_output_def im_address_rows [OF assms])

lemma im_payload_rows:
  assumes "same_outside cenv s env" and "co_collector_count s \<noteq> 0"
  shows "filter is_row (insert_payload cenv s i m mi st meta p) = im_insert_payload env i m mi st meta p"
proof (induction p)
  case (Indexation_P x d)
  have "ce_hex cenv = ie_hex env" using assms(1) by (simp add: same_outside_def)
  thus ?case by (simp add: im_index_rows [OF assms(1)])
next
  case (Transaction_P ins outs p ubs)
  have "ce_transaction_id cenv = ie_transaction_id env" using assms(1) by (simp add: same_outside_def)
  thus ?case using Transaction_P by (cases p) (simp_all add: im_transaction_rows [OF assms(1)])
next
  case (Milestone_P mp)
  thus ?case using assms(2) by (simp add: solidifier_id_def)
next
  case Other_P
  thus ?case by simp
qed

lemma im_message_rows:
  assumes "same_outside cenv s env" and "co_collector_count s \<noteq> 0" and "md_referenced_by meta = Some mi"
  shows "filter is_row (referenced_rows cenv s i m meta mi) = message_rows env (i, FullMessage m meta)"
  using assms(3)
  by (auto simp: referenced_rows_def message_rows_def Let_def payload_rows_def im_parents_rows [OF assms(1)]
      im_payload_rows [OF assms(1, 2)] split: option.splits)

text \<open>The rows that a call of the collector persists.\<close>

fun persisted :: "collector_out list \<Rightarrow> db_insert list" where
  "persisted [] = []"
| "persisted (Persist w r # os) = r # persisted os"
| "persisted (e # os) = persisted os"

lemma run_actions_persist:
  "run_actions cenv w as s = Inr (None, s') \<Longrightarrow> ce_insert_builds cenv = ie_insert_builds env \<Longrightarrow>
   \<exists>os. co_out s' = co_out s @ os \<and> send_rows env (filter is_row as) = Inr (None, persisted os)"
proof (induction cenv w as s rule: run_actions.induct)
  case (2 cenv w r as s)
  then obtain os where "co_out s' = co_out s @ (Persist w r # os)" "send_rows env (filter is_row as) = Inr (None, persisted os)"
    by (auto simp: co_emit_def split: if_splits)
  thus ?case using 2 by (intro exI [of _ "Persist w r # os"]) (auto split: if_splits)
next
  case (3 cenv w d as s)
  then obtain os where "co_out s' = co_out s @ (Erase (co_retries s) d # os)" "send_rows env (filter is_row as) = Inr (None, persisted os)"
    by (auto simp: co_emit_def split: if_splits)
  thus ?case by (intro exI [of _ "Erase (co_retries s) d # os"]) auto
next
  case (4 cenv w k ev as s)
  then obtain os where "co_out s' = co_out s @ (CoToSolidifier k ev # os)" "send_rows env (filter is_row as) = Inr (None, persisted os)"
    by (auto simp: co_emit_def)
  thus ?case by (intro exI [of _ "CoToSolidifier k ev # os"]) auto
qed auto

text \<open>
  C38. The importer writes the rows of the collector: for a message that the collector persists
  with its metadata without a failure, the importer, with the same partitions and the same
  statements, sends the same rows in the same order, so that an imported log file leaves the
  database as collecting the messages would have.
\<close>

theorem importer_writes_collector_rows:
  assumes run: "insert_message_with_metadata cenv i m meta s = Inr (None, s')"
    and same: "same_outside cenv s env" and ref: "md_referenced_by meta = Some (co_ref_ms s)"
  shows "\<exists>os. co_out s' = co_out s @ os \<and> send_rows env (message_rows env (i, FullMessage m meta)) = Inr (None, persisted os)"
proof -
  obtain sid where sid: "solidifier_handle s (co_ref_ms s) = Inr sid"
    and run': "run_actions cenv (AtomicWorker sid (co_ref_ms s) i (co_retries s)) (referenced_rows cenv s i m meta (co_ref_ms s)) s = Inr (None, s')"
    using run by (auto simp: insert_message_with_metadata_def rbind_Inr_iff simp del: run_actions.simps)
  have count: "co_collector_count s \<noteq> 0"
    using sid by (auto simp: solidifier_handle_def rbind_Inr_iff solidifier_id_def)
  have "ce_insert_builds cenv = ie_insert_builds env" using same by (simp add: same_outside_def)
  from run_actions_persist [OF run' this] show ?thesis by (simp add: im_message_rows [OF same count ref])
qed

definition plain_importer_env :: importer_env where
  "plain_importer_env =
     \<lparr>we_rebuilds = (\<lambda>_. True), we_resends = (\<lambda>_. Some 1), we_reporter = True,
      ie_partition_config = default_partition_config, ie_insert_builds = (\<lambda>r. True), ie_transaction_id = (\<lambda>p. 7),
      ie_id_string = (\<lambda>i. ''id''), ie_hex = (\<lambda>x. ''hex''), ie_output_kind = (\<lambda>out. 0), ie_line_len = (\<lambda>l. 8)\<rparr>"

theorem importer_writes_collector_rows_witness:
  "case insert_message_with_metadata plain_env 9 indexed_message (metadata_at 5 9) (two_collectors\<lparr>co_ref_ms := 5\<rparr>) of
     Inr (None, s') \<Rightarrow>
       (\<exists>os. co_out s' = co_out (two_collectors\<lparr>co_ref_ms := 5\<rparr>) @ os \<and>
         send_rows plain_importer_env (message_rows plain_importer_env (9, FullMessage indexed_message (metadata_at 5 9))) =
           Inr (None, persisted os))
   | _ \<Rightarrow> False"
proof -
  let ?s = "two_collectors\<lparr>co_ref_ms := 5\<rparr>"
  have "(case insert_message_with_metadata plain_env 9 indexed_message (metadata_at 5 9) ?s of Inr (None, s') \<Rightarrow> True | _ \<Rightarrow> False)"
    by code_simp
  then obtain s' where run: "insert_message_with_metadata plain_env 9 indexed_message (metadata_at 5 9) ?s = Inr (None, s')"
    by (auto split: sum.splits option.splits)
  have "same_outside plain_env ?s plain_importer_env"
    by (simp add: same_outside_def plain_defs plain_importer_env_def)
  from importer_writes_collector_rows [OF run this] run show ?thesis by (simp add: metadata_at_def)
qed

end
