(* ===== verification/Broker.thy ===== *)
theory Broker
  imports Importer Requester
begin

text \<open>
  The broker application (\<^verbatim>\<open>chronicle-broker/src/application/\<close>): it starts and stops the other
  actors, changes the topology on request, and shares its parallelism points out to importers.

  The \<^verbatim>\<open>Service\<close> of an actor is third-party: a name, a status, and for the broker its microservices by
  name. The file system, the parsing of URLs and the check of an endpoint are parameters. What the
  broker sends and starts is emitted.
\<close>

section \<open>Events\<close>

datatype service_status = SvInitializing | SvRunning | SvStopping | SvStopped | SvOther

record child_service =
  sv_name :: string
  sv_status :: service_status

datatype need = NeedAbort | NeedRestart | NeedOther

text \<open>\<^verbatim>\<open>Result<(), Need>\<close>: \<open>None\<close> is \<^verbatim>\<open>Ok(())\<close>.\<close>

type_synonym need_status = "need option"

datatype mqtt_type = MqttMessages | MqttReferenced

fun topic_name :: "mqtt_type \<Rightarrow> string" where
  "topic_name MqttMessages = ''messages''"
| "topic_name MqttReferenced = ''messages/referenced''"

fun topic_of_name :: "string \<Rightarrow> mqtt_type option" where
  "topic_of_name n =
     (if n = ''messages'' then Some MqttMessages else if n = ''messages/referenced'' then Some MqttReferenced else None)"

text \<open>A path that is valid Unicode, or one that is not.\<close>

datatype path = Path string | RawPath "u8 list"

fun path_str :: "path \<Rightarrow> string option" where
  "path_str (Path s) = Some s"
| "path_str (RawPath bs) = None"

record import_request =
  ir_path :: path
  ir_resume :: bool
  ir_range :: "u32_range option"
  ir_mode :: import_mode

datatype endpoint_topology = AddEndpoint_T string | RemoveEndpoint_T string

datatype broker_topology =
    AddMqtt mqtt_type string
  | RemoveMqtt mqtt_type string
  | Import import_request
  | Requesters endpoint_topology

datatype importer_session = SessionProgress importer_out | SessionFinish u32 u32 string | PathError path string | SessionClose

datatype broker_event =
    BeImporter importer_session
  | BeShutdown
  | BeTopology broker_topology
  | BeExitProgram
  | BeOtherApp
  | BeScylla service_status
  | BeListener child_service
  | BeCollector child_service
  | BeImporterChild child_service need_status u8
  | BeSolidifier child_service need_status
  | BeSyncer child_service need_status
  | BeArchiver child_service need_status
  | BeMqtt child_service bool need_status
  | BeWebsocket child_service bool

datatype socket_msg =
    SessionMsg importer_session
  | TopologyMsg bool broker_topology
  | ServiceMsg service_status "(string, service_status) hmap"

datatype broker_out =
    ToSocket string socket_msg
  | CloseSocket string
  | StartMqtt mqtt_type string bool
  | ShutdownMqtt string
  | SaveConfig
  | StartImporter path bool "u32_range option" import_mode u8
  | ShutdownImporter string
  | ToCollector u8 endpoint_topology
  | StartArchiver
  | StartSyncer bool
  | StartCollector u8
  | StartSolidifier u8 u32
  | ShutdownListener
  | ShutdownCollector u8
  | ShutdownSolidifier u8
  | ShutdownSyncer
  | SupShutdownApp
  | SupStatusChange service_status
  | SupRequestService
  | SupExitProgram
  | SupPassthrough

section \<open>State\<close>

record broker =
  br_status :: service_status
  br_services :: "(string, service_status) hmap"
  br_websockets :: "(string, unit) hmap"
  br_listener :: bool
  br_mqtt :: "(string, unit) hmap"
  br_importers :: "(string, unit) hmap"
  br_asked :: "(string, unit) hmap"
  br_parallelism :: u8
  br_points :: u8
  br_pending :: "import_request list"
  br_in_progress :: usize
  br_collector_count :: u8
  br_collectors :: "u8 list"
  br_solidifiers :: "u8 list"
  br_syncer :: bool
  br_handle :: bool
  br_sync_data :: sync_data
  br_mqtt_config :: "(mqtt_type, string list) hmap"
  br_out :: "broker_out list"

record broker_env =
  be_is_file :: "path \<Rightarrow> bool"
  be_is_dir :: "path \<Rightarrow> bool"
  be_read_dir :: "path \<Rightarrow> path list option"
  be_adjust_endpoint :: "string \<Rightarrow> string option"
  be_verify_endpoint :: "string \<Rightarrow> bool"
  be_parse_url :: "string \<Rightarrow> string option"

definition new_broker :: "bool \<Rightarrow> u8 option \<Rightarrow> u8 option \<Rightarrow> (mqtt_type, string list) hmap \<Rightarrow> broker" where
  "new_broker listener par ccount mqtt_config =
     \<lparr>br_status = SvOther, br_services = [], br_websockets = [], br_listener = listener, br_mqtt = [], br_importers = [],
      br_asked = [], br_parallelism = (case par of None \<Rightarrow> 25 | Some p \<Rightarrow> p),
      br_points = (case par of None \<Rightarrow> 25 | Some p \<Rightarrow> p), br_pending = [], br_in_progress = 0,
      br_collector_count = (case ccount of None \<Rightarrow> 10 | Some n \<Rightarrow> n), br_collectors = [], br_solidifiers = [],
      br_syncer = False, br_handle = True, br_sync_data = default_sync_data, br_mqtt_config = mqtt_config, br_out = []\<rparr>"

definition br_emit :: "broker_out list \<Rightarrow> broker \<Rightarrow> broker" where
  "br_emit os b = b\<lparr>br_out := br_out b @ os\<rparr>"

definition response_to_sockets :: "socket_msg \<Rightarrow> broker \<Rightarrow> broker" where
  "response_to_sockets m b = br_emit (map (\<lambda>(n, _). ToSocket n m) (br_websockets b)) b"

definition update_microservice :: "string \<Rightarrow> service_status \<Rightarrow> broker \<Rightarrow> broker" where
  "update_microservice n st b = b\<lparr>br_services := hm_insert n st (br_services b)\<rparr>"

definition delete_microservice :: "string \<Rightarrow> broker \<Rightarrow> broker" where
  "delete_microservice n b = b\<lparr>br_services := hm_remove n (br_services b)\<rparr>"

section \<open>Mqtt\<close>

definition mqtt_name :: "mqtt_type \<Rightarrow> string \<Rightarrow> string" where
  "mqtt_name t url = topic_name t @ ''@'' @ url"

text \<open>The configured brokers of a type, if any are; a change is saved with the history.\<close>

definition change_mqtt_config :: "mqtt_type \<Rightarrow> (string list \<Rightarrow> string list) \<Rightarrow> broker \<Rightarrow> broker" where
  "change_mqtt_config t f b =
     (case hm_get (br_mqtt_config b) t of
        None \<Rightarrow> b
      | Some urls \<Rightarrow>
          (if f urls = urls then b
           else br_emit [SaveConfig] (b\<lparr>br_mqtt_config := hm_insert t (f urls) (br_mqtt_config b)\<rparr>)))"

definition add_mqtt :: "mqtt_type \<Rightarrow> string \<Rightarrow> broker \<Rightarrow> bool \<times> broker" where
  "add_mqtt t url b =
     (let n = mqtt_name t url in
      case hm_get (br_services b) n of
        Some _ \<Rightarrow> (False, b)
      | None \<Rightarrow> (True, change_mqtt_config t (\<lambda>urls. if url \<in> set urls then urls else urls @ [url]) (update_microservice n SvOther b)))"

definition remove_mqtt :: "mqtt_type \<Rightarrow> string \<Rightarrow> broker \<Rightarrow> broker" where
  "remove_mqtt t url b =
     (let n = mqtt_name t url in
      case hm_get (br_services b) n of
        None \<Rightarrow> b
      | Some _ \<Rightarrow>
          (let b = b\<lparr>br_asked := hm_insert n () (br_asked b)\<rparr> in
           case hm_get (br_mqtt b) n of
             None \<Rightarrow> b
           | Some _ \<Rightarrow>
               change_mqtt_config t (filter (\<lambda>u. u \<noteq> url))
                 (br_emit [ShutdownMqtt n] (b\<lparr>br_mqtt := hm_remove n (br_mqtt b)\<rparr>))))"

definition start_mqtt :: "mqtt_type \<Rightarrow> string \<Rightarrow> broker \<Rightarrow> broker" where
  "start_mqtt t url b = (case add_mqtt t url b of (ok, b) \<Rightarrow> if ok then br_emit [StartMqtt t url False] b else b)"

text \<open>The parts of a name before and after its first \<^verbatim>\<open>@\<close>, the latter up to a second one.\<close>

definition split_at_sign :: "string \<Rightarrow> string \<times> string option" where
  "split_at_sign n =
     (takeWhile (\<lambda>c. c \<noteq> CHR ''@'') n,
      case dropWhile (\<lambda>c. c \<noteq> CHR ''@'') n of [] \<Rightarrow> None | c # r \<Rightarrow> Some (takeWhile (\<lambda>c. c \<noteq> CHR ''@'') r))"

definition restart_mqtt :: "broker_env \<Rightarrow> string \<Rightarrow> broker \<Rightarrow> broker result" where
  "restart_mqtt env n b =
     (let b = delete_microservice n b in
      case split_at_sign n of
        (topic, None) \<Rightarrow> Inl Panic
      | (topic, Some u) \<Rightarrow>
          (case be_parse_url env u of
             None \<Rightarrow> Inl Panic
           | Some url \<Rightarrow>
               (case topic_of_name topic of
                  None \<Rightarrow> Inl Panic
                | Some t \<Rightarrow>
                    (case add_mqtt t url b of
                       (False, b) \<Rightarrow> Inl Panic
                     | (True, b) \<Rightarrow> Inr (br_emit [StartMqtt t url True] b)))))"

definition handle_mqtt_child :: "broker_env \<Rightarrow> child_service \<Rightarrow> bool \<Rightarrow> need_status \<Rightarrow> broker \<Rightarrow> broker result" where
  "handle_mqtt_child env sv has_handle st b =
     (let n = sv_name sv; b = update_microservice n (sv_status sv) b in
      case st of
        None \<Rightarrow>
          Inr (if has_handle
               then (if br_status b \<noteq> SvStopping then b\<lparr>br_mqtt := hm_insert n () (br_mqtt b)\<rparr>
                     else br_emit [ShutdownMqtt n] b)
               else b)
      | Some NeedAbort \<Rightarrow> Inr (delete_microservice n b)
      | Some _ \<Rightarrow>
          (let asked = hm_contains (br_asked b) n in
           if br_status b \<noteq> SvStopping \<and> sv_status sv = SvStopped \<and> \<not> asked then restart_mqtt env n b
           else if asked \<and> sv_status sv = SvStopped
           then Inr ((delete_microservice n b)\<lparr>br_asked := hm_remove n (br_asked b)\<rparr>)
           else Inr b))"

section \<open>Importers\<close>

definition build_and_start_importer :: "import_request \<Rightarrow> string \<Rightarrow> u8 \<Rightarrow> broker \<Rightarrow> broker" where
  "build_and_start_importer r n p b =
     br_emit [StartImporter (ir_path r) (ir_resume r) (ir_range r) (ir_mode r) p]
       (update_microservice n SvOther (b\<lparr>br_importers := hm_insert n () (br_importers b)\<rparr>))"

definition spawn_importer :: "import_request \<Rightarrow> u8 \<Rightarrow> broker \<Rightarrow> broker" where
  "spawn_importer r p b =
     (if br_status b = SvStopping then b
      else
        (case path_str (ir_path r) of
           Some n \<Rightarrow>
             (if hm_get (br_services b) n \<noteq> None then b
              else (let b = build_and_start_importer r n p b
                    in b\<lparr>br_in_progress := br_in_progress b + 1, br_points := br_points b - p\<rparr>))
         | None \<Rightarrow>
             response_to_sockets (SessionMsg (PathError (ir_path r) ''Unable to convert path to string''))
               (b\<lparr>br_points := br_points b + p\<rparr>)))"

definition spawn_importers :: "broker_env \<Rightarrow> import_request \<Rightarrow> broker \<Rightarrow> broker" where
  "spawn_importers env r b =
     (let files = filter (be_is_file env) (case be_read_dir env (ir_path r) of None \<Rightarrow> [] | Some ps \<Rightarrow> ps);
          of_path = (\<lambda>p. r\<lparr>ir_path := p\<rparr>)
      in if files = [] then response_to_sockets (SessionMsg (PathError (ir_path r) ''No LogFiles in the provided path'')) b
         else if length files < unat (br_points b)
         then (let p = of_nat (unat (br_points b) div length files) in fold (\<lambda>f. spawn_importer (of_path f) p) files b)
         else (let b = spawn_importer (of_path (last files)) (br_points b) b
               in b\<lparr>br_pending := br_pending b @ map of_path (butlast files)\<rparr>))"

definition handle_import :: "broker_env \<Rightarrow> import_request \<Rightarrow> broker \<Rightarrow> broker" where
  "handle_import env r b =
     (if br_status b = SvStopping then b
      else if br_points b = 0 then b\<lparr>br_pending := br_pending b @ [r]\<rparr>
      else if be_is_file env (ir_path r) then spawn_importer r (br_points b) b
      else if be_is_dir env (ir_path r) then spawn_importers env r b
      else response_to_sockets (SessionMsg (PathError (ir_path r) ''Invalid path'')) b)"

definition try_close_importer_session :: "broker \<Rightarrow> broker" where
  "try_close_importer_session b =
     (if br_in_progress b = 0 then response_to_sockets (SessionMsg SessionClose) b else b)"

definition pop_pending :: "broker_env \<Rightarrow> broker \<Rightarrow> broker" where
  "pop_pending env b =
     (if br_pending b = [] then b
      else handle_import env (last (br_pending b)) (b\<lparr>br_pending := butlast (br_pending b)\<rparr>))"

definition handle_importer_child :: "broker_env \<Rightarrow> child_service \<Rightarrow> u8 \<Rightarrow> broker \<Rightarrow> broker" where
  "handle_importer_child env sv p b =
     (if sv_status sv = SvStopped
      then (let b = delete_microservice (sv_name sv) (b\<lparr>br_in_progress := br_in_progress b - 1\<rparr>);
                b = pop_pending env (b\<lparr>br_points := br_points b + p\<rparr>)
            in try_close_importer_session (b\<lparr>br_importers := hm_remove (sv_name sv) (br_importers b)\<rparr>))
      else update_microservice (sv_name sv) (sv_status sv) b)"

section \<open>Shutdown\<close>

definition broker_shutdown :: "bool \<Rightarrow> broker \<Rightarrow> broker" where
  "broker_shutdown drop_handle b =
     (if br_status b = SvStopping then b
      else
        b\<lparr>br_status := SvStopping, br_listener := False, br_mqtt := [], br_collectors := [], br_solidifiers := [],
          br_syncer := False, br_importers := [], br_handle := br_handle b \<and> \<not> drop_handle,
          br_out := br_out b @ (if drop_handle then [SupShutdownApp] else []) @
            (if br_listener b then [ShutdownListener] else []) @
            map (\<lambda>(n, _). ShutdownMqtt n) (br_mqtt b) @
            map ShutdownCollector (br_collectors b) @ map ShutdownSolidifier (br_solidifiers b) @
            map (\<lambda>(n, _). CloseSocket n) (br_websockets b) @
            (if br_syncer b then [ShutdownSyncer] else []) @
            map (\<lambda>(n, _). ShutdownImporter n) (br_importers b)\<rparr>)"

section \<open>The event loop\<close>

definition handle_requesters :: "broker_env \<Rightarrow> endpoint_topology \<Rightarrow> broker \<Rightarrow> broker" where
  "handle_requesters env t b =
     (case t of
        AddEndpoint_T url \<Rightarrow>
          (case be_adjust_endpoint env url of
             None \<Rightarrow> response_to_sockets (TopologyMsg False (Requesters t)) b
           | Some url' \<Rightarrow>
               (if \<not> be_verify_endpoint env url' then response_to_sockets (TopologyMsg False (Requesters t)) b
                else response_to_sockets (TopologyMsg True (Requesters (AddEndpoint_T url')))
                       (br_emit (map (\<lambda>c. ToCollector c (AddEndpoint_T url')) (br_collectors b)) b)))
      | RemoveEndpoint_T url \<Rightarrow> br_emit (map (\<lambda>c. ToCollector c t) (br_collectors b)) b)"

definition handle_topology :: "broker_env \<Rightarrow> broker_topology \<Rightarrow> broker \<Rightarrow> broker" where
  "handle_topology env t b =
     (if br_status b = SvStopping then response_to_sockets (TopologyMsg False t) b
      else
        (case t of
           AddMqtt ty url \<Rightarrow> start_mqtt ty url b
         | RemoveMqtt ty url \<Rightarrow> remove_mqtt ty url b
         | Import r \<Rightarrow> try_close_importer_session (handle_import env r b)
         | Requesters e \<Rightarrow> handle_requesters env e b))"

text \<open>A solidifier that aborts pauses the broker until the database is back; a syncer or an archiver stops it.\<close>

definition handle_solidifier_child :: "child_service \<Rightarrow> need_status \<Rightarrow> need_status \<times> broker \<Rightarrow> need_status \<times> broker" where
  "handle_solidifier_child sv st = (\<lambda>(status, b).
     let (status, b) =
       (if st = Some NeedAbort \<and> sv_status sv = SvStopped
        then (Some NeedRestart, broker_shutdown False (br_emit [SupRequestService] b)) else (status, b))
     in (status, update_microservice (sv_name sv) (sv_status sv) b))"

definition handle_aborting_child :: "child_service \<Rightarrow> need_status \<Rightarrow> need_status \<times> broker \<Rightarrow> need_status \<times> broker" where
  "handle_aborting_child sv st = (\<lambda>(status, b).
     let (status, b) =
       (if st = Some NeedAbort \<and> sv_status sv = SvStopped \<and> status \<noteq> Some NeedRestart
        then (st, broker_shutdown True b) else (status, b))
     in (status, update_microservice (sv_name sv) (sv_status sv) b))"

definition handle_websocket_child :: "child_service \<Rightarrow> bool \<Rightarrow> broker \<Rightarrow> broker result" where
  "handle_websocket_child sv has_tx b =
     (if sv_status sv = SvInitializing
      then (if has_tx then Inr (b\<lparr>br_websockets := hm_insert (sv_name sv) () (br_websockets b)\<rparr>) else Inl Panic)
      else if sv_status sv = SvStopped
      then (if hm_contains (br_websockets b) (sv_name sv)
            then Inr (br_emit [CloseSocket (sv_name sv)] (b\<lparr>br_websockets := hm_remove (sv_name sv) (br_websockets b)\<rparr>))
            else Inl Panic)
      else Inr b)"

text \<open>After a child's event the sockets and the launcher learn of the broker's service.\<close>

definition report_service :: "broker \<Rightarrow> broker" where
  "report_service b = br_emit [SupStatusChange (br_status b)] (response_to_sockets (ServiceMsg (br_status b) (br_services b)) b)"

text \<open>One event: whether the loop returns at once, its status and the state.\<close>

fun handle_broker_event ::
  "broker_env \<Rightarrow> broker_event \<Rightarrow> need_status \<times> broker \<Rightarrow> (bool \<times> need_status \<times> broker) result" where
  "handle_broker_event env (BeImporter s) (st, b) = Inr (False, st, response_to_sockets (SessionMsg s) b)"
| "handle_broker_event env BeShutdown (st, b) = Inr (False, st, (broker_shutdown True b)\<lparr>br_handle := False\<rparr>)"
| "handle_broker_event env (BeTopology t) (st, b) = Inr (False, st, handle_topology env t b)"
| "handle_broker_event env BeExitProgram (st, b) = Inr (False, st, br_emit [SupExitProgram] b)"
| "handle_broker_event env BeOtherApp (st, b) = Inr (False, st, br_emit [SupPassthrough] b)"
| "handle_broker_event env (BeScylla sv) (st, b) =
     (if st = Some NeedRestart \<and> sv = SvRunning then Inr (True, Some NeedRestart, b\<lparr>br_handle := False\<rparr>) else Inr (False, st, b))"
| "handle_broker_event env (BeListener sv) (st, b) =
     Inr (False, st, report_service (update_microservice (sv_name sv) (sv_status sv) b))"
| "handle_broker_event env (BeCollector sv) (st, b) =
     Inr (False, st, report_service (update_microservice (sv_name sv) (sv_status sv) b))"
| "handle_broker_event env (BeImporterChild sv ist p) (st, b) =
     Inr (False, st, report_service (handle_importer_child env sv p b))"
| "handle_broker_event env (BeSolidifier sv sst) (st, b) =
     (case handle_solidifier_child sv sst (st, b) of (st, b) \<Rightarrow> Inr (False, st, report_service b))"
| "handle_broker_event env (BeSyncer sv sst) (st, b) =
     (case handle_aborting_child sv sst (st, b) of (st, b) \<Rightarrow> Inr (False, st, report_service b))"
| "handle_broker_event env (BeArchiver sv sst) (st, b) =
     (case handle_aborting_child sv sst (st, b) of (st, b) \<Rightarrow> Inr (False, st, report_service b))"
| "handle_broker_event env (BeMqtt sv h mst) (st, b) =
     rbind (handle_mqtt_child env sv h mst b) (\<lambda>b. Inr (False, st, report_service b))"
| "handle_broker_event env (BeWebsocket sv tx) (st, b) =
     rbind (handle_websocket_child sv tx b) (\<lambda>b. Inr (False, st, b))"

section \<open>Start and end\<close>

text \<open>
  \<^verbatim>\<open>init\<close>, given whether a log directory is configured and the sync data that were fetched: without a
  gap there is no first one to unwrap. The syncer's first task is to complete the gaps or to fill them.
\<close>

definition broker_init :: "bool \<Rightarrow> sync_data result \<Rightarrow> broker \<Rightarrow> (need_status \<times> broker) result" where
  "broker_init logs_dir fetched b =
     (let b = br_emit [SupStatusChange SvInitializing] (b\<lparr>br_status := SvInitializing\<rparr>) in
      case fetched of
        Inl e \<Rightarrow> Inr (Some NeedOther, b)
      | Inr sd \<Rightarrow>
          (case gaps sd of
             [] \<Rightarrow> Inl Panic
           | gap # _ \<Rightarrow>
               (let ids = map of_nat [0..<unat (br_collector_count b)];
                    b = br_emit ((if logs_dir then [StartArchiver] else []) @ [StartSyncer logs_dir])
                      (b\<lparr>br_sync_data := sd, br_collectors := ids, br_solidifiers := ids, br_syncer := True\<rparr>);
                    urls = (\<lambda>t. case hm_get (br_mqtt_config b) t of None \<Rightarrow> [] | Some us \<Rightarrow> us);
                    b = fold (start_mqtt MqttMessages) (urls MqttMessages) b;
                    b = fold (start_mqtt MqttReferenced) (urls MqttReferenced) b
                in Inr (None, br_emit (map StartCollector ids @ map (\<lambda>i. StartSolidifier i (rstart gap)) ids) b))))"

definition broker_terminating :: "need_status \<Rightarrow> broker \<Rightarrow> broker" where
  "broker_terminating st b = (if st = Some NeedAbort then broker_shutdown True b else b)"

section \<open>The books of the importers\<close>

text \<open>The broker with the importers it has started and that have not stopped yet.\<close>

fun started :: "broker_out list \<Rightarrow> (string \<times> u8) list" where
  "started [] = []"
| "started (StartImporter (Path n) r rng m p # os) = (n, p) # started os"
| "started (x # os) = started os"

fun importer_stop :: "broker_event \<Rightarrow> (string \<times> u8) option" where
  "importer_stop (BeImporterChild sv st p) = (if sv_status sv = SvStopped then Some (sv_name sv, p) else None)"
| "importer_stop ev = None"

type_synonym broker_world = "need_status \<times> broker \<times> (string \<times> u8) list"

inductive broker_run :: "need_status \<times> broker \<Rightarrow> (broker_env \<times> broker_event) list \<Rightarrow> broker_world \<Rightarrow> bool" for start where
  run_start: "broker_run start [] (fst start, snd start, [])"
| run_event:
    "broker_run start evs (st, b, R) \<Longrightarrow> importer_stop ev = None \<Longrightarrow>
     handle_broker_event env ev (st, b\<lparr>br_out := []\<rparr>) = Inr (False, st', b') \<Longrightarrow>
     broker_run start (evs @ [(env, ev)]) (st', b', R @ started (br_out b'))"
| run_stop:
    "broker_run start evs (st, b, R) \<Longrightarrow> importer_stop ev = Some x \<Longrightarrow> x \<in> set R \<Longrightarrow>
     handle_broker_event env ev (st, b\<lparr>br_out := []\<rparr>) = Inr (False, st', b') \<Longrightarrow>
     broker_run start (evs @ [(env, ev)]) (st', b', remove1 x R @ started (br_out b'))"

text \<open>All paths that are asked for or listed are Unicode.\<close>

definition readable :: "path \<Rightarrow> bool" where
  "readable p \<longleftrightarrow> path_str p \<noteq> None"

definition env_readable :: "broker_env \<Rightarrow> bool" where
  "env_readable env \<longleftrightarrow> (\<forall>p ps. be_read_dir env p = Some ps \<longrightarrow> list_all readable ps)"

fun event_readable :: "broker_event \<Rightarrow> bool" where
  "event_readable (BeTopology (Import r)) = readable (ir_path r)"
| "event_readable ev = True"

lemma started_append [simp]: "started (xs @ ys) = started xs @ started ys"
  by (induction xs rule: started.induct) simp_all

text \<open>What the books are about.\<close>

definition account :: "broker \<Rightarrow> u8 \<times> usize \<times> import_request list \<times> (string \<times> u8) list" where
  "account b = (br_points b, br_in_progress b, br_pending b, started (br_out b))"

lemma started_Cons: "started (x # xs) = started [x] @ started xs"
  using started_append [of "[x]" xs] by simp

lemma started_map [simp]: "(\<And>x. started [f x] = []) \<Longrightarrow> started (map f xs) = []"
  by (induction xs) (simp_all add: started_Cons [of "f x" "map f xs" for x xs])

lemma started_pairs [simp]: "(\<And>n u. started [f n u] = []) \<Longrightarrow> started (map (\<lambda>(n, u). f n u) xs) = []"
  by (rule started_map) (simp split: prod.splits)

lemma account_update [simp]:
  "account (b\<lparr>br_status := x1\<rparr>) = account b" "account (b\<lparr>br_services := x2\<rparr>) = account b"
  "account (b\<lparr>br_websockets := x3\<rparr>) = account b" "account (b\<lparr>br_listener := x4\<rparr>) = account b"
  "account (b\<lparr>br_mqtt := x5\<rparr>) = account b" "account (b\<lparr>br_importers := x6\<rparr>) = account b"
  "account (b\<lparr>br_asked := x7\<rparr>) = account b" "account (b\<lparr>br_collectors := x8\<rparr>) = account b"
  "account (b\<lparr>br_solidifiers := x9\<rparr>) = account b" "account (b\<lparr>br_syncer := x10\<rparr>) = account b"
  "account (b\<lparr>br_handle := x11\<rparr>) = account b" "account (b\<lparr>br_sync_data := x12\<rparr>) = account b"
  "account (b\<lparr>br_mqtt_config := x13\<rparr>) = account b"
  by (simp_all add: account_def)

lemma account_emit: "started os = [] \<Longrightarrow> account (br_emit os b) = account b"
  by (simp add: account_def br_emit_def)

lemma account_sockets [simp]: "account (response_to_sockets m b) = account b"
  by (simp add: response_to_sockets_def account_emit)

lemma account_services [simp]:
  "account (update_microservice n sv b) = account b" "account (delete_microservice n b) = account b"
  by (simp_all add: update_microservice_def delete_microservice_def)

lemma account_config [simp]: "account (change_mqtt_config t f b) = account b"
  by (simp add: change_mqtt_config_def account_emit split: option.splits)

lemma account_mqtt [simp]:
  "account (remove_mqtt t url b) = account b"
  by (simp_all add: remove_mqtt_def Let_def account_emit split: option.splits)

lemma account_add_mqtt: "add_mqtt t url b = (ok, b') \<Longrightarrow> account b' = account b"
  by (auto simp: add_mqtt_def Let_def split: option.splits)

lemma account_start_mqtt [simp]: "account (start_mqtt t url b) = account b"
  by (cases "add_mqtt t url b") (simp add: start_mqtt_def account_emit account_add_mqtt)

lemma account_start_mqtts [simp]: "account (fold (start_mqtt t) urls b) = account b"
  by (induction urls arbitrary: b) simp_all

lemma account_restart: "restart_mqtt env n b = Inr b' \<Longrightarrow> account b' = account b"
proof -
  assume r: "restart_mqtt env n b = Inr b'"
  then obtain topic u url t c where "add_mqtt t url (delete_microservice n b) = (True, c)" "b' = br_emit [StartMqtt t url True] c"
    by (auto simp: restart_mqtt_def Let_def split: prod.splits option.splits bool.splits)
  thus ?thesis using account_add_mqtt by (simp add: account_emit)
qed

lemma account_children [simp]:
  "account (try_close_importer_session b) = account b" "account (handle_requesters env e b) = account b"
  "account (report_service b) = account b"
  by (simp_all add: try_close_importer_session_def handle_requesters_def report_service_def account_emit
      split: endpoint_topology.splits option.splits)

lemma account_shutdown [simp]: "account (broker_shutdown d b) = account b"
  by (simp add: broker_shutdown_def account_def)

lemma account_mqtt_child: "handle_mqtt_child env sv h st b = Inr b' \<Longrightarrow> account b' = account b"
  using account_restart [of env "sv_name sv" "update_microservice (sv_name sv) (sv_status sv) b" b']
  by (auto simp: handle_mqtt_child_def Let_def account_emit split: option.splits need.splits if_splits)

lemma account_websocket_child: "handle_websocket_child sv tx b = Inr b' \<Longrightarrow> account b' = account b"
  by (auto simp: handle_websocket_child_def account_emit split: if_splits)

text \<open>The points in use are those of the importers that run and of those that are being started.\<close>

definition books :: "nat \<Rightarrow> (string \<times> u8) list \<Rightarrow> broker \<Rightarrow> bool" where
  "books tot R b \<longleftrightarrow>
     (case account b of (points, n, pending, new) \<Rightarrow>
        unat points + sum_list (map (unat \<circ> snd) (R @ new)) = tot \<and> unat n = length (R @ new) \<and>
        list_all (\<lambda>x. snd x \<noteq> 0) (R @ new) \<and> list_all (\<lambda>r. readable (ir_path r)) pending)"

lemma books_same: "account b' = account b \<Longrightarrow> books tot R b' = books tot R b"
  by (simp add: books_def)

lemma books_simps [simp]:
  "books tot R (response_to_sockets m b) = books tot R b"
  "books tot R (report_service b) = books tot R b"
  "books tot R (try_close_importer_session b) = books tot R b"
  "books tot R (update_microservice n sv b) = books tot R b"
  "books tot R (delete_microservice n b) = books tot R b"
  "books tot R (b\<lparr>br_importers := x\<rparr>) = books tot R b"
  by (rule books_same, simp)+

lemma length_le_sum: "list_all (\<lambda>x. snd x \<noteq> (0::u8)) R \<Longrightarrow> length R \<le> sum_list (map (unat \<circ> snd) R)"
proof (induction R)
  case (Cons x R)
  hence "0 < unat (snd x)" by (simp add: unat_gt_0)
  thus ?case using Cons by simp
qed simp

lemma spawn_importer_books:
  assumes books: "books tot R b" and tot: "tot < 256" and p: "0 < p" "p \<le> br_points b" and readable: "readable (ir_path r)"
  shows "books tot R (spawn_importer r p b)"
    and "br_points (spawn_importer r p b) = br_points b \<or> br_points (spawn_importer r p b) = br_points b - p"
proof -
  obtain n where n: "path_str (ir_path r) = Some n" using readable by (auto simp: readable_def)
  hence path: "ir_path r = Path n" by (cases "ir_path r") auto
  show "br_points (spawn_importer r p b) = br_points b \<or> br_points (spawn_importer r p b) = br_points b - p"
    by (auto simp: spawn_importer_def n build_and_start_importer_def br_emit_def update_microservice_def Let_def)
  show "books tot R (spawn_importer r p b)"
  proof (cases "br_status b = SvStopping \<or> hm_get (br_services b) n \<noteq> None")
    case True
    thus ?thesis using books by (auto simp: spawn_importer_def n)
  next
    case False
    let ?new = "R @ started (br_out b)"
    have b: "unat (br_points b) + sum_list (map (unat \<circ> snd) ?new) = tot" "unat (br_in_progress b) = length ?new"
      "list_all (\<lambda>x. snd x \<noteq> 0) ?new" "list_all (\<lambda>r. readable (ir_path r)) (br_pending b)"
      using books by (auto simp: books_def account_def)
    have len: "length ?new < 256" using length_le_sum [OF b(3)] b(1) tot by linarith
    have one: "unat (br_in_progress b + 1) = Suc (length ?new)"
      using len b(2) by (simp add: unat_word_ariths)
    have pts: "unat (br_points b - p) = unat (br_points b) - unat p" using p(2) by (rule unat_sub)
    have p0: "p \<noteq> 0" using p(1) by auto
    have le: "unat p \<le> unat (br_points b)" using p(2) by (simp add: word_le_nat_alt)
    have eq: "account (spawn_importer r p b) = (br_points b - p, br_in_progress b + 1, br_pending b, started (br_out b) @ [(n, p)])"
      using False by (simp add: spawn_importer_def n path build_and_start_importer_def br_emit_def update_microservice_def Let_def account_def)
    show ?thesis unfolding books_def eq using b le p0 by (simp add: one pts)
  qed
qed

lemma spawn_all_books:
  assumes "books tot R b" and "tot < 256" and "0 < p" and "length fs * unat p \<le> unat (br_points b)"
    and "list_all readable fs"
  shows "books tot R (fold (\<lambda>f. spawn_importer (r\<lparr>ir_path := f\<rparr>) p) fs b)"
  using assms
proof (induction fs arbitrary: b)
  case (Cons f fs)
  let ?b = "spawn_importer (r\<lparr>ir_path := f\<rparr>) p b"
  have le: "p \<le> br_points b" using Cons.prems(4) by (simp add: word_le_nat_alt)
  note spawn = spawn_importer_books [OF Cons.prems(1, 2, 3) le, of "r\<lparr>ir_path := f\<rparr>"]
  have books: "books tot R ?b" using spawn(1) Cons.prems(5) by simp
  have "length fs * unat p \<le> unat (br_points ?b)"
    using spawn(2) Cons.prems(4, 5) unat_sub [OF le] by auto
  from Cons.IH [OF books Cons.prems(2, 3) this] Cons.prems(5) show ?case by simp
qed simp

lemma spawn_importers_books:
  assumes books: "books tot R b" and tot: "tot < 256" and pts: "br_points b \<noteq> 0" and env: "env_readable env"
  shows "books tot R (spawn_importers env r b)"
proof -
  let ?files = "filter (be_is_file env) (case be_read_dir env (ir_path r) of None \<Rightarrow> [] | Some ps \<Rightarrow> ps)"
  have readable: "list_all readable ?files"
    using env by (cases "be_read_dir env (ir_path r)") (auto simp: env_readable_def list_all_iff)
  show ?thesis
  proof (cases "?files = []")
    case True
    thus ?thesis using books by (simp add: spawn_importers_def)
  next
    case ne: False
    show ?thesis
    proof (cases "length ?files < unat (br_points b)")
      case True
      let ?p = "unat (br_points b) div length ?files"
      have "unat (br_points b) < 256" using unsigned_less [of "br_points b"] by simp
      hence "?p < 256" using div_le_dividend [of "unat (br_points b)" "length ?files"] by linarith
      hence p: "unat (of_nat ?p :: u8) = ?p" by (simp add: unat_of_nat)
      have "0 < ?p" using True ne by (simp add: div_greater_zero_iff)
      hence pos: "0 < (of_nat ?p :: u8)" using p by (simp add: word_less_nat_alt)
      have "length ?files * unat (of_nat ?p :: u8) \<le> unat (br_points b)" unfolding p by simp
      from spawn_all_books [OF books tot pos this readable] show ?thesis
        using ne True by (simp add: spawn_importers_def Let_def)
    next
      case False
      have pos: "0 < br_points b" using pts by (simp add: word_gt_0)
      have "readable (last ?files)" using readable last_in_set [OF ne] unfolding list_all_iff by blast
      hence "books tot R (spawn_importer (r\<lparr>ir_path := last ?files\<rparr>) (br_points b) b)"
        by (intro spawn_importer_books(1) [OF books tot pos]) simp_all
      moreover have "list_all (\<lambda>r. readable (ir_path r)) (map (\<lambda>p. r\<lparr>ir_path := p\<rparr>) (butlast ?files))"
        using readable by (auto simp: list_all_iff dest: in_set_butlastD)
      ultimately show ?thesis using ne False by (simp add: spawn_importers_def Let_def books_def account_def)
    qed
  qed
qed

lemma handle_import_books:
  assumes books: "books tot R b" and tot: "tot < 256" and env: "env_readable env" and readable: "readable (ir_path r)"
  shows "books tot R (handle_import env r b)"
proof -
  have "books tot R (b\<lparr>br_pending := br_pending b @ [r]\<rparr>)"
    using books readable by (simp add: books_def account_def)
  moreover have "0 < br_points b" if "br_points b \<noteq> 0" using that by (simp add: word_gt_0)
  ultimately show ?thesis
    using books spawn_importer_books(1) [OF books tot _ _ readable, of "br_points b"] spawn_importers_books [OF books tot _ env]
    by (simp add: handle_import_def)
qed

lemma pop_pending_books:
  assumes books: "books tot R b" and tot: "tot < 256" and env: "env_readable env"
  shows "books tot R (pop_pending env b)"
proof (cases "br_pending b = []")
  case False
  have pending: "list_all (\<lambda>r. readable (ir_path r)) (br_pending b)" using books by (auto simp: books_def account_def)
  hence "readable (ir_path (last (br_pending b)))" using False by (simp add: list_all_iff)
  moreover have "books tot R (b\<lparr>br_pending := butlast (br_pending b)\<rparr>)"
    using books by (auto simp: books_def account_def list_all_iff dest: in_set_butlastD)
  ultimately show ?thesis using handle_import_books [OF _ tot env] False by (simp add: pop_pending_def)
qed (use books in \<open>simp add: pop_pending_def\<close>)

lemma stopped_books:
  assumes books: "books tot R b" and out: "br_out b = []" and x: "(sv_name sv, p) \<in> set R" and stopped: "sv_status sv = SvStopped"
    and tot: "tot < 256" and env: "env_readable env"
  shows "books tot (remove1 (sv_name sv, p) R) (handle_importer_child env sv p b)"
proof -
  let ?R = "remove1 (sv_name sv, p) R"
  have perm: "mset R = add_mset (sv_name sv, p) (mset ?R)" using x by simp
  have sum: "sum_list (map (unat \<circ> snd) R) = unat p + sum_list (map (unat \<circ> snd) ?R)"
    using arg_cong [OF perm, of "\<lambda>m. sum_mset (image_mset (unat \<circ> snd) m)"] by (simp flip: sum_mset_sum_list)
  have len: "length R = Suc (length ?R)" using x by (simp add: length_remove1) (metis Suc_pred length_pos_if_in_set)
  have b: "unat (br_points b) + sum_list (map (unat \<circ> snd) R) = tot" "unat (br_in_progress b) = length R"
    "list_all (\<lambda>x. snd x \<noteq> 0) R" "list_all (\<lambda>r. readable (ir_path r)) (br_pending b)"
    using books out by (auto simp: books_def account_def)
  have pts: "unat (br_points b + p) = unat (br_points b) + unat p"
    using b(1) sum tot by (simp add: unat_word_ariths)
  have less: "unat (br_in_progress b - 1) = length ?R"
    using b(2) len by (subst unat_minus_one) auto
  have "list_all (\<lambda>x. snd x \<noteq> 0) ?R" using b(3) by (auto simp: list_all_iff dest: notin_set_remove1)
  hence "books tot ?R (b\<lparr>br_in_progress := br_in_progress b - 1, br_points := br_points b + p\<rparr>)"
    using b sum pts less out by (simp add: books_def account_def)
  moreover have "account ((delete_microservice (sv_name sv) (b\<lparr>br_in_progress := br_in_progress b - 1\<rparr>))\<lparr>br_points := br_points b + p\<rparr>) =
      account (b\<lparr>br_in_progress := br_in_progress b - 1, br_points := br_points b + p\<rparr>)"
    by (simp add: delete_microservice_def account_def)
  ultimately have "books tot ?R ((delete_microservice (sv_name sv) (b\<lparr>br_in_progress := br_in_progress b - 1\<rparr>))\<lparr>br_points := br_points b + p\<rparr>)"
    using books_same by blast
  from pop_pending_books [OF this tot env] show ?thesis
    using stopped by (simp add: handle_importer_child_def Let_def delete_microservice_def)
qed

lemma other_events_account:
  assumes "handle_broker_event env ev (st, b) = Inr (d, st', b')" and "importer_stop ev = None" and "\<forall>r. ev \<noteq> BeTopology (Import r)"
  shows "account b' = account b"
proof (cases ev)
  case (BeTopology t)
  thus ?thesis using assms by (cases t) (auto simp: handle_topology_def split: if_splits)
next
  case (BeImporterChild sv ist p)
  thus ?thesis using assms by (auto simp: handle_importer_child_def split: if_splits)
next
  case (BeSolidifier sv sst)
  thus ?thesis using assms by (auto simp: handle_solidifier_child_def account_emit split: if_splits prod.splits)
next
  case (BeSyncer sv sst)
  thus ?thesis using assms by (auto simp: handle_aborting_child_def split: if_splits prod.splits)
next
  case (BeArchiver sv sst)
  thus ?thesis using assms by (auto simp: handle_aborting_child_def split: if_splits prod.splits)
next
  case (BeMqtt sv h mst)
  thus ?thesis using assms by (auto simp: rbind_Inr_iff dest: account_mqtt_child)
next
  case (BeWebsocket sv tx)
  thus ?thesis using assms by (auto simp: rbind_Inr_iff dest: account_websocket_child)
qed (use assms in \<open>auto simp: account_emit split: if_splits\<close>)

lemma books_settled: "books tot R b \<Longrightarrow> books tot (R @ started (br_out b)) (b\<lparr>br_out := []\<rparr>)"
  by (simp add: books_def account_def)

lemma event_books:
  assumes books: "books tot R b" and tot: "tot < 256" and env: "env_readable env" and ev: "event_readable ev"
    and h: "handle_broker_event env ev (st, b) = Inr (d, st', b')" and "importer_stop ev = None"
  shows "books tot R b'"
proof (cases "\<exists>r. ev = BeTopology (Import r)")
  case True
  then obtain r where r: "ev = BeTopology (Import r)" by blast
  thus ?thesis using h ev books handle_import_books [OF books tot env, of r] by (auto simp: handle_topology_def split: if_splits)
next
  case False
  thus ?thesis using other_events_account [OF h assms(6)] books books_same by blast
qed

lemma broker_run_books:
  assumes "broker_run start evs W" and "books tot [] ((snd start)\<lparr>br_out := []\<rparr>)" and "tot < 256"
    and "\<forall>(env, ev)\<in>set evs. env_readable env \<and> event_readable ev"
  shows "case W of (st, b, R) \<Rightarrow> books tot R (b\<lparr>br_out := []\<rparr>)"
  using assms
proof (induction rule: broker_run.induct)
  case run_start
  thus ?case by simp
next
  case (run_event evs st b R ev env st' b')
  have "books tot R (b\<lparr>br_out := []\<rparr>)" using run_event by simp
  hence "books tot R b'" using event_books [OF _ run_event.prems(2) _ _ run_event.hyps(3, 2)] run_event.prems(3) by simp
  thus ?case using books_settled by simp
next
  case (run_stop evs st b R ev x env st' b')
  obtain sv ist p where ev: "ev = BeImporterChild sv ist p" "sv_status sv = SvStopped" "x = (sv_name sv, p)"
    using run_stop.hyps(2) by (cases ev) (auto split: if_splits)
  have books: "books tot R (b\<lparr>br_out := []\<rparr>)" and env: "env_readable env" using run_stop by simp_all
  have "books tot (remove1 x R) (handle_importer_child env sv p (b\<lparr>br_out := []\<rparr>))"
    using stopped_books [OF books _ _ ev(2) run_stop.prems(2) env, of p] run_stop.hyps(3) ev(3) by simp
  hence "books tot (remove1 x R) b'" using run_stop.hyps(4) ev(1) by auto
  thus ?case using books_settled by simp
qed

lemma account_init:
  assumes "broker_init dir fetched b = Inr (st, b')" shows "account b' = account b"
  using assms by (auto simp: broker_init_def Let_def account_emit comp_def split: sum.splits list.splits)

text \<open>
  C18. The broker keeps its books of importers: whatever it is asked to do and whatever its children
  report, as long as paths are Unicode, its free parallelism points and the points of the importers
  that run add up to the parallelism it was built with, the count of importers in progress is exact,
  so neither ever wraps, and no importer is started without a point, with which it would hang.
\<close>

theorem broker_keeps_importer_books:
  assumes "broker_init dir fetched (new_broker listener par n mqtt) = Inr (st0, b0)"
    and "broker_run (st, b0) evs (st', b, R)" and "\<forall>(env, ev)\<in>set evs. env_readable env \<and> event_readable ev"
  shows "unat (br_points b) + sum_list (map (unat \<circ> snd) R) = unat (case par of None \<Rightarrow> 25 | Some p \<Rightarrow> p) \<and>
    unat (br_in_progress b) = length R \<and> (\<forall>(name, p)\<in>set R. p \<noteq> 0)"
proof -
  let ?b = "new_broker listener par n mqtt"
  have "account (b0\<lparr>br_out := []\<rparr>) = account (?b\<lparr>br_out := []\<rparr>)"
    using account_init [OF assms(1)] by (simp add: account_def)
  moreover have "books (unat (br_parallelism ?b)) [] (?b\<lparr>br_out := []\<rparr>)"
    by (simp add: books_def account_def new_broker_def)
  ultimately have "books (unat (br_parallelism ?b)) [] (b0\<lparr>br_out := []\<rparr>)" using books_same by blast
  moreover have "unat (br_parallelism ?b) < 256" using unsigned_less [of "br_parallelism ?b"] by simp
  ultimately have "books (unat (br_parallelism ?b)) R (b\<lparr>br_out := []\<rparr>)"
    using broker_run_books [OF assms(2)] assms(3) by simp
  thus ?thesis by (auto simp: books_def account_def new_broker_def list_all_iff)
qed

text \<open>A directory with two files is imported with five points; the first importer stops.\<close>

definition two_files_env :: broker_env where
  "two_files_env =
     \<lparr>be_is_file = (\<lambda>p. p = Path ''d/1to5.log'' \<or> p = Path ''d/5to9.log''), be_is_dir = (\<lambda>p. p = Path ''d''),
      be_read_dir = (\<lambda>p. if p = Path ''d'' then Some [Path ''d/1to5.log'', Path ''d/5to9.log''] else None),
      be_adjust_endpoint = (\<lambda>u. None), be_verify_endpoint = (\<lambda>u. False), be_parse_url = (\<lambda>u. Some u)\<rparr>"

abbreviation import_of :: "string \<Rightarrow> import_request" where
  "import_of n \<equiv> \<lparr>ir_path = Path n, ir_resume = True, ir_range = None, ir_mode = All_Mode\<rparr>"

abbreviation one_gap :: sync_data where
  "one_gap \<equiv> default_sync_data\<lparr>gaps := [Range 1 9]\<rparr>"

text \<open>The result of an event that does not end the loop.\<close>

definition stays :: "(bool \<times> need_status \<times> broker) result \<Rightarrow> (need_status \<Rightarrow> broker \<Rightarrow> bool) \<Rightarrow> bool" where
  "stays r P = (case r of Inr (False, st, b) \<Rightarrow> P st b | _ \<Rightarrow> False)"

lemma staysD: "stays r P \<Longrightarrow> \<exists>st b. r = Inr (False, st, b) \<and> P st b"
  by (auto simp: stays_def split: sum.splits prod.splits bool.splits)

theorem broker_keeps_importer_books_witness:
  "\<exists>(b :: broker) R. R = [(''d/5to9.log'', 2 :: u8)] \<and> unat (br_points b) + sum_list (map (unat \<circ> snd) R) = 5 \<and>
     unat (br_in_progress b) = length R \<and> (\<forall>(name, p)\<in>set R. p \<noteq> 0)"
proof -
  let ?new = "new_broker True (Some 5) (Some 1) []"
  let ?stop = "BeImporterChild \<lparr>sv_name = ''d/1to5.log'', sv_status = SvStopped\<rparr> None 2"
  let ?import = "BeTopology (Import (import_of ''d''))"
  let ?two = "\<lambda>st b. started (br_out b) = []"
  let ?one = "\<lambda>st b. started (br_out b) = [(''d/1to5.log'', 2), (''d/5to9.log'', 2)] \<and>
      stays (handle_broker_event two_files_env ?stop (st, b\<lparr>br_out := []\<rparr>)) ?two"
  have "(case broker_init True (Inr one_gap) ?new of
      Inr (st, b) \<Rightarrow> stays (handle_broker_event two_files_env ?import (st, b\<lparr>br_out := []\<rparr>)) ?one | _ \<Rightarrow> False)"
    by code_simp
  then obtain st0 b0 where init: "broker_init True (Inr one_gap) ?new = Inr (st0, b0)"
    and run1: "stays (handle_broker_event two_files_env ?import (st0, b0\<lparr>br_out := []\<rparr>)) ?one"
    by (auto simp del: handle_broker_event.simps split: sum.splits)
  obtain st1 b1 where one: "handle_broker_event two_files_env ?import (st0, b0\<lparr>br_out := []\<rparr>) = Inr (False, st1, b1)"
      "started (br_out b1) = [(''d/1to5.log'', 2), (''d/5to9.log'', 2)]"
    and run2: "stays (handle_broker_event two_files_env ?stop (st1, b1\<lparr>br_out := []\<rparr>)) ?two"
    using staysD [OF run1] by blast
  obtain st2 b2 where two: "handle_broker_event two_files_env ?stop (st1, b1\<lparr>br_out := []\<rparr>) = Inr (False, st2, b2)"
      "started (br_out b2) = []"
    using staysD [OF run2] by blast
  have "broker_run (st0, b0) ([] @ [(two_files_env, BeTopology (Import (import_of ''d'')))]) (st1, b1, [] @ started (br_out b1))"
    by (rule run_event [OF _ _ one(1)]) (use run_start [of "(st0, b0)"] in simp_all)
  hence "broker_run (st0, b0) [(two_files_env, BeTopology (Import (import_of ''d'')))]
      (st1, b1, [(''d/1to5.log'', 2), (''d/5to9.log'', 2)])"
    by (simp add: one(2))
  hence "broker_run (st0, b0) ([(two_files_env, BeTopology (Import (import_of ''d'')))] @ [(two_files_env, ?stop)])
      (st2, b2, remove1 (''d/1to5.log'', 2) [(''d/1to5.log'', 2), (''d/5to9.log'', 2)] @ started (br_out b2))"
    by (rule run_stop [OF _ _ _ two(1)]) simp_all
  hence run: "broker_run (st0, b0) [(two_files_env, BeTopology (Import (import_of ''d''))), (two_files_env, ?stop)]
      (st2, b2, [(''d/5to9.log'', 2)])"
    by (simp add: two(2))
  have "env_readable two_files_env" by (simp add: env_readable_def two_files_env_def readable_def)
  hence "\<forall>(env, ev)\<in>set [(two_files_env, BeTopology (Import (import_of ''d''))), (two_files_env, ?stop)]. env_readable env \<and> event_readable ev"
    by (simp add: readable_def)
  from broker_keeps_importer_books [OF init run this] show ?thesis
    by (intro exI [of _ b2] exI [of _ "[(''d/5to9.log'', 2)]"]) simp
qed

section \<open>What goes wrong\<close>

text \<open>A path that is not Unicode is refused, and its points are given although none were taken.\<close>

lemma raw_path_adds_points:
  assumes "ir_path r = RawPath bs" and "br_status b \<noteq> SvStopping"
  shows "br_points (spawn_importer r p b) = br_points b + p"
  using assms by (simp add: spawn_importer_def response_to_sockets_def br_emit_def)

text \<open>
  A pending request that cannot be served is dropped without trying the next: when it was the last
  importer that stopped, the session is closed with requests left that nothing will take up.
\<close>

lemma pending_imports_stall:
  assumes "br_status b \<noteq> SvStopping" and "br_pending b = rs @ [r]" and "br_points b + p \<noteq> 0" and "br_in_progress b = 1"
    and "\<not> be_is_file env (ir_path r)" and "\<not> be_is_dir env (ir_path r)" and "sv_status sv = SvStopped"
  shows "br_pending (handle_importer_child env sv p b) = rs \<and> br_in_progress (handle_importer_child env sv p b) = 0 \<and>
    started (br_out (handle_importer_child env sv p b)) = started (br_out b)"
  using assms by (simp add: handle_importer_child_def Let_def pop_pending_def handle_import_def delete_microservice_def
      try_close_importer_session_def response_to_sockets_def br_emit_def)

text \<open>Of a file that is queued while it is being imported the broker drops the handle of the second importer.\<close>

lemma requeued_import_loses_handle:
  assumes "sv_status sv = SvStopped"
  shows "hm_get (br_importers (handle_importer_child env sv p b)) (sv_name sv) = None"
  using assms by (simp add: handle_importer_child_def Let_def try_close_importer_session_def response_to_sockets_def br_emit_def)

text \<open>A feed source that is removed before it is connected stays, and is not restarted when it fails.\<close>

lemma early_removal_ignored:
  assumes "hm_get (br_services b) (mqtt_name t url) = Some sv" and "hm_get (br_mqtt b) (mqtt_name t url) = None" and "br_status b \<noteq> SvStopping"
  shows "\<exists>b'. handle_mqtt_child env \<lparr>sv_name = mqtt_name t url, sv_status = SvInitializing\<rparr> True None (remove_mqtt t url b) = Inr b' \<and>
    hm_get (br_mqtt b') (mqtt_name t url) = Some () \<and> br_mqtt_config b' = br_mqtt_config b \<and>
    hm_contains (br_asked b') (mqtt_name t url) \<and> br_out b' = br_out b"
  using assms by (simp add: remove_mqtt_def handle_mqtt_child_def Let_def update_microservice_def hm_contains_def)

text \<open>The URL of a feed source with user information is cut at its \<^verbatim>\<open>@\<close> when the source is restarted.\<close>

lemma user_info_is_cut:
  "split_at_sign (mqtt_name MqttMessages ''tcp://user:pw@host:1883'') = (''messages'', Some ''tcp://user:pw'')"
  by (simp add: split_at_sign_def mqtt_name_def)

text \<open>A sync table that is complete leaves no gap, and the broker panics when it starts.\<close>

lemma complete_range_panics:
  "broker_init dir (Inr (sort_rows \<lparr>sr_from = 5, sr_to = 6\<rparr> [[\<lparr>milestone_index = 5, synced_by = Some 0, logged_by = Some 0\<rparr>]])) b = Inl Panic"
proof -
  have "gaps (sort_rows \<lparr>sr_from = 5, sr_to = 6\<rparr> [[\<lparr>milestone_index = 5, synced_by = Some 0, logged_by = Some 0\<rparr>]]) = []"
    by code_simp
  thus ?thesis by (simp add: broker_init_def Let_def)
qed

text \<open>A restart returns after the handle is dropped, so the state it returns never has the handle that the starter looks for.\<close>

lemma restart_has_no_handle:
  assumes "handle_broker_event env (BeScylla sv) (st, b) = Inr (True, st', b')"
  shows "\<not> br_handle b'"
  using assms by (auto split: if_splits)

end
