(* ===== verification/Lifecycle.thy ===== *)
theory Lifecycle
  imports Broker
begin

text \<open>
  The feed sources of the broker (\<^verbatim>\<open>chronicle-broker/src/mqtt/\<close>), which hand what they receive to the
  collectors, and what every child of the broker reports to it when it is initialised
  (\<^verbatim>\<open>init.rs\<close>), when its event loop has ended (\<^verbatim>\<open>terminating.rs\<close>) and when it is gone
  (\<^verbatim>\<open>aknowledge_shutdown\<close>). The client of the feed, its connection and the packing of a message are
  third-party: a feed is the list of what it yields. That a hook runs at all, and their order, is up
  to the third-party \<^verbatim>\<open>backstage\<close>.
\<close>

section \<open>Feeds\<close>

record feed =
  fd_type :: mqtt_type
  fd_url :: string
  fd_collectors :: "u8 list"
  fd_capacity :: usize

definition new_feed :: "mqtt_type \<Rightarrow> string \<Rightarrow> u8 list \<Rightarrow> usize option \<Rightarrow> feed" where
  "new_feed t url cs cap =
     \<lparr>fd_type = t, fd_url = url, fd_collectors = cs, fd_capacity = (case cap of None \<Rightarrow> 10000 | Some n \<Rightarrow> n)\<rparr>"

definition feed_service :: "feed \<Rightarrow> service_status \<Rightarrow> child_service" where
  "feed_service f st = \<lparr>sv_name = mqtt_name (fd_type f) (fd_url f), sv_status = st\<rparr>"

text \<open>The steps of \<^verbatim>\<open>init\<close> that may fail: creating the client, connecting it, subscribing it.\<close>

definition feed_init :: "bool \<Rightarrow> bool \<Rightarrow> bool \<Rightarrow> need_status \<Rightarrow> feed \<Rightarrow> broker_event list \<times> need_status" where
  "feed_init created connected subscribed st f =
     (if \<not> created then ([], Some NeedAbort)
      else if \<not> connected \<or> \<not> subscribed then ([], Some NeedRestart)
      else ([BeMqtt (feed_service f SvInitializing) True None], st))"

text \<open>What a feed yields: a payload, or nothing when its connection is lost.\<close>

datatype 'p to_collector = ToCollectorMsg u8 'p

text \<open>Messages and metadata alike: the id partitions them, an unknown collector is passed over.\<close>

fun feed_stream ::
  "('b \<Rightarrow> (message_id \<times> 'p) option) \<Rightarrow> feed \<Rightarrow> 'b option list \<Rightarrow> (need_status \<times> 'p to_collector list) result" where
  "feed_stream parse f [] = Inr (None, [])"
| "feed_stream parse f (None # xs) = Inr (Some NeedRestart, [])"
| "feed_stream parse f (Some b # xs) =
     (case parse b of
        None \<Rightarrow> feed_stream parse f xs
      | Some (i, p) \<Rightarrow>
          rbind (message_partition (of_nat (length (fd_collectors f))) i) (\<lambda>c.
          rbind (feed_stream parse f xs) (\<lambda>(st, out).
            Inr (st, if c \<in> set (fd_collectors f) then ToCollectorMsg c p # out else out))))"

definition feed_loop ::
  "('b \<Rightarrow> (message_id \<times> 'p) option) \<Rightarrow> need_status \<Rightarrow> 'b option list \<Rightarrow> feed \<Rightarrow>
     (broker_event list \<times> need_status \<times> 'p to_collector list) result" where
  "feed_loop parse st xs f =
     (case st of
        Some n \<Rightarrow> Inr ([], Some n, [])
      | None \<Rightarrow>
          rbind (feed_stream parse f xs) (\<lambda>(st, out).
            Inr ([BeMqtt (feed_service f SvRunning) False None], st, out)))"

definition feed_terminating :: "need_status \<Rightarrow> feed \<Rightarrow> broker_event list \<times> need_status" where
  "feed_terminating st f = ([BeMqtt (feed_service f SvStopping) False st], st)"

definition feed_gone :: "need_status \<Rightarrow> feed \<Rightarrow> broker_event list" where
  "feed_gone st f = [BeMqtt (feed_service f SvStopped) False st]"

section \<open>Reports of the other children\<close>

abbreviation service_of :: "string \<Rightarrow> service_status \<Rightarrow> child_service" where
  "service_of n st \<equiv> \<lparr>sv_name = n, sv_status = st\<rparr>"

definition collector_init :: "string \<Rightarrow> need_status \<Rightarrow> broker_event list \<times> need_status" where
  "collector_init n st = ([BeCollector (service_of n SvInitializing)], st)"

definition collector_terminating :: "string \<Rightarrow> need_status \<Rightarrow> broker_event list \<times> need_status" where
  "collector_terminating n st = ([BeCollector (service_of n SvStopping)], st)"

definition collector_gone :: "string \<Rightarrow> broker_event list" where
  "collector_gone n = [BeCollector (service_of n SvStopped)]"

definition solidifier_init :: "string \<Rightarrow> need_status \<Rightarrow> broker_event list \<times> need_status" where
  "solidifier_init n st = ([BeSolidifier (service_of n SvInitializing) None], st)"

definition solidifier_terminating :: "string \<Rightarrow> need_status \<Rightarrow> broker_event list \<times> need_status" where
  "solidifier_terminating n st = ([BeSolidifier (service_of n SvStopping) st], st)"

definition solidifier_gone :: "string \<Rightarrow> need_status \<Rightarrow> broker_event list" where
  "solidifier_gone n st = [BeSolidifier (service_of n SvStopped) st]"

definition syncer_init :: "string \<Rightarrow> need_status \<Rightarrow> broker_event list \<times> need_status" where
  "syncer_init n st = ([BeSyncer (service_of n SvInitializing) None], st)"

definition syncer_terminating :: "string \<Rightarrow> need_status \<Rightarrow> broker_event list \<times> need_status" where
  "syncer_terminating n st = ([BeSyncer (service_of n SvStopping) st], st)"

definition syncer_gone :: "string \<Rightarrow> need_status \<Rightarrow> broker_event list" where
  "syncer_gone n st = [BeSyncer (service_of n SvStopped) st]"

text \<open>An archiver needs its directory: made now, there already, or neither.\<close>

datatype made_dir = DirMade | DirExists | DirFailed

definition archiver_init :: "made_dir \<Rightarrow> string \<Rightarrow> broker_event list \<times> need_status" where
  "archiver_init dir n =
     (if dir = DirFailed then ([], Some NeedAbort) else ([BeArchiver (service_of n SvInitializing) None], None))"

definition archiver_stopping :: "string \<Rightarrow> need_status \<Rightarrow> broker_event list \<times> need_status" where
  "archiver_stopping n st = ([BeArchiver (service_of n SvStopping) st], st)"

definition archiver_gone :: "string \<Rightarrow> need_status \<Rightarrow> broker_event list" where
  "archiver_gone n st = [BeArchiver (service_of n SvStopped) st]"

definition listener_report :: "service_status \<Rightarrow> broker_event list" where
  "listener_report st = [BeListener (service_of ''Listener'' st)]"

text \<open>
  The listener of the broker, which is aborted rather than asked to stop: of the connections that
  come, one that is not accepted or fails its handshake is passed over, any other gets a websocket.
\<close>

definition listener_loop :: "('p \<times> bool) option list \<Rightarrow> broker_event list \<times> 'p list" where
  "listener_loop xs =
     (listener_report SvRunning,
      List.map_filter (\<lambda>x. case x of Some (peer, True) \<Rightarrow> Some peer | _ \<Rightarrow> None) xs)"

definition listener_terminating :: "need_status \<Rightarrow> broker_event list \<times> need_status" where
  "listener_terminating st = (listener_report SvStopping, st)"

definition listener_gone :: "broker_event list" where
  "listener_gone = listener_report SvStopped"

definition socket_init :: "string \<Rightarrow> need_status \<Rightarrow> broker_event list \<times> need_status" where
  "socket_init n st = ([BeWebsocket (service_of n SvInitializing) True], st)"

definition socket_gone :: "string \<Rightarrow> broker_event list" where
  "socket_gone n = [BeWebsocket (service_of n SvStopped) False]"

text \<open>An importer also ends its session, with the range of its log file if it has one.\<close>

definition importer_terminating ::
  "path \<Rightarrow> string \<Rightarrow> u8 \<Rightarrow> (u32 \<times> u32) option \<Rightarrow> need_status \<Rightarrow> broker_event list \<times> need_status" where
  "importer_terminating p n par log st =
     ([BeImporter
         (case log of
            Some (a, b) \<Rightarrow> SessionFinish a b (if st = None then ''done'' else ''failed'')
          | None \<Rightarrow> PathError p ''Invalid LogFile path''),
       BeImporterChild (service_of n SvStopping) st par], st)"

definition importer_gone :: "string \<Rightarrow> u8 \<Rightarrow> need_status \<Rightarrow> broker_event list" where
  "importer_gone n par st = [BeImporterChild (service_of n SvStopped) st par]"

section \<open>What the broker makes of it\<close>

text \<open>
  A message goes to the collector of its first byte, which the solidifiers ask for it too; all that
  the feed yields before it loses its connection arrives, in order.
\<close>

lemma feed_delivers:
  assumes "fd_collectors f = map of_nat [0..<n]" and "0 < n" and "n < 256"
  shows "feed_stream parse f xs = Inr (if None \<in> set xs then Some NeedRestart else None,
    map (\<lambda>(i, p). ToCollectorMsg (first_byte i mod of_nat n) p)
      (List.map_filter parse (map the (takeWhile (\<lambda>x. x \<noteq> None) xs))))"
proof -
  have n0: "(of_nat n :: u8) \<noteq> 0" "unat (of_nat n :: u8) = n"
    using assms(2,3) by (simp_all add: word_of_nat_eq_0_iff unat_of_nat take_bit_nat_eq_self nat_dvd_not_less)
  have known: "first_byte i mod of_nat n \<in> set (fd_collectors f)" for i
  proof -
    have "unat (first_byte i mod of_nat n) < n" using n0(2) assms(2) by (simp add: unat_mod_distrib)
    then show ?thesis by (auto simp: assms(1) intro!: image_eqI [where x = "unat (first_byte i mod of_nat n)"])
  qed
  have len: "of_nat (length (fd_collectors f)) = (of_nat n :: u8)" using assms(1) by simp
  show ?thesis
  proof (induction xs)
    case (Cons x xs)
    show ?case
    proof (cases x)
      case (Some b)
      then show ?thesis
        using Cons known n0(1)
        by (cases "parse b") (auto simp: List.map_filter_simps message_partition_def len simp del: set_map)
    qed simp
  qed (simp add: List.map_filter_simps)
qed

text \<open>
  The end of an importer is one stop with the points it was started with, so an importer that the
  broker has started is counted out once.
\<close>

lemma importer_stops_once:
  "map importer_stop (fst (importer_terminating p n par log st) @ importer_gone n par st) = [None, None, Some (n, par)]"
  by (simp add: importer_terminating_def importer_gone_def split: option.splits)

end
