(* ===== verification/Api_App.thy ===== *)
theory Api_App
  imports Api_Listener Lifecycle
begin

text \<open>
  The application actor of the API (\<^verbatim>\<open>chronicle-api/src/application/\<close>), its listener as an actor, and how
  answers leave the web server: the responders, the catchers and the classes in which responses are
  counted (\<^verbatim>\<open>chronicle-api/src/listener/\<close>). Rocket, JSON and the launcher are third-party.
\<close>

section \<open>The application\<close>

datatype 'e api_event = ApShutdown | ApOther 'e | ApChild child_service

datatype 'e api_out =
    ApStatusChange service_status "(string, service_status) hmap"
  | ApShutdownApp string
  | ApPassthrough 'e string
  | ApStopListener

record 'e api_app =
  aa_status :: service_status
  aa_services :: "(string, service_status) hmap"
  aa_sender :: bool
  aa_listener :: bool
  aa_out :: "'e api_out list"

definition api_name :: string where
  "api_name = ''ChronicleAPI''"

definition new_api :: "bool \<Rightarrow> 'e api_app result" where
  "new_api handle =
     (if handle then Inr \<lparr>aa_status = SvOther, aa_services = [], aa_sender = True, aa_listener = True, aa_out = []\<rparr>
      else Inl Panic)"

definition aa_emit :: "'e api_out list \<Rightarrow> 'e api_app \<Rightarrow> 'e api_app" where
  "aa_emit os a = a\<lparr>aa_out := aa_out a @ os\<rparr>"

definition aa_report :: "'e api_app \<Rightarrow> 'e api_app" where
  "aa_report a = aa_emit [ApStatusChange (aa_status a) (aa_services a)] a"

definition api_init :: "bool \<Rightarrow> need_status \<Rightarrow> 'e api_app \<Rightarrow> need_status \<times> 'e api_app" where
  "api_init supervised st a =
     (let a = a\<lparr>aa_status := SvInitializing\<rparr> in if supervised then (st, aa_report a) else (Some NeedAbort, a))"

definition handle_api_event :: "'e api_event \<Rightarrow> 'e api_app \<Rightarrow> 'e api_app" where
  "handle_api_event ev a =
     (case ev of
        ApShutdown \<Rightarrow>
          (if aa_status a = SvStopping then a
           else
             (let a = aa_emit [ApShutdownApp api_name] a;
                  a = (if aa_listener a then aa_emit [ApStopListener] (a\<lparr>aa_listener := False\<rparr>) else a)
              in a\<lparr>aa_sender := False\<rparr>))
      | ApOther e \<Rightarrow> aa_emit [ApPassthrough e api_name] a
      | ApChild sv \<Rightarrow> aa_report (a\<lparr>aa_services := hm_insert (sv_name sv) (sv_status sv) (aa_services a)\<rparr>))"

definition api_loop :: "bool \<Rightarrow> 'e api_event list \<Rightarrow> 'e api_app \<Rightarrow> need_status \<times> 'e api_app" where
  "api_loop supervised evs a =
     (if supervised then (None, fold handle_api_event evs (a\<lparr>aa_status := SvRunning\<rparr>)) else (Some NeedAbort, a))"

definition api_terminating :: "need_status \<Rightarrow> need_status" where
  "api_terminating st = st"

text \<open>\<^verbatim>\<open>starter\<close>: with the feature of the web server a handle is always made before the actor is built.\<close>

definition api_starter :: "'e api_app option \<Rightarrow> 'e api_app result" where
  "api_starter input =
     rbind (case input of Some a \<Rightarrow> Inr a | None \<Rightarrow> new_api True)
       (\<lambda>a. if aa_sender a then Inr a else Inl (Failed ''No supervisor for API!''))"

section \<open>The listener\<close>

definition api_listener_name :: string where
  "api_listener_name = ''RocketListener Listener''"

text \<open>What the listener sends, to an application that may be gone.\<close>

definition listener_sends :: "bool \<Rightarrow> service_status \<Rightarrow> 'e api_event list \<times> need_status" where
  "listener_sends received st =
     (if received then ([ApChild \<lparr>sv_name = api_listener_name, sv_status = st\<rparr>], None) else ([], Some NeedAbort))"

definition api_listener_init :: "bool \<Rightarrow> bool \<Rightarrow> 'e api_event list \<times> need_status" where
  "api_listener_init supervised received =
     (if supervised then listener_sends received SvInitializing else ([], Some NeedAbort))"

definition api_listener_loop :: "bool \<Rightarrow> bool \<Rightarrow> bool \<Rightarrow> bool \<Rightarrow> 'e api_event list \<times> need_status" where
  "api_listener_loop supervised received rocket launched =
     (case (if supervised then listener_sends received SvRunning else ([], None)) of
        (evs, Some n) \<Rightarrow> (evs, Some n)
      | (evs, None) \<Rightarrow> (evs, if rocket \<and> launched then None else Some NeedAbort))"

definition api_listener_terminating :: "bool \<Rightarrow> bool \<Rightarrow> 'e api_event list \<times> need_status" where
  "api_listener_terminating supervised received =
     (if supervised then listener_sends received SvStopping else ([], Some NeedAbort))"

section \<open>Answers\<close>

record error_body =
  eb_status :: nat
  eb_code :: nat
  eb_message :: string

definition error_code :: "listener_error \<Rightarrow> nat" where
  "error_code e = error_status e"

definition error_body_of :: "(listener_error \<Rightarrow> string) \<Rightarrow> listener_error \<Rightarrow> error_body" where
  "error_body_of text e = \<lparr>eb_status = error_status e, eb_code = error_code e, eb_message = text e\<rparr>"

text \<open>The status and the body; a body that cannot be written as JSON becomes the status of the error that Rocket catches.\<close>

definition respond_error :: "(listener_error \<Rightarrow> string) \<Rightarrow> (nat \<Rightarrow> string \<Rightarrow> string option) \<Rightarrow> listener_error \<Rightarrow> nat + nat \<times> string" where
  "respond_error text json e =
     (let b = error_body_of text e in
      case json (eb_code b) (eb_message b) of None \<Rightarrow> Inl 500 | Some s \<Rightarrow> Inr (eb_status b, s))"

definition respond_success :: "(listener_response \<Rightarrow> string option) \<Rightarrow> listener_response \<Rightarrow> nat + nat \<times> string" where
  "respond_success json r = (case json r of None \<Rightarrow> Inl 500 | Some s \<Rightarrow> Inr (200, s))"

definition internal_error :: listener_error where
  "internal_error = OtherError ''Internal server error!''"

definition not_found :: listener_error where
  "not_found = NotFound"

text \<open>The fairing \<^verbatim>\<open>RequestTimer\<close>: the label under which a response is counted.\<close>

definition code_class :: "nat \<Rightarrow> string option" where
  "code_class code =
     (if code \<in> {500..599} then Some ''500'' else if code \<in> {400..499} then Some ''400''
      else if code \<in> {300..399} then Some ''300'' else if code \<in> {200..299} then Some ''200''
      else if code \<in> {100..199} then Some ''100'' else None)"

section \<open>What follows\<close>

lemma handle_api_event_simps:
  "aa_status (handle_api_event ev a) = aa_status a"
  "aa_listener (handle_api_event ev a) \<Longrightarrow> aa_listener a"
  by (auto simp: handle_api_event_def aa_report_def aa_emit_def Let_def split: api_event.splits if_splits)

text \<open>
  However often it is asked to shut down, the application stops the web server once; but as nothing
  makes its status that of a stopping service, it asks the launcher again every time.
\<close>

lemma shutdown_stops_listener_once:
  assumes "aa_status a \<noteq> SvStopping"
  shows "count_list (aa_out (fold handle_api_event evs a)) ApStopListener =
      count_list (aa_out a) ApStopListener + (if aa_listener a \<and> ApShutdown \<in> set evs then 1 else 0)"
    and "count_list (aa_out (fold handle_api_event evs a)) (ApShutdownApp api_name) =
      count_list (aa_out a) (ApShutdownApp api_name) + count_list evs ApShutdown"
  using assms
proof (induction evs arbitrary: a)
  case (Cons ev evs)
  { case 1
    then show ?case
      using Cons.IH(1) [of "handle_api_event ev a"]
      by (cases ev) (auto simp: handle_api_event_def aa_report_def aa_emit_def Let_def split: if_splits)
  next
    case 2
    then show ?case
      using Cons.IH(2) [of "handle_api_event ev a"]
      by (cases ev) (auto simp: handle_api_event_def aa_report_def aa_emit_def Let_def split: if_splits)
  }
qed simp_all

text \<open>Every answer of an endpoint has a class; that of a path that no endpoint has is an internal error.\<close>

lemma errors_have_class: "code_class (error_code e) = Some ''400'' \<or> code_class (error_code e) = Some ''500''"
  by (cases e) (simp_all add: error_code_def error_status_def code_class_def)

lemma unknown_path_is_500:
  assumes "json 500 (text not_found) = Some s"
  shows "respond_error text json not_found = Inr (500, s)"
  using assms by (simp add: respond_error_def error_body_of_def error_code_def error_status_def not_found_def)

end
