(* ===== verification/Merge_Logs.thy ===== *)
theory Merge_Logs
  imports Chronicle_Prelude "HOL-Library.Multiset"
begin

text \<open>
  The log merger (\<^verbatim>\<open>chronicle-broker/src/merge.rs\<close>): it joins the archiver's log files into files
  below a size limit.

  A file name is bound to an inode, an open file is its inode and keeps it when the name goes. A file
  is opened, created, renamed (over another) or removed by name; these fail when the name is missing,
  and only then: other failures of the operating system are left out. A file is read as it was when it
  was opened. Whether a line deserialises, and to which milestone, is a parameter, as is UTF-8
  validity. The progress bar is left out, except where it decides what \<open>validate\<close> returns.
\<close>

section \<open>Files\<close>

text \<open>\<^verbatim>\<open>5to9.log\<close>, \<^verbatim>\<open>5.log.active\<close>, \<^verbatim>\<open>5to9.log.fin\<close> and \<^verbatim>\<open>5to9.err\<close>.\<close>

datatype merge_path = MLog u32 u32 | MActive u32 | MFin u32 u32 | MErr u32 u32

record merge_fs =
  fs_names :: "(merge_path, nat) hmap"
  fs_data :: "nat \<Rightarrow> u8 list"
  fs_next :: nat
  fs_backup :: "(merge_path, u8 list) hmap"

datatype log_file_error =
    EmptyFile merge_path
  | MissingMilestones u32_range merge_path
  | ExtraMilestones u32 merge_path
  | OutsideMilestone u32 merge_path
  | DuplicateMilestone u32 merge_path
  | MalformattedMilestone u32 merge_path
  | InvalidRange u32_range merge_path
  | TooBig u64 merge_path
  | OtherLog string

text \<open>An unwrapped error (a panic), an I/O error, or an error of a file on which the merger exits.\<close>

datatype merge_failure = MergePanic | MergeIo string | MergeLog log_file_error

type_synonym 'a merged = "(merge_failure + 'a) \<times> merge_fs"

definition then_merge :: "'a merged \<Rightarrow> ('a \<Rightarrow> merge_fs \<Rightarrow> 'b merged) \<Rightarrow> 'b merged" where
  "then_merge r k = (case r of (Inl e, fs) \<Rightarrow> (Inl e, fs) | (Inr x, fs) \<Rightarrow> k x fs)"

lemma then_merge_simps [simp]:
  "then_merge (Inl e, fs) k = (Inl e, fs)" "then_merge (Inr x, fs) k = k x fs"
  by (simp_all add: then_merge_def)

definition fs_open :: "merge_path \<Rightarrow> merge_fs \<Rightarrow> nat merged" where
  "fs_open p fs = (case hm_get (fs_names fs) p of None \<Rightarrow> (Inl (MergeIo ''open''), fs) | Some i \<Rightarrow> (Inr i, fs))"

definition fs_create :: "merge_path \<Rightarrow> merge_fs \<Rightarrow> nat \<times> merge_fs" where
  "fs_create p fs =
     (case hm_get (fs_names fs) p of
        Some i \<Rightarrow> (i, fs)
      | None \<Rightarrow> (fs_next fs, fs\<lparr>fs_names := hm_insert p (fs_next fs) (fs_names fs),
                  fs_data := (fs_data fs)(fs_next fs := []), fs_next := Suc (fs_next fs)\<rparr>))"

definition fs_rename :: "merge_path \<Rightarrow> merge_path \<Rightarrow> merge_fs \<Rightarrow> unit merged" where
  "fs_rename p q fs =
     (case hm_get (fs_names fs) p of
        None \<Rightarrow> (Inl (MergeIo ''rename''), fs)
      | Some i \<Rightarrow> (Inr (), if p = q then fs else fs\<lparr>fs_names := hm_insert q i (hm_remove p (fs_names fs))\<rparr>))"

definition fs_remove :: "merge_path \<Rightarrow> merge_fs \<Rightarrow> unit merged" where
  "fs_remove p fs =
     (case hm_get (fs_names fs) p of
        None \<Rightarrow> (Inl (MergeIo ''remove''), fs)
      | Some i \<Rightarrow> (Inr (), fs\<lparr>fs_names := hm_remove p (fs_names fs)\<rparr>))"

definition fs_append :: "nat \<Rightarrow> u8 list \<Rightarrow> merge_fs \<Rightarrow> merge_fs" where
  "fs_append i bs fs = fs\<lparr>fs_data := (fs_data fs)(i := fs_data fs i @ bs)\<rparr>"

definition fs_copy :: "merge_path \<Rightarrow> merge_fs \<Rightarrow> unit merged" where
  "fs_copy p fs =
     (case hm_get (fs_names fs) p of
        None \<Rightarrow> (Inl (MergeIo ''copy''), fs)
      | Some i \<Rightarrow> (Inr (), fs\<lparr>fs_backup := hm_insert p (fs_data fs i) (fs_backup fs)\<rparr>))"

text \<open>\<^verbatim>\<open>read_line\<close> takes a line with its newline (10), \<^verbatim>\<open>lines\<close> leaves the newline or CR LF out.\<close>

function split_lines :: "u8 list \<Rightarrow> u8 list list" where
  "split_lines bs =
     (if bs = [] then []
      else (case dropWhile (\<lambda>b. b \<noteq> 10) bs of
              [] \<Rightarrow> [bs]
            | b # rest \<Rightarrow> (takeWhile (\<lambda>b. b \<noteq> 10) bs @ [b]) # split_lines rest))"
  by pat_completeness auto

termination
proof (relation "measure length")
  fix bs :: "u8 list" and b rest
  assume "dropWhile (\<lambda>b. b \<noteq> 10) bs = b # rest"
  then have "length (b # rest) \<le> length bs" by (metis length_dropWhile_le)
  then show "(rest, bs) \<in> measure length" by simp
qed simp

declare split_lines.simps [simp del]

definition strip_eol :: "u8 list \<Rightarrow> u8 list" where
  "strip_eol l =
     (if l \<noteq> [] \<and> last l = 10
      then (let t = butlast l in if t \<noteq> [] \<and> last t = 13 then butlast t else t)
      else l)"

section \<open>The merger\<close>

datatype validation_level = Basic | Light | Full | JustInTime

text \<open>The milestone index of a line that deserialises as full or as light milestone data.\<close>

record merge_env =
  me_full :: "u8 list \<Rightarrow> u32 option"
  me_light :: "u8 list \<Rightarrow> u32 option"
  me_utf8 :: "u8 list \<Rightarrow> bool"

record merger =
  mg_max :: u64
  mg_backup :: bool
  mg_level :: validation_level
  mg_exit :: bool
  mg_finalized :: bool

record merge_log =
  ml_start :: u32
  ml_end :: u32
  ml_path :: merge_path
  ml_file :: nat
  ml_len :: u64
  ml_err :: bool
  ml_final :: bool

definition new_merge_log :: "u32 \<Rightarrow> u32 \<Rightarrow> merge_path \<Rightarrow> nat \<Rightarrow> u64 \<Rightarrow> merge_log" where
  "new_merge_log s e p i n =
     \<lparr>ml_start = s, ml_end = e, ml_path = p, ml_file = i, ml_len = n,
      ml_err = (case p of MErr a b \<Rightarrow> True | _ \<Rightarrow> False), ml_final = (case p of MFin a b \<Rightarrow> True | _ \<Rightarrow> False)\<rparr>"

definition file_size :: "merge_fs \<Rightarrow> nat \<Rightarrow> u64" where
  "file_size fs i = of_nat (length (fs_data fs i))"

definition merge_append :: "u8 list \<Rightarrow> merge_log \<Rightarrow> merge_fs \<Rightarrow> merge_log \<times> merge_fs" where
  "merge_append l lf fs =
     (lf\<lparr>ml_end := ml_end lf + 1, ml_len := ml_len lf + of_nat (length l)\<rparr>, fs_append (ml_file lf) l fs)"

text \<open>The lines of a file against the range of its name; the result is the index after the last.\<close>

fun verify_lines ::
  "merge_env \<Rightarrow> bool \<Rightarrow> merge_path \<Rightarrow> u32 \<Rightarrow> u32 \<Rightarrow> u32 \<Rightarrow> u32 \<Rightarrow> u8 list list \<Rightarrow> log_file_error + u32" where
  "verify_lines env full p s e est extra [] = (if 0 < extra then Inl (ExtraMilestones extra p) else Inr est)"
| "verify_lines env full p s e est extra (l # ls) =
     (if \<not> me_utf8 env l then Inl (OtherLog ''stream did not contain valid UTF-8'')
      else if e \<le> est then verify_lines env full p s e est (extra + 1) ls
      else if est < s then verify_lines env full p s e (est + 1) (extra + 1) ls
      else (case (if full then me_full env else me_light env) (strip_eol l) of
              None \<Rightarrow> Inl (MalformattedMilestone est p)
            | Some mi \<Rightarrow>
                (if est < mi then Inl (MissingMilestones (Range est mi) p)
                 else if mi < est then
                   (if s \<le> mi \<and> mi < e then Inl (DuplicateMilestone mi p)
                    else verify_lines env full p s e (est + 1) (extra + 1) ls)
                 else verify_lines env full p s e (est + 1) extra ls)))"

definition merge_verify ::
  "merge_env \<Rightarrow> validation_level \<Rightarrow> merge_log \<Rightarrow> merge_fs \<Rightarrow> log_file_error option \<times> merge_log" where
  "merge_verify env level lf fs =
     (if ml_final lf then (None, lf)
      else if ml_len lf = 0 then (Some (EmptyFile (ml_path lf)), lf\<lparr>ml_err := True\<rparr>)
      else if ml_end lf \<le> ml_start lf then (Some (InvalidRange (Range (ml_start lf) (ml_end lf)) (ml_path lf)), lf\<lparr>ml_err := True\<rparr>)
      else if level = Light \<or> level = Full then
        (case verify_lines env (level = Full) (ml_path lf) (ml_start lf) (ml_end lf) (ml_start lf) 0
                (split_lines (fs_data fs (ml_file lf))) of
           Inl (OtherLog m) \<Rightarrow> (Some (OtherLog m), lf)
         | Inl e \<Rightarrow> (Some e, lf\<lparr>ml_err := True\<rparr>)
         | Inr est \<Rightarrow> (None, lf\<lparr>ml_end := est\<rparr>))
      else (None, lf))"

text \<open>
  \<^verbatim>\<open>Drop\<close>: a log that goes out of scope gets the name that its state calls for, and panics when its
  name is gone. An open file has metadata even then.
\<close>

definition merge_close :: "merge_log \<Rightarrow> merge_fs \<Rightarrow> unit merged" where
  "merge_close lf fs =
     (let q = (if ml_err lf then MErr (ml_start lf) (ml_end lf)
               else if ml_final lf then MFin (ml_start lf) (ml_end lf)
               else MLog (ml_start lf) (ml_end lf))
      in if ml_path lf = q then (Inr (), fs)
         else (case fs_rename (ml_path lf) q fs of
                 (Inl e, fs) \<Rightarrow> (Inl MergePanic, fs)
               | (Inr u, fs) \<Rightarrow> (Inr (), fs)))"

text \<open>A result with a log that goes out of scope; after a panic the files are as they were at it.\<close>

definition dropping :: "merge_log \<Rightarrow> 'a merged \<Rightarrow> 'a merged" where
  "dropping lf r =
     (case r of (x, fs) \<Rightarrow>
        (case x of
           Inl MergePanic \<Rightarrow> (x, fs)
         | _ \<Rightarrow> then_merge (merge_close lf fs) (\<lambda>u fs. (x, fs))))"

definition merge_error :: "merger \<Rightarrow> log_file_error \<Rightarrow> merge_fs \<Rightarrow> unit merged" where
  "merge_error mg e fs = (if mg_exit mg then (Inl (MergeLog e), fs) else (Inr (), fs))"

definition back_up :: "merger \<Rightarrow> merge_path \<Rightarrow> merge_fs \<Rightarrow> unit merged" where
  "back_up mg p fs = (if mg_backup mg then fs_copy p fs else (Inr (), fs))"

definition open_write :: "merger \<Rightarrow> merge_path \<Rightarrow> u32 \<Rightarrow> u32 \<Rightarrow> merge_fs \<Rightarrow> merge_log merged" where
  "open_write mg p s e fs =
     then_merge (back_up mg p fs) (\<lambda>u fs.
     then_merge (fs_rename p (MActive s) fs) (\<lambda>u fs.
     then_merge (fs_open (MActive s) fs) (\<lambda>i fs. (Inr (new_merge_log s e (MActive s) i (file_size fs i)), fs))))"

definition open_read :: "merger \<Rightarrow> merge_path \<Rightarrow> u32 \<Rightarrow> u32 \<Rightarrow> merge_fs \<Rightarrow> merge_log merged" where
  "open_read mg p s e fs =
     then_merge (back_up mg p fs) (\<lambda>u fs.
     then_merge (fs_open p fs) (\<lambda>i fs. (Inr (new_merge_log s e p i (file_size fs i)), fs)))"

definition create_active :: "u32 \<Rightarrow> merge_fs \<Rightarrow> merge_log \<times> merge_fs" where
  "create_active mi fs =
     (case fs_create (MActive mi) fs of (i, fs) \<Rightarrow> (new_merge_log mi mi (MActive mi) i (file_size fs i), fs))"

text \<open>\<^verbatim>\<open>self.handle_error(..).map(|_| active)\<close>: the writer goes on or goes out of scope.\<close>

definition give_up :: "merger \<Rightarrow> merge_failure \<Rightarrow> merge_log \<Rightarrow> merge_log \<Rightarrow> merge_fs \<Rightarrow> merge_log merged" where
  "give_up mg e cf active fs =
     dropping cf (if mg_exit mg then dropping active (Inl e, fs) else (Inr active, fs))"

definition line_error ::
  "merge_env \<Rightarrow> validation_level \<Rightarrow> u32 \<Rightarrow> u32 \<Rightarrow> merge_path \<Rightarrow> u32 \<Rightarrow> u32 \<Rightarrow> u8 list \<Rightarrow> log_file_error option" where
  "line_error env level s e p mi active_end l =
     (if mi < active_end \<or> level = JustInTime
      then (case me_full env l of
              None \<Rightarrow> Some (MalformattedMilestone mi p)
            | Some idx \<Rightarrow>
                (if idx < s \<or> e \<le> idx then Some (OutsideMilestone idx p)
                 else if mi < idx then Some (MissingMilestones (Range mi idx) p)
                 else if idx < mi then Some (DuplicateMilestone idx p)
                 else None))
      else None)"

text \<open>The loop of \<^verbatim>\<open>merge\<close> over the lines of the consumed file, \<open>rd\<close> being the bytes read.\<close>

fun consume ::
  "merger \<Rightarrow> merge_env \<Rightarrow> u32 \<Rightarrow> u32 \<Rightarrow> merge_path \<Rightarrow> merge_log \<Rightarrow> u32 \<Rightarrow> u64 \<Rightarrow> merge_log \<Rightarrow> u8 list list \<Rightarrow> merge_fs
     \<Rightarrow> merge_log merged" where
  "consume mg env s e p cf mi rd active [] fs =
     (case fs_remove p fs of
        (Inl x, fs) \<Rightarrow> dropping active (dropping cf (Inl x, fs))
      | (Inr u, fs) \<Rightarrow>
          (if mg_level mg = Basic \<or> mg_level mg = JustInTime then
             (if mi < e then give_up mg (MergeLog (MissingMilestones (Range mi e) p)) (cf\<lparr>ml_err := True\<rparr>) active fs
              else if e < mi then give_up mg (MergeLog (ExtraMilestones (mi - e) p)) (cf\<lparr>ml_err := True\<rparr>) active fs
              else dropping cf (Inr active, fs))
           else dropping cf (Inr active, fs)))"
| "consume mg env s e p cf mi rd active (l # ls) fs =
     (if \<not> me_utf8 env l then give_up mg (MergeIo ''stream did not contain valid UTF-8'') cf active fs
      else (case line_error env (mg_level mg) s e p mi (ml_end active) l of
              Some err \<Rightarrow> give_up mg (MergeLog err) (cf\<lparr>ml_err := True\<rparr>) active fs
            | None \<Rightarrow>
                (let n = of_nat (length l); rd = rd + n in
                 if ml_len active + n < mg_max mg then
                   (if mi = ml_end active
                    then (case merge_append l active fs of (active, fs) \<Rightarrow> consume mg env s e p cf (mi + 1) rd active ls fs)
                    else consume mg env s e p cf (mi + 1) rd active ls fs)
                 else if rd \<noteq> n then
                   (case create_active mi fs of (new, fs) \<Rightarrow>
                      then_merge (merge_close (active\<lparr>ml_final := True\<rparr>) fs) (\<lambda>u fs.
                        (case merge_append l new fs of (new, fs) \<Rightarrow> consume mg env s e p cf (mi + 1) rd new ls fs)))
                 else
                   then_merge (merge_close cf fs) (\<lambda>u fs.
                   then_merge (merge_close (active\<lparr>ml_final := True\<rparr>) fs) (\<lambda>u fs. open_write mg p s e fs)))))"

definition merge_file ::
  "merger \<Rightarrow> merge_env \<Rightarrow> u32 \<Rightarrow> u32 \<Rightarrow> merge_path \<Rightarrow> merge_log \<Rightarrow> merge_fs \<Rightarrow> merge_log merged" where
  "merge_file mg env s e p active fs =
     (case open_read mg p s e fs of
        (Inl x, fs) \<Rightarrow> dropping active (Inl x, fs)
      | (Inr cf, fs) \<Rightarrow>
          (case merge_verify env (mg_level mg) cf fs of
             (Some (EmptyFile q), cf) \<Rightarrow>
               (case fs_remove p fs of
                  (Inl x, fs) \<Rightarrow> dropping active (dropping cf (Inl x, fs))
                | (Inr u, fs) \<Rightarrow> dropping cf (Inr active, fs))
           | (Some err, cf) \<Rightarrow> give_up mg (MergeLog err) cf active fs
           | (None, cf) \<Rightarrow> consume mg env s e p cf s 0 active (split_lines (fs_data fs (ml_file cf))) fs))"

text \<open>Names that are not of this form are left out: the code panics on them.\<close>

definition path_entry :: "merge_path \<Rightarrow> u32 \<times> u32 \<times> merge_path" where
  "path_entry p =
     (case p of MLog s e \<Rightarrow> (s, e, p) | MActive s \<Rightarrow> (s, u32_max, p) | MFin s e \<Rightarrow> (s, e, p) | MErr s e \<Rightarrow> (s, e, p))"

text \<open>
  \<^verbatim>\<open>LogPaths\<close> in the order of \<^verbatim>\<open>into_iter\<close> and \<^verbatim>\<open>pop\<close>: by start, and by descending end. The order of
  equal ranges, which the code leaves open, is that of the directory.
\<close>

definition log_paths :: "bool \<Rightarrow> merge_fs \<Rightarrow> (u32 \<times> u32 \<times> merge_path) list" where
  "log_paths include_finalized fs =
     (let ps = map fst (fs_names fs) in
      sort_key fst (sort_key (\<lambda>(s, e, p). - int (unat e))
        (map path_entry
          (filter (\<lambda>p. case p of MLog s e \<Rightarrow> True | _ \<Rightarrow> False) ps @
           filter (\<lambda>p. case p of MActive s \<Rightarrow> True | _ \<Rightarrow> False) ps @
           (if include_finalized then filter (\<lambda>p. case p of MFin s e \<Rightarrow> True | _ \<Rightarrow> False) ps else [])))))"

definition writer_level :: "merger \<Rightarrow> validation_level" where
  "writer_level mg = (if mg_level mg = Basic then Basic else Full)"

text \<open>The first log that passes its verification becomes the writer.\<close>

fun first_writer ::
  "merger \<Rightarrow> merge_env \<Rightarrow> (u32 \<times> u32 \<times> merge_path) list \<Rightarrow> merge_fs
     \<Rightarrow> (merge_log option \<times> (u32 \<times> u32 \<times> merge_path) list) merged" where
  "first_writer mg env [] fs = (Inr (None, []), fs)"
| "first_writer mg env ((s, e, p) # ps) fs =
     then_merge (open_write mg p s e fs) (\<lambda>w fs.
       (case merge_verify env (writer_level mg) w fs of
          (None, w) \<Rightarrow> (Inr (Some w, ps), fs)
        | (Some (EmptyFile q), w) \<Rightarrow>
            (case fs_remove p fs of
               (Inl x, fs) \<Rightarrow> dropping w (Inl x, fs)
             | (Inr u, fs) \<Rightarrow> then_merge (merge_close w fs) (\<lambda>u fs. first_writer mg env ps fs))
        | (Some err, w) \<Rightarrow>
            (case merge_error mg err fs of
               (Inl x, fs) \<Rightarrow> dropping (w\<lparr>ml_err := True\<rparr>) (Inl x, fs)
             | (Inr u, fs) \<Rightarrow> then_merge (merge_close (w\<lparr>ml_err := True\<rparr>) fs) (\<lambda>u fs. first_writer mg env ps fs))))"

fun merge_rest :: "merger \<Rightarrow> merge_env \<Rightarrow> (u32 \<times> u32 \<times> merge_path) list \<Rightarrow> merge_log \<Rightarrow> merge_fs \<Rightarrow> unit merged" where
  "merge_rest mg env [] w fs = merge_close w fs"
| "merge_rest mg env ((s, e, p) # ps) w fs =
     (if s \<le> ml_end w then then_merge (merge_file mg env s e p w fs) (\<lambda>w fs. merge_rest mg env ps w fs)
      else (case open_write mg p s e fs of
              (Inl x, fs) \<Rightarrow> dropping w (Inl x, fs)
            | (Inr new, fs) \<Rightarrow>
                then_merge (merge_close w fs) (\<lambda>u fs.
                  (case merge_verify env (writer_level mg) new fs of
                     (None, new) \<Rightarrow> merge_rest mg env ps new fs
                   | (Some (EmptyFile q), new) \<Rightarrow>
                       (case fs_remove p fs of
                          (Inl x, fs) \<Rightarrow> dropping new (Inl x, fs)
                        | (Inr u, fs) \<Rightarrow> merge_rest mg env ps new fs)
                   | (Some err, new) \<Rightarrow>
                       (case merge_error mg err fs of
                          (Inl x, fs) \<Rightarrow> dropping (new\<lparr>ml_err := True\<rparr>) (Inl x, fs)
                        | (Inr u, fs) \<Rightarrow> merge_rest mg env ps (new\<lparr>ml_err := True\<rparr>) fs)))))"

definition cleanup :: "merger \<Rightarrow> merge_env \<Rightarrow> merge_fs \<Rightarrow> unit merged" where
  "cleanup mg env fs =
     then_merge (first_writer mg env (log_paths (mg_finalized mg) fs) fs) (\<lambda>(w, ps) fs.
       (case w of None \<Rightarrow> (Inr (), fs) | Some w \<Rightarrow> merge_rest mg env ps w fs))"

text \<open>
  \<^verbatim>\<open>LogPaths::validate\<close>: with a progress bar the errors are printed (returned here), without one the
  first is returned as an error.
\<close>

definition report :: "bool \<Rightarrow> log_file_error list \<Rightarrow> merge_fs \<Rightarrow> log_file_error list merged" where
  "report bar es fs = (case es of [] \<Rightarrow> (Inr [], fs) | e # _ \<Rightarrow> (if bar then (Inr es, fs) else (Inl (MergeLog e), fs)))"

fun validate_logs ::
  "bool \<Rightarrow> merge_env \<Rightarrow> u64 \<Rightarrow> u32 option \<Rightarrow> (u32 \<times> u32 \<times> merge_path) list \<Rightarrow> merge_fs \<Rightarrow> log_file_error list merged" where
  "validate_logs bar env mx prev [] fs = (Inr [], fs)"
| "validate_logs bar env mx prev ((s, e, p) # ps) fs =
     then_merge (report bar (case prev of None \<Rightarrow> [] | Some x \<Rightarrow> if x < s then [MissingMilestones (Range x s) p] else []) fs) (\<lambda>es1 fs.
     then_merge (fs_open p fs) (\<lambda>i fs.
     then_merge (report bar (if mx < file_size fs i then [TooBig mx p] else []) fs) (\<lambda>es2 fs.
       (case merge_verify env Full (new_merge_log s e p i (file_size fs i)) fs of (r, lf) \<Rightarrow>
         then_merge (dropping lf (report bar (case r of None \<Rightarrow> [] | Some err \<Rightarrow> [err]) fs)) (\<lambda>es3 fs.
         then_merge (validate_logs bar env mx (Some e) ps fs) (\<lambda>es fs. (Inr (es1 @ es2 @ es3 @ es), fs)))))))"

definition validate :: "bool \<Rightarrow> bool \<Rightarrow> merge_env \<Rightarrow> u64 \<Rightarrow> merge_fs \<Rightarrow> log_file_error list merged" where
  "validate include_finalized bar env mx fs = validate_logs bar env mx None (log_paths include_finalized fs) fs"

section \<open>Lines\<close>

lemma concat_split_lines [simp]: "concat (split_lines c) = c"
proof (induction c rule: split_lines.induct)
  case (1 bs)
  show ?case
  proof (cases "dropWhile (\<lambda>b. b \<noteq> 10) bs")
    case Nil
    then show ?thesis by (simp add: split_lines.simps [of bs] del: dropWhile_eq_Nil_conv)
  next
    case (Cons b rest)
    then have "bs \<noteq> []" by auto
    moreover have "takeWhile (\<lambda>b. b \<noteq> 10) bs @ b # rest = bs" using takeWhile_dropWhile_id [of "\<lambda>b. b \<noteq> 10" bs] Cons by simp
    ultimately show ?thesis using 1 [OF \<open>bs \<noteq> []\<close> Cons] Cons by (simp add: split_lines.simps [of bs])
  qed
qed

lemma line_length:
  assumes "l \<in> set (split_lines c)"
  shows "length l \<le> length c"
proof -
  have "length l \<le> sum_list (map length (split_lines c))" by (rule member_le_sum_list) (use assms in auto)
  then show ?thesis by (simp flip: length_concat)
qed

lemma split_lines_Nil [simp]: "split_lines [] = []"
  by (simp add: split_lines.simps)

text \<open>A line that ends with its only newline.\<close>

definition whole_line :: "u8 list \<Rightarrow> bool" where
  "whole_line l \<longleftrightarrow> l \<noteq> [] \<and> last l = 10 \<and> 10 \<notin> set (butlast l)"

lemma split_lines_Cons:
  assumes "whole_line l"
  shows "split_lines (l @ rest) = l # split_lines rest"
proof -
  have l: "l = butlast l @ [10]" "10 \<notin> set (butlast l)" using assms by (auto simp: whole_line_def) (metis append_butlast_last_id)
  have "dropWhile (\<lambda>b. b \<noteq> 10) (butlast l @ 10 # rest) = 10 # rest"
    "takeWhile (\<lambda>b. b \<noteq> 10) (butlast l @ 10 # rest) = butlast l"
    using l(2) by (simp_all add: dropWhile_append3 takeWhile_append) (auto simp: takeWhile_eq_all_conv dropWhile_append)
  then have "split_lines (butlast l @ 10 # rest) = (butlast l @ [10]) # split_lines rest"
    by (simp add: split_lines.simps [of "butlast l @ 10 # rest"])
  then show ?thesis using l(1) by (metis append.assoc append_Cons append_Nil)
qed

lemma split_lines_concat: "list_all whole_line ls \<Longrightarrow> split_lines (concat ls) = ls"
  by (induction ls) (simp_all add: split_lines_Cons)

lemma split_lines_append:
  "list_all whole_line (split_lines c) \<Longrightarrow> whole_line l \<Longrightarrow> split_lines (c @ l) = split_lines c @ [l]"
  using split_lines_concat [of "split_lines c @ [l]"] by simp

section \<open>Well-formed logs\<close>

text \<open>A line with a milestone that both ways of reading it find.\<close>

definition good_line :: "merge_env \<Rightarrow> u32 \<Rightarrow> u8 list \<Rightarrow> bool" where
  "good_line env i l \<longleftrightarrow> whole_line l \<and> me_utf8 env l \<and> me_full env l = Some i \<and>
     me_full env (strip_eol l) = Some i \<and> me_light env (strip_eol l) = Some i"

definition good_log :: "merge_env \<Rightarrow> u32 \<Rightarrow> u32 \<Rightarrow> u8 list \<Rightarrow> bool" where
  "good_log env s e c \<longleftrightarrow> s < e \<and> list_all2 (good_line env) (range_list (Range s e)) (split_lines c)"

definition path_range :: "merge_path \<Rightarrow> u32 set" where
  "path_range p = (case p of MLog s e \<Rightarrow> {s..<e} | MFin s e \<Rightarrow> {s..<e} | _ \<Rightarrow> {})"

definition good_file :: "merge_env \<Rightarrow> merge_path \<Rightarrow> u8 list \<Rightarrow> bool" where
  "good_file env p c = (case p of MLog s e \<Rightarrow> good_log env s e c | MFin s e \<Rightarrow> good_log env s e c | _ \<Rightarrow> False)"

text \<open>A directory of well-formed logs, finalized or not, without overlaps.\<close>

definition tidy :: "merge_env \<Rightarrow> (merge_path \<rightharpoonup> u8 list) \<Rightarrow> bool" where
  "tidy env v \<longleftrightarrow> (\<forall>p c. v p = Some c \<longrightarrow> good_file env p c) \<and>
     (\<forall>p\<in>dom v. \<forall>q\<in>dom v. p \<noteq> q \<longrightarrow> path_range p \<inter> path_range q = {})"

text \<open>The abstract archive: the line of each milestone that some log holds.\<close>

definition entries :: "u32 \<Rightarrow> u32 \<Rightarrow> u8 list list \<Rightarrow> (u32 \<times> u8 list) set" where
  "entries s e ls = set (zip (range_list (Range s e)) ls)"

definition file_entries :: "merge_path \<Rightarrow> u8 list \<Rightarrow> (u32 \<times> u8 list) set" where
  "file_entries p c =
     (case p of MLog s e \<Rightarrow> entries s e (split_lines c) | MFin s e \<Rightarrow> entries s e (split_lines c) | _ \<Rightarrow> {})"

definition archive :: "(merge_path \<rightharpoonup> u8 list) \<Rightarrow> (u32 \<times> u8 list) set" where
  "archive v = {x. \<exists>p c. v p = Some c \<and> x \<in> file_entries p c}"

lemma path_simps [simp]:
  "path_range (MLog s e) = {s..<e}" "path_range (MFin s e) = {s..<e}" "path_range (MActive s) = {}"
  "good_file env (MLog s e) c = good_log env s e c" "good_file env (MFin s e) c = good_log env s e c"
  "\<not> good_file env (MActive s) c" "\<not> good_file env (MErr s e) c"
  "file_entries (MLog s e) c = entries s e (split_lines c)" "file_entries (MFin s e) c = entries s e (split_lines c)"
  by (simp_all add: path_range_def good_file_def file_entries_def)

lemma archive_insert: "v p = None \<Longrightarrow> archive (v(p \<mapsto> c)) = archive v \<union> file_entries p c"
  by (auto simp: archive_def) (metis option.distinct(1))

lemma good_log_whole: "list_all2 (good_line env) is ls \<Longrightarrow> list_all whole_line ls"
  by (induction rule: list_all2_induct) (simp_all add: good_line_def)

lemma good_log_append:
  assumes "good_log env s i c" and "good_line env i l" and "i < j"
  shows "good_log env s (i + 1) (c @ l)"
    and "entries s (i + 1) (split_lines (c @ l)) = entries s i (split_lines c) \<union> {(i, l)}"
proof -
  have a: "s < i" "list_all2 (good_line env) (range_list (Range s i)) (split_lines c)"
    using assms(1) by (auto simp: good_log_def)
  have sp: "split_lines (c @ l) = split_lines c @ [l]"
    using split_lines_append [OF good_log_whole [OF a(2)]] assms(2) by (simp add: good_line_def)
  have r: "range_list (Range s (i + 1)) = range_list (Range s i) @ [i]"
    using a(1) unat_succ [OF assms(3)] by (simp add: range_list_def word_less_nat_alt)
  have "s < i + 1" using a(1) assms(3) by (meson order.strict_trans word_less_succ)
  then show "good_log env s (i + 1) (c @ l)"
    using a(2) assms(2) by (simp add: good_log_def sp r list_all2_appendI)
  show "entries s (i + 1) (split_lines (c @ l)) = entries s i (split_lines c) \<union> {(i, l)}"
    using list_all2_lengthD [OF a(2)] by (auto simp: entries_def sp r)
qed

lemma good_log_single:
  assumes "good_line env i l" and "i < j"
  shows "good_log env i (i + 1) l" and "entries i (i + 1) (split_lines l) = {(i, l)}"
proof -
  have sp: "split_lines l = [l]" using split_lines_concat [of "[l]"] assms(1) by (simp add: good_line_def)
  have r: "range_list (Range i (i + 1)) = [i]"
    using unat_succ [OF assms(2)] by (simp add: range_list_def)
  show "good_log env i (i + 1) l" using assms by (simp add: good_log_def sp r word_less_succ)
  show "entries i (i + 1) (split_lines l) = {(i, l)}" by (simp add: entries_def sp r)
qed

lemma good_log_nonempty: "good_log env s e c \<Longrightarrow> c \<noteq> []"
  by (auto simp: good_log_def range_list_Cons)

section \<open>The directory\<close>

definition view :: "merge_fs \<Rightarrow> merge_path \<rightharpoonup> u8 list" where
  "view fs p = map_option (fs_data fs) (hm_get (fs_names fs) p)"

definition fs_ok :: "merge_fs \<Rightarrow> bool" where
  "fs_ok fs \<longleftrightarrow> hm_ok (fs_names fs) \<and> inj_on (\<lambda>p. the (hm_get (fs_names fs) p)) (dom (hm_get (fs_names fs))) \<and>
     (\<forall>p i. hm_get (fs_names fs) p = Some i \<longrightarrow> i < fs_next fs)"

lemma view_dom: "hm_get (fs_names fs) p = None \<longleftrightarrow> view fs p = None"
  by (simp add: view_def)

lemma fs_okD:
  assumes "fs_ok fs" and "hm_get (fs_names fs) p = Some i" and "hm_get (fs_names fs) q = Some i"
  shows "p = q"
  using assms unfolding fs_ok_def by (metis domI inj_onD option.sel)

lemma fs_okI:
  assumes "hm_ok (fs_names fs)"
    and "\<And>p q i. hm_get (fs_names fs) p = Some i \<Longrightarrow> hm_get (fs_names fs) q = Some i \<Longrightarrow> p = q"
    and "\<And>p i. hm_get (fs_names fs) p = Some i \<Longrightarrow> i < fs_next fs"
  shows "fs_ok fs"
  using assms unfolding fs_ok_def inj_on_def by (metis domD option.sel)

lemma fs_ok_names:
  assumes "fs_ok fs" and "hm_ok m" and "\<And>p i. hm_get m p = Some i \<Longrightarrow> hm_get (fs_names fs) (f p) = Some i"
    and "\<And>p q. hm_get m p \<noteq> None \<Longrightarrow> hm_get m q \<noteq> None \<Longrightarrow> f p = f q \<Longrightarrow> p = q"
  shows "fs_ok (fs\<lparr>fs_names := m\<rparr>)"
proof (rule fs_okI)
  show "p = q" if m: "hm_get (fs_names (fs\<lparr>fs_names := m\<rparr>)) p = Some i" "hm_get (fs_names (fs\<lparr>fs_names := m\<rparr>)) q = Some i" for p q i
  proof -
    have m': "hm_get m p = Some i" "hm_get m q = Some i" using m by simp_all
    have "f p = f q" by (rule fs_okD [OF assms(1) assms(3) [OF m'(1)] assms(3) [OF m'(2)]])
    then show ?thesis using assms(4) m' by simp
  qed
  show "i < fs_next (fs\<lparr>fs_names := m\<rparr>)" if "hm_get (fs_names (fs\<lparr>fs_names := m\<rparr>)) p = Some i" for p i
    using assms(1,3) that by (auto simp: fs_ok_def)
qed (simp add: assms(2))

lemma fs_rename_view:
  assumes "fs_ok fs" and "view fs p = Some c" and "p \<noteq> q"
  obtains fs' where "fs_rename p q fs = (Inr (), fs')" and "fs_ok fs'" and "view fs' = (view fs)(p := None, q \<mapsto> c)"
    and "\<And>r. hm_get (fs_names fs') r = (if r = q then hm_get (fs_names fs) p else if r = p then None else hm_get (fs_names fs) r)"
    and "fs_data fs' = fs_data fs"
proof -
  obtain i where i: "hm_get (fs_names fs) p = Some i" "c = fs_data fs i" using assms(2) by (auto simp: view_def)
  define fs' where "fs' = fs\<lparr>fs_names := hm_insert q i (hm_remove p (fs_names fs))\<rparr>"
  have ok: "hm_ok (fs_names fs)" using assms(1) by (simp add: fs_ok_def)
  have "fs_ok fs'" unfolding fs'_def
    by (rule fs_ok_names [where f = "\<lambda>r. if r = q then p else r"]) (use assms(1) i(1) ok in \<open>auto split: if_splits\<close>)
  moreover have "view fs' = (view fs)(p := None, q \<mapsto> c)"
    using assms(3) by (auto simp: view_def fs'_def i(2))
  ultimately show ?thesis using that [of fs'] i(1) assms(3) by (simp add: fs_rename_def fs'_def)
qed

lemma fs_remove_view:
  assumes "fs_ok fs" and "view fs p = Some c"
  obtains fs' where "fs_remove p fs = (Inr (), fs')" and "fs_ok fs'" and "view fs' = (view fs)(p := None)"
    and "\<And>q. q \<noteq> p \<Longrightarrow> hm_get (fs_names fs') q = hm_get (fs_names fs) q" and "fs_data fs' = fs_data fs"
proof -
  obtain i where i: "hm_get (fs_names fs) p = Some i" using assms(2) by (auto simp: view_def)
  define fs' where "fs' = fs\<lparr>fs_names := hm_remove p (fs_names fs)\<rparr>"
  have ok: "hm_ok (fs_names fs)" using assms(1) by (simp add: fs_ok_def)
  have "fs_ok fs'" unfolding fs'_def
    by (rule fs_ok_names [where f = "\<lambda>r. r"]) (use assms(1) ok in \<open>auto split: if_splits\<close>)
  moreover have "view fs' = (view fs)(p := None)" by (auto simp: view_def fs'_def)
  ultimately show ?thesis using that [of fs'] i by (simp add: fs_remove_def fs'_def)
qed

lemma fs_append_view:
  assumes "fs_ok fs" and "hm_get (fs_names fs) p = Some i"
  shows "fs_ok (fs_append i bs fs)" and "view (fs_append i bs fs) = (view fs)(p \<mapsto> fs_data fs i @ bs)"
proof -
  show "fs_ok (fs_append i bs fs)" using assms(1) by (simp add: fs_append_def fs_ok_def)
  have "view (fs_append i bs fs) q = ((view fs)(p \<mapsto> fs_data fs i @ bs)) q" for q
  proof (cases "hm_get (fs_names fs) q = Some i")
    case True
    then have "q = p" by (rule fs_okD [OF assms(1) _ assms(2)])
    then show ?thesis using assms(2) by (simp add: view_def fs_append_def)
  next
    case False
    then have "q \<noteq> p" using assms(2) by auto
    then show ?thesis using False by (cases "hm_get (fs_names fs) q") (auto simp: view_def fs_append_def)
  qed
  then show "view (fs_append i bs fs) = (view fs)(p \<mapsto> fs_data fs i @ bs)" ..
qed

lemma fs_create_view:
  assumes "fs_ok fs" and "view fs p = None"
  obtains i fs' where "fs_create p fs = (i, fs')" and "fs_ok fs'" and "view fs' = (view fs)(p \<mapsto> [])"
    and "hm_get (fs_names fs') p = Some i" and "\<And>q. q \<noteq> p \<Longrightarrow> hm_get (fs_names fs') q = hm_get (fs_names fs) q"
    and "fs_data fs' i = []"
proof -
  have n: "hm_get (fs_names fs) p = None" using assms(2) by (simp add: view_def)
  define fs' where "fs' = fs\<lparr>fs_names := hm_insert p (fs_next fs) (fs_names fs),
      fs_data := (fs_data fs)(fs_next fs := []), fs_next := Suc (fs_next fs)\<rparr>"
  have lt: "hm_get (fs_names fs) q = Some i \<Longrightarrow> i < fs_next fs" for q i using assms(1) by (auto simp: fs_ok_def)
  have ok: "hm_ok (fs_names fs)" using assms(1) by (simp add: fs_ok_def)
  have "fs_ok fs'"
  proof (rule fs_okI)
    show "hm_ok (fs_names fs')" using ok by (simp add: fs'_def)
    show "q = r" if "hm_get (fs_names fs') q = Some i" "hm_get (fs_names fs') r = Some i" for q r i
      using that fs_okD [OF assms(1), of q i r] lt by (auto simp: fs'_def split: if_splits)
    show "i < fs_next fs'" if "hm_get (fs_names fs') q = Some i" for q i
      using that lt [of q i] by (auto simp: fs'_def split: if_splits)
  qed
  moreover have "view fs' = (view fs)(p \<mapsto> [])"
  proof
    fix q show "view fs' q = ((view fs)(p \<mapsto> [])) q"
      by (cases "hm_get (fs_names fs) q") (use lt [of q] in \<open>auto simp: view_def fs'_def\<close>)
  qed
  ultimately show ?thesis using that [of "fs_next fs" fs'] n by (simp add: fs_create_def fs'_def)
qed

section \<open>Merging well-formed logs\<close>

text \<open>The writer with the content of its file, beside the other files.\<close>

definition writing :: "merge_env \<Rightarrow> merge_log \<Rightarrow> merge_fs \<Rightarrow> (merge_path \<rightharpoonup> u8 list) \<Rightarrow> u8 list \<Rightarrow> bool" where
  "writing env w fs others c \<longleftrightarrow>
     fs_ok fs \<and> ml_path w = MActive (ml_start w) \<and> hm_get (fs_names fs) (ml_path w) = Some (ml_file w) \<and>
     fs_data fs (ml_file w) = c \<and> others (ml_path w) = None \<and> view fs = others(ml_path w \<mapsto> c) \<and>
     good_log env (ml_start w) (ml_end w) c \<and> ml_len w = of_nat (length c) \<and> \<not> ml_err w \<and> \<not> ml_final w"

text \<open>The other files are well-formed and none has a milestone of a range.\<close>

definition apart :: "merge_env \<Rightarrow> u32 \<Rightarrow> u32 \<Rightarrow> (merge_path \<rightharpoonup> u8 list) \<Rightarrow> bool" where
  "apart env s e others \<longleftrightarrow> tidy env others \<and> (\<forall>q\<in>dom others. path_range q \<inter> {s..<e} = {})"

definition log_path :: "merge_path \<Rightarrow> u32 \<Rightarrow> u32 \<Rightarrow> bool" where
  "log_path p s e \<longleftrightarrow> p = MLog s e \<or> p = MFin s e"

text \<open>A file that is small enough: below the limit, or of one line, or one of those there were.\<close>

definition bounded_file :: "merger \<Rightarrow> u8 list set \<Rightarrow> u8 list \<Rightarrow> bool" where
  "bounded_file mg orig c \<longleftrightarrow>
     length c < 2 ^ 63 \<and> (length c < unat (mg_max mg) \<or> length (split_lines c) = 1 \<or> c \<in> orig)"

lemma log_path_simps:
  assumes "log_path p s e"
  shows "path_range p = {s..<e}" "good_file env p c = good_log env s e c" "file_entries p c = entries s e (split_lines c)"
    and "p \<noteq> MActive a"
  using assms by (auto simp: log_path_def)

lemma tidy_insert:
  assumes "apart env s e others" and "log_path p s e" and "good_log env s e c" and "others p = None"
  shows "tidy env (others(p \<mapsto> c))"
  using assms unfolding tidy_def apart_def
  by (auto simp: log_path_simps [OF assms(2)] split: if_splits)

lemma apart_free:
  assumes "apart env s e others" and "log_path p a b" and "x \<in> {a..<b}" and "x \<in> {s..<e}"
  shows "others p = None"
proof (rule ccontr)
  assume "others p \<noteq> None"
  then have "path_range p \<inter> {s..<e} = {}" using assms(1) by (auto simp: apart_def)
  then show False using assms(3,4) log_path_simps(1) [OF assms(2)] by auto
qed

lemma apart_no_active: "apart env s e others \<Longrightarrow> others (MActive a) = None"
  unfolding apart_def tidy_def by (metis not_None_eq path_simps(6))

lemma apart_mono: "apart env s e others \<Longrightarrow> s \<le> s' \<Longrightarrow> e' \<le> e \<Longrightarrow> apart env s' e' others"
  unfolding apart_def by (meson atLeastLessThan_subset_iff disjoint_iff ivl_subset subset_iff)

lemma merge_close_view:
  assumes "fs_ok fs" and "view fs (ml_path w) = Some c" and "ml_path w = MActive a" and "\<not> ml_err w"
    and "q = (if ml_final w then MFin (ml_start w) (ml_end w) else MLog (ml_start w) (ml_end w))"
  obtains fs' where "merge_close w fs = (Inr (), fs')" and "fs_ok fs'" and "view fs' = (view fs)(ml_path w := None, q \<mapsto> c)"
    and "\<And>r. r \<noteq> ml_path w \<Longrightarrow> r \<noteq> q \<Longrightarrow> hm_get (fs_names fs') r = hm_get (fs_names fs) r" and "fs_data fs' = fs_data fs"
proof -
  have ne: "ml_path w \<noteq> q" using assms(3,5) by auto
  obtain fs' where f: "fs_rename (ml_path w) q fs = (Inr (), fs')" "fs_ok fs'" "view fs' = (view fs)(ml_path w := None, q \<mapsto> c)"
    "\<And>r. hm_get (fs_names fs') r = (if r = q then hm_get (fs_names fs) (ml_path w) else if r = ml_path w then None else hm_get (fs_names fs) r)"
    "fs_data fs' = fs_data fs" using fs_rename_view [OF assms(1,2) ne] by blast
  have "merge_close w fs = (Inr (), fs')"
    using f(1) ne assms(4) unfolding merge_close_def Let_def assms(5) by (simp split: if_splits)
  then show ?thesis using that f by simp
qed

lemma back_up_view:
  assumes "view fs p = Some c"
  obtains fs' where "back_up mg p fs = (Inr (), fs')" and "fs_names fs' = fs_names fs" and "fs_data fs' = fs_data fs"
    and "fs_next fs' = fs_next fs"
proof -
  obtain i where "hm_get (fs_names fs) p = Some i" using assms by (auto simp: view_def)
  then show ?thesis using that [of fs] that [of "fs\<lparr>fs_backup := hm_insert p (fs_data fs i) (fs_backup fs)\<rparr>"]
    by (cases "mg_backup mg") (simp_all add: back_up_def fs_copy_def)
qed

lemma same_names:
  assumes "fs_names fs' = fs_names fs" and "fs_data fs' = fs_data fs" and "fs_next fs' = fs_next fs"
  shows "fs_ok fs' = fs_ok fs" and "view fs' = view fs"
proof -
  show "fs_ok fs' = fs_ok fs" using assms by (simp add: fs_ok_def)
  show "view fs' = view fs" by (rule ext) (simp add: view_def assms)
qed

lemma open_write_view:
  assumes "fs_ok fs" and "view fs p = Some c" and "log_path p s e" and "view fs (MActive s) = None" and "good_log env s e c"
  obtains w fs' where "open_write mg p s e fs = (Inr w, fs')" and "writing env w fs' ((view fs)(p := None)) c"
    and "ml_start w = s" and "ml_end w = e"
proof -
  obtain fs1 where f1: "back_up mg p fs = (Inr (), fs1)" "fs_names fs1 = fs_names fs" "fs_data fs1 = fs_data fs"
    "fs_next fs1 = fs_next fs" by (rule back_up_view [OF assms(2)])
  note same = same_names [OF f1(2-4)]
  have ne: "p \<noteq> MActive s" using log_path_simps(4) [OF assms(3)] .
  obtain fs2 where f2: "fs_rename p (MActive s) fs1 = (Inr (), fs2)" "fs_ok fs2"
    "view fs2 = (view fs1)(p := None, MActive s \<mapsto> c)"
    by (rule fs_rename_view [of fs1 p c "MActive s"]) (use assms(1,2) ne same in auto)
  obtain i where i: "hm_get (fs_names fs2) (MActive s) = Some i" "fs_data fs2 i = c"
    using fun_cong [OF f2(3), of "MActive s"] by (auto simp: view_def)
  let ?w = "new_merge_log s e (MActive s) i (file_size fs2 i)"
  have "writing env ?w fs2 ((view fs)(p := None)) c"
    using assms(4,5) f2(2,3) i ne same by (auto simp: writing_def new_merge_log_def file_size_def)
  then show ?thesis
    by (intro that [of ?w fs2]) (use f1(1) f2(1) i in \<open>simp_all add: open_write_def fs_open_def new_merge_log_def\<close>)
qed

lemma unat_length:
  assumes "n < 2 ^ 63" and "m < 2 ^ 63"
  shows "unat (of_nat n :: u64) = n" and "unat (of_nat (n + m) :: u64) = n + m"
  by (rule of_nat_inverse [OF refl], use assms in simp)+

lemma range_list_empty: "range_list (Range s e) = [] \<longleftrightarrow> e \<le> s"
  by (metis length_0_conv length_range_list diff_is_0_eq u32_range.select_convs word_le_nat_alt)

lemma good_list_Nil: "list_all2 (good_line env) (range_list (Range i e)) [] \<Longrightarrow> e \<le> i"
  by (simp add: range_list_empty)

lemma good_list_Cons:
  assumes "list_all2 (good_line env) (range_list (Range i e)) (l # ls)"
  shows "i < e" "good_line env i l" "list_all2 (good_line env) (range_list (Range (i + 1) e)) ls"
proof -
  show lt: "i < e"
  proof (rule ccontr)
    assume "\<not> i < e"
    then show False using assms by (simp add: range_list_Nil)
  qed
  show "good_line env i l" "list_all2 (good_line env) (range_list (Range (i + 1) e)) ls"
    using assms lt by (auto simp: range_list_Cons)
qed

lemma verify_lines_good:
  "list_all2 (good_line env) (range_list (Range est e)) ls \<Longrightarrow> s \<le> est \<Longrightarrow> est \<le> e
     \<Longrightarrow> verify_lines env full p s e est 0 ls = Inr e"
proof (induction ls arbitrary: est)
  case Nil
  then show ?case using good_list_Nil [of env est e] by simp
next
  case (Cons l ls)
  note g = good_list_Cons [OF Cons.prems(1)]
  have "verify_lines env full p s e (est + 1) 0 ls = Inr e"
    by (rule Cons.IH [OF g(3)]) (use g(1) Cons.prems(2) in \<open>auto simp: range_simps intro: order.trans order.strict_implies_order\<close>)
  moreover have "\<not> e \<le> est" "\<not> est < s" using g(1) Cons.prems(2) by simp_all
  ultimately show ?case using g(2) by (cases full) (simp_all add: good_line_def)
qed

lemma merge_verify_good:
  assumes "good_log env (ml_start lf) (ml_end lf) (fs_data fs (ml_file lf))" and "length (fs_data fs (ml_file lf)) < 2 ^ 63"
    and "ml_len lf = of_nat (length (fs_data fs (ml_file lf)))"
  shows "merge_verify env level lf fs = (None, lf)"
proof -
  have "unat (ml_len lf) = length (fs_data fs (ml_file lf))"
    using unat_length(1) [OF assms(2), of 0] assms(3) by simp
  then have "ml_len lf \<noteq> 0" using good_log_nonempty [OF assms(1)] by auto
  moreover have "verify_lines env full p (ml_start lf) (ml_end lf) (ml_start lf) 0 (split_lines (fs_data fs (ml_file lf))) = Inr (ml_end lf)"
    for full p by (rule verify_lines_good) (use assms(1) in \<open>auto simp: good_log_def\<close>)
  moreover have "\<not> ml_end lf \<le> ml_start lf" using assms(1) by (auto simp: good_log_def)
  ultimately show ?thesis by (simp add: merge_verify_def)
qed

lemma entries_Cons:
  assumes "i < e"
  shows "entries i e (l # ls) = insert (i, l) (entries (i + 1) e ls)"
  by (simp add: entries_def range_list_Cons [of "Range i e"] assms)

lemma bounded_append:
  assumes "length c < 2 ^ 63" and "length l < 2 ^ 63" and "of_nat (length c) + of_nat (length l) < mg_max mg"
    and "unat (mg_max mg) \<le> 2 ^ 63"
  shows "bounded_file mg orig (c @ l)"
proof -
  have "unat (of_nat (length c + length l) :: u64) = length c + length l"
    using unat_length(2) [OF assms(1,2)] .
  then have "length c + length l < unat (mg_max mg)"
    using assms(3) by (simp add: word_less_nat_alt)
  then show ?thesis using assms(4) by (simp add: bounded_file_def)
qed

text \<open>The writer takes one more line of the consumed file.\<close>

lemma writing_append:
  assumes "writing env w fs others c" and "good_line env (ml_end w) l" and "ml_end w < e"
  obtains w' fs' where "merge_append l w fs = (w', fs')" and "writing env w' fs' others (c @ l)"
    and "ml_start w' = ml_start w" and "ml_end w' = ml_end w + 1" and "ml_path w' = ml_path w"
proof -
  note w = assms(1) [unfolded writing_def]
  let ?w = "w\<lparr>ml_end := ml_end w + 1, ml_len := ml_len w + of_nat (length l)\<rparr>"
  have f: "fs_ok (fs_append (ml_file w) l fs)" "view (fs_append (ml_file w) l fs) = (view fs)(ml_path w \<mapsto> c @ l)"
    using fs_append_view [of fs "ml_path w" "ml_file w" l] w by auto
  have f': "view (fs_append (ml_file w) l fs) = others(ml_path w \<mapsto> c @ l)" using f(2) w by simp
  have g: "good_log env (ml_start w) (ml_end w + 1) (c @ l)" by (rule good_log_append(1) [OF _ assms(2,3)]) (use w in blast)
  have n: "fs_names (fs_append (ml_file w) l fs) = fs_names fs" "fs_data (fs_append (ml_file w) l fs) (ml_file w) = c @ l"
    using w by (simp_all add: fs_append_def)
  have "writing env ?w (fs_append (ml_file w) l fs) others (c @ l)"
    unfolding writing_def using w f(1) f' g n by (elim conjE) (simp del: fun_upd_apply)
  then show ?thesis by (intro that [of ?w "fs_append (ml_file w) l fs"]) (simp_all add: merge_append_def)
qed

text \<open>The writer is finalized; its file stays under its final name.\<close>

lemma writing_close:
  assumes "writing env w fs0 others c" and "fs_ok fs" and "view fs (ml_path w) = Some c"
    and "q = (if b then MFin (ml_start w) (ml_end w) else MLog (ml_start w) (ml_end w))"
  obtains fs' where "merge_close (w\<lparr>ml_final := b\<rparr>) fs = (Inr (), fs')" and "fs_ok fs'"
    and "view fs' = (view fs)(ml_path w := None, q \<mapsto> c)"
    and "\<And>r. r \<noteq> ml_path w \<Longrightarrow> r \<noteq> q \<Longrightarrow> hm_get (fs_names fs') r = hm_get (fs_names fs) r" and "fs_data fs' = fs_data fs"
proof -
  have "ml_path w = MActive (ml_start w)" "\<not> ml_err w" using assms(1) by (simp_all add: writing_def)
  then have a: "view fs (ml_path (w\<lparr>ml_final := b\<rparr>)) = Some c" "ml_path (w\<lparr>ml_final := b\<rparr>) = MActive (ml_start w)"
    "\<not> ml_err (w\<lparr>ml_final := b\<rparr>)"
    "q = (if ml_final (w\<lparr>ml_final := b\<rparr>) then MFin (ml_start (w\<lparr>ml_final := b\<rparr>)) (ml_end (w\<lparr>ml_final := b\<rparr>))
          else MLog (ml_start (w\<lparr>ml_final := b\<rparr>)) (ml_end (w\<lparr>ml_final := b\<rparr>)))"
    using assms(3,4) by simp_all
  obtain fs' where "merge_close (w\<lparr>ml_final := b\<rparr>) fs = (Inr (), fs')" "fs_ok fs'"
    "view fs' = (view fs)(ml_path (w\<lparr>ml_final := b\<rparr>) := None, q \<mapsto> c)"
    "\<And>r. r \<noteq> ml_path (w\<lparr>ml_final := b\<rparr>) \<Longrightarrow> r \<noteq> q \<Longrightarrow> hm_get (fs_names fs') r = hm_get (fs_names fs) r" "fs_data fs' = fs_data fs"
    using merge_close_view [OF assms(2) a] by blast
  then show ?thesis by (intro that [of fs']) simp_all
qed

text \<open>A consumed file that goes out of scope keeps its name.\<close>

definition reading :: "merge_env \<Rightarrow> merge_log \<Rightarrow> merge_path \<Rightarrow> u32 \<Rightarrow> u32 \<Rightarrow> u8 list \<Rightarrow> bool" where
  "reading env cf p s e cp \<longleftrightarrow> log_path p s e \<and> good_log env s e cp \<and> ml_path cf = p \<and> ml_start cf = s \<and> ml_end cf = e \<and>
     \<not> ml_err cf \<and> (ml_final cf \<longleftrightarrow> p = MFin s e)"

lemma reading_close: "reading env cf p s e cp \<Longrightarrow> merge_close cf fs = (Inr (), fs)"
  by (auto simp: reading_def log_path_def merge_close_def)

text \<open>What merging a file comes to.\<close>

definition merged ::
  "merger \<Rightarrow> merge_env \<Rightarrow> u8 list set \<Rightarrow> u32 \<Rightarrow> (merge_path \<rightharpoonup> u8 list) \<Rightarrow> (u32 \<times> u8 list) set \<Rightarrow> merge_log merged \<Rightarrow> bool" where
  "merged mg env orig e others arch r \<longleftrightarrow>
     (\<exists>w fs others' c. r = (Inr w, fs) \<and> writing env w fs others' c \<and> apart env (ml_start w) e others' \<and> ml_end w = e \<and>
        others \<subseteq>\<^sub>m others' \<and> archive others' \<union> entries (ml_start w) e (split_lines c) = arch \<and>
        bounded_file mg orig c \<and> (\<forall>q x. others' q = Some x \<longrightarrow> bounded_file mg orig x))"

lemma merged_mono: "merged mg env orig e others arch r \<Longrightarrow> others1 \<subseteq>\<^sub>m others \<Longrightarrow> merged mg env orig e others1 arch r"
  unfolding merged_def by (elim exE conjE, intro exI conjI) (assumption | erule (1) map_le_trans [rotated])+

lemma bounded_line:
  assumes "l \<in> set (split_lines cp)" and "length cp < 2 ^ 63" and "good_line env i l"
  shows "length l < 2 ^ 63" and "bounded_file mg orig l"
proof -
  show l: "length l < 2 ^ 63" using line_length [OF assms(1)] assms(2) by simp
  have "split_lines l = [l]" using split_lines_concat [of "[l]"] assms(3) by (simp add: good_line_def)
  then show "bounded_file mg orig l" using l by (simp add: bounded_file_def)
qed

text \<open>The writer makes way for another file: its own stays, finalized.\<close>

lemma finalize_apart:
  assumes "apart env s e others" and "good_log env s mi c" and "mi < e" and "\<forall>q x. others q = Some x \<longrightarrow> bounded_file mg orig x"
    and "bounded_file mg orig c"
  shows "others (MFin s mi) = None" and "apart env mi e (others(MFin s mi \<mapsto> c))"
    and "archive (others(MFin s mi \<mapsto> c)) = archive others \<union> entries s mi (split_lines c)"
    and "\<forall>q x. (others(MFin s mi \<mapsto> c)) q = Some x \<longrightarrow> bounded_file mg orig x"
proof -
  have lt: "s < mi" using assms(2) by (simp add: good_log_def)
  have lp: "log_path (MFin s mi) s mi" by (simp add: log_path_def)
  show free: "others (MFin s mi) = None"
    by (rule apart_free [OF assms(1) lp, of s]) (use lt assms(3) in auto)
  have "tidy env (others(MFin s mi \<mapsto> c))"
    by (rule tidy_insert [OF apart_mono [OF assms(1) order.refl order.strict_implies_order [OF assms(3)]] lp assms(2) free])
  moreover have "path_range q \<inter> {mi..<e} = {}" if "q \<in> dom others" for q
    using apart_mono [OF assms(1) order.strict_implies_order [OF lt] order.refl] that by (auto simp: apart_def)
  ultimately show "apart env mi e (others(MFin s mi \<mapsto> c))" by (auto simp: apart_def)
  show "archive (others(MFin s mi \<mapsto> c)) = archive others \<union> entries s mi (split_lines c)"
    using archive_insert [of others "MFin s mi" c] free by simp
  show "\<forall>q x. (others(MFin s mi \<mapsto> c)) q = Some x \<longrightarrow> bounded_file mg orig x"
    using assms(4,5) by (auto split: if_splits)
qed

lemma map_le_upd_free: "m k = None \<Longrightarrow> m \<subseteq>\<^sub>m m(k \<mapsto> x)"
  by (auto simp: map_le_def)

lemma consume_good:
  assumes "reading env cf p s e cp" and "length cp < 2 ^ 63" and "unat (mg_max mg) \<le> 2 ^ 63"
    and "bounded_file mg orig cp"
  shows "writing env w fs others c \<Longrightarrow> others p = Some cp \<Longrightarrow> apart env (ml_start w) e (others(p := None)) \<Longrightarrow>
    split_lines cp = pre @ ls \<Longrightarrow> list_all2 (good_line env) (range_list (Range mi e)) ls \<Longrightarrow> ml_end w = mi \<Longrightarrow>
    s \<le> mi \<Longrightarrow> mi \<le> e \<Longrightarrow> rd = of_nat (length (concat pre)) \<Longrightarrow> (pre = [] \<Longrightarrow> mi = s) \<Longrightarrow> bounded_file mg orig c \<Longrightarrow>
    \<forall>q x. (others(p := None)) q = Some x \<longrightarrow> bounded_file mg orig x \<Longrightarrow>
    merged mg env orig e (others(p := None))
      (archive (others(p := None)) \<union> entries (ml_start w) mi (split_lines c) \<union> entries mi e ls)
      (consume mg env s e p cf mi rd w ls fs)"
proof (induction ls arbitrary: w fs others c pre mi rd)
  case Nil
  note w = Nil.prems(1) [unfolded writing_def]
  have mi: "mi = e" using good_list_Nil [OF Nil.prems(5)] Nil.prems(8) by simp
  have "p \<noteq> ml_path w" using w Nil.prems(2) by auto
  moreover have "view fs p = Some cp" using w Nil.prems(2) \<open>p \<noteq> ml_path w\<close> by simp
  then obtain fs' where f: "fs_remove p fs = (Inr (), fs')" "fs_ok fs'" "view fs' = (view fs)(p := None)"
    "\<And>q. q \<noteq> p \<Longrightarrow> hm_get (fs_names fs') q = hm_get (fs_names fs) q" "fs_data fs' = fs_data fs"
    using fs_remove_view w by blast
  ultimately have "writing env w fs' (others(p := None)) c"
    using w by (auto simp: writing_def fun_upd_twist)
  moreover have "consume mg env s e p cf mi rd w [] fs = (Inr w, fs')"
    using f(1) mi reading_close [OF assms(1)] by (simp add: dropping_def)
  moreover have "entries mi e [] = {}" by (simp add: entries_def)
  ultimately show ?case
    unfolding merged_def
    by (intro exI [of _ w] exI [of _ fs'] exI [of _ "others(p := None)"] exI [of _ c])
      (use Nil.prems(3,6,11,12) mi in \<open>simp del: fun_upd_apply\<close>)
next
  case (Cons l ls)
  note w = Cons.prems(1) [unfolded writing_def]
  note g = good_list_Cons [OF Cons.prems(5)]
  let ?rd = "rd + of_nat (length l)"
  have lp: "log_path p s e" using assms(1) by (simp add: reading_def)
  have np: "p \<noteq> ml_path w" using w Cons.prems(2) by auto
  have le: "mi + 1 \<le> e" "s \<le> mi + 1" using g(1) Cons.prems(7) by (auto simp: range_simps intro: order.trans order.strict_implies_order)
  have l: "length l < 2 ^ 63" "bounded_file mg orig l"
    using bounded_line [of l cp env mi] Cons.prems(4) assms(2) g(2) by auto
  have ok: "me_utf8 env l" "line_error env (mg_level mg) s e p mi (ml_end w) l = None"
    using g(1,2) Cons.prems(7) by (auto simp: good_line_def line_error_def)
  have rd: "?rd = of_nat (length (concat (pre @ [l])))" using Cons.prems(9) by simp
  have ent: "entries mi e (l # ls) = insert (mi, l) (entries (mi + 1) e ls)" by (rule entries_Cons [OF g(1)])
  have sp: "split_lines cp = (pre @ [l]) @ ls" using Cons.prems(4) by simp
  have gw: "good_log env (ml_start w) mi c" using w Cons.prems(6) by simp
  let ?q = "MFin (ml_start w) mi"
  define others1 where "others1 = others(?q \<mapsto> c)"
  have pw: "ml_path w = MActive (ml_start w)" "ml_start w \<noteq> mi" using w gw by (auto simp: good_log_def)
  have pq: "p \<noteq> ?q" using lp g(1) by (auto simp: log_path_def)
  have "others (MActive mi) = None"
    using apart_no_active [OF Cons.prems(3), of mi] log_path_simps(4) [OF lp, of mi] by simp
  then have free: "view fs (MActive mi) = None" "others (MActive mi) = None" using w pw by auto
  note fin = finalize_apart [OF Cons.prems(3) gw g(1) Cons.prems(12) Cons.prems(11)]
  have o1: "others1(p := None) = (others(p := None))(?q \<mapsto> c)" using pq by (auto simp: others1_def)
  consider (fits) "ml_len w + of_nat (length l) < mg_max mg" | (full) "\<not> ml_len w + of_nat (length l) < mg_max mg" "?rd \<noteq> of_nat (length l)"
    | (first) "\<not> ml_len w + of_nat (length l) < mg_max mg" "?rd = of_nat (length l)" by blast
  then show ?case
  proof cases
    case fits
    obtain w' fs' where a: "merge_append l w fs = (w', fs')" "writing env w' fs' others (c @ l)" "ml_start w' = ml_start w"
      "ml_end w' = mi + 1" "ml_path w' = ml_path w"
      by (rule writing_append [OF Cons.prems(1), of l e]) (use g Cons.prems(6) in auto)
    have "bounded_file mg orig (c @ l)"
      by (rule bounded_append [OF _ l(1) _ assms(3)]) (use fits w Cons.prems(11) in \<open>auto simp: bounded_file_def\<close>)
    then have "merged mg env orig e (others(p := None))
      (archive (others(p := None)) \<union> entries (ml_start w') (mi + 1) (split_lines (c @ l)) \<union> entries (mi + 1) e ls)
      (consume mg env s e p cf (mi + 1) ?rd w' ls fs')"
      by (intro Cons.IH [OF a(2) Cons.prems(2) _ sp g(3) a(4) le(2) le(1) rd]) (use Cons.prems(3,12) a(3) in \<open>simp_all del: fun_upd_apply\<close>)
    then show ?thesis
      using ok fits a(1,3) Cons.prems(6) ent good_log_append(2) [OF gw g(2,1)] by (simp add: Let_def ac_simps del: fun_upd_apply)
  next
    case full
    obtain i fs1 where f1: "fs_create (MActive mi) fs = (i, fs1)" "fs_ok fs1" "view fs1 = (view fs)(MActive mi \<mapsto> [])"
      "hm_get (fs_names fs1) (MActive mi) = Some i" "fs_data fs1 i = []"
      using fs_create_view [of fs "MActive mi"] w free by blast
    obtain fs2 where f2: "merge_close (w\<lparr>ml_final := True\<rparr>) fs1 = (Inr (), fs2)" "fs_ok fs2"
      "view fs2 = (view fs1)(ml_path w := None, ?q \<mapsto> c)"
      "\<And>r. r \<noteq> ml_path w \<Longrightarrow> r \<noteq> ?q \<Longrightarrow> hm_get (fs_names fs2) r = hm_get (fs_names fs1) r" "fs_data fs2 = fs_data fs1"
      by (rule writing_close [OF Cons.prems(1) f1(2), of ?q True]) (use w f1(3) pw Cons.prems(6) in auto)
    have nm: "hm_get (fs_names fs2) (MActive mi) = Some i" using f2(4) [of "MActive mi"] f1(4) pw by simp
    let ?new = "(new_merge_log mi mi (MActive mi) i 0)\<lparr>ml_end := mi + 1, ml_len := of_nat (length l)\<rparr>"
    have v: "view (fs_append i l fs2) = others1(MActive mi \<mapsto> l)"
      using fs_append_view(2) [OF f2(2) nm, of l] f1(3,5) f2(3,5) w pw by (auto simp: others1_def)
    have "writing env ?new (fs_append i l fs2) others1 l"
      unfolding writing_def using v fs_append_view(1) [OF f2(2) nm, of l] nm f2(5) f1(5) free(2) good_log_single(1) [OF g(2,1)]
      by (simp add: new_merge_log_def fs_append_def others1_def)
    then have m: "merged mg env orig e (others1(p := None))
      (archive (others1(p := None)) \<union> entries (ml_start ?new) (mi + 1) (split_lines l) \<union> entries (mi + 1) e ls)
      (consume mg env s e p cf (mi + 1) ?rd ?new ls (fs_append i l fs2))"
    proof (intro Cons.IH [OF _ _ _ sp g(3) _ le(2) le(1) rd])
      show "others1 p = Some cp" using Cons.prems(2) pq by (simp add: others1_def)
      show "\<forall>q x. (others1(p := None)) q = Some x \<longrightarrow> bounded_file mg orig x" unfolding o1 by (rule fin(4))
      show "apart env (ml_start ?new) e (others1(p := None))" unfolding o1 using fin(2) by (simp add: new_merge_log_def del: fun_upd_apply)
    qed (use l(2) in simp_all)
    have eq: "archive (others1(p := None)) \<union> entries (ml_start ?new) (mi + 1) (split_lines l) \<union> entries (mi + 1) e ls =
      archive (others(p := None)) \<union> entries (ml_start w) mi (split_lines c) \<union> entries mi e (l # ls)"
      unfolding o1 fin(3) using good_log_single(2) [OF g(2,1)] ent by (simp add: new_merge_log_def)
    have sub: "others(p := None) \<subseteq>\<^sub>m others1(p := None)" unfolding o1 by (rule map_le_upd_free) (rule fin(1))
    have "merged mg env orig e (others(p := None))
      (archive (others(p := None)) \<union> entries (ml_start w) mi (split_lines c) \<union> entries mi e (l # ls))
      (consume mg env s e p cf (mi + 1) ?rd ?new ls (fs_append i l fs2))"
      using merged_mono [OF m sub] unfolding eq .
    then show ?thesis
      using ok full f1(1,5) f2(1) by (simp add: Let_def create_active_def file_size_def merge_append_def new_merge_log_def
          del: fun_upd_apply)
  next
    case first
    have "length (concat pre) \<le> length cp" using arg_cong [OF Cons.prems(4), of "\<lambda>x. length (concat x)"] by simp
    then have "length (concat pre) < 2 ^ 63" using assms(2) by simp
    then have "concat pre = []"
      using first(2) Cons.prems(9) unat_length(1) [of "length (concat pre)" 0] by simp
    moreover have "list_all whole_line pre"
      using good_log_whole [of env "range_list (Range s e)" "split_lines cp"] assms(1) Cons.prems(4)
      by (simp add: reading_def good_log_def)
    ultimately have "pre = []" by (cases pre) (auto simp: whole_line_def)
    then have mi: "mi = s" and all: "split_lines cp = l # ls" using Cons.prems(4,10) by simp_all
    obtain fs1 where f1: "merge_close (w\<lparr>ml_final := True\<rparr>) fs = (Inr (), fs1)" "fs_ok fs1"
      "view fs1 = (view fs)(ml_path w := None, ?q \<mapsto> c)"
      using writing_close [OF Cons.prems(1), of fs ?q True] w Cons.prems(6) by auto
    have v: "view fs1 = others1" using f1(3) w by (auto simp: others1_def)
    obtain w' fs2 where f2: "open_write mg p s e fs1 = (Inr w', fs2)" "writing env w' fs2 (others1(p := None)) cp"
      "ml_start w' = s" "ml_end w' = e"
      by (rule open_write_view [OF f1(2), of p cp s e env mg])
        (use v lp free mi assms(1) Cons.prems(2) pq in \<open>auto simp: others1_def reading_def\<close>)
    have "merged mg env orig e (others(p := None))
      (archive (others(p := None)) \<union> entries (ml_start w) mi (split_lines c) \<union> entries mi e (l # ls)) (Inr w', fs2)"
      unfolding merged_def
      by (rule exI [of _ w'], rule exI [of _ fs2], rule exI [of _ "others1(p := None)"], rule exI [of _ cp])
        (use f2 o1 fin mi all assms(4) map_le_upd_free [of "others(p := None)" ?q c] in \<open>simp del: fun_upd_apply\<close>)
    then show ?thesis
      using ok first f1(1) f2(1) reading_close [OF assms(1)] by (simp add: Let_def del: fun_upd_apply)
  qed
qed

lemma merge_file_good:
  assumes "writing env w fs others c" and "others p = Some cp" and "tidy env others" and "log_path p s e"
    and "ml_end w = s" and "\<forall>q\<in>dom others. path_range q \<inter> {ml_start w..<s} = {}"
    and "\<forall>q x. others q = Some x \<longrightarrow> bounded_file mg orig x" and "bounded_file mg orig c" and "unat (mg_max mg) \<le> 2 ^ 63"
  shows "merged mg env orig e (others(p := None)) (archive others \<union> entries (ml_start w) s (split_lines c))
     (merge_file mg env s e p w fs)"
proof -
  note w = assms(1) [unfolded writing_def]
  have g: "good_log env s e cp" using assms(2,3) log_path_simps(2) [OF assms(4)] by (auto simp: tidy_def)
  have b: "bounded_file mg orig cp" "length cp < 2 ^ 63" using assms(2,7) by (auto simp: bounded_file_def)
  have np: "p \<noteq> ml_path w" using w assms(2) by auto
  have v: "view fs p = Some cp" using w assms(2) np by simp
  obtain fs1 where f1: "back_up mg p fs = (Inr (), fs1)" "fs_names fs1 = fs_names fs" "fs_data fs1 = fs_data fs"
    "fs_next fs1 = fs_next fs" by (rule back_up_view [OF v])
  have "writing env w fs1 others c"
    using assms(1) same_names [OF f1(2-4)] f1(2,3) unfolding writing_def by (elim conjE) (simp del: fun_upd_apply)
  obtain i where i: "hm_get (fs_names fs1) p = Some i" "fs_data fs1 i = cp" using v f1(2,3) by (auto simp: view_def)
  let ?cf = "new_merge_log s e p i (file_size fs1 i)"
  have r: "reading env ?cf p s e cp"
    using assms(4) g by (auto simp: reading_def new_merge_log_def log_path_def)
  have ver: "merge_verify env (mg_level mg) ?cf fs1 = (None, ?cf)"
    by (rule merge_verify_good) (use g b(2) i in \<open>auto simp: new_merge_log_def file_size_def\<close>)
  have lt: "s < e" using g by (simp add: good_log_def)
  have ap: "apart env (ml_start w) e (others(p := None))"
  proof -
    have "path_range q \<inter> {ml_start w..<e} = {}" if "q \<in> dom others" "q \<noteq> p" for q
    proof -
      have "path_range q \<inter> {ml_start w..<s} = {}" using assms(6) that(1) by blast
      moreover have "path_range q \<inter> {s..<e} = {}"
        using assms(2,3) that log_path_simps(1) [OF assms(4)] unfolding tidy_def by (metis domI)
      ultimately show ?thesis by fastforce
    qed
    moreover have "tidy env (others(p := None))" using assms(3) by (auto simp: tidy_def split: if_splits)
    ultimately show ?thesis by (auto simp: apart_def)
  qed
  have "merged mg env orig e (others(p := None))
      (archive (others(p := None)) \<union> entries (ml_start w) s (split_lines c) \<union> entries s e (split_lines cp))
      (consume mg env s e p ?cf s 0 w (split_lines cp) fs1)"
    by (rule consume_good [OF r b(2) assms(9) b(1) \<open>writing env w fs1 others c\<close> assms(2) ap, of "[]"])
      (use g lt assms(5,7,8) in \<open>auto simp: good_log_def\<close>)
  moreover have "archive others = archive (others(p := None)) \<union> entries s e (split_lines cp)"
    using archive_insert [of "others(p := None)" p cp] assms(2) log_path_simps(3) [OF assms(4)] by (simp add: fun_upd_idem)
  moreover have "merge_file mg env s e p w fs = consume mg env s e p ?cf s 0 w (split_lines cp) fs1"
    using f1(1) i ver by (simp add: merge_file_def open_read_def fs_open_def) (simp add: new_merge_log_def)
  ultimately show ?thesis by (simp add: Un_ac)
qed

text \<open>The files still to be merged, in order.\<close>

definition queued :: "(merge_path \<rightharpoonup> u8 list) \<Rightarrow> u32 \<Rightarrow> (u32 \<times> u32 \<times> merge_path) list \<Rightarrow> bool" where
  "queued others from ps \<longleftrightarrow>
     (\<forall>(s, e, p)\<in>set ps. log_path p s e \<and> p \<in> dom others \<and> from \<le> s) \<and>
     sorted_wrt (\<lambda>(s, e, p) (s', e', p'). e \<le> s' \<and> p \<noteq> p') ps"

lemma queued_Cons:
  "queued others from ((s, e, p) # ps) \<longleftrightarrow>
     log_path p s e \<and> p \<in> dom others \<and> from \<le> s \<and> queued others from ps \<and>
     (\<forall>(s', e', p')\<in>set ps. e \<le> s' \<and> p \<noteq> p')"
  by (auto simp: queued_def)

lemma queued_mono:
  assumes "queued others from ps" and "\<forall>(s, e, p)\<in>set ps. from' \<le> s \<and> p \<noteq> p0" and "others(p0 := None) \<subseteq>\<^sub>m others'"
  shows "queued others' from' ps"
proof -
  have "p \<in> dom others'" if "(s, e, p) \<in> set ps" for s e p
  proof -
    have "p \<in> dom others" "p \<noteq> p0" using assms(1,2) that by (auto simp: queued_def)
    then have "others p = others' p" using assms(3) by (auto simp: map_le_def)
    then show ?thesis using \<open>p \<in> dom others\<close> by (simp add: domIff)
  qed
  then show ?thesis using assms(1,2) unfolding queued_def by fastforce
qed

lemma archive_remove:
  assumes "others p = Some cp" and "log_path p s e"
  shows "archive others = archive (others(p := None)) \<union> entries s e (split_lines cp)"
  using archive_insert [of "others(p := None)" p cp] assms(1) log_path_simps(3) [OF assms(2)] by (simp add: fun_upd_idem)

text \<open>The writer's file stays under its log name when it goes out of scope.\<close>

lemma close_apart:
  assumes "apart env s e others" and "good_log env s e c"
  shows "others (MLog s e) = None" and "tidy env (others(MLog s e \<mapsto> c))"
    and "archive (others(MLog s e \<mapsto> c)) = archive others \<union> entries s e (split_lines c)"
proof -
  have lp: "log_path (MLog s e) s e" by (simp add: log_path_def)
  show free: "others (MLog s e) = None"
    by (rule apart_free [OF assms(1) lp, of s]) (use assms(2) in \<open>auto simp: good_log_def\<close>)
  show "tidy env (others(MLog s e \<mapsto> c))" by (rule tidy_insert [OF assms(1) lp assms(2) free])
  show "archive (others(MLog s e \<mapsto> c)) = archive others \<union> entries s e (split_lines c)"
    using archive_insert [of others "MLog s e" c] free by simp
qed

lemma tidy_remove: "tidy env others \<Longrightarrow> tidy env (others(p := None))"
  by (auto simp: tidy_def split: if_splits)

lemma apart_remove: "apart env s e others \<Longrightarrow> apart env s e (others(p := None))"
  by (auto simp: apart_def tidy_remove split: if_splits)

lemma tidy_apart:
  assumes "tidy env others" and "others p = Some cp" and "log_path p s e"
  shows "apart env s e (others(p := None))"
proof -
  have "path_range q \<inter> {s..<e} = {}" if "q \<in> dom others" "q \<noteq> p" for q
  proof -
    have "p \<in> dom others" using assms(2) by blast
    then have "path_range q \<inter> path_range p = {}" using assms(1) that unfolding tidy_def by blast
    then show ?thesis using log_path_simps(1) [OF assms(3)] by simp
  qed
  then show ?thesis using tidy_remove [OF assms(1)] by (auto simp: apart_def)
qed

lemma gap_good:
  assumes "writing env w fs others c" and "others p = Some cp" and "apart env (ml_start w) (ml_end w) others" and "log_path p s e"
    and "ml_end w < s" and "length cp < 2 ^ 63"
  obtains new fs1 fs2 where "open_write mg p s e fs = (Inr new, fs1)" and "merge_close w fs1 = (Inr (), fs2)"
    and "writing env new fs2 (others(p := None, MLog (ml_start w) (ml_end w) \<mapsto> c)) cp" and "ml_start new = s" and "ml_end new = e"
    and "merge_verify env level new fs2 = (None, new)"
    and "apart env s e (others(p := None, MLog (ml_start w) (ml_end w) \<mapsto> c))"
proof -
  note w = assms(1) [unfolded writing_def]
  let ?q = "MLog (ml_start w) (ml_end w)"
  have td: "tidy env others" using assms(3) by (simp add: apart_def)
  have g: "good_log env s e cp" using assms(2) td log_path_simps(2) [OF assms(4)] by (auto simp: tidy_def)
  have lt: "ml_start w < ml_end w" using w by (simp add: good_log_def)
  have np: "p \<noteq> ml_path w" "MActive s \<noteq> ml_path w" "MActive s \<noteq> p" "ml_path w \<noteq> ?q"
    using w assms(2,5) lt log_path_simps(4) [OF assms(4), of s] by auto
  have na: "others (MActive s) = None" by (rule apart_no_active [OF assms(3)])
  obtain new fs1 where f1: "open_write mg p s e fs = (Inr new, fs1)" "writing env new fs1 ((view fs)(p := None)) cp"
    "ml_start new = s" "ml_end new = e"
    by (rule open_write_view [of fs p cp s e env mg]) (use w assms(2,4) g np na in auto)
  note n = f1(2) [unfolded writing_def]
  obtain fs2 where f2: "merge_close (w\<lparr>ml_final := False\<rparr>) fs1 = (Inr (), fs2)" "fs_ok fs2"
      "view fs2 = (view fs1)(ml_path w := None, ?q \<mapsto> c)"
      "\<And>r. r \<noteq> ml_path w \<Longrightarrow> r \<noteq> ?q \<Longrightarrow> hm_get (fs_names fs2) r = hm_get (fs_names fs1) r" "fs_data fs2 = fs_data fs1"
    by (rule writing_close [OF assms(1), of fs1 ?q False]) (use w n f1(3) np in auto)
  have wf: "w\<lparr>ml_final := False\<rparr> = w" using w by simp
  note ca = close_apart [OF apart_remove [OF assms(3), of p], of c]
  have "path_range r \<inter> {s..<e} = {}" if "r \<in> dom (others(p := None, ?q \<mapsto> c))" for r
  proof (cases "r = ?q")
    case True
    then show ?thesis using assms(5) by auto
  next
    case False
    then have "r \<in> dom others" "r \<noteq> p" using that by (auto split: if_splits)
    then show ?thesis using td assms(2) log_path_simps(1) [OF assms(4)] unfolding tidy_def by (metis domI)
  qed
  then have ap: "apart env s e (others(p := None, ?q \<mapsto> c))" using ca(2) w by (simp add: apart_def)
  have nm: "hm_get (fs_names fs2) (ml_path new) = Some (ml_file new)" using f2(4) [of "MActive s"] n f1(3) np by (elim conjE) simp
  have "view fs2 = (others(p := None, ?q \<mapsto> c))(ml_path new \<mapsto> cp)"
    using f2(3) n w f1(3) np by (auto simp: fun_eq_iff)
  then have wr: "writing env new fs2 (others(p := None, ?q \<mapsto> c)) cp"
    unfolding writing_def using n f2(2,5) nm na f1(3) by (elim conjE) simp
  have "merge_verify env level new fs2 = (None, new)"
    by (rule merge_verify_good) (use wr assms(6) in \<open>auto simp: writing_def\<close>)
  then show ?thesis using that [OF f1(1) _ wr f1(3,4) _ ap] f2(1) wf by simp
qed

lemma merge_rest_good:
  assumes "unat (mg_max mg) \<le> 2 ^ 63"
  shows "writing env w fs others c \<Longrightarrow> apart env (ml_start w) (ml_end w) others \<Longrightarrow> queued others (ml_end w) ps \<Longrightarrow>
    \<forall>q x. others q = Some x \<longrightarrow> bounded_file mg orig x \<Longrightarrow> bounded_file mg orig c \<Longrightarrow>
    \<exists>fs'. merge_rest mg env ps w fs = (Inr (), fs') \<and> tidy env (view fs') \<and>
      archive (view fs') = archive others \<union> entries (ml_start w) (ml_end w) (split_lines c) \<and>
      (\<forall>q x. view fs' q = Some x \<longrightarrow> bounded_file mg orig x)"
proof (induction ps arbitrary: w fs others c)
  case Nil
  note w = Nil.prems(1) [unfolded writing_def]
  let ?q = "MLog (ml_start w) (ml_end w)"
  have wf: "w\<lparr>ml_final := False\<rparr> = w" using w by simp
  obtain fs' where f: "merge_close (w\<lparr>ml_final := False\<rparr>) fs = (Inr (), fs')" "view fs' = (view fs)(ml_path w := None, ?q \<mapsto> c)"
    by (rule writing_close [OF Nil.prems(1), of fs ?q False]) (use w in auto)
  have v: "view fs' = others(?q \<mapsto> c)" using f(2) w by auto
  have b: "\<forall>q x. view fs' q = Some x \<longrightarrow> bounded_file mg orig x" using Nil.prems(4,5) by (auto simp: v split: if_splits)
  have "good_log env (ml_start w) (ml_end w) c" using w by blast
  then show ?case
    using f(1) wf b close_apart [OF Nil.prems(2), of c] by (intro exI [of _ fs']) (simp add: v del: fun_upd_apply)
next
  case (Cons x ps)
  obtain s e p where x: "x = (s, e, p)" by (cases x)
  note w = Cons.prems(1) [unfolded writing_def]
  have q: "log_path p s e" "p \<in> dom others" "ml_end w \<le> s" "queued others (ml_end w) ps"
    "\<forall>(s', e', p')\<in>set ps. e \<le> s' \<and> p' \<noteq> p"
    using Cons.prems(3) unfolding x queued_Cons by auto
  then obtain cp where cp: "others p = Some cp" by auto
  have td: "tidy env others" using Cons.prems(2) by (simp add: apart_def)
  have bp: "length cp < 2 ^ 63" "bounded_file mg orig cp" using Cons.prems(4) cp by (auto simp: bounded_file_def)
  have ar: "archive others = archive (others(p := None)) \<union> entries s e (split_lines cp)" by (rule archive_remove) (fact cp, fact q(1))
  show ?case
  proof (cases "s = ml_end w")
    case True
    have "merged mg env orig e (others(p := None)) (archive others \<union> entries (ml_start w) s (split_lines c)) (merge_file mg env s e p w fs)"
      by (rule merge_file_good [OF Cons.prems(1) cp td q(1) True [symmetric] _ Cons.prems(4,5) assms])
        (use Cons.prems(2) True in \<open>auto simp: apart_def\<close>)
    then obtain w' fs' others' c' where m: "merge_file mg env s e p w fs = (Inr w', fs')" "writing env w' fs' others' c'"
      "apart env (ml_start w') e others'" "ml_end w' = e" "others(p := None) \<subseteq>\<^sub>m others'"
      "archive others' \<union> entries (ml_start w') e (split_lines c') = archive others \<union> entries (ml_start w) s (split_lines c)"
      "bounded_file mg orig c'" "\<forall>q x. others' q = Some x \<longrightarrow> bounded_file mg orig x"
      unfolding merged_def by blast
    have "queued others' e ps" by (rule queued_mono [OF q(4,5) m(5)])
    then obtain fs2 where "merge_rest mg env ps w' fs' = (Inr (), fs2)" "tidy env (view fs2)"
      "archive (view fs2) = archive others' \<union> entries (ml_start w') e (split_lines c')" "\<forall>q x. view fs2 q = Some x \<longrightarrow> bounded_file mg orig x"
      using Cons.IH [of w' fs' others' c'] m by auto
    then show ?thesis using m(1,6) True by (intro exI [of _ fs2]) (simp add: x)
  next
    case False
    then have gap: "ml_end w < s" using q(3) by simp
    let ?o = "others(p := None, MLog (ml_start w) (ml_end w) \<mapsto> c)"
    obtain new fs1 fs2 where g: "open_write mg p s e fs = (Inr new, fs1)" "merge_close w fs1 = (Inr (), fs2)"
      "writing env new fs2 ?o cp" "ml_start new = s" "ml_end new = e" "merge_verify env (writer_level mg) new fs2 = (None, new)"
      "apart env s e ?o"
      by (rule gap_good [OF Cons.prems(1) cp Cons.prems(2) q(1) gap bp(1)])
    note ca = close_apart [OF apart_remove [OF Cons.prems(2), of p], of c]
    have "queued ?o e ps"
      by (rule queued_mono [OF q(4,5)]) (rule map_le_upd_free, rule ca(1), use w in simp)
    moreover have "\<forall>q x. ?o q = Some x \<longrightarrow> bounded_file mg orig x" using Cons.prems(4,5) by (auto split: if_splits)
    ultimately obtain fs3 where "merge_rest mg env ps new fs2 = (Inr (), fs3)" "tidy env (view fs3)"
      "archive (view fs3) = archive ?o \<union> entries s e (split_lines cp)" "\<forall>q x. view fs3 q = Some x \<longrightarrow> bounded_file mg orig x"
      using Cons.IH [of new fs2 ?o cp, unfolded g(4,5)] g(3,7) bp(2) by blast
    moreover have "\<not> s \<le> ml_end w" using gap by simp
    ultimately show ?thesis using g(1,2,6) ca(3) ar w by (intro exI [of _ fs3]) (simp add: x Un_ac)
  qed
qed

lemma log_paths_set:
  "(s, e, p) \<in> set (log_paths b fs) \<Longrightarrow> (s, e, p) = path_entry p \<and> p \<in> hm_keys (fs_names fs)"
  by (force simp: log_paths_def Let_def path_entry_def split: merge_path.splits if_splits)

lemma log_paths_distinct:
  assumes "fs_ok fs"
  shows "distinct (map (\<lambda>(s, e, p). p) (log_paths b fs))"
proof -
  have d: "distinct (map fst (fs_names fs))" using assms by (simp add: fs_ok_def hm_ok_def)
  let ?ps = "filter (\<lambda>p. case p of MLog s e \<Rightarrow> True | _ \<Rightarrow> False) (map fst (fs_names fs)) @
     filter (\<lambda>p. case p of MActive s \<Rightarrow> True | _ \<Rightarrow> False) (map fst (fs_names fs)) @
     (if b then filter (\<lambda>p. case p of MFin s e \<Rightarrow> True | _ \<Rightarrow> False) (map fst (fs_names fs)) else [])"
  have "\<not> ((case p of MLog s e \<Rightarrow> True | _ \<Rightarrow> False) \<and> (case p of MActive s \<Rightarrow> True | _ \<Rightarrow> False))"
    "\<not> ((case p of MLog s e \<Rightarrow> True | _ \<Rightarrow> False) \<and> (case p of MFin s e \<Rightarrow> True | _ \<Rightarrow> False))"
    "\<not> ((case p of MActive s \<Rightarrow> True | _ \<Rightarrow> False) \<and> (case p of MFin s e \<Rightarrow> True | _ \<Rightarrow> False))" for p
    by (cases p; simp)+
  then have "distinct ?ps" using d by (cases b) (simp_all only: distinct_append distinct_filter set_filter set_append if_True if_False distinct.simps list.set, blast+)
  moreover have "(\<lambda>(s, e, p). p) \<circ> path_entry = (\<lambda>p. p)"
    by (rule ext) (simp add: path_entry_def split: merge_path.split)
  then have "map (\<lambda>(s, e, p). p) (map path_entry ?ps) = ?ps" by (simp only: map_map list.map_ident)
  moreover have "mset (map (\<lambda>(s, e, p). p) (log_paths b fs)) = mset (map (\<lambda>(s, e, p). p) (map path_entry ?ps))"
    by (simp only: log_paths_def Let_def mset_map mset_sort)
  ultimately show ?thesis by (metis mset_eq_imp_distinct_iff)
qed

lemma log_paths_queued:
  assumes "fs_ok fs" and "tidy env (view fs)"
  shows "queued (view fs) 0 (log_paths b fs)"
proof -
  let ?xs = "log_paths b fs"
  have mem: "log_path p s e \<and> p \<in> dom (view fs) \<and> s < e" if "(s, e, p) \<in> set ?xs" for s e p
  proof -
    have k: "(s, e, p) = path_entry p" "p \<in> hm_keys (fs_names fs)" using log_paths_set [OF that] by auto
    then obtain c where c: "view fs p = Some c" by (auto simp: hm_keys_dom view_def)
    then have "good_file env p c" using assms(2) by (simp add: tidy_def)
    then show ?thesis using k(1) c by (cases p) (auto simp: path_entry_def log_path_def good_log_def)
  qed
  have srt: "sorted (map fst ?xs)" by (simp add: log_paths_def Let_def)
  have "sorted_wrt (\<lambda>(s, e, p) (s', e', p'). e \<le> s' \<and> p \<noteq> p') ?xs"
    unfolding sorted_wrt_iff_nth_less
  proof (intro allI impI)
    fix i j assume ij: "i < j" "j < length ?xs"
    obtain s e p where x: "?xs ! i = (s, e, p)" by (cases "?xs ! i")
    obtain s' e' p' where y: "?xs ! j = (s', e', p')" by (cases "?xs ! j")
    have m: "log_path p s e" "p \<in> dom (view fs)" "s < e" "log_path p' s' e'" "p' \<in> dom (view fs)" "s' < e'"
      using mem [of s e p] mem [of s' e' p'] x y ij by (metis nth_mem order.strict_trans)+
    have "p \<noteq> p'"
      using nth_eq_iff_index_eq [OF log_paths_distinct [OF assms(1), of b], of i j] x y ij by simp
    moreover have "s \<le> s'" using sorted_nth_mono [OF srt, of i j] x y ij by simp
    ultimately have "path_range p \<inter> path_range p' = {}" using assms(2) m by (simp add: tidy_def)
    then have "s' \<notin> {s..<e}" using m(6) log_path_simps(1) [OF m(1)] log_path_simps(1) [OF m(4)] by auto
    then have "e \<le> s'" using \<open>s \<le> s'\<close> by simp
    then show "(case ?xs ! i of (s, e, p) \<Rightarrow> \<lambda>(s', e', p'). e \<le> s' \<and> p \<noteq> p') (?xs ! j)"
      using \<open>p \<noteq> p'\<close> by (simp add: x y)
  qed
  then show ?thesis using mem by (auto simp: queued_def)
qed

lemma cleanup_good:
  assumes "fs_ok fs" and "tidy env (view fs)" and "\<forall>p c. view fs p = Some c \<longrightarrow> length c < 2 ^ 63" and "unat (mg_max mg) \<le> 2 ^ 63"
  shows "\<exists>fs'. cleanup mg env fs = (Inr (), fs') \<and> tidy env (view fs') \<and> archive (view fs') = archive (view fs) \<and>
      (\<forall>q x. view fs' q = Some x \<longrightarrow> bounded_file mg (ran (view fs)) x)"
proof -
  have b: "bounded_file mg (ran (view fs)) x" if "view fs q = Some x" for q x
    using assms(3) that by (auto simp: bounded_file_def ran_def)
  have q: "queued (view fs) 0 (log_paths (mg_finalized mg) fs)" by (rule log_paths_queued [OF assms(1,2)])
  show ?thesis
  proof (cases "log_paths (mg_finalized mg) fs")
    case Nil
    then show ?thesis using assms(2) b by (intro exI [of _ fs]) (simp add: cleanup_def)
  next
    case (Cons x ps)
    obtain s e p where x: "x = (s, e, p)" by (cases x)
    have p: "log_path p s e" "p \<in> dom (view fs)" "queued (view fs) 0 ps" "\<forall>(s', e', p')\<in>set ps. e \<le> s' \<and> p' \<noteq> p"
      using q unfolding Cons x queued_Cons by auto
    then obtain c where c: "view fs p = Some c" by auto
    have "good_file env p c" using assms(2) c by (simp add: tidy_def)
    then have g: "good_log env s e c" using log_path_simps(2) [OF p(1)] by simp
    have na: "view fs (MActive s) = None" using assms(2) unfolding tidy_def by (metis not_None_eq path_simps(6))
    let ?o = "(view fs)(p := None)"
    obtain w fs1 where w: "open_write mg p s e fs = (Inr w, fs1)" "writing env w fs1 ?o c" "ml_start w = s" "ml_end w = e"
      by (rule open_write_view [OF assms(1) c p(1) na g])
    have v: "merge_verify env (writer_level mg) w fs1 = (None, w)"
      by (rule merge_verify_good) (use w assms(3) c in \<open>auto simp: writing_def\<close>)
    have ap: "apart env s e ?o" by (rule tidy_apart [OF assms(2) c p(1)])
    have "queued ?o e ps" by (rule queued_mono [OF p(3,4)]) simp
    moreover have "\<forall>q x. ?o q = Some x \<longrightarrow> bounded_file mg (ran (view fs)) x" using b by (auto split: if_splits)
    ultimately obtain fs2 where "merge_rest mg env ps w fs1 = (Inr (), fs2)" "tidy env (view fs2)"
      "archive (view fs2) = archive ?o \<union> entries s e (split_lines c)"
      "\<forall>q x. view fs2 q = Some x \<longrightarrow> bounded_file mg (ran (view fs)) x"
      using merge_rest_good [OF assms(4) w(2), of ps "ran (view fs)", unfolded w(3,4)] ap b [OF c] by blast
    then show ?thesis
      using Cons x w(1) v archive_remove [of "view fs" p c s e] c p(1) by (intro exI [of _ fs2]) (simp add: cleanup_def)
  qed
qed

section \<open>Properties\<close>

text \<open>
  C33. The merger refines the archive, the lines that the logs hold for their milestones: on a directory
  of well-formed logs without overlaps, with gaps or not, it returns without an error, leaves a
  directory of such logs again, and the archive is what it was. Every level of validation does, and
  with and without backups.
\<close>

theorem cleanup_keeps_archive:
  assumes "fs_ok fs" and "tidy env (view fs)" and "\<forall>p c. view fs p = Some c \<longrightarrow> length c < 2 ^ 63" and "unat (mg_max mg) \<le> 2 ^ 63"
  shows "\<exists>fs'. cleanup mg env fs = (Inr (), fs') \<and> tidy env (view fs') \<and> archive (view fs') = archive (view fs)"
  using cleanup_good [OF assms] by blast

definition wit_merge_env :: merge_env where
  "wit_merge_env = (let parse = (\<lambda>l. case l of [] \<Rightarrow> None | b # bs \<Rightarrow> Some (ucast b - 48)) in
     \<lparr>me_full = parse, me_light = parse, me_utf8 = (\<lambda>l. True)\<rparr>)"

definition wit_merge_fs :: merge_fs where
  "wit_merge_fs = \<lparr>fs_names = [(MLog 3 4, 0), (MLog 1 3, 1)],
     fs_data = (\<lambda>i. if i = 0 then [51, 10] else [49, 10, 50, 10]), fs_next = 2, fs_backup = []\<rparr>"

definition wit_merger :: "validation_level \<Rightarrow> merger" where
  "wit_merger lv = \<lparr>mg_max = 100, mg_backup = True, mg_level = lv, mg_exit = True, mg_finalized = False\<rparr>"

lemma wit_merge_view: "view wit_merge_fs = [MLog 1 3 \<mapsto> [49, 10, 50, 10], MLog 3 4 \<mapsto> [51, 10]]"
  by (rule ext) (simp add: view_def wit_merge_fs_def)

lemma wit_lines:
  "split_lines [49, 10, 50, 10] = [[49, 10], [50, 10]]" "split_lines [51, 10] = [[51, 10]]"
  "range_list (Range 1 3) = [1, 2]" "range_list (Range 3 4) = [3]"
  by (simp_all add: split_lines.simps range_list_Cons range_list_Nil)

lemma wit_merge_ok:
  "fs_ok wit_merge_fs" "tidy wit_merge_env (view wit_merge_fs)" "\<forall>p c. view wit_merge_fs p = Some c \<longrightarrow> length c < 2 ^ 63"
proof -
  show "fs_ok wit_merge_fs" by (rule fs_okI) (auto simp: wit_merge_fs_def hm_ok_def split: if_splits)
  show "\<forall>p c. view wit_merge_fs p = Some c \<longrightarrow> length c < 2 ^ 63" by (auto simp: wit_merge_view split: if_splits)
  show "tidy wit_merge_env (view wit_merge_fs)"
    by (auto simp: wit_lines tidy_def wit_merge_view good_log_def good_line_def whole_line_def strip_eol_def wit_merge_env_def Let_def split: if_splits)
qed

theorem cleanup_keeps_archive_witness:
  "\<exists>fs'. cleanup (wit_merger JustInTime) wit_merge_env wit_merge_fs = (Inr (), fs') \<and> tidy wit_merge_env (view fs') \<and>
     archive (view fs') = archive (view wit_merge_fs)"
  by (rule cleanup_keeps_archive [OF wit_merge_ok]) (simp add: wit_merger_def)

text \<open>
  C34. On such a directory no file grows past the limit by merging: every file that is left is below
  the limit, or holds a single line, or has a content that some file had before.
\<close>

theorem cleanup_respects_limit:
  assumes "fs_ok fs" and "tidy env (view fs)" and "\<forall>p c. view fs p = Some c \<longrightarrow> length c < 2 ^ 63" and "unat (mg_max mg) \<le> 2 ^ 63"
    and "view (snd (cleanup mg env fs)) p = Some c"
  shows "length c < unat (mg_max mg) \<or> length (split_lines c) = 1 \<or> c \<in> ran (view fs)"
proof -
  have "bounded_file mg (ran (view fs)) c" using cleanup_good [OF assms(1-4)] assms(5) by auto
  then show ?thesis by (auto simp: bounded_file_def)
qed

theorem cleanup_respects_limit_witness:
  "\<exists>p c. view (snd (cleanup (wit_merger Light) wit_merge_env wit_merge_fs)) p = Some c \<and>
     (length c < 100 \<or> length (split_lines c) = 1 \<or> c \<in> ran (view wit_merge_fs))"
proof -
  have max: "unat (mg_max (wit_merger Light)) \<le> 2 ^ 63" "unat (mg_max (wit_merger Light)) = 100" by (simp_all add: wit_merger_def)
  obtain fs' where fs': "cleanup (wit_merger Light) wit_merge_env wit_merge_fs = (Inr (), fs')"
    "archive (view fs') = archive (view wit_merge_fs)"
    using cleanup_good [OF wit_merge_ok max(1)] by blast
  have "(3, [51, 10]) \<in> archive (view wit_merge_fs)"
    unfolding archive_def wit_merge_view by (intro CollectI exI [of _ "MLog 3 4"]) (simp add: entries_def wit_lines)
  then have "(3, [51, 10]) \<in> archive (view fs')" using fs'(2) by simp
  then obtain p c where "view fs' p = Some c" unfolding archive_def by blast
  then show ?thesis
    using cleanup_respects_limit [OF wit_merge_ok max(1), of p c] fs'(1) max(2) by (intro exI [of _ p] exI [of _ c]) simp
qed

text \<open>
  An empty log, which the merger means to remove, stops it wherever it comes up: with a panic in
  the place of a log to be merged (the file is removed, and then renamed as erroneous), with an I/O
  error in the place of the first (the file was renamed before it is removed by its old name).
\<close>

lemma empty_log_stops_merger:
  assumes "view fs (MLog s e) = Some []"
  shows "fst (merge_file mg env s e (MLog s e) w fs) = Inl MergePanic \<and>
    (log_paths (mg_finalized mg) fs = (s, e, MLog s e) # ps \<longrightarrow> fst (cleanup mg env fs) = Inl (MergeIo ''remove''))"
proof -
  obtain fs1 where f: "back_up mg (MLog s e) fs = (Inr (), fs1)" "fs_names fs1 = fs_names fs" "fs_data fs1 = fs_data fs"
    by (rule back_up_view [OF assms]) blast
  obtain i where i: "hm_get (fs_names fs1) (MLog s e) = Some i" "fs_data fs1 i = []" using assms f(2,3) by (auto simp: view_def)
  have "fst (merge_file mg env s e (MLog s e) w fs) = Inl MergePanic"
    using f(1) i by (simp add: merge_file_def open_read_def fs_open_def merge_verify_def new_merge_log_def file_size_def fs_remove_def
        dropping_def merge_close_def fs_rename_def)
  moreover have "fst (cleanup mg env fs) = Inl (MergeIo ''remove'')" if "log_paths (mg_finalized mg) fs = (s, e, MLog s e) # ps"
    using f(1) i by (simp add: that cleanup_def open_write_def fs_open_def merge_verify_def new_merge_log_def file_size_def fs_remove_def
        dropping_def merge_close_def fs_rename_def)
  ultimately show ?thesis by blast
qed

lemma empty_log_stops_merger_witness:
  "fst (merge_file (wit_merger JustInTime) wit_merge_env 3 4 (MLog 3 4) (new_merge_log 1 3 (MActive 1) 1 4)
     (wit_merge_fs\<lparr>fs_data := (\<lambda>i. [])\<rparr>)) = Inl MergePanic \<and>
   fst (cleanup (wit_merger JustInTime) wit_merge_env (wit_merge_fs\<lparr>fs_data := (\<lambda>i. [])\<rparr>)) = Inl (MergeIo ''remove'')"
proof -
  let ?fs = "wit_merge_fs\<lparr>fs_data := (\<lambda>i. [])\<rparr>"
  have v: "view ?fs (MLog 3 4) = Some []" "view ?fs (MLog 1 3) = Some []" by (simp_all add: view_def wit_merge_fs_def)
  have "log_paths (mg_finalized (wit_merger JustInTime)) ?fs = (1, 3, MLog 1 3) # [(3, 4, MLog 3 4)]"
    by (simp add: log_paths_def Let_def path_entry_def wit_merge_fs_def wit_merger_def word_le_nat_alt)
  then show ?thesis using empty_log_stops_merger [OF v(1)] empty_log_stops_merger [OF v(2)] by blast
qed

text \<open>The lines of a log below the end of the writer are skipped.\<close>

lemma consume_skips:
  assumes "reading env cf p s e cp" and "e \<le> ml_end w" and "view fs p = Some cp'"
  shows "list_all2 (good_line env) (range_list (Range mi e)) ls \<Longrightarrow> s \<le> mi \<Longrightarrow> mi \<le> e \<Longrightarrow>
    \<forall>l\<in>set ls. ml_len w + of_nat (length l) < mg_max mg \<Longrightarrow>
    consume mg env s e p cf mi rd w ls fs = (Inr w, fs\<lparr>fs_names := hm_remove p (fs_names fs)\<rparr>)"
proof (induction ls arbitrary: mi rd)
  case Nil
  have "mi = e" using good_list_Nil [OF Nil.prems(1)] Nil.prems(3) by simp
  then show ?case using assms(3) reading_close [OF assms(1)] by (auto simp: fs_remove_def view_def dropping_def)
next
  case (Cons l ls)
  note g = good_list_Cons [OF Cons.prems(1)]
  have "mi + 1 \<le> e" "s \<le> mi + 1" using g(1) Cons.prems(2) by (auto simp: range_simps intro: order.trans order.strict_implies_order)
  then have "consume mg env s e p cf (mi + 1) (rd + of_nat (length l)) w ls fs = (Inr w, fs\<lparr>fs_names := hm_remove p (fs_names fs)\<rparr>)"
    using Cons.IH [OF g(3)] Cons.prems(4) by simp
  moreover have "mi < ml_end w" "mi \<noteq> ml_end w" using g(1) assms(2) by auto
  moreover have "line_error env (mg_level mg) s e p mi (ml_end w) l = None"
    using g(1,2) Cons.prems(2) by (auto simp: good_line_def line_error_def)
  ultimately show ?case using g(2) Cons.prems(4) by (simp add: Let_def good_line_def)
qed

text \<open>
  With basic validation a log that was left active by an earlier run swallows the logs after it:
  its end counts as the highest index, so a well-formed log after it is taken for one that overlaps
  it, and is removed without a line being copied.
\<close>

lemma basic_merge_loses_logs:
  assumes "mg_level mg = Basic" and "fs_names fs = [(MActive a, i), (MLog s e, j)]" and "i \<noteq> j" and "a < s"
    and "good_log env s e (fs_data fs j)" and "fs_data fs i \<noteq> []"
    and "length (fs_data fs i) + length (fs_data fs j) < unat (mg_max mg)"
  shows "\<exists>fs'. cleanup mg env fs = (Inr (), fs') \<and> view fs' = [MLog a u32_max \<mapsto> fs_data fs i]"
proof -
  have paths: "log_paths (mg_finalized mg) fs = [(a, u32_max, MActive a), (s, e, MLog s e)]"
  proof -
    have "\<not> s \<le> a" "a \<le> s" "a \<noteq> s" "s \<noteq> a" using assms(4) by auto
    then show ?thesis using assms(2) by (simp add: log_paths_def Let_def path_entry_def)
  qed
  define ci cj where "ci = fs_data fs i" and "cj = fs_data fs j"
  have mxl: "unat (mg_max mg) < 2 ^ 64" using unsigned_less [of "mg_max mg", where ?'a = nat] by simp
  have len: "unat (of_nat (length ci) :: u64) = length ci" "unat (of_nat (length cj) :: u64) = length cj"
    "unat (of_nat (length ci + length cj) :: u64) = length ci + length cj"
    by (rule of_nat_inverse [OF refl]; use assms(7) mxl in \<open>simp add: ci_def cj_def\<close>)+
  have mx: "x \<le> u32_max" for x :: u32 by (simp add: u32_max_def)
  have lt: "a < u32_max" "s < e" using assms(4,5) mx order.strict_trans2 by (auto simp: good_log_def)
  obtain fs1 where f1: "back_up mg (MActive a) fs = (Inr (), fs1)" "fs_names fs1 = fs_names fs" "fs_data fs1 = fs_data fs"
    by (rule back_up_view [of fs "MActive a" ci mg]) (use assms(2) in \<open>auto simp: view_def ci_def\<close>)
  obtain fs2 where f2: "back_up mg (MLog s e) fs1 = (Inr (), fs2)" "fs_names fs2 = fs_names fs" "fs_data fs2 = fs_data fs"
    by (rule back_up_view [of fs1 "MLog s e" cj mg]) (use assms(2) f1(2,3) in \<open>auto simp: view_def cj_def\<close>)
  let ?w = "new_merge_log a u32_max (MActive a) i (of_nat (length ci))"
  let ?cf = "new_merge_log s e (MLog s e) j (of_nat (length cj))"
  have ne: "of_nat (length ci) \<noteq> (0 :: u64)" "of_nat (length cj) \<noteq> (0 :: u64)"
    using len assms(6) good_log_nonempty [OF assms(5)] by (auto simp: ci_def cj_def)
  have w: "open_write mg (MActive a) a u32_max fs = (Inr ?w, fs1)"
    using f1 assms(2) by (simp add: open_write_def fs_rename_def fs_open_def file_size_def ci_def)
  have vw: "merge_verify env (writer_level mg) ?w fs1 = (None, ?w)"
    using assms(1) ne(1) lt(1) by (simp add: merge_verify_def writer_level_def new_merge_log_def not_le)
  have cf: "open_read mg (MLog s e) s e fs1 = (Inr ?cf, fs2)"
    using f2 assms(2) by (simp add: open_read_def fs_open_def file_size_def cj_def)
  have vcf: "merge_verify env (mg_level mg) ?cf fs2 = (None, ?cf)"
    using assms(1) ne(2) lt(2) by (simp add: merge_verify_def new_merge_log_def not_le)
  have fits: "of_nat (length ci) + of_nat (length l) < mg_max mg" if "l \<in> set (split_lines cj)" for l
  proof -
    have "length l \<le> length cj"
      by (rule line_length [OF that])
    then have "unat (of_nat (length ci + length l) :: u64) = length ci + length l"
      by (intro of_nat_inverse [OF refl]) (use assms(7) mxl in \<open>simp add: ci_def cj_def\<close>)
    then show ?thesis using \<open>length l \<le> length cj\<close> assms(7) by (simp add: word_less_nat_alt ci_def cj_def)
  qed
  have r: "reading env ?cf (MLog s e) s e cj"
    using assms(5) by (simp add: reading_def log_path_def new_merge_log_def cj_def)
  have "consume mg env s e (MLog s e) ?cf s 0 ?w (split_lines cj) fs2 = (Inr ?w, fs2\<lparr>fs_names := hm_remove (MLog s e) (fs_names fs2)\<rparr>)"
    by (rule consume_skips [OF r, of ?w fs2 cj])
      (use assms(2,5) f2 fits mx lt(2) in \<open>auto simp: new_merge_log_def view_def cj_def good_log_def\<close>)
  then have "merge_file mg env s e (MLog s e) ?w fs1 = (Inr ?w, fs2\<lparr>fs_names := [(MActive a, i)]\<rparr>)"
    using cf vcf f2(2,3) assms(2) by (simp add: merge_file_def cj_def new_merge_log_def)
  moreover have "s \<le> ml_end ?w" using mx by (simp add: new_merge_log_def)
  moreover have "merge_close ?w (fs2\<lparr>fs_names := [(MActive a, i)]\<rparr>) = (Inr (), fs2\<lparr>fs_names := [(MLog a u32_max, i)]\<rparr>)"
    by (simp add: merge_close_def new_merge_log_def fs_rename_def)
  ultimately have "cleanup mg env fs = (Inr (), fs2\<lparr>fs_names := [(MLog a u32_max, i)]\<rparr>)"
    using paths w vw by (simp add: cleanup_def)
  moreover have "view (fs2\<lparr>fs_names := [(MLog a u32_max, i)]\<rparr>) = [MLog a u32_max \<mapsto> fs_data fs i]"
    using f2(3) by (auto simp: view_def)
  ultimately show ?thesis by blast
qed

lemma basic_merge_loses_logs_witness:
  "\<exists>fs'. cleanup (wit_merger Basic) wit_merge_env (wit_merge_fs\<lparr>fs_names := [(MActive 1, 1), (MLog 3 4, 0)]\<rparr>) = (Inr (), fs') \<and>
     view fs' = [MLog 1 u32_max \<mapsto> [49, 10, 50, 10]]"
proof -
  have "good_log wit_merge_env 3 4 [51, 10]"
    by (simp add: wit_lines good_log_def good_line_def whole_line_def strip_eol_def wit_merge_env_def Let_def)
  then show ?thesis
    using basic_merge_loses_logs [of "wit_merger Basic" "wit_merge_fs\<lparr>fs_names := [(MActive 1, 1), (MLog 3 4, 0)]\<rparr>" 1 1 3 4 0 wit_merge_env]
    by (simp add: wit_merger_def wit_merge_fs_def)
qed

end
