(* ===== verification/Importer_Run.thy ===== *)
theory Importer_Run
  imports Importer
begin

text \<open>
  The importer with its workers: the batches and single workers in flight, the inbox and the rows
  that the database has accepted. A step is a reply to a worker, an event that the importer takes, or
  the order to shut down; an invariant over all runs says that every milestone in progress has exactly
  one task, and that what was taken from it is written or on its way.
\<close>

section \<open>The importer with its workers\<close>

type_synonym batch = "u32 \<times> bool \<times> row_worker list"

record import_system =
  is_importer :: importer
  is_exit :: "importer_exit option"
  is_batches :: "batch list"
  is_workers :: "import_worker list"
  is_inbox :: "importer_event list"
  is_accepted :: "db_insert list"

text \<open>A batch stays in flight while a worker holds its handle, whose drop sends the report.\<close>

fun batch_left :: "batch \<Rightarrow> batch list \<times> importer_event list" where
  "batch_left (mi, err, ws) =
     (if ws = [] then ([], [if err then ImCqlResult (Inl mi) else ProcessMore mi]) else ([(mi, err, ws)], []))"

definition fly :: "batch list \<times> importer_event list \<Rightarrow> import_system \<Rightarrow> import_system" where
  "fly x S = S\<lparr>is_batches := is_batches S @ fst x, is_inbox := is_inbox S @ snd x\<rparr>"

fun launch :: "usize \<Rightarrow> importer_out \<Rightarrow> import_system \<Rightarrow> import_system" where
  "launch n (SendBatch mi rows) S = fly (batch_left (mi, False, map (\<lambda>r. RowWorker r n) rows)) S"
| "launch n (SendWorker w) S = S\<lparr>is_workers := is_workers S @ [w]\<rparr>"
| "launch n (ProgressBar mi k skipped) S = S"

definition put_importer :: "importer_exit option \<Rightarrow> importer \<Rightarrow> import_system \<Rightarrow> import_system" where
  "put_importer x s S =
     fold (launch (im_retries s)) (im_out s) (S\<lparr>is_importer := s\<lparr>im_out := []\<rparr>, is_exit := x\<rparr>)"

definition start_import :: "importer_env \<Rightarrow> log_reader result \<Rightarrow> sync_data result \<Rightarrow> importer \<Rightarrow> import_system" where
  "start_import env opened fetched s =
     (let S = \<lparr>is_importer = s, is_exit = None, is_batches = [], is_workers = [], is_inbox = [], is_accepted = []\<rparr> in
      case importer_init env opened fetched s of
        Inl e \<Rightarrow> S\<lparr>is_exit := Some Panicked\<rparr>
      | Inr (e, s) \<Rightarrow>
          put_importer (if e \<noteq> None then Some Aborted else if already_imported s then Some Finished else None) s S)"

datatype import_label = BatchReply nat nat db_reply | WorkerReply nat db_reply | Deliver | AskShutdown

definition accept :: "db_reply \<Rightarrow> db_insert \<Rightarrow> import_system \<Rightarrow> import_system" where
  "accept reply r S = (if reply = Accepted then S\<lparr>is_accepted := is_accepted S @ [r]\<rparr> else S)"

text \<open>
  One step: a reply to a worker, an event taken from the inbox, or the order to shut down. After a panic
  the workers that are in flight go on; the rows of the batch that the panic interrupts, none of
  them of the sync table, are left out.
\<close>

inductive import_step :: "importer_env \<Rightarrow> import_label \<Rightarrow> import_system \<Rightarrow> import_system \<Rightarrow> bool" for env where
  reply_batch:
    "k < length (is_batches S) \<Longrightarrow> is_batches S ! k = (mi, err, ws) \<Longrightarrow> j < length ws \<Longrightarrow>
     row_reply env r (ws ! j) = (ws', err') \<Longrightarrow>
     import_step env (BatchReply k j r) S
       (fly (batch_left (mi, err \<or> err', remove_nth j ws @ ws'))
         (accept r (rw_row (ws ! j)) (S\<lparr>is_batches := remove_nth k (is_batches S)\<rparr>)))"
| reply_worker:
    "k < length (is_workers S) \<Longrightarrow> worker_reply env r (is_workers S ! k) = (ws', evs) \<Longrightarrow>
     import_step env (WorkerReply k r) S
       (accept r (worker_row (is_workers S ! k))
         (S\<lparr>is_workers := remove_nth k (is_workers S) @ ws', is_inbox := is_inbox S @ evs\<rparr>))"
| deliver:
    "is_exit S = None \<Longrightarrow> is_inbox S = ev # evs \<Longrightarrow> handle_importer_event env ev (is_importer S) = Inr (x, s) \<Longrightarrow>
     import_step env Deliver S (put_importer x s (S\<lparr>is_inbox := evs\<rparr>))"
| deliver_panic:
    "is_exit S = None \<Longrightarrow> is_inbox S = ev # evs \<Longrightarrow> handle_importer_event env ev (is_importer S) = Inl e \<Longrightarrow>
     import_step env Deliver S (S\<lparr>is_inbox := evs, is_exit := Some Panicked\<rparr>)"
| ask_shutdown:
    "import_step env AskShutdown S (S\<lparr>is_inbox := is_inbox S @ [ImShutdown]\<rparr>)"

inductive import_run :: "importer_env \<Rightarrow> import_label list \<Rightarrow> import_system \<Rightarrow> import_system \<Rightarrow> bool" for env where
  run_nil: "import_run env [] S S"
| run_snoc: "import_run env ls S S' \<Longrightarrow> import_step env l S' S'' \<Longrightarrow> import_run env (ls @ [l]) S S''"

section \<open>A reliable database\<close>

text \<open>
  Statements can be built and prepared again, as the driver documents; no reply is a malformed
  frame. Any other failure is allowed, in any number.
\<close>

definition reliable :: "importer_env \<Rightarrow> bool" where
  "reliable env \<longleftrightarrow> (\<forall>r. we_rebuilds env r \<and> ie_insert_builds env r \<and> we_resends env r = Some 1)"

fun well_framed :: "import_label \<Rightarrow> bool" where
  "well_framed (BatchReply k j r) = (r \<noteq> BadFrame)"
| "well_framed (WorkerReply k r) = (r \<noteq> BadFrame)"
| "well_framed l = True"

lemma row_reply_reliable:
  assumes "reliable env" and "r \<noteq> BadFrame" and "row_reply env r w = (ws, err)"
  shows "r = Accepted \<and> ws = [] \<and> \<not> err \<or> ws = [] \<and> err \<or> (\<exists>w'. ws = [w'] \<and> rw_row w' = rw_row w \<and> \<not> err)"
  using assms by (auto simp: reliable_def row_reply_def resent_def split: db_reply.splits if_splits)

fun event_index :: "importer_event \<Rightarrow> u32 list" where
  "event_index (ImCqlResult (Inl mi)) = [mi]"
| "event_index (ImCqlResult (Inr mi)) = [mi]"
| "event_index (ProcessMore mi) = [mi]"
| "event_index ImShutdown = []"

abbreviation event_indices :: "importer_event list \<Rightarrow> u32 list" where
  "event_indices evs \<equiv> concat (map event_index evs)"

lemma worker_reply_index:
  assumes "reliable env" and "r \<noteq> BadFrame" and "worker_reply env r w = (ws, evs)"
  shows "map worker_index ws @ event_indices evs = [worker_index w]"
proof (cases r)
  case Accepted
  thus ?thesis using assms by (cases w) (auto simp: reliable_def worker_reply_defs split: if_splits)
next
  case (CqlError un)
  thus ?thesis using assms
    by (cases w) (auto simp: reliable_def worker_reply_defs split: if_splits)
qed (use assms in simp)

section \<open>One task per milestone\<close>

text \<open>What keeps a milestone going: a batch, a single worker, or an event about it.\<close>

definition tasks :: "import_system \<Rightarrow> u32 list" where
  "tasks S = map fst (is_batches S) @ event_indices (is_inbox S) @ map worker_index (is_workers S)"

abbreviation underway :: "import_system \<Rightarrow> u32 set" where
  "underway S \<equiv> hm_keys (im_progress (is_importer S))"

definition rows_of :: "importer_env \<Rightarrow> remaining \<Rightarrow> db_insert set" where
  "rows_of env ms = {r. Put r \<in> set (concat (map (message_rows env) ms))}"

lemma rows_of_append [simp]: "rows_of env (xs @ ys) = rows_of env xs \<union> rows_of env ys"
  by (auto simp: rows_of_def)

lemma rows_of_Nil [simp]: "rows_of env [] = {}"
  by (simp add: rows_of_def)

definition of_line :: "log_line list \<Rightarrow> u32 \<Rightarrow> remaining \<Rightarrow> analytic_record \<Rightarrow> bool" where
  "of_line L mi ms ar \<longleftrightarrow>
     (\<exists>md. Line md \<in> set L \<and> ms_index md = mi \<and> ms_messages md = ms \<and> get_analytic_record md = Inr ar)"

fun line_indices :: "log_line list \<Rightarrow> u32 list" where
  "line_indices [] = []"
| "line_indices (Line md # ls) = ms_index md # line_indices ls"
| "line_indices (Partial # ls) = line_indices ls"

text \<open>Safety, which also holds after the importer is gone.\<close>

definition workers_safe :: "importer_env \<Rightarrow> log_line list \<Rightarrow> import_system \<Rightarrow> bool" where
  "workers_safe env L S \<longleftrightarrow>
     (\<forall>ar a sr n. AnalyzeAndSync ar a sr n \<in> set (is_workers S) \<longrightarrow>
        (\<exists>ms. of_line L (milestone_index sr) ms ar \<and> rows_of env ms \<subseteq> set (is_accepted S)) \<and>
        (a \<longrightarrow> Ins_analytic ar \<in> set (is_accepted S)))"

definition synced_safe :: "importer_env \<Rightarrow> log_line list \<Rightarrow> import_system \<Rightarrow> bool" where
  "synced_safe env L S \<longleftrightarrow>
     (\<forall>sr. Ins_sync sr \<in> set (is_accepted S) \<longrightarrow>
        (\<exists>ms ar. of_line L (milestone_index sr) ms ar \<and> rows_of env ms \<subseteq> set (is_accepted S) \<and>
          Ins_analytic ar \<in> set (is_accepted S)))"

definition batches_plain :: "import_system \<Rightarrow> bool" where
  "batches_plain S \<longleftrightarrow> (\<forall>(mi, err, ws)\<in>set (is_batches S). \<forall>w\<in>set ws. \<forall>sr. rw_row w \<noteq> Ins_sync sr)"

definition safe :: "importer_env \<Rightarrow> log_line list \<Rightarrow> import_system \<Rightarrow> bool" where
  "safe env L S \<longleftrightarrow> workers_safe env L S \<and> synced_safe env L S \<and> batches_plain S"

text \<open>While the importer runs: the rows of what it has taken from a milestone are written or in the batch.\<close>

definition batch_carries :: "importer_env \<Rightarrow> import_system \<Rightarrow> u32 \<Rightarrow> remaining \<Rightarrow> bool" where
  "batch_carries env S mi taken \<longleftrightarrow>
     (\<forall>err ws. (mi, err, ws) \<in> set (is_batches S) \<longrightarrow> err \<or> rows_of env taken \<subseteq> set (is_accepted S) \<union> rw_row ` set ws) \<and>
     (ProcessMore mi \<in> set (is_inbox S) \<longrightarrow> rows_of env taken \<subseteq> set (is_accepted S))"

definition progress_ok :: "importer_env \<Rightarrow> log_line list \<Rightarrow> import_system \<Rightarrow> bool" where
  "progress_ok env L S \<longleftrightarrow>
     (\<forall>mi ms ar. hm_get (im_progress (is_importer S)) mi = Some (ms, ar) \<longrightarrow>
        (\<exists>taken. of_line L mi (taken @ ms) ar \<and> batch_carries env S mi taken))"

text \<open>\<open>X\<close>: milestones that are read but not yet, or no longer, in progress.\<close>

definition log_ok :: "log_line list \<Rightarrow> u32 set \<Rightarrow> importer \<Rightarrow> bool" where
  "log_ok L X s \<longleftrightarrow>
     (\<exists>lf. im_log s = Some lf \<and> distinct (line_indices (lr_rest lf)) \<and> set (lr_rest lf) \<subseteq> set L \<and>
        set (line_indices (lr_rest lf)) \<inter> (hm_keys (im_progress s) \<union> X) = {})"

definition importer_ok :: "log_line list \<Rightarrow> u32 set \<Rightarrow> importer \<Rightarrow> bool" where
  "importer_ok L X s \<longleftrightarrow>
     log_ok L X s \<and> hm_keys (im_progress s) \<inter> X = {} \<and> hm_keys (im_sizes s) = hm_keys (im_progress s) \<union> X \<and>
     im_handle s = (\<not> im_stopping s)"

definition tasks_ok :: "import_system \<Rightarrow> bool" where
  "tasks_ok S \<longleftrightarrow> distinct (tasks S) \<and> set (tasks S) \<subseteq> underway S \<and>
     (\<not> im_stopping (is_importer S) \<longrightarrow> underway S \<subseteq> set (tasks S))"

definition running :: "importer_env \<Rightarrow> log_line list \<Rightarrow> u32 set \<Rightarrow> import_system \<Rightarrow> bool" where
  "running env L X S \<longleftrightarrow> importer_ok L X (is_importer S) \<and> im_out (is_importer S) = [] \<and> tasks_ok S \<and>
     progress_ok env L S \<and> safe env L S"

lemmas running_defs = running_def importer_ok_def tasks_ok_def

text \<open>
  A line on which the importer panics: one of its messages has no referencing milestone, lacks an unlock
  block, or its milestone has no partition.
\<close>

definition writable :: "importer_env \<Rightarrow> message_id \<times> full_message \<Rightarrow> bool" where
  "writable env m \<longleftrightarrow> Crash \<notin> set (message_rows env m)"

definition crashing_line :: "importer_env \<Rightarrow> log_line list \<Rightarrow> bool" where
  "crashing_line env L \<longleftrightarrow>
     list_ex (\<lambda>l. case l of Line md \<Rightarrow> list_ex (\<lambda>m. Crash \<in> set (message_rows env m)) (ms_messages md) | Partial \<Rightarrow> False) L"

lemma crashing_lineI: "Line md \<in> set L \<Longrightarrow> m \<in> set (ms_messages md) \<Longrightarrow> \<not> writable env m \<Longrightarrow> crashing_line env L"
  by (force simp: crashing_line_def list_ex_iff writable_def)

definition import_inv :: "importer_env \<Rightarrow> log_line list \<Rightarrow> import_system \<Rightarrow> bool" where
  "import_inv env L S \<longleftrightarrow> safe env L S \<and> (is_exit S = Some Panicked \<longrightarrow> crashing_line env L) \<and>
     (is_exit S = None \<longrightarrow> running env L {} S \<and> (\<not> im_stopping (is_importer S) \<longrightarrow> im_progress (is_importer S) \<noteq> []))"

section \<open>Replies keep the invariant\<close>

lemma set_remove_nth: "k < length xs \<Longrightarrow> set xs = insert (xs ! k) (set (remove_nth k xs))"
  using mset_remove_nth [of k xs] by (metis set_mset_add_mset_insert set_mset_mset)

lemma accept_simps [simp]:
  "is_importer (accept r row S) = is_importer S" "is_exit (accept r row S) = is_exit S"
  "is_batches (accept r row S) = is_batches S" "is_workers (accept r row S) = is_workers S"
  "is_inbox (accept r row S) = is_inbox S"
  "set (is_accepted (accept r row S)) = (if r = Accepted then insert row (set (is_accepted S)) else set (is_accepted S))"
  by (simp_all add: accept_def)

lemma fly_simps [simp]:
  "is_importer (fly x S) = is_importer S" "is_exit (fly x S) = is_exit S"
  "is_batches (fly x S) = is_batches S @ fst x" "is_workers (fly x S) = is_workers S"
  "is_inbox (fly x S) = is_inbox S @ snd x" "is_accepted (fly x S) = is_accepted S"
  by (simp_all add: fly_def)

lemma batch_left_tasks: "map fst (fst (batch_left (mi, err, ws))) @ event_indices (snd (batch_left (mi, err, ws))) = [mi]"
  by simp

lemma mset_tasks: "mset (tasks S) = mset (map fst (is_batches S)) + mset (event_indices (is_inbox S)) + mset (map worker_index (is_workers S))"
  by (simp add: tasks_def)

lemma mset_tasks_fly:
  "mset (tasks (fly (batch_left (mi, err, ws)) S)) = add_mset mi (mset (tasks S))"
  by (simp add: mset_tasks)

lemma tasks_okI:
  assumes "tasks_ok S" and "mset (tasks S') = mset (tasks S)" and "is_importer S' = is_importer S"
  shows "tasks_ok S'"
  using assms mset_eq_setD [OF assms(2)] mset_eq_imp_distinct_iff [OF assms(2)] by (simp add: tasks_ok_def)

lemma safe_more:
  assumes "safe env L S" and "set (is_workers S') \<subseteq> set (is_workers S)" and "batches_plain S'"
    and "set (is_accepted S) \<subseteq> set (is_accepted S')"
    and "\<forall>sr. Ins_sync sr \<in> set (is_accepted S') \<longrightarrow> Ins_sync sr \<in> set (is_accepted S)"
  shows "safe env L S'"
  unfolding safe_def
proof (intro conjI)
  show "workers_safe env L S'"
    using assms unfolding safe_def workers_safe_def by (meson subset_iff)
  show "synced_safe env L S'"
    using assms unfolding safe_def synced_safe_def by (meson subset_iff)
qed (rule assms(3))

lemma plain_batch:
  assumes "batches_plain S" and "(mi, err, ws) \<in> set (is_batches S)" and "w \<in> set ws"
  shows "rw_row w \<noteq> Ins_sync sr"
  using assms by (fastforce simp: batches_plain_def)

text \<open>A worker of a batch is answered.\<close>

definition batch_reply :: "importer_env \<Rightarrow> import_system \<Rightarrow> nat \<Rightarrow> nat \<Rightarrow> db_reply \<Rightarrow> batch \<Rightarrow> row_worker list \<Rightarrow> bool \<Rightarrow> import_system \<Rightarrow> bool" where
  "batch_reply env S k j r b ws' err' T \<longleftrightarrow>
     reliable env \<and> r \<noteq> BadFrame \<and> k < length (is_batches S) \<and> is_batches S ! k = b \<and> j < length (snd (snd b)) \<and>
     row_reply env r (snd (snd b) ! j) = (ws', err') \<and>
     T = fly (batch_left (fst b, fst (snd b) \<or> err', remove_nth j (snd (snd b)) @ ws'))
         (accept r (rw_row (snd (snd b) ! j)) (S\<lparr>is_batches := remove_nth k (is_batches S)\<rparr>))"

lemma batch_replyD:
  assumes "batch_reply env S k j r (mi, err, ws) ws' err' T"
  shows "reliable env" "r \<noteq> BadFrame" "k < length (is_batches S)" "is_batches S ! k = (mi, err, ws)" "j < length ws"
    "row_reply env r (ws ! j) = (ws', err')"
    "T = fly (batch_left (mi, err \<or> err', remove_nth j ws @ ws'))
         (accept r (rw_row (ws ! j)) (S\<lparr>is_batches := remove_nth k (is_batches S)\<rparr>))"
  using assms by (simp_all add: batch_reply_def)

lemma batch_in: "batch_reply env S k j r (mi, err, ws) ws' err' T \<Longrightarrow> (mi, err, ws) \<in> set (is_batches S)"
  using batch_replyD(3, 4) nth_mem by metis

lemma rows_left:
  assumes br: "batch_reply env S k j r (mi, err, ws) ws' err' T" and "\<not> err'"
  shows "rw_row ` set ws \<subseteq> set (is_accepted T) \<union> rw_row ` set (remove_nth j ws @ ws')"
  using row_reply_reliable [OF batch_replyD(1, 2, 6) [OF br]] set_remove_nth [OF batch_replyD(5) [OF br]] batch_replyD(7) [OF br] assms(2)
  by auto

lemma rows_new:
  assumes br: "batch_reply env S k j r (mi, err, ws) ws' err' T"
  shows "rw_row ` set (remove_nth j ws @ ws') \<subseteq> rw_row ` set ws"
  using row_reply_reliable [OF batch_replyD(1, 2, 6) [OF br]] set_remove_nth [OF batch_replyD(5) [OF br]] by auto

lemma batch_accepted:
  assumes br: "batch_reply env S k j r (mi, err, ws) ws' err' T"
  shows "set (is_accepted S) \<subseteq> set (is_accepted T)" "set (is_accepted T) \<subseteq> insert (rw_row (ws ! j)) (set (is_accepted S))"
  unfolding batch_replyD(7) [OF br] by auto

lemma batches_without:
  assumes br: "batch_reply env S k j r (mi, err, ws) ws' err' T"
  shows "mset (map fst (is_batches S)) = add_mset mi (mset (map fst (remove_nth k (is_batches S))))"
  using arg_cong [OF mset_remove_nth [OF batch_replyD(3) [OF br]], of "image_mset fst"] batch_replyD(4) [OF br] by simp

lemma batch_keeps_tasks:
  assumes br: "batch_reply env S k j r (mi, err, ws) ws' err' T"
  shows "mset (tasks T) = mset (tasks S)"
  unfolding batch_replyD(7) [OF br] mset_tasks_fly using batches_without [OF br] by (simp add: mset_tasks)

lemma batch_keeps_safe:
  assumes br: "batch_reply env S k j r (mi, err, ws) ws' err' T" and safe: "safe env L S"
  shows "safe env L T"
  using safe
proof (rule safe_more)
  have plain: "batches_plain S" using safe by (simp add: safe_def)
  have new: "rw_row w \<noteq> Ins_sync sr" if "w \<in> set (remove_nth j ws @ ws')" for w sr
  proof -
    have "rw_row w \<in> rw_row ` set ws" using rows_new [OF br] that by blast
    thus ?thesis using plain_batch [OF plain batch_in [OF br]] by (metis imageE)
  qed
  have old: "rw_row w \<noteq> Ins_sync sr" if "(m, e, vs) \<in> set (remove_nth k (is_batches S))" "w \<in> set vs" for m e vs w sr
    using that plain_batch [OF plain, of m e vs w sr] set_remove_nth [OF batch_replyD(3) [OF br]] by simp
  show "batches_plain T"
    unfolding batches_plain_def batch_replyD(7) [OF br] using new old by (auto split: if_splits)
  show "\<forall>sr. Ins_sync sr \<in> set (is_accepted T) \<longrightarrow> Ins_sync sr \<in> set (is_accepted S)"
    using subsetD [OF batch_accepted(2) [OF br]] plain_batch [OF plain batch_in [OF br] nth_mem [OF batch_replyD(5) [OF br]]]
    by (metis insertE)
  show "set (is_workers T) \<subseteq> set (is_workers S)" unfolding batch_replyD(7) [OF br] by simp
qed (rule batch_accepted(1) [OF br])

lemma only_batch:
  assumes br: "batch_reply env S k j r (mi, err, ws) ws' err' T" and "distinct (tasks S)"
  shows "mi \<notin> fst ` set (remove_nth k (is_batches S))" and "ProcessMore mi \<notin> set (is_inbox S)"
proof -
  have "mset (tasks S) = mset (mi # map fst (remove_nth k (is_batches S)) @ event_indices (is_inbox S) @ map worker_index (is_workers S))"
    using batches_without [OF br] by (simp add: mset_tasks)
  hence d: "distinct (mi # map fst (remove_nth k (is_batches S)) @ event_indices (is_inbox S) @ map worker_index (is_workers S))"
    using assms(2) mset_eq_imp_distinct_iff by blast
  thus "mi \<notin> fst ` set (remove_nth k (is_batches S))" by simp
  from d have "mi \<notin> set (event_indices (is_inbox S))" by simp
  thus "ProcessMore mi \<notin> set (is_inbox S)" by auto
qed

lemma batch_keeps_carrying:
  assumes br: "batch_reply env S k j r (mi, err, ws) ws' err' T" and "distinct (tasks S)"
    and car: "batch_carries env S mi' taken"
  shows "batch_carries env T mi' taken"
proof (cases "mi' = mi")
  case False
  have sub: "set (remove_nth k (is_batches S)) \<subseteq> set (is_batches S)" using set_remove_nth [OF batch_replyD(3) [OF br]] by auto
  show ?thesis unfolding batch_carries_def
  proof (intro conjI allI impI)
    fix e vs
    assume "(mi', e, vs) \<in> set (is_batches T)"
    hence "(mi', e, vs) \<in> set (is_batches S)"
      using False sub unfolding batch_replyD(7) [OF br] by (auto split: if_splits)
    thus "e \<or> rows_of env taken \<subseteq> set (is_accepted T) \<union> rw_row ` set vs"
      using car batch_accepted(1) [OF br] unfolding batch_carries_def by blast
  next
    assume "ProcessMore mi' \<in> set (is_inbox T)"
    hence "ProcessMore mi' \<in> set (is_inbox S)"
      using False unfolding batch_replyD(7) [OF br] by (auto split: if_splits)
    thus "rows_of env taken \<subseteq> set (is_accepted T)"
      using car batch_accepted(1) [OF br] unfolding batch_carries_def by blast
  qed
next
  case True
  have old: "err \<or> rows_of env taken \<subseteq> set (is_accepted S) \<union> rw_row ` set ws"
    using car batch_in [OF br] True unfolding batch_carries_def by blast
  have new: "rows_of env taken \<subseteq> set (is_accepted T) \<union> rw_row ` set (remove_nth j ws @ ws')" if "\<not> (err \<or> err')"
    using that old rows_left [OF br] batch_accepted(1) [OF br] by blast
  note only = only_batch [OF br assms(2)]
  show ?thesis unfolding batch_carries_def True
  proof (intro conjI allI impI)
    fix e vs
    assume "(mi, e, vs) \<in> set (is_batches T)"
    moreover have "(mi, e, vs) \<notin> set (remove_nth k (is_batches S))" using only(1) by force
    ultimately have "e = (err \<or> err') \<and> vs = remove_nth j ws @ ws'"
      unfolding batch_replyD(7) [OF br] by (auto split: if_splits)
    thus "e \<or> rows_of env taken \<subseteq> set (is_accepted T) \<union> rw_row ` set vs" using new by blast
  next
    assume "ProcessMore mi \<in> set (is_inbox T)"
    hence "\<not> (err \<or> err') \<and> remove_nth j ws @ ws' = []"
      using only(2) unfolding batch_replyD(7) [OF br] by (auto split: if_splits)
    thus "rows_of env taken \<subseteq> set (is_accepted T)" using new by auto
  qed
qed

lemma batch_keeps_running:
  assumes br: "batch_reply env S k j r (mi, err, ws) ws' err' T" and run: "running env L X S"
  shows "running env L X T"
proof -
  have imp: "is_importer T = is_importer S" unfolding batch_replyD(7) [OF br] by simp
  have "distinct (tasks S)" using run by (simp add: running_defs)
  hence "progress_ok env L T"
    using run batch_keeps_carrying [OF br] unfolding running_def progress_ok_def imp by meson
  moreover have "tasks_ok T"
    using run tasks_okI [OF _ batch_keeps_tasks [OF br] imp] by (simp add: running_def)
  ultimately show ?thesis using run batch_keeps_safe [OF br] imp by (simp add: running_def)
qed

lemma worker_reply_kind:
  assumes "worker_reply env r w = (ws, evs)" and "AnalyzeAndSync ar a sr n \<in> set ws"
  shows "\<exists>n' a'. w = AnalyzeAndSync ar a' sr n' \<and> (a = a' \<or> r = Accepted \<and> \<not> a')"
  using assms
  by (cases w; cases r) (auto simp: worker_reply_defs split: if_splits option.splits)

lemma worker_reply_events: "worker_reply env r w = (ws, evs) \<Longrightarrow> ProcessMore mi \<notin> set evs"
  by (cases w; cases r) (auto simp: worker_reply_defs split: if_splits option.splits)

lemma worker_keeps_safe:
  assumes k: "k < length (is_workers S)" and reply: "worker_reply env r (is_workers S ! k) = (ws', evs)"
    and T: "T = accept r (worker_row (is_workers S ! k))
         (S\<lparr>is_workers := remove_nth k (is_workers S) @ ws', is_inbox := is_inbox S @ evs\<rparr>)"
    and safe: "safe env L S"
  shows "safe env L T"
proof -
  have acc: "set (is_accepted S) \<subseteq> set (is_accepted T)" by (auto simp: T)
  have w: "is_workers S ! k \<in> set (is_workers S)" using k by simp
  have ws: "\<exists>ms. of_line L (milestone_index sr) ms ar \<and> rows_of env ms \<subseteq> set (is_accepted S)"
    if "AnalyzeAndSync ar a sr n \<in> set (is_workers S)" for ar a sr n
    using safe that unfolding safe_def workers_safe_def by blast
  have an: "Ins_analytic ar \<in> set (is_accepted S)" if "AnalyzeAndSync ar True sr n \<in> set (is_workers S)" for ar sr n
    using safe that unfolding safe_def workers_safe_def by blast
  have "workers_safe env L T"
    unfolding workers_safe_def
  proof (intro allI impI)
    fix ar a sr n
    assume "AnalyzeAndSync ar a sr n \<in> set (is_workers T)"
    hence "AnalyzeAndSync ar a sr n \<in> set (is_workers S) \<or> AnalyzeAndSync ar a sr n \<in> set ws'"
      using set_remove_nth [OF k] by (auto simp: T)
    then obtain n' a' where old: "AnalyzeAndSync ar a' sr n' \<in> set (is_workers S)"
      and new: "a = a' \<or> r = Accepted \<and> \<not> a' \<and> is_workers S ! k = AnalyzeAndSync ar a' sr n'"
      using worker_reply_kind [OF reply] w by metis
    have "a \<longrightarrow> Ins_analytic ar \<in> set (is_accepted T)"
      using new an [of ar sr n'] old acc by (auto simp: T)
    thus "(\<exists>ms. of_line L (milestone_index sr) ms ar \<and> rows_of env ms \<subseteq> set (is_accepted T)) \<and>
        (a \<longrightarrow> Ins_analytic ar \<in> set (is_accepted T))"
      using ws [OF old] acc by blast
  qed
  moreover have "synced_safe env L T"
    unfolding synced_safe_def
  proof (intro allI impI)
    fix sr
    assume sr: "Ins_sync sr \<in> set (is_accepted T)"
    have "\<exists>ms ar. of_line L (milestone_index sr) ms ar \<and> rows_of env ms \<subseteq> set (is_accepted S) \<and> Ins_analytic ar \<in> set (is_accepted S)"
    proof (cases "Ins_sync sr \<in> set (is_accepted S)")
      case True
      thus ?thesis using safe unfolding safe_def synced_safe_def by blast
    next
      case False
      hence "worker_row (is_workers S ! k) = Ins_sync sr" using sr by (simp add: T split: if_splits)
      then obtain ar n where "is_workers S ! k = AnalyzeAndSync ar True sr n" by (cases "is_workers S ! k") (auto split: if_splits)
      hence "AnalyzeAndSync ar True sr n \<in> set (is_workers S)" using w by simp
      from ws [OF this] an [OF this] show ?thesis by blast
    qed
    thus "\<exists>ms ar. of_line L (milestone_index sr) ms ar \<and> rows_of env ms \<subseteq> set (is_accepted T) \<and> Ins_analytic ar \<in> set (is_accepted T)"
      using acc by blast
  qed
  moreover have "batches_plain T" using safe by (simp add: safe_def batches_plain_def T)
  ultimately show ?thesis by (simp add: safe_def)
qed

lemma carries_more:
  assumes "batch_carries env S mi taken" and "set (is_batches T) \<subseteq> set (is_batches S)"
    and "ProcessMore mi \<in> set (is_inbox T) \<Longrightarrow> ProcessMore mi \<in> set (is_inbox S)"
    and "set (is_accepted S) \<subseteq> set (is_accepted T)"
  shows "batch_carries env T mi taken"
  unfolding batch_carries_def
proof (intro conjI allI impI)
  fix err ws
  assume "(mi, err, ws) \<in> set (is_batches T)"
  hence "err \<or> rows_of env taken \<subseteq> set (is_accepted S) \<union> rw_row ` set ws"
    using assms(1, 2) unfolding batch_carries_def by blast
  thus "err \<or> rows_of env taken \<subseteq> set (is_accepted T) \<union> rw_row ` set ws" using assms(4) by blast
next
  assume "ProcessMore mi \<in> set (is_inbox T)"
  hence "rows_of env taken \<subseteq> set (is_accepted S)" using assms(1, 3) unfolding batch_carries_def by blast
  thus "rows_of env taken \<subseteq> set (is_accepted T)" using assms(4) by blast
qed

lemma worker_keeps_running:
  assumes env: "reliable env" "r \<noteq> BadFrame"
    and k: "k < length (is_workers S)" and reply: "worker_reply env r (is_workers S ! k) = (ws', evs)"
    and T: "T = accept r (worker_row (is_workers S ! k))
         (S\<lparr>is_workers := remove_nth k (is_workers S) @ ws', is_inbox := is_inbox S @ evs\<rparr>)"
    and run: "running env L X S"
  shows "running env L X T"
proof -
  have imp: "is_importer T = is_importer S" by (simp add: T)
  have "mset (map worker_index (is_workers S)) = add_mset (worker_index (is_workers S ! k)) (mset (map worker_index (remove_nth k (is_workers S))))"
    using arg_cong [OF mset_remove_nth [OF k], of "image_mset worker_index"] by simp
  moreover have "mset (map worker_index ws') + mset (event_indices evs) = {#worker_index (is_workers S ! k)#}"
    using arg_cong [OF worker_reply_index [OF env reply], of mset] by simp
  ultimately have "mset (tasks T) = mset (tasks S)" by (simp add: mset_tasks T) (metis add.commute add_mset_add_single union_assoc)
  moreover have "tasks_ok S" using run by (simp add: running_def)
  ultimately have "tasks_ok T" using imp by (intro tasks_okI [of S T])
  moreover have "progress_ok env L T"
  proof -
    have "batch_carries env T mi taken" if "batch_carries env S mi taken" for mi taken
      by (rule carries_more [OF that]) (use worker_reply_events [OF reply] in \<open>auto simp: T\<close>)
    thus ?thesis using run unfolding running_def progress_ok_def imp by meson
  qed
  ultimately show ?thesis using run worker_keeps_safe [OF k reply T] imp by (simp add: running_def)
qed

section \<open>Events keep the invariant\<close>

text \<open>A handler panics, and then on account of a line of the file, or ends as \<open>P\<close> says.\<close>

definition ok_or_crash :: "importer_env \<Rightarrow> log_line list \<Rightarrow> ('x \<times> importer) result \<Rightarrow> ('x \<Rightarrow> importer \<Rightarrow> bool) \<Rightarrow> bool" where
  "ok_or_crash env L r P \<longleftrightarrow> (case r of Inl e \<Rightarrow> e = Panic \<and> crashing_line env L | Inr (x, s) \<Rightarrow> P x s)"

lemma ok_or_crash_simps [simp]:
  "ok_or_crash env L (Inl e) P \<longleftrightarrow> e = Panic \<and> crashing_line env L" "ok_or_crash env L (Inr (x, s)) P \<longleftrightarrow> P x s"
  by (simp_all add: ok_or_crash_def)

lemma ok_or_crashE:
  assumes "ok_or_crash env L r P"
  obtains (panics) "r = Inl Panic" and "crashing_line env L" | (goes_on) x s where "r = Inr (x, s)" and "P x s"
  using assms by (cases r) auto

fun plain_action :: "action \<Rightarrow> bool" where
  "plain_action (Put r) = (\<forall>sr. r \<noteq> Ins_sync sr)"
| "plain_action Crash = True"
| "plain_action a = False"

lemma in_partition_plain: "(\<And>pid. list_all plain_action (rows pid)) \<Longrightarrow> list_all plain_action (im_in_partition env mi rows)"
  by (simp add: im_in_partition_def split: sum.splits)

lemma list_all_concat: "list_all P (concat xss) \<longleftrightarrow> (\<forall>xs\<in>set xss. list_all P xs)"
  by (induction xss) auto

lemma payload_plain: "list_all plain_action (im_insert_payload env i m mi st meta p)"
proof (induction p)
  case (Transaction_P ins outs p ubs)
  have "list_all plain_action (im_insert_transaction env i t ins outs ubs mi st)" for t
    by (auto simp: im_insert_transaction_def list_all_concat im_input_rows_def im_insert_input_def im_insert_unlock_def
        im_insert_output_def im_insert_address_def Let_def intro!: in_partition_plain split: input_t.splits output_t.splits)
  thus ?case using Transaction_P by (cases p) auto
qed (auto simp: im_insert_index_def intro!: in_partition_plain)

lemma message_rows_plain: "list_all plain_action (message_rows env m)"
  by (cases m) (auto simp: message_rows_def Let_def payload_plain im_insert_parents_def list_all_concat
      intro!: in_partition_plain split: option.splits)

lemma send_rows_reliable:
  assumes "reliable env" and "list_all plain_action as" and "Crash \<notin> set as"
  obtains rows where "send_rows env as = Inr (None, rows)" and "set rows = {r. Put r \<in> set as}"
    and "\<forall>r\<in>set rows. \<forall>sr. r \<noteq> Ins_sync sr"
proof -
  have "\<exists>rows. send_rows env as = Inr (None, rows) \<and> set rows = {r. Put r \<in> set as} \<and> (\<forall>r\<in>set rows. \<forall>sr. r \<noteq> Ins_sync sr)"
    using assms(2, 3)
  proof (induction as)
    case (Cons a as)
    then obtain rows where rows: "send_rows env as = Inr (None, rows)" "set rows = {r. Put r \<in> set as}"
      "\<forall>r\<in>set rows. \<forall>sr. r \<noteq> Ins_sync sr" by auto
    from Cons.prems obtain r where a: "a = Put r" "\<forall>sr. r \<noteq> Ins_sync sr" by (cases a) auto
    have "ie_insert_builds env r" using assms(1) by (simp add: reliable_def)
    thus ?case using rows a by (intro exI [of _ "r # rows"]) auto
  qed simp
  thus ?thesis using that by blast
qed

lemma send_rows_crash:
  assumes "reliable env" and "list_all plain_action as" and "Crash \<in> set as"
  shows "send_rows env as = Inl Panic"
  using assms(2, 3)
proof (induction as)
  case (Cons a as)
  have "ie_insert_builds env r" for r using assms(1) by (simp add: reliable_def)
  thus ?case using Cons by (cases a) auto
qed simp

lemma batch_rows:
  assumes "reliable env" and "\<forall>m\<in>set ms. writable env m"
  obtains rows where "send_rows env (concat (map (message_rows env) ms)) = Inr (None, rows)" and "set rows = rows_of env ms"
    and "\<forall>r\<in>set rows. \<forall>sr. r \<noteq> Ins_sync sr"
proof -
  have "list_all plain_action (concat (map (message_rows env) ms))"
    by (simp add: list_all_concat message_rows_plain)
  moreover have "Crash \<notin> set (concat (map (message_rows env) ms))"
    using assms(2) by (simp add: writable_def)
  ultimately show ?thesis using send_rows_reliable [OF assms(1)] that unfolding rows_of_def by metis
qed

text \<open>A milestone without a task gets one, and is put in progress.\<close>

lemma no_task:
  assumes "running env L X S" and "mi \<in> X"
  shows "mi \<notin> underway S" and "mi \<notin> set (tasks S)" and "mi \<notin> fst ` set (is_batches S)" and "ProcessMore mi \<notin> set (is_inbox S)"
proof -
  show under: "mi \<notin> underway S" using assms by (auto simp: running_defs)
  thus t: "mi \<notin> set (tasks S)" using assms(1) by (auto simp: running_defs)
  thus "mi \<notin> fst ` set (is_batches S)" by (simp add: tasks_def)
  from t have "mi \<notin> set (event_indices (is_inbox S))" by (simp add: tasks_def)
  thus "ProcessMore mi \<notin> set (is_inbox S)" by auto
qed

lemma importer_ok_in_progress:
  assumes "importer_ok L {mi} s"
  shows "importer_ok L {} (in_progress mi ms ar s)"
  using assms by (auto simp: importer_ok_def log_ok_def in_progress_def)

lemma tasks_ok_in_progress:
  assumes "tasks_ok S" and "mset (tasks T) = add_mset mi (mset (tasks S))" and "mi \<notin> set (tasks S)"
    and imp: "is_importer T = in_progress mi ms ar (is_importer S)"
  shows "tasks_ok T"
proof -
  have m: "mset (tasks T) = mset (mi # tasks S)" using assms(2) by simp
  show ?thesis
    using assms(1, 3) mset_eq_setD [OF m] mset_eq_imp_distinct_iff [OF m] by (auto simp: tasks_ok_def imp in_progress_def)
qed

lemma progress_ok_in_progress:
  assumes "progress_ok env L S" and imp: "is_importer T = in_progress mi ms ar (is_importer S)"
    and new: "of_line L mi (taken @ ms) ar" "batch_carries env T mi taken"
    and old: "\<And>m e ws. (m, e, ws) \<in> set (is_batches T) \<Longrightarrow> m \<noteq> mi \<Longrightarrow> (m, e, ws) \<in> set (is_batches S)"
      "\<And>m. ProcessMore m \<in> set (is_inbox T) \<Longrightarrow> m \<noteq> mi \<Longrightarrow> ProcessMore m \<in> set (is_inbox S)"
    and acc: "is_accepted T = is_accepted S"
  shows "progress_ok env L T"
  unfolding progress_ok_def
proof (intro allI impI)
  fix m ms' ar'
  assume get: "hm_get (im_progress (is_importer T)) m = Some (ms', ar')"
  show "\<exists>taken. of_line L m (taken @ ms') ar' \<and> batch_carries env T m taken"
  proof (cases "m = mi")
    case True
    thus ?thesis using get new by (auto simp: imp in_progress_def)
  next
    case False
    hence "hm_get (im_progress (is_importer S)) m = Some (ms', ar')" using get by (simp add: imp in_progress_def)
    then obtain taken' where t: "of_line L m (taken' @ ms') ar'" "batch_carries env S m taken'"
      using assms(1) unfolding progress_ok_def by blast
    have "batch_carries env T m taken'"
      using t(2) old False unfolding batch_carries_def acc by blast
    thus ?thesis using t(1) by blast
  qed
qed

lemma start_batch:
  assumes run: "running env L {mi} S" and line: "of_line L mi (taken @ ms) ar" and written: "rows_of env taken \<subseteq> set (is_accepted S)"
    and rows: "set rows = rows_of env (take n ms)" "\<forall>r\<in>set rows. \<forall>sr. r \<noteq> Ins_sync sr"
  shows "running env L {} ((launch k (SendBatch mi rows) S)\<lparr>is_importer := in_progress mi (drop n ms) ar (is_importer S)\<rparr>)"
    (is "running env L {} ?T")
proof -
  have mi: "mi \<in> {mi}" by simp
  note free = no_task [OF run mi]
  have "tasks_ok ?T"
  proof (rule tasks_ok_in_progress)
    show "mset (tasks ?T) = add_mset mi (mset (tasks S))" by (simp add: mset_tasks)
    show "mi \<notin> set (tasks S)" by (rule free(2))
  qed (use run in \<open>simp_all add: running_def\<close>)
  moreover have "progress_ok env L ?T"
  proof (rule progress_ok_in_progress)
    show "of_line L mi ((taken @ take n ms) @ drop n ms) ar" using line by simp
    show "batch_carries env ?T mi (taken @ take n ms)"
      unfolding batch_carries_def
    proof (intro conjI allI impI)
      fix e ws
      assume "(mi, e, ws) \<in> set (is_batches ?T)"
      moreover have "(mi, e, ws) \<notin> set (is_batches S)" using free(3) by force
      ultimately have "ws = map (\<lambda>r. RowWorker r k) rows" by (auto split: if_splits)
      hence "rw_row ` set ws = rows_of env (take n ms)" by (simp add: image_image rows(1))
      thus "e \<or> rows_of env (taken @ take n ms) \<subseteq> set (is_accepted ?T) \<union> rw_row ` set ws"
        using written by auto
    next
      assume "ProcessMore mi \<in> set (is_inbox ?T)"
      hence "rows = []" using free(4) by (auto split: if_splits)
      thus "rows_of env (taken @ take n ms) \<subseteq> set (is_accepted ?T)" using written rows(1) by simp
    qed
  qed (use run in \<open>auto simp: running_def split: if_splits\<close>)
  moreover have "safe env L ?T"
  proof (rule safe_more)
    show "batches_plain ?T" using run rows(2) by (auto simp: running_def safe_def batches_plain_def)
  qed (use run in \<open>auto simp: running_def\<close>)
  moreover have "importer_ok L {} (is_importer ?T)" "im_out (is_importer ?T) = []"
    using run importer_ok_in_progress by (auto simp: running_def in_progress_def)
  ultimately show ?thesis by (simp add: running_def)
qed

lemma start_worker:
  assumes run: "running env L {mi} S" and line: "of_line L mi (taken @ ms) ar" and written: "rows_of env taken \<subseteq> set (is_accepted S)"
    and w: "worker_index w = mi"
    and sync: "\<And>ar' a sr n. w = AnalyzeAndSync ar' a sr n \<Longrightarrow> \<not> a \<and> ar' = ar \<and> ms = []"
  shows "running env L {} ((launch k (SendWorker w) S)\<lparr>is_importer := in_progress mi ms ar (is_importer S)\<rparr>)"
    (is "running env L {} ?T")
proof -
  have mi: "mi \<in> {mi}" by simp
  note free = no_task [OF run mi]
  have "tasks_ok ?T"
  proof (rule tasks_ok_in_progress)
    show "mset (tasks ?T) = add_mset mi (mset (tasks S))" by (simp add: mset_tasks w)
    show "mi \<notin> set (tasks S)" by (rule free(2))
  qed (use run in \<open>simp_all add: running_def\<close>)
  moreover have "progress_ok env L ?T"
  proof (rule progress_ok_in_progress)
    show "of_line L mi (taken @ ms) ar" by (rule line)
    show "batch_carries env ?T mi taken"
      using free(3, 4) unfolding batch_carries_def by force
  qed (use run in \<open>auto simp: running_def split: if_splits\<close>)
  moreover have "safe env L ?T"
    unfolding safe_def
  proof (intro conjI)
    have old: "workers_safe env L S" using run by (simp add: running_def safe_def)
    show "workers_safe env L ?T"
      unfolding workers_safe_def
    proof (intro allI impI)
      fix ar' a sr n
      assume "AnalyzeAndSync ar' a sr n \<in> set (is_workers ?T)"
      hence "AnalyzeAndSync ar' a sr n \<in> set (is_workers S) \<or> w = AnalyzeAndSync ar' a sr n" by auto
      thus "(\<exists>ms. of_line L (milestone_index sr) ms ar' \<and> rows_of env ms \<subseteq> set (is_accepted ?T)) \<and>
          (a \<longrightarrow> Ins_analytic ar' \<in> set (is_accepted ?T))"
      proof
        assume "AnalyzeAndSync ar' a sr n \<in> set (is_workers S)"
        moreover have "is_accepted ?T = is_accepted S" by simp
        ultimately show ?thesis using old unfolding workers_safe_def by metis
      next
        assume "w = AnalyzeAndSync ar' a sr n"
        thus ?thesis using sync [of ar' a sr n] w line written by auto
      qed
    qed
    show "synced_safe env L ?T" "batches_plain ?T"
      using run by (simp_all add: running_def safe_def synced_safe_def batches_plain_def)
  qed
  moreover have "importer_ok L {} (is_importer ?T)" "im_out (is_importer ?T) = []"
    using run importer_ok_in_progress by (auto simp: running_def in_progress_def)
  ultimately show ?thesis by (simp add: running_def)
qed

text \<open>Taking over what the importer has sent.\<close>

fun is_bar :: "importer_out \<Rightarrow> bool" where
  "is_bar (ProgressBar mi k b) = True"
| "is_bar x = False"

lemma launch_frame [simp]:
  "launch k x (S\<lparr>is_importer := i\<rparr>) = (launch k x S)\<lparr>is_importer := i\<rparr>"
  "launch k x (S\<lparr>is_exit := e\<rparr>) = (launch k x S)\<lparr>is_exit := e\<rparr>"
  "is_importer (launch k x S) = is_importer S" "is_exit (launch k x S) = is_exit S"
  by (cases x; simp add: fly_def)+

lemma launch_bars: "\<forall>x\<in>set xs. is_bar x \<Longrightarrow> fold (launch k) xs S = S"
proof (induction xs)
  case (Cons x xs)
  thus ?case by (cases x) simp_all
qed simp

lemma launch_all_frame:
  "fold (launch k) xs (S\<lparr>is_importer := i\<rparr>) = (fold (launch k) xs S)\<lparr>is_importer := i\<rparr>"
  "fold (launch k) xs (S\<lparr>is_exit := e\<rparr>) = (fold (launch k) xs S)\<lparr>is_exit := e\<rparr>"
  "is_importer (fold (launch k) xs S) = is_importer S" "is_exit (fold (launch k) xs S) = is_exit S"
  by (induction xs arbitrary: S) simp_all

abbreviation quiet :: "importer \<Rightarrow> importer" where
  "quiet s \<equiv> s\<lparr>im_out := []\<rparr>"

lemma put_importer_simps [simp]:
  "is_importer (put_importer x s S) = quiet s" "is_exit (put_importer x s S) = x"
  by (simp_all add: put_importer_def launch_all_frame)

lemma put_importer_same:
  assumes "im_out s' = im_out s @ xs" and "\<forall>x\<in>set xs. is_bar x" and "im_retries s' = im_retries s"
  shows "put_importer x s' S = (put_importer y s S)\<lparr>is_importer := quiet s', is_exit := x\<rparr>"
  using assms by (simp add: put_importer_def launch_all_frame launch_bars)

lemma put_importer_quiet: "im_out s = [] \<Longrightarrow> put_importer x s S = S\<lparr>is_importer := s, is_exit := x\<rparr>"
  by (simp add: put_importer_def)

lemma put_importer_started:
  "put_importer x (in_progress mi ms ar (im_emit [msg] s)) S =
     (launch (im_retries s) msg (put_importer x s S))\<lparr>is_importer := in_progress mi ms ar (quiet s)\<rparr>"
  by (simp add: put_importer_def in_progress_def im_emit_def launch_all_frame)

lemma frame_exit [simp]:
  "running env L X (S\<lparr>is_exit := e\<rparr>) = running env L X S" "safe env L (S\<lparr>is_exit := e\<rparr>) = safe env L S"
  "running env L X (S\<lparr>is_importer := i, is_exit := e\<rparr>) = running env L X (S\<lparr>is_importer := i\<rparr>)"
  "safe env L (S\<lparr>is_importer := i\<rparr>) = safe env L S"
  by (simp_all add: running_defs progress_ok_def batch_carries_def safe_def workers_safe_def synced_safe_def batches_plain_def tasks_def)

lemma running_importer:
  assumes "running env L X S" and "importer_ok L Y i" and "im_out i = []"
    and "im_progress i = im_progress (is_importer S)" and "im_stopping (is_importer S) \<longrightarrow> im_stopping i"
  shows "running env L Y (S\<lparr>is_importer := i\<rparr>)"
  using assms by (auto simp: running_def tasks_ok_def tasks_def progress_ok_def batch_carries_def)

section \<open>Reading the next milestone\<close>

lemma log_next_suffix: "log_next len lf = (r, lf') \<Longrightarrow> \<exists>pre. lr_rest lf = pre @ lr_rest lf'"
  by (auto simp: log_next_def Let_def split: if_splits list.splits log_line.splits)

lemma line_indices_append: "line_indices (xs @ ys) = line_indices xs @ line_indices ys"
  by (induction xs rule: line_indices.induct) simp_all

lemma line_index_in: "Line md \<in> set ls \<Longrightarrow> ms_index md \<in> set (line_indices ls)"
  by (induction ls rule: line_indices.induct) auto

text \<open>What is left of the log, with the milestone that was read before it.\<close>

definition read_up_to :: "log_reader \<Rightarrow> milestone_data option \<Rightarrow> log_reader \<Rightarrow> bool" where
  "read_up_to lf opt lf' \<longleftrightarrow>
     (\<exists>pre. lr_rest lf = pre @ (case opt of None \<Rightarrow> [] | Some md \<Rightarrow> [Line md]) @ lr_rest lf')"

lemma next_milestone_data_result:
  assumes "next_milestone_data env lf s = (res, s')"
  shows "\<exists>lf' xs. s' = s\<lparr>im_log := Some lf', im_out := im_out s @ xs, im_sizes := im_sizes s'\<rparr> \<and> (\<forall>x\<in>set xs. is_bar x) \<and>
    read_up_to lf (case res of Inr opt \<Rightarrow> opt | Inl e \<Rightarrow> None) lf' \<and>
    (case res of
       Inr (Some md) \<Rightarrow> (\<exists>k. im_sizes s' = hm_insert (ms_index md) k (im_sizes s))
     | _ \<Rightarrow> im_sizes s' = im_sizes s)"
  using assms
proof (induction env lf s rule: next_milestone_data.induct)
  case (1 env lf s)
  obtain r lf' where nx: "log_next (ie_line_len env) lf = (r, lf')" by fastforce
  note suffix = log_next_suffix [OF nx]
  show ?case
  proof (cases r)
    case (Inl e)
    hence "res = Inl ''next''" "s' = s\<lparr>im_log := Some lf'\<rparr>" using 1(2) nx by (simp_all add: next_milestone_data.simps)
    thus ?thesis using suffix by (intro exI [of _ lf'] exI [of _ "[]"]) (simp add: read_up_to_def)
  next
    case (Inr opt)
    show ?thesis
    proof (cases opt)
      case None
      hence "res = Inr None" "s' = s\<lparr>im_log := Some lf'\<rparr>" using 1(2) nx Inr by (simp_all add: next_milestone_data.simps)
      thus ?thesis using suffix by (intro exI [of _ lf'] exI [of _ "[]"]) (simp add: read_up_to_def)
    next
      case (Some md)
      have rest: "lr_rest lf = Line md # lr_rest lf'" using log_next_rest nx Inr Some by simp
      show ?thesis
      proof (cases "to_be_skipped s (ms_index md)")
        case False
        hence "res = Inr (Some md)"
          "s' = s\<lparr>im_log := Some lf', im_sizes := hm_insert (ms_index md) (lf_len lf - lf_len lf') (im_sizes s)\<rparr>"
          using 1(2) nx Inr Some by (simp_all add: next_milestone_data.simps)
        thus ?thesis using rest by (intro exI [of _ lf'] exI [of _ "[]"]) (auto simp: read_up_to_def)
      next
        case True
        let ?s = "im_emit [ProgressBar (ms_index md) (lf_len lf - lf_len lf') True] s"
        have "next_milestone_data env lf' ?s = (res, s')"
          using 1(2) nx Inr Some True by (simp add: next_milestone_data.simps)
        from 1(1) [OF nx [symmetric] Inr Some True this] obtain lf2 xs where
          *: "s' = ?s\<lparr>im_log := Some lf2, im_out := im_out ?s @ xs, im_sizes := im_sizes s'\<rparr>" "\<forall>x\<in>set xs. is_bar x"
          "read_up_to lf' (case res of Inr opt \<Rightarrow> opt | Inl e \<Rightarrow> None) lf2"
          "case res of Inr (Some md) \<Rightarrow> (\<exists>k. im_sizes s' = hm_insert (ms_index md) k (im_sizes ?s)) | _ \<Rightarrow> im_sizes s' = im_sizes ?s"
          by blast
        have "read_up_to lf (case res of Inr opt \<Rightarrow> opt | Inl e \<Rightarrow> None) lf2"
          using *(3) rest unfolding read_up_to_def by (metis append_Cons)
        moreover have "s' = s\<lparr>im_log := Some lf2, im_out := im_out s @ (ProgressBar (ms_index md) (lf_len lf - lf_len lf') True # xs),
            im_sizes := im_sizes s'\<rparr>"
          using *(1) by (simp add: im_emit_def)
        ultimately show ?thesis using *(2, 4)
          by (intro exI [of _ lf2] exI [of _ "ProgressBar (ms_index md) (lf_len lf - lf_len lf') True # xs"])
             (simp add: im_emit_def split: sum.splits option.splits)
      qed
    qed
  qed
qed

lemma log_ok_read:
  assumes "log_ok L {} s" and "im_log s = Some lf" and "read_up_to lf opt lf'"
  shows "log_ok L (case opt of None \<Rightarrow> {} | Some md \<Rightarrow> {ms_index md}) (s\<lparr>im_log := Some lf'\<rparr>)"
    and "\<And>md. opt = Some md \<Longrightarrow> Line md \<in> set L \<and> ms_index md \<notin> hm_keys (im_progress s)"
proof -
  obtain pre where pre: "lr_rest lf = pre @ (case opt of None \<Rightarrow> [] | Some md \<Rightarrow> [Line md]) @ lr_rest lf'"
    using assms(3) unfolding read_up_to_def by blast
  have *: "distinct (line_indices (lr_rest lf))" "set (lr_rest lf) \<subseteq> set L"
    "set (line_indices (lr_rest lf)) \<inter> hm_keys (im_progress s) = {}"
    using assms(1, 2) by (auto simp: log_ok_def)
  show "log_ok L (case opt of None \<Rightarrow> {} | Some md \<Rightarrow> {ms_index md}) (s\<lparr>im_log := Some lf'\<rparr>)"
    using * unfolding log_ok_def pre by (auto simp: line_indices_append split: option.splits)
  show "Line md \<in> set L \<and> ms_index md \<notin> hm_keys (im_progress s)" if "opt = Some md" for md
    using * that unfolding pre by (auto simp: line_indices_append)
qed

text \<open>After a read the importer runs on, with the milestone it has read still to be put in progress.\<close>

lemma next_milestone_running:
  assumes run: "running env L {} (put_importer None s S)" and nx: "next_milestone env s = (res, s')"
  shows "running env L (case res of Inr (Some md) \<Rightarrow> {ms_index md} | _ \<Rightarrow> {}) (put_importer None s' S)"
    and "res = Inr (Some md) \<Longrightarrow> Line md \<in> set L"
    and "im_progress s' = im_progress s" "im_stopping s' = im_stopping s" "im_mode s' = im_mode s"
proof -
  have ok: "importer_ok L {} (quiet s)" using run by (simp add: running_def)
  then obtain lf where lf: "im_log s = Some lf" by (auto simp: importer_ok_def log_ok_def)
  have "next_milestone_data env lf s = (res, s')" using nx lf by (simp add: next_milestone_def)
  from next_milestone_data_result [OF this] obtain lf' xs where
    s': "s' = s\<lparr>im_log := Some lf', im_out := im_out s @ xs, im_sizes := im_sizes s'\<rparr>" and xs: "\<forall>x\<in>set xs. is_bar x"
    and rd: "read_up_to lf (case res of Inr opt \<Rightarrow> opt | Inl e \<Rightarrow> None) lf'"
    and sizes: "case res of Inr (Some md) \<Rightarrow> (\<exists>k. im_sizes s' = hm_insert (ms_index md) k (im_sizes s)) | _ \<Rightarrow> im_sizes s' = im_sizes s"
    by blast
  have fields: "im_out s' = im_out s @ xs" "im_retries s' = im_retries s" "im_progress s' = im_progress s"
    "im_stopping s' = im_stopping s" "im_mode s' = im_mode s" "im_handle s' = im_handle s" "im_log s' = Some lf'"
    using arg_cong [OF s', of im_out] arg_cong [OF s', of im_retries] arg_cong [OF s', of im_progress]
      arg_cong [OF s', of im_stopping] arg_cong [OF s', of im_mode] arg_cong [OF s', of im_handle] arg_cong [OF s', of im_log]
    by simp_all
  show "im_progress s' = im_progress s" "im_stopping s' = im_stopping s" "im_mode s' = im_mode s" by (rule fields)+
  have log: "log_ok L {} s" using ok by (simp add: importer_ok_def log_ok_def)
  note read = log_ok_read [OF log lf rd]
  show "Line md \<in> set L" if "res = Inr (Some md)" using read(2) that by simp
  have "importer_ok L (case res of Inr (Some md) \<Rightarrow> {ms_index md} | _ \<Rightarrow> {}) (quiet s')"
  proof -
    have "log_ok L (case res of Inr (Some md) \<Rightarrow> {ms_index md} | _ \<Rightarrow> {}) (quiet s')"
      using read(1) fields by (auto simp: log_ok_def split: sum.splits option.splits)
    moreover have "hm_keys (im_sizes s') = hm_keys (im_progress s') \<union> (case res of Inr (Some md) \<Rightarrow> {ms_index md} | _ \<Rightarrow> {})"
    proof -
      have "hm_keys (im_sizes s) = hm_keys (im_progress s)" using ok by (simp add: importer_ok_def)
      thus ?thesis using sizes fields(3) by (cases res; cases "case res of Inr opt \<Rightarrow> opt | Inl e \<Rightarrow> None") (simp_all, (elim exE, simp)?)
    qed
    moreover have "hm_keys (im_progress s') \<inter> (case res of Inr (Some md) \<Rightarrow> {ms_index md} | _ \<Rightarrow> {}) = {}"
      using read(2) fields by (auto split: sum.splits option.splits)
    ultimately show ?thesis using ok fields by (simp add: importer_ok_def)
  qed
  moreover have "put_importer None s' S = (put_importer None s S)\<lparr>is_importer := quiet s', is_exit := None\<rparr>"
    by (rule put_importer_same [OF fields(1) xs fields(2)])
  ultimately show "running env L (case res of Inr (Some md) \<Rightarrow> {ms_index md} | _ \<Rightarrow> {}) (put_importer None s' S)"
    using running_importer [OF run] fields by simp
qed

section \<open>Starting and continuing a milestone\<close>

lemma insert_some_messages_cases:
  assumes env: "reliable env" and handle: "im_handle s"
  obtains (panics) m where "insert_some_messages env mi ms s = Inl Panic" "m \<in> set ms" "\<not> writable env m"
  | (sends) rows where
    "insert_some_messages env mi ms s = Inr (None, drop (unat (im_parallelism s)) ms, im_emit [SendBatch mi rows] s)"
    "set rows = rows_of env (take (unat (im_parallelism s)) ms)" "\<forall>r\<in>set rows. \<forall>sr. r \<noteq> Ins_sync sr"
proof (cases "\<forall>m\<in>set (take (unat (im_parallelism s)) ms). writable env m")
  case True
  from batch_rows [OF env this] obtain rows where
    "send_rows env (concat (map (message_rows env) (take (unat (im_parallelism s)) ms))) = Inr (None, rows)"
    "set rows = rows_of env (take (unat (im_parallelism s)) ms)" "\<forall>r\<in>set rows. \<forall>sr. r \<noteq> Ins_sync sr" .
  thus ?thesis using sends handle by (simp add: insert_some_messages_def Let_def)
next
  case False
  then obtain m where m: "m \<in> set (take (unat (im_parallelism s)) ms)" "\<not> writable env m" by blast
  let ?as = "concat (map (message_rows env) (take (unat (im_parallelism s)) ms))"
  have "Crash \<in> set ?as" using m by (auto simp: writable_def)
  moreover have "list_all plain_action ?as" by (simp add: list_all_concat message_rows_plain)
  ultimately have "insert_some_messages env mi ms s = Inl Panic"
    using handle send_rows_crash [OF env, of ?as] by (simp add: insert_some_messages_def Let_def)
  thus ?thesis using panics m by (blast dest: in_set_takeD)
qed

lemma get_analytic_record_index: "get_analytic_record md = Inr ar \<Longrightarrow> ar_milestone_index ar = ms_index md"
  by (auto simp: get_analytic_record_def split: if_splits sum.splits)

lemma get_analytic_record_no_panic: "get_analytic_record md \<noteq> Inl Panic"
  by (auto simp: get_analytic_record_def acc_messages_eq split: if_splits sum.splits)

lemma in_progress_frame [simp]: "quiet (in_progress mi ms ar s) = in_progress mi ms ar (quiet s)"
  by (simp add: in_progress_def)

lemma handle_md_running:
  assumes run: "running env L {ms_index md} (put_importer None s S)" and env: "reliable env"
    and L: "Line md \<in> set L" and go: "\<not> im_stopping s"
  shows "ok_or_crash env L (im_handle_milestone_data env md s)
    (\<lambda>e s'. im_stopping s' = im_stopping s \<and> im_parallelism s' = im_parallelism s \<and>
      (case e of None \<Rightarrow> running env L {} (put_importer None s' S) \<and> im_progress s' \<noteq> [] | Some _ \<Rightarrow> s' = s))"
proof (cases "get_analytic_record md")
  case (Inl f)
  then obtain e where "f = Failed e" using get_analytic_record_no_panic [of md] by (cases f) auto
  thus ?thesis using Inl by (simp add: im_handle_milestone_data_def)
next
  case (Inr ar)
  have line: "of_line L (ms_index md) ([] @ ms_messages md) ar" using L Inr by (auto simp: of_line_def)
  have handle: "im_handle s" using run go by (simp add: running_defs)
  have none: "rows_of env [] \<subseteq> set (is_accepted (put_importer None s S))" by simp
  have ne: "im_progress (in_progress mi ms ar t) \<noteq> []" for mi ms t by (cases "im_progress t") (auto simp: in_progress_def)
  have frame: "im_stopping (in_progress mi ms ar (im_emit xs t)) = im_stopping t"
      "im_parallelism (in_progress mi ms ar (im_emit xs t)) = im_parallelism t" for mi ms xs t
    by (simp_all add: in_progress_def im_emit_def)
  show ?thesis
  proof (cases "im_mode s")
    case All_Mode
    show ?thesis
    proof (cases rule: insert_some_messages_cases [OF env handle, of "ms_index md" "ms_messages md"])
      case (1 m)
      thus ?thesis using crashing_lineI [OF L] Inr All_Mode by (simp add: im_handle_milestone_data_def)
    next
      case (2 rows)
      have "running env L {} (put_importer None (in_progress (ms_index md) (drop (unat (im_parallelism s)) (ms_messages md)) ar
          (im_emit [SendBatch (ms_index md) rows] s)) S)"
        unfolding put_importer_started using start_batch [OF run line none 2(2, 3), of "im_retries s"] by simp
      thus ?thesis using Inr All_Mode 2(1) ne frame by (simp add: im_handle_milestone_data_def)
    qed
  next
    case Analytics_Mode
    have "running env L {} (put_importer None (in_progress (ms_index md) (ms_messages md) ar
        (im_emit [SendWorker (Analyze ar (im_retries s))] s)) S)"
      unfolding put_importer_started
      using start_worker [OF run line none, of "Analyze ar (im_retries s)" "im_retries s"] get_analytic_record_index [OF Inr] by simp
    thus ?thesis using Inr Analytics_Mode handle env ne frame
      by (simp add: im_handle_milestone_data_def insert_analytic_record_def reliable_def)
  qed
qed

text \<open>An event about a milestone is taken from the inbox, and the milestone out of progress.\<close>

definition taken_out :: "u32 \<Rightarrow> importer \<Rightarrow> importer" where
  "taken_out mi s = s\<lparr>im_progress := hm_remove mi (im_progress s)\<rparr>"

lemma take_event:
  assumes run: "running env L {} S" and inbox: "is_inbox S = ev # evs" and ev: "event_index ev = [mi]"
  shows "mi \<in> underway S"
    and "running env L {mi} (S\<lparr>is_inbox := evs, is_importer := taken_out mi (is_importer S)\<rparr>)"
proof -
  have m: "mset (tasks S) = mset (mi # tasks (S\<lparr>is_inbox := evs\<rparr>))" by (simp add: mset_tasks inbox ev)
  have d: "distinct (mi # tasks (S\<lparr>is_inbox := evs\<rparr>))" and sub: "set (mi # tasks (S\<lparr>is_inbox := evs\<rparr>)) \<subseteq> underway S"
    and all: "\<not> im_stopping (is_importer S) \<Longrightarrow> underway S \<subseteq> set (mi # tasks (S\<lparr>is_inbox := evs\<rparr>))"
    using run mset_eq_setD [OF m] mset_eq_imp_distinct_iff [OF m] by (simp_all add: running_defs)
  show mi: "mi \<in> underway S" using sub by simp
  have "importer_ok L {mi} (taken_out mi (is_importer S))"
  proof -
    obtain lf where lf: "im_log (is_importer S) = Some lf" "distinct (line_indices (lr_rest lf))" "set (lr_rest lf) \<subseteq> set L"
      and dis: "set (line_indices (lr_rest lf)) \<inter> underway S = {}"
      using run by (auto simp: running_defs log_ok_def)
    have "set (line_indices (lr_rest lf)) \<inter> (hm_keys (im_progress (taken_out mi (is_importer S))) \<union> {mi}) = {}"
      using dis mi by (simp add: taken_out_def del: Int_insert_right) blast
    hence "log_ok L {mi} (taken_out mi (is_importer S))" using lf by (simp add: log_ok_def taken_out_def)
    moreover have "hm_keys (im_sizes (is_importer S)) = underway S" "im_handle (is_importer S) = (\<not> im_stopping (is_importer S))"
      using run by (simp_all add: running_defs)
    ultimately show ?thesis using mi by (auto simp: importer_ok_def taken_out_def)
  qed
  moreover have "tasks_ok (S\<lparr>is_inbox := evs, is_importer := taken_out mi (is_importer S)\<rparr>)"
  proof -
    let ?T = "S\<lparr>is_inbox := evs, is_importer := taken_out mi (is_importer S)\<rparr>"
    have t: "tasks ?T = tasks (S\<lparr>is_inbox := evs\<rparr>)" by (simp add: tasks_def)
    have u: "underway ?T = underway S - {mi}" "im_stopping (is_importer ?T) = im_stopping (is_importer S)"
      by (simp_all add: taken_out_def)
    show ?thesis unfolding tasks_ok_def t u
    proof (intro conjI impI)
      show "distinct (tasks (S\<lparr>is_inbox := evs\<rparr>))" using d by simp
      show "set (tasks (S\<lparr>is_inbox := evs\<rparr>)) \<subseteq> underway S - {mi}" using d sub unfolding distinct.simps list.set by blast
      show "underway S - {mi} \<subseteq> set (tasks (S\<lparr>is_inbox := evs\<rparr>))" if "\<not> im_stopping (is_importer S)"
        using all [OF that] unfolding list.set by blast
    qed
  qed
  moreover have "progress_ok env L (S\<lparr>is_inbox := evs, is_importer := taken_out mi (is_importer S)\<rparr>)"
    unfolding progress_ok_def
  proof (intro allI impI)
    fix m ms ar
    assume "hm_get (im_progress (is_importer (S\<lparr>is_inbox := evs, is_importer := taken_out mi (is_importer S)\<rparr>))) m = Some (ms, ar)"
    hence "hm_get (im_progress (is_importer S)) m = Some (ms, ar)" by (simp add: taken_out_def split: if_splits)
    then obtain taken where "of_line L m (taken @ ms) ar" "batch_carries env S m taken"
      using run unfolding running_def progress_ok_def by blast
    thus "\<exists>taken. of_line L m (taken @ ms) ar \<and>
        batch_carries env (S\<lparr>is_inbox := evs, is_importer := taken_out mi (is_importer S)\<rparr>) m taken"
      by (auto simp: batch_carries_def inbox)
  qed
  moreover have "safe env L (S\<lparr>is_inbox := evs, is_importer := taken_out mi (is_importer S)\<rparr>)"
    using run by (simp add: running_def safe_def workers_safe_def synced_safe_def batches_plain_def)
  moreover have "im_out (taken_out mi (is_importer S)) = []" using run by (simp add: running_def taken_out_def)
  ultimately show "running env L {mi} (S\<lparr>is_inbox := evs, is_importer := taken_out mi (is_importer S)\<rparr>)"
    by (simp add: running_def)
qed

section \<open>Delivery\<close>

lemma put_importer_exit: "put_importer x s S = (put_importer None s S)\<lparr>is_exit := x\<rparr>"
  by (simp add: put_importer_def launch_all_frame)

lemma import_invI:
  assumes "running env L {} (put_importer None s S)" and "x \<noteq> Some Panicked"
    and "x = None \<Longrightarrow> \<not> im_stopping s \<Longrightarrow> im_progress s \<noteq> []"
  shows "import_inv env L (put_importer x s S)"
proof -
  have run: "running env L {} (put_importer x s S)" using assms(1) by (subst put_importer_exit) simp
  hence "safe env L (put_importer x s S)" by (simp add: running_def)
  thus ?thesis using assms by (simp add: import_inv_def)
qed

lemma import_inv_aborted:
  assumes "running env L X (put_importer None s S)"
  shows "import_inv env L (put_importer (Some Aborted) s S)"
proof -
  have "safe env L (put_importer (Some Aborted) s S)" using assms by (subst put_importer_exit) (simp add: running_def)
  thus ?thesis by (simp add: import_inv_def)
qed

text \<open>An event that asks for nothing: there is none about a milestone, or the importer is stopping.\<close>

lemma drop_event:
  assumes run: "running env L {} S" and inbox: "is_inbox S = ev # evs"
    and "event_index ev = [] \<or> im_stopping (is_importer S)"
  shows "running env L {} (S\<lparr>is_inbox := evs\<rparr>)"
proof -
  have m: "mset (tasks S) = mset (event_index ev @ tasks (S\<lparr>is_inbox := evs\<rparr>))" by (simp add: mset_tasks inbox)
  have "tasks_ok (S\<lparr>is_inbox := evs\<rparr>)"
    using assms mset_eq_setD [OF m] mset_eq_imp_distinct_iff [OF m] by (auto simp: running_def tasks_ok_def)
  moreover have "progress_ok env L (S\<lparr>is_inbox := evs\<rparr>)"
  proof -
    have "batch_carries env (S\<lparr>is_inbox := evs\<rparr>) mi taken" if "batch_carries env S mi taken" for mi taken
      by (rule carries_more [OF that]) (auto simp: inbox)
    thus ?thesis using run by (auto simp: running_def progress_ok_def) blast
  qed
  ultimately show ?thesis
    using run by (simp add: running_def safe_def workers_safe_def synced_safe_def batches_plain_def)
qed

lemma log_ok_mono:
  assumes "log_ok L X s" and "im_log s' = im_log s" and "hm_keys (im_progress s') \<union> Y \<subseteq> hm_keys (im_progress s) \<union> X"
  shows "log_ok L Y s'"
proof -
  obtain lf where lf: "im_log s = Some lf" "distinct (line_indices (lr_rest lf))" "set (lr_rest lf) \<subseteq> set L"
    "set (line_indices (lr_rest lf)) \<inter> (hm_keys (im_progress s) \<union> X) = {}"
    using assms(1) unfolding log_ok_def by blast
  have "set (line_indices (lr_rest lf)) \<inter> (hm_keys (im_progress s') \<union> Y) = {}" using lf(4) assms(3) by blast
  thus ?thesis using lf(1-3) assms(2) unfolding log_ok_def by metis
qed

lemma deliver_imported:
  assumes env: "reliable env" and run: "running env L {} S"
    and inbox: "is_inbox S = ImCqlResult (Inr mi) # evs"
  shows "ok_or_crash env L (handle_imported env mi (is_importer S)) (\<lambda>x s. import_inv env L (put_importer x s (S\<lparr>is_inbox := evs\<rparr>)))"
proof -
  let ?i = "is_importer S" and ?S = "S\<lparr>is_inbox := evs\<rparr>"
  have ev: "event_index (ImCqlResult (Inr mi)) = [mi]" by simp
  note take = take_event [OF run inbox ev]
  have sizes: "hm_keys (im_sizes ?i) = hm_keys (im_progress ?i)" using run by (simp add: running_defs)
  obtain e where e: "hm_get (im_progress ?i) mi = Some e" using take(1) by (cases "hm_get (im_progress ?i) mi") (auto simp: map_of_eq_None_iff)
  obtain n where n: "hm_get (im_sizes ?i) mi = Some n" using take(1) sizes by (cases "hm_get (im_sizes ?i) mi") (auto simp: map_of_eq_None_iff)
  let ?t = "?i\<lparr>im_progress := hm_remove mi (im_progress ?i), im_sizes := hm_remove mi (im_sizes ?i)\<rparr>"
  let ?s = "im_emit [ProgressBar mi n False] ?t"
  have out: "im_out ?i = []" using run by (simp add: running_def)
  have "put_importer None ?s ?S = (put_importer None ?i ?S)\<lparr>is_importer := quiet ?s, is_exit := None\<rparr>"
    by (rule put_importer_same [of _ _ "[ProgressBar mi n False]"]) (simp_all add: im_emit_def)
  also have "put_importer None ?i ?S = ?S\<lparr>is_importer := ?i, is_exit := None\<rparr>" by (rule put_importer_quiet [OF out])
  finally have put: "put_importer None ?s ?S = ?S\<lparr>is_importer := quiet ?s, is_exit := None\<rparr>" by simp
  have "importer_ok L {} (quiet ?s)"
  proof -
    have "log_ok L {mi} (taken_out mi ?i)" using take(2) by (simp add: running_defs)
    hence "log_ok L {} (quiet ?s)" by (rule log_ok_mono) (auto simp: taken_out_def im_emit_def)
    moreover have "im_handle ?i = (\<not> im_stopping ?i)" using run by (simp add: running_defs)
    ultimately show ?thesis using sizes by (simp add: importer_ok_def im_emit_def)
  qed
  hence "running env L {} ((?S\<lparr>is_importer := taken_out mi ?i\<rparr>)\<lparr>is_importer := quiet ?s\<rparr>)"
    by (intro running_importer [OF take(2)]) (simp_all add: taken_out_def im_emit_def)
  hence run1: "running env L {} (put_importer None ?s ?S)" unfolding put by simp
  show ?thesis
  proof (cases "im_stopping ?i")
    case True
    hence "handle_imported env mi ?i = Inr (None, ?s)" using e n by (simp add: handle_imported_def im_emit_def)
    moreover have "import_inv env L (put_importer None ?s ?S)"
      by (rule import_invI [OF run1]) (use True in \<open>simp_all add: im_emit_def\<close>)
    ultimately show ?thesis by simp
  next
    case False
    obtain res s' where nx: "next_milestone env ?s = (res, s')" by fastforce
    note step = next_milestone_running [OF run1 nx]
    have stop: "\<not> im_stopping s'" using step(4) False by (simp add: im_emit_def)
    have eq: "handle_imported env mi ?i =
        (case res of Inl e \<Rightarrow> Inr (Some Aborted, s')
         | Inr (Some md) \<Rightarrow> aborts (im_handle_milestone_data env md s')
         | Inr None \<Rightarrow> Inr (if im_progress s' = [] then Some Finished else None, s'))"
      using e n False nx by (simp add: handle_imported_def im_emit_def)
    show ?thesis
    proof (cases res)
      case (Inl e)
      thus ?thesis using import_inv_aborted [OF step(1)] eq by auto
    next
      case (Inr opt)
      show ?thesis
      proof (cases opt)
        case None
        have "running env L {} (put_importer None s' ?S)" using step(1) Inr None by simp
        hence "import_inv env L (put_importer (if im_progress s' = [] then Some Finished else None) s' ?S)"
          by (rule import_invI) auto
        thus ?thesis using eq Inr None by auto
      next
        case (Some md)
        have "running env L {ms_index md} (put_importer None s' ?S)" "Line md \<in> set L" using step(1, 2) Inr Some by simp_all
        from handle_md_running [OF this(1) env this(2) stop] show ?thesis
        proof (cases rule: ok_or_crashE)
          case panics
          thus ?thesis using eq Inr Some by (simp add: aborts_def)
        next
          case (goes_on e s2)
          show ?thesis
          proof (cases e)
            case None
            hence "import_inv env L (put_importer None s2 ?S)" using goes_on(2) import_invI by auto
            thus ?thesis using eq Inr Some goes_on(1) None by (simp add: aborts_def)
          next
            case (Some a)
            hence "import_inv env L (put_importer (Some Aborted) s2 ?S)" using goes_on(2) import_inv_aborted [OF step(1)] by simp
            thus ?thesis using eq Inr \<open>opt = Some md\<close> goes_on(1) Some by (simp add: aborts_def)
          qed
        qed
      qed
    qed
  qed
qed

lemma deliver_process_more:
  assumes env: "reliable env" and run: "running env L {} S"
    and inbox: "is_inbox S = ProcessMore mi # evs" and ne: "\<not> im_stopping (is_importer S) \<longrightarrow> im_progress (is_importer S) \<noteq> []"
  shows "ok_or_crash env L (handle_process_more env mi (is_importer S)) (\<lambda>x s. import_inv env L (put_importer x s (S\<lparr>is_inbox := evs\<rparr>)))"
proof -
  let ?i = "is_importer S" and ?S = "S\<lparr>is_inbox := evs\<rparr>"
  have out: "im_out ?i = []" using run by (simp add: running_def)
  show ?thesis
  proof (cases "im_stopping ?i")
    case True
    hence "running env L {} ?S" using drop_event [OF run inbox] by simp
    hence "import_inv env L (put_importer None ?i ?S)"
      by (intro import_invI) (simp_all add: put_importer_quiet out True)
    thus ?thesis using True by (simp add: handle_process_more_def)
  next
    case False
    have ev: "event_index (ProcessMore mi) = [mi]" by simp
    note take = take_event [OF run inbox ev]
    obtain ms ar where get: "hm_get (im_progress ?i) mi = Some (ms, ar)"
      using take(1) by (cases "hm_get (im_progress ?i) mi") (auto simp: map_of_eq_None_iff)
    obtain taken where line: "of_line L mi (taken @ ms) ar" and carries: "batch_carries env S mi taken"
      using run get unfolding running_def progress_ok_def by blast
    have written: "rows_of env taken \<subseteq> set (is_accepted S)" using carries inbox by (simp add: batch_carries_def)
    let ?t = "taken_out mi ?i"
    have handle: "im_handle ?t" using run False by (simp add: running_defs taken_out_def)
    have outt: "im_out ?t = []" using out by (simp add: taken_out_def)
    have put: "put_importer None ?t ?S = ?S\<lparr>is_importer := ?t, is_exit := None\<rparr>" by (rule put_importer_quiet [OF outt])
    have runt: "running env L {mi} (put_importer None ?t ?S)" unfolding put using take(2) by simp
    have acc: "rows_of env taken \<subseteq> set (is_accepted (put_importer None ?t ?S))" unfolding put using written by simp
    have q: "quiet ?t = ?t" using outt by simp
    have neq: "im_progress (in_progress mi ms' ar t) \<noteq> []" for ms' t by (cases "im_progress t") (auto simp: in_progress_def)
    show ?thesis
    proof (cases "ms = []")
      case True
      let ?w = "AnalyzeAndSync ar False \<lparr>milestone_index = mi, synced_by = Some (im_chronicle_id ?t), logged_by = Some (im_chronicle_id ?t)\<rparr> (im_retries ?t)"
      have "running env L {} (put_importer None (in_progress mi ms ar (im_emit [SendWorker ?w] ?t)) ?S)"
        unfolding put_importer_started
        using start_worker [OF runt line acc, of ?w "im_retries ?t"] True by simp
      hence "import_inv env L (put_importer None (in_progress mi ms ar (im_emit [SendWorker ?w] ?t)) ?S)"
        by (rule import_invI) (simp_all add: neq)
      moreover have "handle_process_more env mi ?i = Inr (None, in_progress mi ms ar (im_emit [SendWorker ?w] ?t))"
        using False get handle True env by (simp add: handle_process_more_def taken_out_def reliable_def)
      ultimately show ?thesis by simp
    next
      case ms: False
      obtain md where md: "Line md \<in> set L" "ms_messages md = taken @ ms" using line by (auto simp: of_line_def)
      show ?thesis
      proof (cases rule: insert_some_messages_cases [OF env handle, of mi ms])
        case (1 m)
        hence "crashing_line env L" using crashing_lineI [OF md(1), of m env] by (simp add: md(2))
        thus ?thesis using False get handle ms 1(1) by (simp add: handle_process_more_def taken_out_def)
      next
      case (2 rows)
      note ins = 2(1) and rows = 2(2, 3)
      have "running env L {} (put_importer None (in_progress mi (drop (unat (im_parallelism ?t)) ms) ar (im_emit [SendBatch mi rows] ?t)) ?S)"
        unfolding put_importer_started using start_batch [OF runt line acc rows, of "im_retries ?t"] by simp
      hence "import_inv env L (put_importer None (in_progress mi (drop (unat (im_parallelism ?t)) ms) ar (im_emit [SendBatch mi rows] ?t)) ?S)"
        by (rule import_invI) (simp_all add: neq)
      moreover have "handle_process_more env mi ?i = Inr (None, in_progress mi (drop (unat (im_parallelism ?t)) ms) ar (im_emit [SendBatch mi rows] ?t))"
        using False get handle ms ins by (simp add: handle_process_more_def taken_out_def)
      ultimately show ?thesis by simp
      qed
    qed
  qed
qed

lemma deliver_inv:
  assumes env: "reliable env" and inv: "import_inv env L S"
    and go: "is_exit S = None" and inbox: "is_inbox S = ev # evs"
  shows "ok_or_crash env L (handle_importer_event env ev (is_importer S)) (\<lambda>x s. import_inv env L (put_importer x s (S\<lparr>is_inbox := evs\<rparr>)))"
proof -
  have run: "running env L {} S" and ne: "\<not> im_stopping (is_importer S) \<longrightarrow> im_progress (is_importer S) \<noteq> []"
    using inv go by (simp_all add: import_inv_def)
  have out: "im_out (is_importer S) = []" using run by (simp add: running_def)
  show ?thesis
  proof (cases ev rule: event_index.cases)
    case (1 mi)
    have "import_inv env L (put_importer (Some Aborted) (is_importer S) (S\<lparr>is_inbox := evs\<rparr>))"
      using run by (simp add: import_inv_def put_importer_quiet out running_def safe_def workers_safe_def synced_safe_def batches_plain_def)
    thus ?thesis using 1 by simp
  next
    case (2 mi)
    thus ?thesis using deliver_imported [OF env run] inbox by simp
  next
    case (3 mi)
    thus ?thesis using deliver_process_more [OF env run _ ne] inbox by simp
  next
    case 4
    let ?i = "(is_importer S)\<lparr>im_stopping := True, im_handle := False\<rparr>"
    have r: "running env L {} (S\<lparr>is_inbox := evs\<rparr>)" using drop_event [OF run inbox] 4 by simp
    have "importer_ok L {} ?i" using run by (simp add: running_defs log_ok_def)
    hence "running env L {} ((S\<lparr>is_inbox := evs\<rparr>)\<lparr>is_importer := ?i\<rparr>)"
      by (intro running_importer [OF r]) (simp_all add: out)
    hence "import_inv env L (put_importer None ?i (S\<lparr>is_inbox := evs\<rparr>))"
      by (intro import_invI) (simp_all add: put_importer_quiet out)
    thus ?thesis using 4 by simp
  qed
qed

section \<open>Every run\<close>

inductive_cases import_run_cases: "import_run env ls S S'"

lemma import_step_inv:
  assumes "import_step env l S S'" and "reliable env" and "well_framed l" and "import_inv env L S"
  shows "import_inv env L S'"
  using assms
proof (induction rule: import_step.induct)
  case (reply_batch k S mi err ws j r ws' err')
  hence "batch_reply env S k j r (mi, err, ws) ws' err' (fly (batch_left (mi, err \<or> err', remove_nth j ws @ ws'))
         (accept r (rw_row (ws ! j)) (S\<lparr>is_batches := remove_nth k (is_batches S)\<rparr>)))"
    by (simp add: batch_reply_def)
  from batch_keeps_safe [OF this] batch_keeps_running [OF this] show ?case
    using reply_batch.prems(3) by (simp add: import_inv_def)
next
  case (reply_worker k S r ws' evs)
  have "r \<noteq> BadFrame" using reply_worker.prems(2) by simp
  from worker_keeps_safe [OF reply_worker.hyps refl] worker_keeps_running [OF reply_worker.prems(1) this reply_worker.hyps refl]
  show ?case using reply_worker.prems(3) by (simp add: import_inv_def)
next
  case (deliver S ev evs x s)
  thus ?case using deliver_inv [OF deliver.prems(1, 3) deliver.hyps(1, 2)] by simp
next
  case (deliver_panic S ev evs e)
  hence "crashing_line env L" using deliver_inv [OF deliver_panic.prems(1, 3) deliver_panic.hyps(1, 2)] by simp
  thus ?case
    using deliver_panic.prems(3) by (simp add: import_inv_def safe_def workers_safe_def synced_safe_def batches_plain_def)
next
  case (ask_shutdown S)
  have "running env L {} (S\<lparr>is_inbox := is_inbox S @ [ImShutdown]\<rparr>)" if "running env L {} S"
    using that by (simp add: running_def tasks_ok_def tasks_def progress_ok_def batch_carries_def safe_def workers_safe_def
        synced_safe_def batches_plain_def)
  moreover have "safe env L (S\<lparr>is_inbox := is_inbox S @ [ImShutdown]\<rparr>)" if "safe env L S"
    using that by (simp add: safe_def workers_safe_def synced_safe_def batches_plain_def)
  ultimately show ?case using ask_shutdown by (simp add: import_inv_def)
qed

lemma import_run_inv:
  assumes "import_run env ls S S'" and "reliable env" and "\<forall>l\<in>set ls. well_framed l"
    and "import_inv env L S"
  shows "import_inv env L S'"
  using assms
proof (induction rule: import_run.induct)
  case (run_snoc ls S S' l S'')
  thus ?case using import_step_inv [OF run_snoc.hyps(2)] by simp
qed

text \<open>The start.\<close>

lemma init_importing_running:
  assumes "running env L {} (put_importer None s S)" and "reliable env" and "\<not> im_stopping s"
  shows "ok_or_crash env L (init_importing env n s)
    (\<lambda>e s'. case e of None \<Rightarrow> running env L {} (put_importer None s' S) \<and> (0 < n \<or> im_progress s \<noteq> [] \<longrightarrow> im_progress s' \<noteq> [] \<or> im_eof s')
     | Some _ \<Rightarrow> \<exists>X. running env L X (put_importer None s' S))"
  using assms(1, 3)
proof (induction n arbitrary: s)
  case 0
  thus ?case by simp
next
  case (Suc n)
  obtain res s1 where nx: "next_milestone env s = (res, s1)" by fastforce
  note step = next_milestone_running [OF Suc.prems(1) nx]
  show ?case
  proof (cases res)
    case (Inl e)
    thus ?thesis using nx step(1) by auto
  next
    case (Inr opt)
    show ?thesis
    proof (cases opt)
      case None
      let ?s = "s1\<lparr>im_eof := True\<rparr>"
      have run: "running env L {} (put_importer None s1 S)" using step(1) Inr None by simp
      have "put_importer None ?s S = (put_importer None s1 S)\<lparr>is_importer := quiet ?s, is_exit := None\<rparr>"
        by (rule put_importer_same [of _ _ "[]"]) simp_all
      moreover have "importer_ok L {} (quiet ?s)" using run by (simp add: running_defs log_ok_def)
      ultimately have "running env L {} (put_importer None ?s S)" using running_importer [OF run] by simp
      thus ?thesis using nx Inr None by simp
    next
      case (Some md)
      have "running env L {ms_index md} (put_importer None s1 S)" "Line md \<in> set L" "\<not> im_stopping s1"
        using step Inr Some Suc.prems(2) by simp_all
      from handle_md_running [OF this(1) assms(2) this(2) this(3)] show ?thesis
      proof (cases rule: ok_or_crashE)
        case panics
        thus ?thesis using nx Inr Some by simp
      next
        case (goes_on e s2)
        show ?thesis
        proof (cases e)
          case None
          hence r: "running env L {} (put_importer None s2 S)" "\<not> im_stopping s2" "im_progress s2 \<noteq> []"
            using goes_on(2) \<open>\<not> im_stopping s1\<close> by simp_all
          have "init_importing env (Suc n) s = init_importing env n s2" using nx Inr Some goes_on(1) None by simp
          moreover have "ok_or_crash env L (init_importing env n s2)
            (\<lambda>e s'. case e of None \<Rightarrow> running env L {} (put_importer None s' S) \<and> (0 < n \<or> im_progress s2 \<noteq> [] \<longrightarrow> im_progress s' \<noteq> [] \<or> im_eof s')
             | Some _ \<Rightarrow> \<exists>X. running env L X (put_importer None s' S))"
            by (rule Suc.IH [OF r(1, 2)])
          ultimately show ?thesis using r(3)
            by (cases "init_importing env n s2") (auto simp del: init_importing.simps split: option.splits)
        next
          case (Some a)
          thus ?thesis using goes_on nx Inr \<open>opt = Some md\<close> step(1) by auto
        qed
      qed
    qed
  qed
qed

lemma start_import_inv:
  assumes env: "reliable env" and d: "distinct (line_indices (lr_rest lf))" and par: "par \<noteq> Some 0"
  shows "import_inv env (lr_rest lf) (start_import env (Inr lf) fetched (new_importer mode retries resume rng par cid))"
proof -
  let ?n = "new_importer mode retries resume rng par cid"
  let ?S = "\<lparr>is_importer = ?n, is_exit = None, is_batches = [], is_workers = [], is_inbox = [], is_accepted = []\<rparr>"
  have ready: "running env (lr_rest lf) {} (put_importer None s ?S)"
    if "im_out s = []" "im_log s = Some lf" "im_progress s = []" "im_sizes s = []" "im_handle s" "\<not> im_stopping s" for s
    using that d by (simp add: put_importer_quiet running_defs log_ok_def tasks_def progress_ok_def safe_def workers_safe_def
        synced_safe_def batches_plain_def)
  have pos: "0 < unat (im_parallelism s)" if "im_parallelism s = im_parallelism ?n" for s
    using par that by (auto simp: new_importer_def unat_gt_0 split: option.splits)
  have go: "import_inv env (lr_rest lf) (case init_importing env (unat (im_parallelism s)) s of
        Inl e \<Rightarrow> ?S\<lparr>is_exit := Some Panicked\<rparr>
      | Inr (e, s) \<Rightarrow> put_importer (if e \<noteq> None then Some Aborted else if already_imported s then Some Finished else None) s ?S)"
    if s: "im_out s = []" "im_log s = Some lf" "im_progress s = []" "im_sizes s = []" "im_handle s" "\<not> im_stopping s"
      "im_parallelism s = im_parallelism ?n" for s
  proof -
    from init_importing_running [OF ready [OF s(1-6)] env s(6), of "unat (im_parallelism s)"] show ?thesis
    proof (cases rule: ok_or_crashE)
      case panics
      thus ?thesis by (simp add: import_inv_def safe_def workers_safe_def synced_safe_def batches_plain_def)
    next
      case (goes_on e s')
      show ?thesis
      proof (cases e)
        case None
        have "import_inv env (lr_rest lf) (put_importer (if already_imported s' then Some Finished else None) s' ?S)"
          by (rule import_invI) (use goes_on(2) None pos [OF s(7)] in \<open>auto simp: already_imported_def\<close>)
        thus ?thesis using goes_on(1) None by simp
      next
        case (Some a)
        then obtain X where "running env (lr_rest lf) X (put_importer None s' ?S)" using goes_on(2) by auto
        from import_inv_aborted [OF this] show ?thesis using goes_on(1) Some by simp
      qed
    qed
  qed
  have abort: "import_inv env (lr_rest lf) (put_importer (Some Aborted) s ?S)" if "im_out s = []" for s
    using that by (simp add: import_inv_def put_importer_quiet safe_def workers_safe_def synced_safe_def batches_plain_def)
  have new: "im_out ?n = []" "im_progress ?n = []" "im_sizes ?n = []" "im_handle ?n" "\<not> im_stopping ?n"
    by (simp_all add: new_importer_def)
  have first: "import_inv env (lr_rest lf) (case init_importing env (unat (im_parallelism ?n))
        (?n\<lparr>im_log_size := lf_len lf, im_from := lf_from lf, im_to := lf_to lf, im_sync_data := sd, im_log := Some lf\<rparr>) of
        Inl e \<Rightarrow> ?S\<lparr>is_exit := Some Panicked\<rparr>
      | Inr (e, s) \<Rightarrow> put_importer (if e \<noteq> None then Some Aborted else if already_imported s then Some Finished else None) s ?S)" for sd
    using go [of "?n\<lparr>im_log_size := lf_len lf, im_from := lf_from lf, im_to := lf_to lf, im_sync_data := sd, im_log := Some lf\<rparr>"] new by simp
  have keep: "?n\<lparr>im_log_size := lf_len lf, im_from := lf_from lf, im_to := lf_to lf, im_sync_data := im_sync_data ?n, im_log := Some lf\<rparr> =
      ?n\<lparr>im_log_size := lf_len lf, im_from := lf_from lf, im_to := lf_to lf, im_log := Some lf\<rparr>"
    by simp
  show ?thesis
    unfolding start_import_def importer_init_def Let_def
    using abort [of "?n\<lparr>im_log_size := lf_len lf, im_from := lf_from lf, im_to := lf_to lf\<rparr>"] first first [of "im_sync_data ?n", unfolded keep] new
    by (cases fetched) simp_all
qed

text \<open>
  C39. Let the log file have one line per milestone and the importer a positive parallelism, let the
  driver be able to build every statement again and deliver no malformed frame. Then, whatever
  errors the database answers and in whatever order its replies and events come: the importer panics
  only if the file has a message without a referencing milestone, without an unlock block for an
  input, or without a partition for its milestone; while it runs and was not told to stop, there is
  a worker in flight or an event in its inbox; and once the sync row of a milestone is accepted, the
  file has this milestone and all rows of all its messages and its analytic row were accepted.
  Without the conditions on the driver rows get lost (\<open>lost_row_goes_on\<close>).
\<close>

theorem importer_syncs_whole_milestones:
  assumes "reliable env" and "distinct (line_indices (lr_rest lf))" and "par \<noteq> Some 0"
    and run: "import_run env ls (start_import env (Inr lf) fetched (new_importer mode retries resume rng par cid)) S"
    and frames: "\<forall>l\<in>set ls. well_framed l"
  shows "(is_exit S = Some Panicked \<longrightarrow> crashing_line env (lr_rest lf)) \<and>
    (is_exit S = None \<and> \<not> im_stopping (is_importer S) \<longrightarrow> is_batches S \<noteq> [] \<or> is_workers S \<noteq> [] \<or> is_inbox S \<noteq> []) \<and>
    (\<forall>sr. Ins_sync sr \<in> set (is_accepted S) \<longrightarrow>
      (\<exists>md ar. Line md \<in> set (lr_rest lf) \<and> ms_index md = milestone_index sr \<and> get_analytic_record md = Inr ar \<and>
        rows_of env (ms_messages md) \<union> {Ins_analytic ar} \<subseteq> set (is_accepted S)))"
proof -
  have inv: "import_inv env (lr_rest lf) S"
    using import_run_inv [OF run assms(1) frames] start_import_inv [OF assms(1-3)] by blast
  have busy: "is_batches S \<noteq> [] \<or> is_workers S \<noteq> [] \<or> is_inbox S \<noteq> []"
    if "is_exit S = None" "\<not> im_stopping (is_importer S)"
  proof -
    have "underway S \<noteq> {}" "underway S \<subseteq> set (tasks S)" using inv that by (auto simp: import_inv_def running_defs)
    hence "tasks S \<noteq> []" by auto
    thus ?thesis by (auto simp: tasks_def)
  qed
  have synced: "synced_safe env (lr_rest lf) S" using inv by (simp add: import_inv_def safe_def)
  have whole: "\<exists>md ar. Line md \<in> set (lr_rest lf) \<and> ms_index md = milestone_index sr \<and> get_analytic_record md = Inr ar \<and>
        rows_of env (ms_messages md) \<union> {Ins_analytic ar} \<subseteq> set (is_accepted S)"
    if sr: "Ins_sync sr \<in> set (is_accepted S)" for sr
  proof -
    obtain ms ar where "of_line (lr_rest lf) (milestone_index sr) ms ar" "rows_of env ms \<subseteq> set (is_accepted S)" "Ins_analytic ar \<in> set (is_accepted S)"
      using synced sr unfolding synced_safe_def by blast
    thus ?thesis unfolding of_line_def by auto
  qed
  show ?thesis using inv busy whole by (simp add: import_inv_def)
qed

text \<open>The steps, computed.\<close>

definition import_next :: "importer_env \<Rightarrow> import_label \<Rightarrow> import_system \<Rightarrow> import_system option" where
  "import_next env l S =
     (case l of
        BatchReply k j r \<Rightarrow>
          (if k < length (is_batches S)
           then (case is_batches S ! k of (mi, err, ws) \<Rightarrow>
                   if j < length ws
                   then (case row_reply env r (ws ! j) of (ws', err') \<Rightarrow>
                           Some (fly (batch_left (mi, err \<or> err', remove_nth j ws @ ws'))
                             (accept r (rw_row (ws ! j)) (S\<lparr>is_batches := remove_nth k (is_batches S)\<rparr>))))
                   else None)
           else None)
      | WorkerReply k r \<Rightarrow>
          (if k < length (is_workers S)
           then (case worker_reply env r (is_workers S ! k) of (ws', evs) \<Rightarrow>
                   Some (accept r (worker_row (is_workers S ! k))
                     (S\<lparr>is_workers := remove_nth k (is_workers S) @ ws', is_inbox := is_inbox S @ evs\<rparr>)))
           else None)
      | Deliver \<Rightarrow>
          (case (is_exit S, is_inbox S) of
             (None, ev # evs) \<Rightarrow>
               Some (case handle_importer_event env ev (is_importer S) of
                       Inl e \<Rightarrow> S\<lparr>is_inbox := evs, is_exit := Some Panicked\<rparr>
                     | Inr (x, s) \<Rightarrow> put_importer x s (S\<lparr>is_inbox := evs\<rparr>))
           | _ \<Rightarrow> None)
      | AskShutdown \<Rightarrow> Some (S\<lparr>is_inbox := is_inbox S @ [ImShutdown]\<rparr>))"

lemma import_next_step: "import_next env l S = Some S' \<Longrightarrow> import_step env l S S'"
  by (cases l) (auto simp: import_next_def simp del: batch_left.simps intro: import_step.intros split: if_splits prod.splits option.splits list.splits sum.splits)

lemma import_step_next: "import_step env l S S' \<Longrightarrow> import_next env l S = Some S'"
  by (induction rule: import_step.induct) (auto simp: import_next_def)

fun import_all :: "importer_env \<Rightarrow> import_label list \<Rightarrow> import_system \<Rightarrow> import_system option" where
  "import_all env [] S = Some S"
| "import_all env (l # ls) S = (case import_next env l S of None \<Rightarrow> None | Some S \<Rightarrow> import_all env ls S)"

lemma import_run_append: "import_run env ls' S' S'' \<Longrightarrow> import_run env ls S S' \<Longrightarrow> import_run env (ls @ ls') S S''"
  by (induction arbitrary: ls S rule: import_run.induct) (auto simp flip: append_assoc intro: import_run.intros)

lemma import_all_run: "import_all env ls S = Some S' \<Longrightarrow> import_run env ls S S'"
proof (induction ls arbitrary: S)
  case Nil
  thus ?case by (simp add: run_nil)
next
  case (Cons l ls)
  then obtain S1 where "import_next env l S = Some S1" "import_all env ls S1 = Some S'" by (auto split: option.splits)
  hence "import_step env l S S1" "import_run env ls S1 S'" by (auto intro: import_next_step Cons.IH)
  from import_run_append [OF this(2) run_snoc [OF run_nil this(1)]] show ?case by simp
qed

text \<open>One milestone with one message; the sync row is accepted although two tries fail.\<close>

definition small_milestone :: milestone_data where
  "small_milestone =
     \<lparr>ms_index = 5, ms_milestone = Some \<lparr>mp_index = 5, mp_timestamp = 0, mp_parents = []\<rparr>,
      ms_messages = [(9, FullMessage \<lparr>msg_parents = [], msg_payload = None, msg_nonce = 0\<rparr> (metadata_at 5 9))],
      ms_pending = [], ms_created_by = Incoming\<rparr>"

definition small_log :: log_reader where
  "small_log = \<lparr>lf_len = 8, lf_filename = LogName 5 6, lf_from = 5, lf_to = 6, lf_upper = 6, lf_corrupted = False,
     lf_finished = False, lr_rest = [Line small_milestone], lr_faults = []\<rparr>"

abbreviation small_labels :: "import_label list" where
  "small_labels \<equiv> [BatchReply 0 0 (CqlError True), BatchReply 0 0 (CqlError False), BatchReply 0 0 Accepted, Deliver,
     WorkerReply 0 Accepted, WorkerReply 0 (CqlError False), WorkerReply 0 Accepted, Deliver]"

abbreviation small_import :: import_system where
  "small_import \<equiv> start_import plain_importer_env (Inr small_log) (Inr default_sync_data)
     (new_importer All_Mode None None None None 1)"

theorem importer_syncs_whole_milestones_witness:
  "case import_all plain_importer_env small_labels small_import of
     None \<Rightarrow> False
   | Some S \<Rightarrow> is_exit S = Some Finished \<and>
       Ins_sync \<lparr>milestone_index = 5, synced_by = Some 1, logged_by = Some 1\<rparr> \<in> set (is_accepted S) \<and>
       rows_of plain_importer_env (ms_messages small_milestone) \<subseteq> set (is_accepted S)"
proof -
  have "(case import_all plain_importer_env small_labels small_import of None \<Rightarrow> False
      | Some S \<Rightarrow> is_exit S = Some Finished \<and>
          Ins_sync \<lparr>milestone_index = 5, synced_by = Some 1, logged_by = Some 1\<rparr> \<in> set (is_accepted S))"
    by code_simp
  then obtain S where all: "import_all plain_importer_env small_labels small_import = Some S" and fin: "is_exit S = Some Finished"
    and sync: "Ins_sync \<lparr>milestone_index = 5, synced_by = Some 1, logged_by = Some 1\<rparr> \<in> set (is_accepted S)"
    by (auto simp del: import_all.simps split: option.splits)
  have "reliable plain_importer_env" by (simp add: reliable_def plain_importer_env_def)
  moreover have "distinct (line_indices (lr_rest small_log))" by (simp add: small_log_def)
  moreover have "(None :: u8 option) \<noteq> Some 0" by simp
  moreover have "\<forall>l\<in>set small_labels. well_framed l" by simp
  ultimately have "\<forall>sr. Ins_sync sr \<in> set (is_accepted S) \<longrightarrow>
      (\<exists>md ar. Line md \<in> set (lr_rest small_log) \<and> ms_index md = milestone_index sr \<and> get_analytic_record md = Inr ar \<and>
        rows_of plain_importer_env (ms_messages md) \<union> {Ins_analytic ar} \<subseteq> set (is_accepted S))"
    using importer_syncs_whole_milestones [OF _ _ _ import_all_run [OF all]] by blast
  hence "rows_of plain_importer_env (ms_messages small_milestone) \<subseteq> set (is_accepted S)"
    using sync by (auto simp: small_log_def)
  with all fin sync show ?thesis by (simp del: import_all.simps)
qed

text \<open>
  Without these conditions rows get lost: a malformed frame, or a retry that cannot be built, drops
  the worker of a row without the flag, and the importer goes on as if the row were written.
\<close>

lemma lost_row_goes_on:
  assumes "is_batches S = [(mi, False, [w])]"
  shows "import_step env (BatchReply 0 0 BadFrame) S (S\<lparr>is_batches := [], is_inbox := is_inbox S @ [ProcessMore mi]\<rparr>)"
  using assms by (intro import_next_step) (simp add: import_next_def row_reply_def remove_nth_def accept_def fly_def)

text \<open>Why a message makes the importer panic.\<close>

lemma in_partition_crash:
  "Crash \<in> set (im_in_partition env mi rows) \<Longrightarrow> partition_id (ie_partition_config env) mi = Inl Panic \<or> (\<exists>pid. Crash \<in> set (rows pid))"
  by (auto simp: im_in_partition_def partition_id_def split: sum.splits if_splits)

fun payload_lacks_unlock :: "payload \<Rightarrow> bool" where
  "payload_lacks_unlock (Transaction_P ins outs p ubs) \<longleftrightarrow>
     length ubs < length ins \<or> (case p of None \<Rightarrow> False | Some q \<Rightarrow> payload_lacks_unlock q)"
| "payload_lacks_unlock p \<longleftrightarrow> False"

lemma payload_crash:
  "Crash \<in> set (im_insert_payload env i m mi st meta p) \<Longrightarrow>
     partition_id (ie_partition_config env) mi = Inl Panic \<or> payload_lacks_unlock p"
proof (induction p)
  case (Transaction_P ins outs p ubs)
  have "partition_id (ie_partition_config env) mi = Inl Panic \<or> length ubs < length ins"
    if "Crash \<in> set (im_insert_transaction env i t ins outs ubs mi st)" for t
  proof -
    have inp: "length ubs < length ins" if "Crash \<in> set (im_input_rows i t ubs st conf (k, inp))" "(k, inp) \<in> set (enumerate 0 ins)" for conf k inp
      using that by (auto simp: im_input_rows_def im_insert_input_def im_insert_unlock_def in_set_enumerate_eq split: input_t.splits if_splits)
    have out: "partition_id (ie_partition_config env) mi = Inl Panic" if "Crash \<in> set (im_insert_address env out t k mi st)" for out k
      using in_partition_crash that unfolding im_insert_address_def by (fastforce simp: Let_def split: output_t.splits)
    show ?thesis using that inp out by (auto simp: im_insert_transaction_def Let_def im_insert_output_def)
  qed
  then show ?case using Transaction_P by (cases p) auto
next
  case (Indexation_P x d)
  then show ?case using in_partition_crash by (fastforce simp: im_insert_index_def)
qed (auto split: if_splits)

lemma crash_reasons:
  assumes "Crash \<in> set (message_rows env (i, fm))"
  shows "case md_referenced_by (fm_metadata fm) of None \<Rightarrow> True
    | Some mi \<Rightarrow> partition_id (ie_partition_config env) mi = Inl Panic \<or>
        (case msg_payload (fm_message fm) of None \<Rightarrow> False | Some p \<Rightarrow> payload_lacks_unlock p)"
proof (cases "md_referenced_by (fm_metadata fm)")
  case (Some mi)
  have "partition_id (ie_partition_config env) mi = Inl Panic"
    if "Crash \<in> set (im_insert_parents env i ps mi st)" for ps st
    using in_partition_crash that unfolding im_insert_parents_def by fastforce
  then show ?thesis
    using assms Some payload_crash by (fastforce simp: message_rows_def Let_def split: option.splits)
qed simp

text \<open>A log line with a message that no milestone references: the importer panics as soon as it starts.\<close>

lemma unreferenced_message_panics:
  "is_exit (start_import plain_importer_env
     (Inr (small_log\<lparr>lr_rest := [Line (small_milestone\<lparr>ms_messages :=
        [(9, FullMessage \<lparr>msg_parents = [], msg_payload = None, msg_nonce = 0\<rparr> ((metadata_at 5 9)\<lparr>md_referenced_by := None\<rparr>))]\<rparr>)]\<rparr>))
     (Inr default_sync_data) (new_importer All_Mode None None None None 1)) = Some Panicked"
  by code_simp

text \<open>The worker of the analytic and the sync row is dropped without an answer: its milestone stays in progress for good.\<close>

lemma lost_worker_is_silent:
  assumes "is_workers S = [w]"
  shows "import_step env (WorkerReply 0 BadFrame) S (S\<lparr>is_workers := []\<rparr>)"
  using assms by (cases w; intro import_next_step) (simp_all add: import_next_def worker_reply_defs remove_nth_def accept_def)

end
