(* ===== verification/Archive_Import.thy ===== *)
theory Archive_Import
  imports Importer_Run
begin

text \<open>
  From the archiver to the importer: a log file that the archiver has finished is imported whole. The
  second invariant of the importer's runs, beside that of \<^verbatim>\<open>Importer_Run\<close>, accounts for every line of the
  file: its milestone is skipped, synced, in progress or still to be read.
\<close>

section \<open>Reading to the end\<close>

text \<open>A reader whose remaining length is that of its remaining lines does not stop early.\<close>

definition sized :: "importer_env \<Rightarrow> log_reader \<Rightarrow> bool" where
  "sized env lf \<longleftrightarrow>
     unat (lf_len lf) = sum_list (map (\<lambda>l. unat (ie_line_len env l)) (lr_rest lf)) \<and>
     (\<forall>l\<in>set (lr_rest lf). 0 < ie_line_len env l)"

lemma sized_next:
  assumes "sized env lf" and "log_next (ie_line_len env) lf = (Inr opt, lf')"
  shows "sized env lf'" and "opt = None \<Longrightarrow> lr_rest lf = [] \<and> lr_rest lf' = []"
proof -
  have "lr_rest lf = []" if "lf_len lf = 0"
    using assms(1) that by (cases "lr_rest lf") (auto simp: sized_def unat_eq_0 word_gt_0)
  then show "opt = None \<Longrightarrow> lr_rest lf = [] \<and> lr_rest lf' = []"
    using assms(2) by (auto simp: log_next_def Let_def split: if_splits list.splits log_line.splits)
  have sub: "unat (a - b) = unat a - unat b" if "unat b \<le> unat a" for a b :: u64
    using that by (simp add: unat_sub word_le_nat_alt)
  show "sized env lf'"
    using assms by (auto simp: log_next_def Let_def sized_def sub split: if_splits list.splits log_line.splits)
qed

lemma to_be_skipped_frame [simp]:
  "to_be_skipped (im_emit os s) = to_be_skipped s" "to_be_skipped (in_progress mi ms ar s) = to_be_skipped s"
  "to_be_skipped (s\<lparr>im_log := l\<rparr>) = to_be_skipped s" "to_be_skipped (s\<lparr>im_out := os\<rparr>) = to_be_skipped s"
  "to_be_skipped (s\<lparr>im_sizes := z\<rparr>) = to_be_skipped s" "to_be_skipped (s\<lparr>im_progress := p\<rparr>) = to_be_skipped s"
  "to_be_skipped (s\<lparr>im_eof := e\<rparr>) = to_be_skipped s"
  "to_be_skipped (s\<lparr>im_stopping := st, im_handle := h\<rparr>) = to_be_skipped s"
  by (simp_all add: to_be_skipped_def fun_eq_iff im_emit_def in_progress_def)

text \<open>What is still to be read, and what is still to be done.\<close>

definition unread :: "importer \<Rightarrow> u32 set" where
  "unread s = (case im_log s of None \<Rightarrow> {} | Some lf \<Rightarrow> set (line_indices (lr_rest lf)))"

definition steady :: "importer_env \<Rightarrow> (u32 \<Rightarrow> bool) \<Rightarrow> u8 \<Rightarrow> importer \<Rightarrow> bool" where
  "steady env K cid s \<longleftrightarrow>
     im_mode s = All_Mode \<and> im_chronicle_id s = cid \<and> to_be_skipped s = K \<and> (\<exists>lf. im_log s = Some lf \<and> sized env lf)"

text \<open>The rows that the importer of a chronicle writes to the sync table.\<close>

definition full_row :: "u8 \<Rightarrow> u32 \<Rightarrow> sync_record" where
  "full_row cid mi = \<lparr>milestone_index = mi, synced_by = Some cid, logged_by = Some cid\<rparr>"

fun syncing :: "u8 \<Rightarrow> import_worker \<Rightarrow> bool" where
  "syncing cid (AnalyzeAndSync ar a sr n) = (sr = full_row cid (milestone_index sr))"
| "syncing cid (Analyze ar n) = False"

definition sends_syncing :: "u8 \<Rightarrow> importer \<Rightarrow> bool" where
  "sends_syncing cid s \<longleftrightarrow> (\<forall>w. SendWorker w \<in> set (im_out s) \<longrightarrow> syncing cid w)"

lemma importer_frame [simp]:
  "steady env K cid (in_progress mi ms ar s) = steady env K cid s" "steady env K cid (im_emit os s) = steady env K cid s"
  "steady env K cid (s\<lparr>im_progress := p\<rparr>) = steady env K cid s" "steady env K cid (s\<lparr>im_sizes := z\<rparr>) = steady env K cid s"
  "steady env K cid (s\<lparr>im_eof := e\<rparr>) = steady env K cid s"
  "unread (in_progress mi ms ar s) = unread s" "unread (im_emit os s) = unread s" "unread (s\<lparr>im_progress := p\<rparr>) = unread s"
  "unread (s\<lparr>im_sizes := z\<rparr>) = unread s" "unread (s\<lparr>im_eof := e\<rparr>) = unread s"
  "sends_syncing cid (in_progress mi ms ar s) = sends_syncing cid s"
  "sends_syncing cid (s\<lparr>im_progress := p\<rparr>) = sends_syncing cid s" "sends_syncing cid (s\<lparr>im_sizes := z\<rparr>) = sends_syncing cid s"
  "sends_syncing cid (s\<lparr>im_eof := e\<rparr>) = sends_syncing cid s"
  "hm_keys (im_progress (in_progress mi ms ar s)) = insert mi (hm_keys (im_progress s))"
  "im_progress (im_emit os s) = im_progress s" "im_eof (im_emit os s) = im_eof s" "im_eof (in_progress mi ms ar s) = im_eof s"
  by (auto simp: steady_def unread_def sends_syncing_def in_progress_def im_emit_def)

lemma sends_syncing_emit [simp]:
  "sends_syncing cid (im_emit os s) \<longleftrightarrow> sends_syncing cid s \<and> (\<forall>w. SendWorker w \<in> set os \<longrightarrow> syncing cid w)"
  by (auto simp: sends_syncing_def im_emit_def)

lemma next_milestone_data_reads:
  assumes "next_milestone_data env lf s = (Inr opt, s')" and "sized env lf"
    and "steady env K cid (s\<lparr>im_log := Some lf\<rparr>)" and "sends_syncing cid s"
  shows "steady env K cid s' \<and> sends_syncing cid s' \<and> im_progress s' = im_progress s \<and> im_stopping s' = im_stopping s \<and>
    im_eof s' = im_eof s \<and>
    (\<forall>mi\<in>set (line_indices (lr_rest lf)). K mi \<or> (\<exists>md. opt = Some md \<and> mi = ms_index md) \<or> mi \<in> unread s') \<and>
    (opt = None \<longrightarrow> unread s' = {})"
  using assms
proof (induction env lf s rule: next_milestone_data.induct)
  case (1 env lf s)
  obtain r lf' where nx: "log_next (ie_line_len env) lf = (r, lf')" by fastforce
  then obtain o' where r: "r = Inr o'" using 1(2) by (cases r) (auto simp: next_milestone_data.simps)
  note sized = sized_next [OF 1(3) nx [unfolded r]]
  show ?case
  proof (cases o')
    case None
    then have "opt = None" "s' = s\<lparr>im_log := Some lf'\<rparr>" using 1(2) nx r by (simp_all add: next_milestone_data.simps)
    then show ?thesis using sized None 1(4, 5) by (simp add: steady_def sends_syncing_def unread_def)
  next
    case (Some md)
    have rest: "lr_rest lf = Line md # lr_rest lf'" using log_next_rest nx r Some by simp
    show ?thesis
    proof (cases "to_be_skipped s (ms_index md)")
      case False
      then have "opt = Some md"
        "s' = s\<lparr>im_log := Some lf', im_sizes := hm_insert (ms_index md) (lf_len lf - lf_len lf') (im_sizes s)\<rparr>"
        using 1(2) nx r Some by (simp_all add: next_milestone_data.simps)
      then show ?thesis using sized(1) rest 1(4, 5) by (auto simp: steady_def sends_syncing_def unread_def)
    next
      case True
      let ?s = "im_emit [ProgressBar (ms_index md) (lf_len lf - lf_len lf') True] s"
      have "next_milestone_data env lf' ?s = (Inr opt, s')" using 1(2) nx r Some True by (simp add: next_milestone_data.simps)
      moreover have "steady env K cid (?s\<lparr>im_log := Some lf'\<rparr>)" "sends_syncing cid ?s" "K (ms_index md)"
        using 1(4, 5) sized(1) True by (auto simp: steady_def sends_syncing_def im_emit_def to_be_skipped_def)
      ultimately show ?thesis
        using 1(1) [OF nx [symmetric] r Some True] sized(1) rest by (auto simp: im_emit_def)
    qed
  qed
qed

lemma next_milestone_reads:
  assumes "next_milestone env s = (Inr opt, s')" and "steady env K cid s" and "sends_syncing cid s"
  shows "steady env K cid s'" "sends_syncing cid s'" "im_progress s' = im_progress s" "im_stopping s' = im_stopping s"
    "im_eof s' = im_eof s"
    "\<And>mi. mi \<in> unread s \<Longrightarrow> K mi \<or> (\<exists>md. opt = Some md \<and> mi = ms_index md) \<or> mi \<in> unread s'"
    "opt = None \<Longrightarrow> unread s' = {}"
proof -
  obtain lf where lf: "im_log s = Some lf" "sized env lf" using assms(2) by (auto simp: steady_def)
  have "s\<lparr>im_log := Some lf\<rparr> = s" using lf(1) by simp
  then have "steady env K cid (s\<lparr>im_log := Some lf\<rparr>)" using assms(2) by simp
  with next_milestone_data_reads [of env lf s opt s' K cid] lf assms
  show "steady env K cid s'" "sends_syncing cid s'" "im_progress s' = im_progress s" "im_stopping s' = im_stopping s"
    "im_eof s' = im_eof s"
    "\<And>mi. mi \<in> unread s \<Longrightarrow> K mi \<or> (\<exists>md. opt = Some md \<and> mi = ms_index md) \<or> mi \<in> unread s'"
    "opt = None \<Longrightarrow> unread s' = {}"
    by (auto simp: next_milestone_def unread_def)
qed

lemma next_milestone_frame:
  assumes "next_milestone env s = (res, s')"
  shows "sends_syncing cid s \<Longrightarrow> sends_syncing cid s'" "im_mode s' = im_mode s" "im_handle s' = im_handle s"
proof -
  have "\<exists>xs. im_out s' = im_out s @ xs \<and> (\<forall>x\<in>set xs. is_bar x) \<and> im_mode s' = im_mode s \<and> im_handle s' = im_handle s"
  proof (cases "im_log s")
    case None
    then show ?thesis using assms by (simp add: next_milestone_def)
  next
    case (Some lf)
    then have "next_milestone_data env lf s = (res, s')" using assms by (simp add: next_milestone_def)
    from next_milestone_data_result [OF this] obtain lf' xs where
      s': "s' = s\<lparr>im_log := Some lf', im_out := im_out s @ xs, im_sizes := im_sizes s'\<rparr>" and xs: "\<forall>x\<in>set xs. is_bar x"
      by blast
    show ?thesis using arg_cong [OF s', of im_out] arg_cong [OF s', of im_mode] arg_cong [OF s', of im_handle] xs by auto
  qed
  then show "sends_syncing cid s \<Longrightarrow> sends_syncing cid s'" "im_mode s' = im_mode s" "im_handle s' = im_handle s"
    by (fastforce simp: sends_syncing_def)+
qed

lemma handle_md_sends:
  "im_handle_milestone_data env md s = Inr (e, s') \<Longrightarrow> im_mode s = All_Mode \<Longrightarrow> sends_syncing cid s \<Longrightarrow> sends_syncing cid s'"
  by (auto simp: im_handle_milestone_data_def insert_some_messages_def Let_def rbind_Inr_iff
      split: sum.splits failure.splits if_splits option.splits prod.splits)

lemma handle_md_starts:
  assumes "im_handle_milestone_data env md s = Inr (None, s')" and "steady env K cid s" and "sends_syncing cid s"
  shows "steady env K cid s'" "sends_syncing cid s'" "unread s' = unread s" "im_eof s' = im_eof s"
    "hm_keys (im_progress s') = insert (ms_index md) (hm_keys (im_progress s))"
proof -
  have "im_mode s = All_Mode" using assms(2) by (simp add: steady_def)
  with assms(1) obtain ar ms rows where s': "s' = in_progress (ms_index md) ms ar (im_emit [SendBatch (ms_index md) rows] s)"
    by (auto simp: im_handle_milestone_data_def insert_some_messages_def Let_def rbind_Inr_iff split: sum.splits failure.splits if_splits option.splits prod.splits)
  show "steady env K cid s'" "sends_syncing cid s'" "unread s' = unread s" "im_eof s' = im_eof s"
    "hm_keys (im_progress s') = insert (ms_index md) (hm_keys (im_progress s))"
    using assms(2, 3) by (simp_all add: s')
qed

section \<open>Every line is accounted for\<close>

abbreviation synced :: "u8 \<Rightarrow> import_system \<Rightarrow> u32 \<Rightarrow> bool" where
  "synced cid S mi \<equiv> Ins_sync (full_row cid mi) \<in> set (is_accepted S)"

text \<open>An event that reports a milestone as imported comes after its sync row.\<close>

definition reports_ok :: "u8 \<Rightarrow> import_system \<Rightarrow> bool" where
  "reports_ok cid S \<longleftrightarrow>
     (\<forall>mi. ImCqlResult (Inr mi) \<in> set (is_inbox S) \<longrightarrow> synced cid S mi) \<and> (\<forall>w\<in>set (is_workers S). syncing cid w)"

definition accounted :: "importer_env \<Rightarrow> (u32 \<Rightarrow> bool) \<Rightarrow> u8 \<Rightarrow> log_line list \<Rightarrow> import_system \<Rightarrow> bool" where
  "accounted env K cid L S \<longleftrightarrow>
     steady env K cid (is_importer S) \<and> im_out (is_importer S) = [] \<and>
     (\<forall>mi\<in>set (line_indices L). K mi \<or> synced cid S mi \<or> mi \<in> underway S \<or> mi \<in> unread (is_importer S))"

definition complete_inv :: "importer_env \<Rightarrow> (u32 \<Rightarrow> bool) \<Rightarrow> u8 \<Rightarrow> log_line list \<Rightarrow> import_system \<Rightarrow> bool" where
  "complete_inv env K cid L S \<longleftrightarrow>
     reports_ok cid S \<and> (is_exit S = None \<longrightarrow> accounted env K cid L S) \<and>
     (is_exit S = Some Finished \<longrightarrow> (\<forall>mi\<in>set (line_indices L). K mi \<or> synced cid S mi))"

lemma launch_reports:
  assumes "reports_ok cid S" and "\<And>w. x = SendWorker w \<Longrightarrow> syncing cid w"
  shows "reports_ok cid (launch k x S) \<and> is_accepted (launch k x S) = is_accepted S"
  using assms by (cases x) (auto simp: reports_ok_def fly_def)

lemma put_reports:
  assumes "reports_ok cid S" and "sends_syncing cid s"
  shows "reports_ok cid (put_importer x s S)" and "is_accepted (put_importer x s S) = is_accepted S"
proof -
  have "reports_ok cid (fold (launch k) xs T) \<and> is_accepted (fold (launch k) xs T) = is_accepted T"
    if "reports_ok cid T" "\<forall>w. SendWorker w \<in> set xs \<longrightarrow> syncing cid w" for k xs T
    using that
  proof (induction xs arbitrary: T)
    case (Cons y ys)
    then show ?case using launch_reports [OF Cons.prems(1), of y k] by simp
  qed simp
  moreover have "reports_ok cid (S\<lparr>is_importer := quiet s, is_exit := x\<rparr>)" using assms(1) by (simp add: reports_ok_def)
  moreover have "\<forall>w. SendWorker w \<in> set (im_out s) \<longrightarrow> syncing cid w" using assms(2) by (simp add: sends_syncing_def)
  ultimately have "reports_ok cid (fold (launch (im_retries s)) (im_out s) (S\<lparr>is_importer := quiet s, is_exit := x\<rparr>)) \<and>
      is_accepted (fold (launch (im_retries s)) (im_out s) (S\<lparr>is_importer := quiet s, is_exit := x\<rparr>)) =
      is_accepted (S\<lparr>is_importer := quiet s, is_exit := x\<rparr>)" by blast
  then show "reports_ok cid (put_importer x s S)" "is_accepted (put_importer x s S) = is_accepted S"
    unfolding put_importer_def by simp_all
qed

lemma complete_put:
  assumes "reports_ok cid S" and "sends_syncing cid s"
    and "x = None \<Longrightarrow> steady env K cid s \<and>
      (\<forall>mi\<in>set (line_indices L). K mi \<or> synced cid S mi \<or> mi \<in> hm_keys (im_progress s) \<or> mi \<in> unread s)"
    and "x = Some Finished \<Longrightarrow> \<forall>mi\<in>set (line_indices L). K mi \<or> synced cid S mi"
  shows "complete_inv env K cid L (put_importer x s S)"
  using put_reports [OF assms(1, 2), of x] assms(3, 4)
  by (auto simp: complete_inv_def accounted_def steady_def unread_def)

lemma worker_reply_syncing:
  assumes "worker_reply env r w = (ws, evs)" and "syncing cid w"
  shows "\<forall>w'\<in>set ws. syncing cid w'"
    and "ImCqlResult (Inr mi) \<in> set evs \<Longrightarrow> r = Accepted \<and> worker_row w = Ins_sync (full_row cid mi)"
  using assms by (cases w; auto simp: worker_reply_defs split: db_reply.splits if_splits option.splits)+

lemma hm_keys_mem: "(k, v) \<in> set m \<Longrightarrow> k \<in> hm_keys m"
  by force

lemma process_more_accounts:
  assumes "handle_process_more env mi s = Inr (x, s')" and "steady env K cid s" and "sends_syncing cid s"
  shows "sends_syncing cid s'" "x \<noteq> Some Finished"
    and "x = None \<Longrightarrow> steady env K cid s' \<and> unread s' = unread s \<and> hm_keys (im_progress s) \<subseteq> hm_keys (im_progress s')"
proof -
  have row: "\<lparr>milestone_index = mi, synced_by = Some (im_chronicle_id s), logged_by = Some (im_chronicle_id s)\<rparr> = full_row cid mi"
    using assms(2) by (simp add: steady_def full_row_def)
  show "sends_syncing cid s'" "x \<noteq> Some Finished"
    "x = None \<Longrightarrow> steady env K cid s' \<and> unread s' = unread s \<and> hm_keys (im_progress s) \<subseteq> hm_keys (im_progress s')"
    using assms
    by (auto simp: handle_process_more_def insert_some_messages_def Let_def rbind_Inr_iff row full_row_def
        dest: hm_keys_mem split: if_splits option.splits prod.splits)
qed

lemma imported_accounts:
  assumes "handle_imported env mi s = Inr (x, s')" and "steady env K cid s" and "sends_syncing cid s"
  shows "sends_syncing cid s'"
    and "x = None \<Longrightarrow> steady env K cid s' \<and>
      (\<forall>m\<in>hm_keys (im_progress s) \<union> unread s. K m \<or> m = mi \<or> m \<in> hm_keys (im_progress s') \<or> m \<in> unread s')"
    and "x = Some Finished \<Longrightarrow> \<forall>m\<in>hm_keys (im_progress s) \<union> unread s. K m \<or> m = mi"
proof -
  from assms(1) obtain n where n: "hm_get (im_sizes s) mi = Some n"
    by (auto simp: handle_imported_def split: option.splits)
  let ?s = "im_emit [ProgressBar mi n False]
    (s\<lparr>im_progress := hm_remove mi (im_progress s), im_sizes := hm_remove mi (im_sizes s)\<rparr>)"
  have s: "steady env K cid ?s" "sends_syncing cid ?s" "unread ?s = unread s" using assms(2, 3) by simp_all
  have keys: "hm_keys (im_progress ?s) = hm_keys (im_progress s) - {mi}" by simp
  obtain res s1 where nx: "next_milestone env ?s = (res, s1)" by fastforce
  have h: "x = None \<and> s' = ?s \<or> x = Some Aborted \<and> (s' = s1 \<or> (\<exists>md e. im_handle_milestone_data env md s1 = Inr (e, s'))) \<or>
    (\<exists>md. res = Inr (Some md) \<and> x = None \<and> im_handle_milestone_data env md s1 = Inr (None, s')) \<or>
    res = Inr None \<and> s' = s1 \<and> x = (if im_progress s1 = [] then Some Finished else None)"
    using assms(1) n nx by (auto simp: handle_imported_def Let_def aborts_def rbind_Inr_iff split: option.splits if_splits sum.splits)
  then consider (stop) "x = None" "s' = ?s" | (abort) "x = Some Aborted" "s' = s1 \<or> (\<exists>md e. im_handle_milestone_data env md s1 = Inr (e, s'))"
    | (md) md where "res = Inr (Some md)" "x = None" "im_handle_milestone_data env md s1 = Inr (None, s')"
    | (over) "res = Inr None" "s' = s1" "x = (if im_progress s1 = [] then Some Finished else None)" by blast
  then have *: "sends_syncing cid s' \<and>
    (x = None \<longrightarrow> steady env K cid s' \<and>
      (\<forall>m\<in>hm_keys (im_progress s) \<union> unread s. K m \<or> m = mi \<or> m \<in> hm_keys (im_progress s') \<or> m \<in> unread s')) \<and>
    (x = Some Finished \<longrightarrow> (\<forall>m\<in>hm_keys (im_progress s) \<union> unread s. K m \<or> m = mi))"
  proof cases
    case stop
    then show ?thesis using s keys by auto
  next
    case abort
    have "im_mode s1 = All_Mode" using next_milestone_frame(2) [OF nx] s(1) by (simp add: steady_def)
    then show ?thesis using abort next_milestone_frame(1) [OF nx s(2)] handle_md_sends by auto
  next
    case md
    note r = next_milestone_reads [OF nx [unfolded md(1)] s(1, 2)]
    note b = handle_md_starts [OF md(3) r(1, 2)]
    show ?thesis using md(2) b r(3) keys r(6) s(3) by auto
  next
    case over
    note r = next_milestone_reads [OF nx [unfolded over(1)] s(1, 2)]
    have "hm_keys (im_progress s) \<subseteq> {mi}" if "im_progress s1 = []"
    proof -
      have "hm_remove mi (im_progress s) = []" using r(3) that by simp
      then have "hm_keys (hm_remove mi (im_progress s)) = {}" by (simp only: list.set image_empty)
      then show ?thesis by simp
    qed
    moreover have "hm_keys (im_progress s) \<subseteq> insert mi (hm_keys (im_progress s1))" using r(3) by (simp add: subset_insertI)
    ultimately show ?thesis using over(2, 3) r(1, 2, 6, 7) s(3) by (auto dest: hm_keys_mem split: if_splits)
  qed
  show "sends_syncing cid s'" using * by (rule conjunct1)
  show "steady env K cid s' \<and>
      (\<forall>m\<in>hm_keys (im_progress s) \<union> unread s. K m \<or> m = mi \<or> m \<in> hm_keys (im_progress s') \<or> m \<in> unread s')" if "x = None"
    using conjunct1 [OF conjunct2 [OF *]] that by (rule mp)
  show "\<forall>m\<in>hm_keys (im_progress s) \<union> unread s. K m \<or> m = mi" if "x = Some Finished"
    using conjunct2 [OF conjunct2 [OF *]] that by (rule mp)
qed


section \<open>Every run\<close>

lemma complete_same:
  assumes "complete_inv env K cid L S" and "reports_ok cid T" and "is_importer T = is_importer S" and "is_exit T = is_exit S"
    and "set (is_accepted S) \<subseteq> set (is_accepted T)"
  shows "complete_inv env K cid L T"
  using assms unfolding complete_inv_def accounted_def by auto

lemma handle_event_complete:
  assumes inv: "complete_inv env K cid L S" and go: "is_exit S = None" and inbox: "is_inbox S = ev # evs"
    and h: "handle_importer_event env ev (is_importer S) = Inr (x, s)"
  shows "complete_inv env K cid L (put_importer x s (S\<lparr>is_inbox := evs\<rparr>))"
proof -
  let ?i = "is_importer S"
  have rep: "reports_ok cid (S\<lparr>is_inbox := evs\<rparr>)" using inv inbox by (auto simp: complete_inv_def reports_ok_def)
  have i: "steady env K cid ?i" "sends_syncing cid ?i"
    and acc: "\<And>mi. mi \<in> set (line_indices L) \<Longrightarrow> K mi \<or> synced cid S mi \<or> mi \<in> underway S \<union> unread ?i"
    using inv go by (auto simp: complete_inv_def accounted_def sends_syncing_def)
  show ?thesis
  proof (cases ev rule: event_index.cases)
    case (1 mi)
    then show ?thesis using h i(2) by (auto intro!: complete_put [OF rep])
  next
    case (2 mi)
    then have im: "handle_imported env mi ?i = Inr (x, s)" using h by simp
    have sy: "synced cid S mi" using inv inbox 2 by (auto simp: complete_inv_def reports_ok_def)
    note a = imported_accounts [OF im i]
    show ?thesis
    proof (rule complete_put [OF rep a(1)])
      show "steady env K cid s \<and> (\<forall>m\<in>set (line_indices L). K m \<or> synced cid (S\<lparr>is_inbox := evs\<rparr>) m \<or>
          m \<in> hm_keys (im_progress s) \<or> m \<in> unread s)" if "x = None"
        using a(2) [OF that] acc sy by simp blast
      show "\<forall>m\<in>set (line_indices L). K m \<or> synced cid (S\<lparr>is_inbox := evs\<rparr>) m" if "x = Some Finished"
        using a(3) [OF that] acc sy by simp blast
    qed
  next
    case (3 mi)
    then have "handle_process_more env mi ?i = Inr (x, s)" using h by simp
    note a = process_more_accounts [OF this i]
    show ?thesis
    proof (rule complete_put [OF rep a(1)])
      show "steady env K cid s \<and> (\<forall>m\<in>set (line_indices L). K m \<or> synced cid (S\<lparr>is_inbox := evs\<rparr>) m \<or>
          m \<in> hm_keys (im_progress s) \<or> m \<in> unread s)" if "x = None"
      proof (intro conjI ballI)
        show "steady env K cid s" using a(3) [OF that] by simp
        fix m
        assume "m \<in> set (line_indices L)"
        from acc [OF this] a(3) [OF that] have "K m \<or> synced cid S m \<or> m \<in> hm_keys (im_progress s) \<or> m \<in> unread s"
          by (elim disjE UnE conjE) (simp_all only: subset_iff, blast+)
        then show "K m \<or> synced cid (S\<lparr>is_inbox := evs\<rparr>) m \<or> m \<in> hm_keys (im_progress s) \<or> m \<in> unread s" by simp
      qed
    qed (use a(2) in simp)
  next
    case 4
    then have s: "x = None" "s = ?i\<lparr>im_stopping := True, im_handle := False\<rparr>" using h by simp_all
    show ?thesis
      by (rule complete_put [OF rep]) (use s i acc in \<open>auto simp: steady_def sends_syncing_def unread_def\<close>)
  qed
qed

lemma step_complete:
  assumes "import_step env l S S'" and "complete_inv env K cid L S"
  shows "complete_inv env K cid L S'"
  using assms
proof (induction rule: import_step.induct)
  case (reply_batch k S mi err ws j r ws' err')
  let ?T = "accept r (rw_row (ws ! j)) (S\<lparr>is_batches := remove_nth k (is_batches S)\<rparr>)"
    and ?x = "batch_left (mi, err \<or> err', remove_nth j ws @ ws')"
  have "ImCqlResult (Inr m) \<notin> set (snd ?x)" for m by simp
  then have "reports_ok cid (fly ?x ?T)"
    using reply_batch.prems by (auto simp: complete_inv_def reports_ok_def fly_def accept_def)
  then show ?case
    by (rule complete_same [OF reply_batch.prems]) (auto simp: fly_def accept_def)
next
  case (reply_worker k S r ws' evs)
  let ?w = "is_workers S ! k" and ?T = "S\<lparr>is_workers := remove_nth k (is_workers S) @ ws', is_inbox := is_inbox S @ evs\<rparr>"
  have rep: "reports_ok cid S" using reply_worker.prems by (simp add: complete_inv_def)
  then have w: "syncing cid ?w" using reply_worker.hyps(1) by (simp add: reports_ok_def)
  note reply = worker_reply_syncing [OF reply_worker.hyps(2) w]
  have ws: "set (remove_nth k (is_workers S)) \<subseteq> set (is_workers S)"
    using set_remove_nth [OF reply_worker.hyps(1)] by blast
  have "reports_ok cid (accept r (worker_row ?w) ?T)"
    unfolding reports_ok_def
  proof (intro conjI allI impI ballI)
    fix m
    assume "ImCqlResult (Inr m) \<in> set (is_inbox (accept r (worker_row ?w) ?T))"
    then have "ImCqlResult (Inr m) \<in> set (is_inbox S) \<or> ImCqlResult (Inr m) \<in> set evs" by simp
    then show "synced cid (accept r (worker_row ?w) ?T) m"
      using rep reply(2) [of m] by (auto simp: reports_ok_def)
  next
    fix v
    assume "v \<in> set (is_workers (accept r (worker_row ?w) ?T))"
    then show "syncing cid v" using rep ws reply(1) by (auto simp: reports_ok_def)
  qed
  then show ?case by (rule complete_same [OF reply_worker.prems]) auto
next
  case (deliver S ev evs x s)
  then show ?case using handle_event_complete by blast
next
  case (deliver_panic S ev evs e)
  then show ?case by (auto simp: complete_inv_def reports_ok_def)
next
  case (ask_shutdown S)
  have "reports_ok cid (S\<lparr>is_inbox := is_inbox S @ [ImShutdown]\<rparr>)"
    using ask_shutdown by (auto simp: complete_inv_def reports_ok_def)
  then show ?case by (rule complete_same [OF ask_shutdown]) simp_all
qed

lemma run_complete:
  assumes "import_run env ls S S'" and "complete_inv env K cid L S"
  shows "complete_inv env K cid L S'"
  using assms by (induction rule: import_run.induct) (auto intro: step_complete)

section \<open>The start\<close>

definition skipped :: "bool option \<Rightarrow> sync_data result \<Rightarrow> u32_range option \<Rightarrow> u32 \<Rightarrow> bool" where
  "skipped resume fetched rng mi \<longleftrightarrow>
     resume \<noteq> Some False \<and> (\<exists>sd. fetched = Inr sd \<and> (\<exists>r\<in>set (completed sd). range_contains r mi)) \<or>
     \<not> range_contains (case rng of None \<Rightarrow> Range 1 i32_max | Some r \<Rightarrow> r) mi"

lemma init_reads:
  assumes "init_importing env n s = Inr (e, s')" and "steady env K cid s" and "sends_syncing cid s"
    and "\<not> im_eof s"
  shows "sends_syncing cid s'"
    and "e = None \<Longrightarrow> steady env K cid s' \<and> (im_eof s' \<longrightarrow> unread s' = {}) \<and>
      (\<forall>m\<in>hm_keys (im_progress s) \<union> unread s. K m \<or> m \<in> hm_keys (im_progress s') \<union> unread s')"
proof -
  have "sends_syncing cid s' \<and> (e = None \<longrightarrow> steady env K cid s' \<and> (im_eof s' \<longrightarrow> unread s' = {}) \<and>
      (\<forall>m\<in>hm_keys (im_progress s) \<union> unread s. K m \<or> m \<in> hm_keys (im_progress s') \<union> unread s'))"
    using assms
  proof (induction n arbitrary: s)
    case 0
    then show ?case by simp
  next
    case (Suc n)
    obtain res s1 where nx: "next_milestone env s = (res, s1)" by fastforce
    note sends = next_milestone_frame(1) [OF nx Suc.prems(3)]
    show ?case
    proof (cases res)
      case (Inl a)
      then show ?thesis using Suc.prems(1) nx sends by auto
    next
      case (Inr opt)
      note r = next_milestone_reads [OF nx [unfolded Inr] Suc.prems(2, 3)]
      show ?thesis
      proof (cases opt)
        case None
        then have "e = None" "s' = s1\<lparr>im_eof := True\<rparr>" using Suc.prems(1) nx Inr by simp_all
        then show ?thesis using r None by auto
      next
        case (Some md)
        with Suc.prems(1) nx Inr obtain e1 s2 where h: "im_handle_milestone_data env md s1 = Inr (e1, s2)"
          and c: "case e1 of None \<Rightarrow> init_importing env n s2 = Inr (e, s') | Some a \<Rightarrow> e \<noteq> None \<and> s' = s2"
          by (auto simp: step_then_Inr_iff split: option.splits)
        show ?thesis
        proof (cases e1)
          case None
          note b = handle_md_starts [OF h [unfolded None] r(1, 2)]
          have "\<not> im_eof s2" using b(4) r(5) Suc.prems(4) by simp
          then have ih: "sends_syncing cid s'" "e = None \<longrightarrow> steady env K cid s' \<and> (im_eof s' \<longrightarrow> unread s' = {}) \<and>
              (\<forall>m\<in>hm_keys (im_progress s2) \<union> unread s2. K m \<or> m \<in> hm_keys (im_progress s') \<union> unread s')"
            using Suc.IH [OF _ b(1, 2)] c None by simp_all
          have keys: "m \<in> hm_keys (im_progress s2)" if "m \<in> hm_keys (im_progress s)" for m
            using b(5) r(3) that by simp
          have lines: "K m \<or> m \<in> hm_keys (im_progress s2) \<union> unread s2" if "m \<in> unread s" for m
          proof -
            have "K m \<or> m = ms_index md \<or> m \<in> unread s1" using r(6) [OF that] \<open>opt = Some md\<close> by simp
            then show ?thesis unfolding b(3, 5) by (elim disjE) simp_all
          qed
          have "K m \<or> m \<in> hm_keys (im_progress s2) \<union> unread s2" if "m \<in> hm_keys (im_progress s) \<union> unread s" for m
            using that keys lines unfolding Un_iff by metis
          then show ?thesis using ih by metis
        next
          case (Some a)
          have "im_mode s1 = All_Mode" using r(1) by (simp add: steady_def)
          then show ?thesis using c Some handle_md_sends [OF h] sends by auto
        qed
      qed
    qed
  qed
  then show "sends_syncing cid s'"
    and "e = None \<Longrightarrow> steady env K cid s' \<and> (im_eof s' \<longrightarrow> unread s' = {}) \<and>
      (\<forall>m\<in>hm_keys (im_progress s) \<union> unread s. K m \<or> m \<in> hm_keys (im_progress s') \<union> unread s')"
    by simp_all
qed

lemma start_complete:
  assumes "sized env lf"
  shows "complete_inv env (skipped resume fetched rng) cid (lr_rest lf)
    (start_import env (Inr lf) fetched (new_importer All_Mode retries resume rng par cid))"
proof -
  let ?n = "new_importer All_Mode retries resume rng par cid" and ?K = "skipped resume fetched rng"
  let ?S = "\<lparr>is_importer = ?n, is_exit = None, is_batches = [], is_workers = [], is_inbox = [], is_accepted = []\<rparr>"
  let ?put = "\<lambda>e s. put_importer (if e \<noteq> None then Some Aborted else if already_imported s then Some Finished else None) s ?S"
  have rep: "reports_ok cid ?S" by (simp add: reports_ok_def)
  have go: "complete_inv env ?K cid (lr_rest lf) (case init_importing env n s of
        Inl e \<Rightarrow> ?S\<lparr>is_exit := Some Panicked\<rparr> | Inr (e, s) \<Rightarrow> ?put e s)"
    if s: "steady env ?K cid s" "im_log s = Some lf" "im_out s = []" "\<not> im_eof s" for n s
  proof (cases "init_importing env n s")
    case (Inl e)
    then show ?thesis by (simp add: complete_inv_def reports_ok_def)
  next
    case (Inr p)
    then obtain e s' where r: "init_importing env n s = Inr (e, s')" by (cases p) simp
    have "sends_syncing cid s" using s(3) by (simp add: sends_syncing_def)
    note i = init_reads [OF r s(1) this s(4)]
    have "unread s = set (line_indices (lr_rest lf))" using s(2) by (simp add: unread_def)
    then have lines: "?K m \<or> m \<in> hm_keys (im_progress s') \<union> unread s'" if "e = None" "m \<in> set (line_indices (lr_rest lf))" for m
      using i(2) [OF that(1)] that(2) by blast
    have "complete_inv env ?K cid (lr_rest lf) (?put e s')"
    proof (rule complete_put [OF rep i(1)])
      assume x: "(if e \<noteq> None then Some Aborted else if already_imported s' then Some Finished else None) = None"
      then have "e = None" by (simp split: if_splits)
      then show "steady env ?K cid s' \<and> (\<forall>m\<in>set (line_indices (lr_rest lf)). ?K m \<or> synced cid ?S m \<or>
          m \<in> hm_keys (im_progress s') \<or> m \<in> unread s')"
        using i(2) lines by simp
    next
      assume x: "(if e \<noteq> None then Some Aborted else if already_imported s' then Some Finished else None) = Some Finished"
      then have e: "e = None" "im_progress s' = []" "im_eof s'" by (simp_all add: already_imported_def split: if_splits)
      then show "\<forall>m\<in>set (line_indices (lr_rest lf)). ?K m \<or> synced cid ?S m"
        using i(2) lines by auto
    qed
    then show ?thesis using r by simp
  qed
  have resume: "im_resume ?n = (resume \<noteq> Some False)" "im_range ?n = (case rng of None \<Rightarrow> Range 1 i32_max | Some r \<Rightarrow> r)"
    "im_sync_data ?n = default_sync_data" "im_mode ?n = All_Mode" "im_chronicle_id ?n = cid" "im_out ?n = []" "\<not> im_eof ?n"
    by (auto simp: new_importer_def split: option.splits)
  let ?s = "?n\<lparr>im_log_size := lf_len lf, im_from := lf_from lf, im_to := lf_to lf\<rparr>"
  show ?thesis
  proof (cases "resume = Some False")
    case True
    then have "steady env ?K cid (?s\<lparr>im_log := Some lf\<rparr>)"
      using assms resume by (auto simp: steady_def to_be_skipped_def skipped_def fun_eq_iff)
    moreover have "\<not> im_resume ?n" using resume(1) True by blast
    ultimately show ?thesis
      using go [of "?s\<lparr>im_log := Some lf\<rparr>" "unat (im_parallelism ?s)"] resume(6, 7) by (simp add: start_import_def importer_init_def Let_def)
  next
    case False
    then have r: "im_resume ?n" using resume(1) by blast
    show ?thesis
    proof (cases fetched)
      case (Inl e)
      have "complete_inv env ?K cid (lr_rest lf) (put_importer (Some Aborted) ?s ?S)"
        by (rule complete_put [OF rep]) (simp_all add: sends_syncing_def resume)
      then show ?thesis using Inl r by (simp add: start_import_def importer_init_def Let_def)
    next
      case (Inr sd)
      then have "steady env ?K cid (?s\<lparr>im_sync_data := sd, im_log := Some lf\<rparr>)"
        using assms resume False by (auto simp: steady_def to_be_skipped_def skipped_def fun_eq_iff)
      then show ?thesis
        using go [of "?s\<lparr>im_sync_data := sd, im_log := Some lf\<rparr>" "unat (im_parallelism ?s)"] resume(6, 7) r Inr by (simp add: start_import_def importer_init_def Let_def)
    qed
  qed
qed

section \<open>Nothing goes wrong\<close>

text \<open>Lines with an analytic record, and a reader of such lines that does not fail.\<close>

definition good_line :: "log_line \<Rightarrow> bool" where
  "good_line l \<longleftrightarrow> (\<exists>md ar. l = Line md \<and> get_analytic_record md = Inr ar)"

definition readable :: "importer_env \<Rightarrow> importer \<Rightarrow> bool" where
  "readable env s \<longleftrightarrow>
     (\<exists>lf. im_log s = Some lf \<and> \<not> lf_corrupted lf \<and> True \<notin> set (lr_faults lf) \<and> (\<forall>l\<in>set (lr_rest lf). good_line l))"

definition calm_system :: "import_system \<Rightarrow> bool" where
  "calm_system S \<longleftrightarrow>
     (\<forall>(mi, err, ws)\<in>set (is_batches S). \<not> err) \<and> (\<forall>mi. ImCqlResult (Inl mi) \<notin> set (is_inbox S))"

fun calm :: "import_label \<Rightarrow> bool" where
  "calm (BatchReply k j r) = (r = Accepted)"
| "calm (WorkerReply k r) = (r = Accepted)"
| "calm l = True"

lemma readable_frame [simp]:
  "readable env (in_progress mi ms ar s) = readable env s" "readable env (im_emit os s) = readable env s"
  "readable env (s\<lparr>im_progress := p\<rparr>) = readable env s" "readable env (s\<lparr>im_eof := e\<rparr>) = readable env s"
  "im_mode (in_progress mi ms ar s) = im_mode s" "im_mode (im_emit os s) = im_mode s"
  "im_handle (in_progress mi ms ar s) = im_handle s" "im_handle (im_emit os s) = im_handle s"
  by (simp_all add: readable_def in_progress_def im_emit_def)

lemma next_milestone_data_readable:
  assumes "next_milestone_data env lf s = (res, s')" and "readable env (s\<lparr>im_log := Some lf\<rparr>)"
  shows "\<exists>opt. res = Inr opt \<and> readable env s' \<and> (\<forall>md. opt = Some md \<longrightarrow> good_line (Line md))"
  using assms
proof (induction env lf s rule: next_milestone_data.induct)
  case (1 env lf s)
  have lf: "\<not> lf_corrupted lf" "True \<notin> set (lr_faults lf)" "\<forall>l\<in>set (lr_rest lf). good_line l"
    using 1(3) by (auto simp: readable_def)
  have p: "Partial \<notin> set (lr_rest lf)" using lf(3) by (auto simp: good_line_def)
  have q: "\<not> (lr_faults lf \<noteq> [] \<and> hd (lr_faults lf))" "True \<notin> set (tl (lr_faults lf))"
    using lf(2) by (cases "lr_faults lf"; simp)+
  obtain r lf' where nx0: "log_next (ie_line_len env) lf = (r, lf')" by fastforce
  have "(\<exists>opt. r = Inr opt \<and> (\<forall>md. opt = Some md \<longrightarrow> good_line (Line md))) \<and> \<not> lf_corrupted lf' \<and>
      True \<notin> set (lr_faults lf') \<and> (\<forall>l\<in>set (lr_rest lf'). good_line l)"
    using nx0 lf p q by (auto simp: log_next_def Let_def split: if_splits list.splits log_line.splits)
  then obtain opt where nx: "log_next (ie_line_len env) lf = (Inr opt, lf')"
    and lf': "\<not> lf_corrupted lf'" "True \<notin> set (lr_faults lf')" "\<forall>l\<in>set (lr_rest lf'). good_line l"
    and md: "\<And>md. opt = Some md \<Longrightarrow> good_line (Line md)"
    using nx0 by auto
  show ?case
  proof (cases opt)
    case None
    then show ?thesis using 1(2) nx lf' by (auto simp: next_milestone_data.simps readable_def)
  next
    case (Some m)
    show ?thesis
    proof (cases "to_be_skipped s (ms_index m)")
      case False
      then show ?thesis using 1(2) nx lf' md Some by (auto simp: next_milestone_data.simps readable_def)
    next
      case True
      let ?s = "im_emit [ProgressBar (ms_index m) (lf_len lf - lf_len lf') True] s"
      have "next_milestone_data env lf' ?s = (res, s')" using 1(2) nx Some True by (simp add: next_milestone_data.simps)
      then show ?thesis using 1(1) [OF nx [symmetric] refl Some True] lf' by (simp add: readable_def)
    qed
  qed
qed

lemma next_milestone_readable:
  assumes "next_milestone env s = (res, s')" and "readable env s"
  obtains opt where "res = Inr opt" "readable env s'" "\<And>md. opt = Some md \<Longrightarrow> good_line (Line md)"
proof -
  obtain lf where lf: "im_log s = Some lf" using assms(2) by (auto simp: readable_def)
  then have "next_milestone_data env lf s = (res, s')" "readable env (s\<lparr>im_log := Some lf\<rparr>)"
    using assms by (simp_all add: next_milestone_def readable_def)
  from next_milestone_data_readable [OF this] that show ?thesis by blast
qed

lemma handle_md_calm:
  assumes "reliable env" and "good_line (Line md)" and "im_handle s" and "im_mode s = All_Mode" and "readable env s"
  obtains (panics) "im_handle_milestone_data env md s = Inl Panic"
  | (goes_on) s' where "im_handle_milestone_data env md s = Inr (None, s')" "readable env s'" "im_handle s'" "im_mode s' = All_Mode"
proof -
  obtain ar where ar: "get_analytic_record md = Inr ar" using assms(2) by (auto simp: good_line_def)
  show ?thesis
    using panics goes_on assms(3-5) ar
    by (cases rule: insert_some_messages_cases [OF assms(1, 3), of "ms_index md" "ms_messages md"])
       (simp_all add: im_handle_milestone_data_def)
qed

lemma put_calm: "calm_system S \<Longrightarrow> calm_system (put_importer x s S)"
proof -
  assume "calm_system S"
  then have "calm_system (S\<lparr>is_importer := quiet s, is_exit := x\<rparr>)" by (simp add: calm_system_def)
  moreover have "calm_system (launch k y T)" if "calm_system T" for k y T
    using that by (cases y) (auto simp: calm_system_def fly_def)
  then have "calm_system (fold (launch k) ys T)" if "calm_system T" for k ys T
    using that by (induction ys arbitrary: T) simp_all
  ultimately show "calm_system (put_importer x s S)" by (simp add: put_importer_def)
qed

lemma init_calm:
  assumes "reliable env" and "im_handle s" and "im_mode s = All_Mode" and "readable env s"
  shows "init_importing env n s = Inl Panic \<or>
    (\<exists>s'. init_importing env n s = Inr (None, s') \<and> readable env s' \<and> im_mode s' = All_Mode)"
  using assms(2-4)
proof (induction n arbitrary: s)
  case 0
  then show ?case by simp
next
  case (Suc n)
  obtain res s1 where nx: "next_milestone env s = (res, s1)" by fastforce
  obtain opt where
    res: "res = Inr opt" "readable env s1" "\<And>md. opt = Some md \<Longrightarrow> good_line (Line md)"
    using next_milestone_readable [OF nx Suc.prems(3)] by metis
  have s1: "im_handle s1" "im_mode s1 = All_Mode" using next_milestone_frame(2, 3) [OF nx] Suc.prems by simp_all
  show ?case
  proof (cases opt)
    case None
    then show ?thesis using nx res s1 by simp
  next
    case (Some md)
    show ?thesis
    proof (cases rule: handle_md_calm [OF assms(1) res(3) [OF Some] s1 res(2)])
      case (2 s2)
      then show ?thesis using Suc.IH [of s2] nx res(1) Some by simp
    qed (use nx res(1) Some in simp)
  qed
qed

definition calm_inv :: "importer_env \<Rightarrow> import_system \<Rightarrow> bool" where
  "calm_inv env S \<longleftrightarrow>
     calm_system S \<and> is_exit S \<noteq> Some Aborted \<and>
     (is_exit S = None \<longrightarrow> readable env (is_importer S) \<and> im_mode (is_importer S) = All_Mode)"

lemma calm_put:
  assumes "calm_system S" and "x \<noteq> Some Aborted" and "x = None \<Longrightarrow> readable env s \<and> im_mode s = All_Mode"
  shows "calm_inv env (put_importer x s S)"
  using put_calm [OF assms(1)] assms(2, 3) by (simp add: calm_inv_def readable_def)

lemma imported_calm:
  assumes env: "reliable env" and h: "handle_imported env mi s = Inr (x, s')"
    and s: "readable env s" "im_mode s = All_Mode" "im_handle s = (\<not> im_stopping s)"
  shows "x \<noteq> Some Aborted \<and> (x = None \<longrightarrow> readable env s' \<and> im_mode s' = All_Mode)"
proof -
  from h obtain n where n: "hm_get (im_sizes s) mi = Some n" and e: "hm_get (im_progress s) mi \<noteq> None"
    by (auto simp: handle_imported_def split: option.splits)
  let ?s = "im_emit [ProgressBar mi n False]
    (s\<lparr>im_progress := hm_remove mi (im_progress s), im_sizes := hm_remove mi (im_sizes s)\<rparr>)"
  have s1: "readable env ?s" "im_mode ?s = All_Mode" "im_handle ?s = im_handle s"
    using s by (simp_all add: readable_def im_emit_def)
  show ?thesis
  proof (cases "im_stopping s")
    case True
    then have "x = None" "s' = ?s" using h n e by (auto simp: handle_imported_def im_emit_def)
    then show ?thesis using s1 by simp
  next
    case False
    obtain res s2 where nx: "next_milestone env ?s = (res, s2)" by fastforce
    obtain opt where res: "res = Inr opt" "readable env s2" "\<And>md. opt = Some md \<Longrightarrow> good_line (Line md)"
      using next_milestone_readable [OF nx s1(1)] by metis
    have s2: "im_handle s2" "im_mode s2 = All_Mode" using next_milestone_frame(2, 3) [OF nx] s1 s(3) False by simp_all
    have eq: "Inr (x, s') = (case opt of Some md \<Rightarrow> aborts (im_handle_milestone_data env md s2)
        | None \<Rightarrow> Inr (if im_progress s2 = [] then Some Finished else None, s2))"
      using h n e False nx res(1) by (auto simp: handle_imported_def im_emit_def split: option.splits)
    show ?thesis
    proof (cases opt)
      case None
      then show ?thesis using eq res(2) s2(2) by (auto split: if_splits)
    next
      case (Some md)
      show ?thesis
        by (cases rule: handle_md_calm [OF env res(3) [OF Some] s2 res(2)]) (use eq Some in \<open>simp_all add: aborts_def\<close>)
    qed
  qed
qed

lemma process_more_calm:
  assumes env: "reliable env" and h: "handle_process_more env mi s = Inr (x, s')"
    and s: "readable env s" "im_mode s = All_Mode" "im_handle s = (\<not> im_stopping s)"
  shows "x = None \<and> readable env s' \<and> im_mode s' = All_Mode"
proof (cases "im_stopping s")
  case True
  then show ?thesis using h s by (simp add: handle_process_more_def)
next
  case False
  then obtain ms ar where get: "hm_get (im_progress s) mi = Some (ms, ar)"
    using h by (auto simp: handle_process_more_def split: option.splits)
  let ?s = "s\<lparr>im_progress := hm_remove mi (im_progress s)\<rparr>"
  have handle: "im_handle ?s" using s(3) False by simp
  show ?thesis
    by (cases rule: insert_some_messages_cases [OF env handle, of mi ms])
       (use h get False handle s(1, 2) env in \<open>auto simp: handle_process_more_def Let_def reliable_def split: if_splits\<close>)
qed

lemma step_calm:
  assumes "import_step env l S S'" and "calm l" and "reliable env"
    and "import_inv env L S" and "calm_inv env S"
  shows "calm_inv env S'"
  using assms
proof (induction rule: import_step.induct)
  case (reply_batch k S mi err ws j r ws' err')
  have "\<not> err" using reply_batch.prems(4) nth_mem [OF reply_batch.hyps(1)] reply_batch.hyps(2)
    by (auto simp: calm_inv_def calm_system_def)
  moreover have "ws' = []" "\<not> err'" using reply_batch.prems(1) reply_batch.hyps(4) by (auto simp: row_reply_def)
  moreover have "set (remove_nth k (is_batches S)) \<subseteq> set (is_batches S)" using set_remove_nth [OF reply_batch.hyps(1)] by blast
  ultimately show ?case using reply_batch.prems(4) by (auto simp: calm_inv_def calm_system_def fly_def accept_def)
next
  case (reply_worker k S r ws' evs)
  have "ImCqlResult (Inl m) \<notin> set evs" for m
    using reply_worker.prems(1) reply_worker.hyps(2) by (cases "is_workers S ! k") (auto simp: worker_reply_defs split: if_splits)
  then show ?case using reply_worker.prems(4) by (auto simp: calm_inv_def calm_system_def accept_def)
next
  case (deliver S ev evs x s)
  have run: "importer_ok L {} (is_importer S)" using deliver.prems(3) deliver.hyps(1) by (auto simp: import_inv_def running_def)
  have s: "readable env (is_importer S)" "im_mode (is_importer S) = All_Mode" "im_handle (is_importer S) = (\<not> im_stopping (is_importer S))"
    using deliver.prems(4) deliver.hyps(1) run by (simp_all add: calm_inv_def importer_ok_def)
  have sys: "calm_system (S\<lparr>is_inbox := evs\<rparr>)" using deliver.prems(4) deliver.hyps(2) by (auto simp: calm_inv_def calm_system_def)
  show ?case
  proof (cases ev rule: event_index.cases)
    case (1 mi)
    then show ?thesis using deliver.prems(4) deliver.hyps(2) by (auto simp: calm_inv_def calm_system_def)
  next
    case (2 mi)
    then have "handle_imported env mi (is_importer S) = Inr (x, s)" using deliver.hyps(3) by simp
    from imported_calm [OF deliver.prems(2) this s] show ?thesis by (intro calm_put [OF sys]) simp_all
  next
    case (3 mi)
    then have h: "handle_process_more env mi (is_importer S) = Inr (x, s)" using deliver.hyps(3) by simp
    from process_more_calm [OF deliver.prems(2) h s] show ?thesis by (intro calm_put [OF sys]) simp_all
  next
    case 4
    then show ?thesis using deliver.hyps(3) s by (intro calm_put [OF sys]) (auto simp: readable_def)
  qed
next
  case (deliver_panic S ev evs e)
  then show ?case by (auto simp: calm_inv_def calm_system_def)
next
  case (ask_shutdown S)
  then show ?case by (auto simp: calm_inv_def calm_system_def)
qed

lemma run_calm:
  assumes "import_run env ls S S'" and "\<forall>l\<in>set ls. calm l" and "reliable env"
    and "import_inv env L S" and "calm_inv env S"
  shows "calm_inv env S'"
  using assms
proof (induction rule: import_run.induct)
  case (run_snoc ls S S' l S'')
  have "well_framed l" if "calm l" for l using that by (cases l) auto
  then have "import_inv env L S'" using import_run_inv [OF run_snoc.hyps(1)] run_snoc.prems by simp
  then show ?case using step_calm [OF run_snoc.hyps(2)] run_snoc by simp
qed

lemma start_calm:
  assumes "reliable env" and "\<not> lf_corrupted lf" and "True \<notin> set (lr_faults lf)" and "\<forall>l\<in>set (lr_rest lf). good_line l"
    and "resume = Some False \<or> fetched = Inr sd"
  shows "calm_inv env (start_import env (Inr lf) fetched (new_importer All_Mode retries resume rng par cid))"
proof -
  let ?n = "new_importer All_Mode retries resume rng par cid"
  let ?S = "\<lparr>is_importer = ?n, is_exit = None, is_batches = [], is_workers = [], is_inbox = [], is_accepted = []\<rparr>"
  have new: "im_handle ?n" "im_mode ?n = All_Mode" "im_resume ?n = (resume \<noteq> Some False)" by (auto simp: new_importer_def split: option.splits)
  have r: "readable env (t\<lparr>im_log := Some lf\<rparr>)" for t using assms(2-4) by (simp add: readable_def)
  have "importer_init env (Inr lf) fetched ?n = Inl Panic \<or>
      (\<exists>s'. importer_init env (Inr lf) fetched ?n = Inr (None, s') \<and> readable env s' \<and> im_mode s' = All_Mode)"
  proof -
    have go: "init_importing env n (t\<lparr>im_log := Some lf\<rparr>) = Inl Panic \<or>
        (\<exists>s'. init_importing env n (t\<lparr>im_log := Some lf\<rparr>) = Inr (None, s') \<and> readable env s' \<and> im_mode s' = All_Mode)"
      if "im_handle t" "im_mode t = All_Mode" for n t
      by (rule init_calm [OF assms(1)]) (use that r in simp_all)
    let ?t = "?n\<lparr>im_log_size := lf_len lf, im_from := lf_from lf, im_to := lf_to lf\<rparr>" and ?k = "unat (im_parallelism ?n)"
    show ?thesis
      using assms(5) new go [where n = ?k and t = ?t] go [where n = ?k and t = "?t\<lparr>im_sync_data := sd\<rparr>"]
      by (auto simp: importer_init_def Let_def simp del: init_importing.simps)
  qed
  then show ?thesis
  proof (elim disjE exE conjE)
    fix s'
    assume i: "importer_init env (Inr lf) fetched ?n = Inr (None, s')" "readable env s'" "im_mode s' = All_Mode"
    have "calm_inv env (put_importer (if already_imported s' then Some Finished else None) s' ?S)"
      by (rule calm_put) (use i in \<open>auto simp: calm_system_def\<close>)
    then show ?thesis using i(1) by (simp add: start_import_def Let_def)
  qed (simp add: start_import_def calm_inv_def calm_system_def)
qed

section \<open>The whole file\<close>

lemma unat_sum_list:
  fixes xs :: "u64 list"
  assumes "sum_list (map unat xs) < 2 ^ 64"
  shows "unat (sum_list xs) = sum_list (map unat xs)"
  using assms
proof (induction xs)
  case (Cons x xs)
  then show ?case by (simp add: unat_add_lem [THEN iffD1])
qed simp

lemma line_indices_map: "map line_index ls = map Some xs \<Longrightarrow> line_indices ls = xs \<and> Partial \<notin> set ls"
proof (induction ls arbitrary: xs)
  case (Cons l ls)
  then show ?case by (cases l; cases xs) auto
qed simp

text \<open>What can make an importer give up.\<close>

definition import_trouble ::
  "bool option \<Rightarrow> sync_data result \<Rightarrow> bool list \<Rightarrow> log_line list \<Rightarrow> import_label list \<Rightarrow> bool" where
  "import_trouble resume fetched faults lines ls \<longleftrightarrow>
     resume \<noteq> Some False \<and> isl fetched \<or> True \<in> set faults \<or> (\<exists>l\<in>set ls. \<not> calm l) \<or>
     (\<exists>l\<in>set lines. case l of Partial \<Rightarrow> False | Line md \<Rightarrow> isl (get_analytic_record md))"

text \<open>The milestone's data is in the file, and all its rows, its analytic row and its sync row are accepted.\<close>

definition milestone_imported :: "importer_env \<Rightarrow> u8 \<Rightarrow> log_line list \<Rightarrow> import_system \<Rightarrow> u32 \<Rightarrow> bool" where
  "milestone_imported env cid L S mi \<longleftrightarrow>
     (\<exists>md ar. Line md \<in> set L \<and> ms_index md = mi \<and> get_analytic_record md = Inr ar \<and>
        rows_of env (ms_messages md) \<union> {Ins_analytic ar, Ins_sync (full_row cid mi)} \<subseteq> set (is_accepted S))"

lemma run_whole:
  assumes "reliable env" and "distinct (line_indices (lr_rest lf))" and "par \<noteq> Some 0"
    and "sized env lf" and "\<not> lf_corrupted lf" and "Partial \<notin> set (lr_rest lf)"
    and run: "import_run env ls (start_import env (Inr lf) fetched (new_importer All_Mode retries resume rng par cid)) S"
    and frames: "\<forall>l\<in>set ls. well_framed l"
    and idle: "is_batches S = []" "is_workers S = []" "is_inbox S = []" "\<not> im_stopping (is_importer S)"
  shows "is_exit S = Some Aborted \<and> import_trouble resume fetched (lr_faults lf) (lr_rest lf) ls \<or>
    is_exit S = Some Panicked \<and> crashing_line env (lr_rest lf) \<or>
    is_exit S = Some Finished \<and>
      (\<forall>mi\<in>set (line_indices (lr_rest lf)). skipped resume fetched rng mi \<or> milestone_imported env cid (lr_rest lf) S mi)"
proof -
  have inv: "import_inv env (lr_rest lf) S"
    using import_run_inv [OF run assms(1) frames] start_import_inv [OF assms(1-3)] by blast
  have comp: "complete_inv env (skipped resume fetched rng) cid (lr_rest lf) S"
    using run_complete [OF run start_complete [OF assms(4)]] .
  have "is_exit S \<noteq> None"
  proof
    assume "is_exit S = None"
    then have "im_progress (is_importer S) \<noteq> []" "underway S \<subseteq> set (tasks S)"
      using inv idle(4) by (auto simp: import_inv_def running_defs)
    then show False using idle by (simp add: tasks_def)
  qed
  then consider "is_exit S = Some Aborted" | "is_exit S = Some Finished" | "is_exit S = Some Panicked"
    by (cases "is_exit S") (auto, metis importer_exit.exhaust)
  then show ?thesis
  proof cases
    case 1
    have "import_trouble resume fetched (lr_faults lf) (lr_rest lf) ls"
    proof (rule ccontr)
      assume no: "\<not> import_trouble resume fetched (lr_faults lf) (lr_rest lf) ls"
      have "good_line l" if "l \<in> set (lr_rest lf)" for l
      proof (cases l)
        case (Line md)
        then have "\<not> isl (get_analytic_record md)" using no that by (force simp: import_trouble_def)
        then obtain ar where "get_analytic_record md = Inr ar" by (cases "get_analytic_record md") auto
        then show ?thesis using Line by (simp add: good_line_def)
      qed (use assms(6) that in simp)
      moreover obtain sd where "resume = Some False \<or> fetched = Inr sd"
        using no by (cases fetched) (auto simp: import_trouble_def)
      ultimately have "calm_inv env (start_import env (Inr lf) fetched (new_importer All_Mode retries resume rng par cid))"
        using no by (intro start_calm [OF assms(1, 5)]) (auto simp: import_trouble_def)
      moreover have "\<forall>l\<in>set ls. calm l" using no by (auto simp: import_trouble_def)
      ultimately have "calm_inv env S" using run_calm [OF run _ assms(1)] start_import_inv [OF assms(1-3)] by blast
      then show False using 1 by (simp add: calm_inv_def)
    qed
    then show ?thesis using 1 by simp
  next
    case 2
    have "milestone_imported env cid (lr_rest lf) S mi" if sy: "synced cid S mi" for mi
    proof -
      have "synced_safe env (lr_rest lf) S" using inv by (simp add: import_inv_def safe_def)
      then obtain ms ar where o: "of_line (lr_rest lf) (milestone_index (full_row cid mi)) ms ar"
        and "rows_of env ms \<subseteq> set (is_accepted S)" "Ins_analytic ar \<in> set (is_accepted S)"
        using sy unfolding synced_safe_def by blast
      then show ?thesis using sy by (auto simp: of_line_def full_row_def milestone_imported_def)
    qed
    then show ?thesis using comp 2 unfolding complete_inv_def by blast
  next
    case 3
    then show ?thesis using inv by (simp add: import_inv_def)
  qed
qed


text \<open>
  C2. What the archiver has written is imported whole: take any run of the archiver from a world without
  files in progress, its termination, one of its files, and any run of an importer of that file, whatever
  errors the database answers and in whatever order replies and events come. When nothing is in
  flight any more and the importer was not told to stop, it has aborted for one of the reasons it
  has, it has panicked on a message without a referencing milestone, a missing unlock block or a milestone
  without a partition, or every milestone of the
  file was synced before or is not asked for, or the file has its data, and the rows of all its messages, its analytic
  row and its sync row are accepted.
\<close>

theorem archive_imported_whole:
  assumes "clean_world w" and "run_fresh (\<lambda>md. ie_line_len env (Line md)) evs (start_archiver mx n first) w"
    and "archiver_loop (\<lambda>md. ie_line_len env (Line md)) evs (start_archiver mx n first) w = (Inr (), st, w1)"
    and "archiver_terminating st w1 = (st', w')"
    and "Range a b \<in> set (processed st') \<union> lf_range ` set (Archiver.logs st')"
    and "log_try_from (ie_line_len env) faults (LogName a b) w' = Inr lf"
    and "sum_list (map (\<lambda>l. unat (ie_line_len env l)) (lr_rest lf)) < 2 ^ 64" and "\<forall>l. 0 < ie_line_len env l"
    and "reliable env" and "par \<noteq> Some 0"
    and "import_run env ls (start_import env (Inr lf) fetched (new_importer All_Mode retries resume rng par cid)) S"
    and "\<forall>l\<in>set ls. well_framed l"
    and "is_batches S = []" "is_workers S = []" "is_inbox S = []" "\<not> im_stopping (is_importer S)"
  shows "is_exit S = Some Aborted \<and> import_trouble resume fetched faults (lr_rest lf) ls \<or>
    is_exit S = Some Panicked \<and> crashing_line env (lr_rest lf) \<or>
    is_exit S = Some Finished \<and>
      (\<forall>mi. a \<le> mi \<and> mi < b \<longrightarrow> skipped resume fetched rng mi \<or> milestone_imported env cid (lr_rest lf) S mi)"
proof -
  obtain new where "adds new (start_archiver mx n first) w st w1"
    using loop_ok [OF arch_inv_start [OF assms(1)] waiting_start assms(2)] assms(3) by auto
  then have ok: "arch_ok st w1" by (simp add: adds_def arch_inv_def)
  then have nf: "\<forall>l\<in>set (Archiver.logs st). \<not> lf_finished l" using unfinished by blast
  from finish_all_ok [of "Archiver.logs st" "{#}" "mset (processed st)" "[]" w1] arch_okD(2,4) [OF ok] nf
  obtain w2 where f: "finish_all (Archiver.logs st) w1 = (Archiver.logs st, w2)"
    "files_inv (mset (map (\<lambda>l. l\<lparr>lf_finished := True\<rparr>) (Archiver.logs st))) (mset (processed st)) (map lf_from (Archiver.logs st)) (w_fs w2)"
    by auto
  then have same: "st' = st" "w' = w2" using assms(4) by (auto simp: archiver_terminating_def)
  have "has_lines (w_fs w') (LogName a b) (Range a b)"
    using f(2) assms(5) by (auto simp: same files_inv_def file_of_def)
  then obtain lines where lines: "hm_get (w_fs w') (LogName a b) = Some lines"
    "map line_index lines = map Some (range_list (Range a b))" by (auto simp: has_lines_def)
  then have lf: "lf_len lf = sum_list (map (ie_line_len env) lines)" "lr_rest lf = lines" "\<not> lf_corrupted lf" "lr_faults lf = faults"
    using assms(6) by (auto simp: log_try_from_def)
  have ix: "line_indices (lr_rest lf) = range_list (Range a b)" and np: "Partial \<notin> set (lr_rest lf)"
    using line_indices_map [OF lines(2)] lf(2) by simp_all
  have "sized env lf"
    using unat_sum_list [of "map (ie_line_len env) lines"] assms(7, 8) lf by (simp add: sized_def comp_def)
  moreover have "distinct (line_indices (lr_rest lf))" unfolding ix using sorted_range_list strict_sorted_iff by blast
  ultimately have "is_exit S = Some Aborted \<and> import_trouble resume fetched (lr_faults lf) (lr_rest lf) ls \<or>
    is_exit S = Some Panicked \<and> crashing_line env (lr_rest lf) \<or>
    is_exit S = Some Finished \<and>
      (\<forall>mi\<in>set (line_indices (lr_rest lf)). skipped resume fetched rng mi \<or> milestone_imported env cid (lr_rest lf) S mi)"
    by (intro run_whole [OF assms(9) _ assms(10) _ lf(3) np assms(11-16)])
  moreover have "mi \<in> set (range_list (Range a b)) \<longleftrightarrow> a \<le> mi \<and> mi < b" for mi by (simp add: set_range_list)
  ultimately show ?thesis unfolding ix lf(4) by blast
qed


text \<open>One milestone is archived, and imported although two tries of its rows fail.\<close>

definition archived_small :: "archiver \<times> world" where
  "archived_small =
     (case archiver_loop (\<lambda>md. ie_line_len plain_importer_env (Line md)) [ArMilestoneData small_milestone None] (start_archiver None 1 5) wit_world of
        (_, st, w) \<Rightarrow> archiver_terminating st w)"

theorem archive_imported_whole_witness:
  "log_try_from (ie_line_len plain_importer_env) [] (LogName 5 6) (snd archived_small) = Inr small_log \<and>
   (case import_all plain_importer_env small_labels small_import of
      None \<Rightarrow> False
    | Some S \<Rightarrow> milestone_imported plain_importer_env 1 (lr_rest small_log) S 5)"
proof -
  let ?line = "\<lambda>md. ie_line_len plain_importer_env (Line md)" and ?st = "start_archiver None 1 5"
  obtain r st w1 st' w' where run: "archiver_loop ?line [ArMilestoneData small_milestone None] ?st wit_world = (r, st, w1)"
    and tm: "archiver_terminating st w1 = (st', w')" by (metis surj_pair)
  have arch: "archived_small = (st', w')" using run tm by (simp add: archived_small_def)
  have "fst (archiver_loop ?line [ArMilestoneData small_milestone None] ?st wit_world) = Inr ()" by code_simp
  then have ok: "archiver_loop ?line [ArMilestoneData small_milestone None] ?st wit_world = (Inr (), st, w1)" using run by simp
  have kept: "Range 5 6 \<in> set (processed (fst archived_small)) \<union> lf_range ` set (Archiver.logs (fst archived_small))" by code_simp
  have red: "log_try_from (ie_line_len plain_importer_env) [] (LogName 5 6) (snd archived_small) = Inr small_log" by code_simp
  have "(case import_all plain_importer_env small_labels small_import of None \<Rightarrow> False
      | Some S \<Rightarrow> is_exit S = Some Finished \<and> is_batches S = [] \<and> is_workers S = [] \<and> is_inbox S = [] \<and> \<not> im_stopping (is_importer S))"
    by code_simp
  then obtain S where all: "import_all plain_importer_env small_labels small_import = Some S" and fin: "is_exit S = Some Finished"
    and idle: "is_batches S = []" "is_workers S = []" "is_inbox S = []" "\<not> im_stopping (is_importer S)"
    by (auto simp del: import_all.simps split: option.splits)
  have "clean_world wit_world" "run_fresh ?line [ArMilestoneData small_milestone None] ?st wit_world" by code_simp+
  moreover have "reliable plain_importer_env" by (simp add: reliable_def plain_importer_env_def)
  moreover have "(None :: u8 option) \<noteq> Some 0" by simp
  moreover have "\<forall>l\<in>set small_labels. well_framed l" by simp
  moreover have "\<forall>l. 0 < ie_line_len plain_importer_env l" by (simp add: plain_importer_env_def)
  moreover have "sum_list (map (\<lambda>l. unat (ie_line_len plain_importer_env l)) (lr_rest small_log)) < 2 ^ 64"
    by (simp add: plain_importer_env_def small_log_def)
  ultimately have "is_exit S = Some Aborted \<and> import_trouble None (Inr default_sync_data) [] (lr_rest small_log) small_labels \<or>
      is_exit S = Some Panicked \<and> crashing_line plain_importer_env (lr_rest small_log) \<or>
      is_exit S = Some Finished \<and> (\<forall>mi. 5 \<le> mi \<and> mi < 6 \<longrightarrow> skipped None (Inr default_sync_data) None mi \<or>
        milestone_imported plain_importer_env 1 (lr_rest small_log) S mi)"
    using kept red by (intro archive_imported_whole [OF _ _ ok tm _ _ _ _ _ _ import_all_run [OF all] _ idle]) (simp_all add: arch)
  moreover have "\<not> skipped None (Inr default_sync_data) None 5" by (simp add: skipped_def default_sync_data_def i32_max_def range_contains_def)
  moreover have "5 \<le> (5::u32) \<and> (5::u32) < 6" by simp
  ultimately have "milestone_imported plain_importer_env 1 (lr_rest small_log) S 5" using fin by auto
  then show ?thesis using red all by (simp del: import_all.simps)
qed

end
