(* ===== verification/Binary_Heap.thy ===== *)
theory Binary_Heap
  imports Chronicle_Prelude "HOL-Library.Multiset"
begin

text \<open>
  \<^verbatim>\<open>std::collections::BinaryHeap\<close>, on which the configuration history is built: a vector in which
  the parent of position \<open>i\<close> is at \<open>(i - 1) div 2\<close> and has no smaller key. Its operations are those
  of the standard library (a hole moved through the vector is written as swaps), because the history
  also relies on the order of the vector: \<^verbatim>\<open>drain\<close> and \<^verbatim>\<open>iter\<close> yield it from front to back.
\<close>

section \<open>Operations\<close>

definition swap :: "'a list \<Rightarrow> nat \<Rightarrow> nat \<Rightarrow> 'a list" where
  "swap xs i j = xs[i := xs ! j, j := xs ! i]"

definition bh_parent :: "nat \<Rightarrow> nat" where
  "bh_parent i = (i - 1) div 2"

lemma bh_parent_less [simp]: "0 < i \<Longrightarrow> bh_parent i < i"
  by (simp add: bh_parent_def)

function sift_up :: "('a \<Rightarrow> 'k::linorder) \<Rightarrow> 'a list \<Rightarrow> nat \<Rightarrow> 'a list" where
  "sift_up key xs pos =
     (if pos = 0 then xs
      else if key (xs ! pos) \<le> key (xs ! bh_parent pos) then xs
      else sift_up key (swap xs pos (bh_parent pos)) (bh_parent pos))"
  by pat_completeness auto
termination by (relation "measure (\<lambda>(_, _, pos). pos)") auto

text \<open>The greater child of a position, the right one if they are equal.\<close>

definition greater_child :: "('a \<Rightarrow> 'k::linorder) \<Rightarrow> 'a list \<Rightarrow> nat \<Rightarrow> nat \<Rightarrow> nat" where
  "greater_child key xs end' pos =
     (let l = 2 * pos + 1 in
      if l + 1 < end' \<and> key (xs ! l) \<le> key (xs ! (l + 1)) then l + 1 else l)"

lemma greater_child_gt [simp]: "pos < greater_child key xs n pos" "greater_child key xs n pos \<le> 2 * pos + 2"
  by (simp_all add: greater_child_def Let_def)

lemma greater_child_less: "2 * pos + 1 < n \<Longrightarrow> greater_child key xs n pos < n"
  by (simp add: greater_child_def Let_def)

lemma greater_child_parent [simp]: "bh_parent (greater_child key xs n pos) = pos"
  by (simp add: greater_child_def bh_parent_def Let_def)

function sift_down :: "('a \<Rightarrow> 'k::linorder) \<Rightarrow> 'a list \<Rightarrow> nat \<Rightarrow> nat \<Rightarrow> 'a list" where
  "sift_down key xs end' pos =
     (let c = greater_child key xs end' pos in
      if end' \<le> 2 * pos + 1 \<or> key (xs ! c) \<le> key (xs ! pos) then xs
      else sift_down key (swap xs pos c) end' c)"
  by pat_completeness auto
termination
  by (relation "measure (\<lambda>(_, _, n, pos). n - pos)") (auto intro!: diff_less_mono2)

function sift_to_bottom :: "('a \<Rightarrow> 'k::linorder) \<Rightarrow> 'a list \<Rightarrow> nat \<Rightarrow> 'a list \<times> nat" where
  "sift_to_bottom key xs pos =
     (if length xs \<le> 2 * pos + 1 then (xs, pos)
      else (let c = greater_child key xs (length xs) pos in sift_to_bottom key (swap xs pos c) c))"
  by pat_completeness auto
termination
  by (relation "measure (\<lambda>(_, xs, pos). length xs - pos)") (auto simp: swap_def intro!: diff_less_mono2)

declare sift_up.simps [simp del] sift_down.simps [simp del] sift_to_bottom.simps [simp del]

lemma sift_up_0 [simp]: "sift_up key xs 0 = xs"
  by (simp add: sift_up.simps [of key xs 0])

definition bh_push :: "('a \<Rightarrow> 'k::linorder) \<Rightarrow> 'a \<Rightarrow> 'a list \<Rightarrow> 'a list" where
  "bh_push key x xs = sift_up key (xs @ [x]) (length xs)"

definition bh_peek :: "'a list \<Rightarrow> 'a option" where
  "bh_peek xs = (case xs of [] \<Rightarrow> None | x # _ \<Rightarrow> Some x)"

text \<open>The last element is put at the root, moved to the bottom and up again.\<close>

definition bh_pop :: "('a \<Rightarrow> 'k::linorder) \<Rightarrow> 'a list \<Rightarrow> ('a \<times> 'a list) option" where
  "bh_pop key xs =
     (case rev xs of
        [] \<Rightarrow> None
      | x # ys \<Rightarrow>
          (case rev ys of
             [] \<Rightarrow> Some (x, [])
           | r # rest \<Rightarrow> Some (r, case sift_to_bottom key (x # rest) 0 of (zs, p) \<Rightarrow> sift_up key zs p)))"

definition bh_rebuild :: "('a \<Rightarrow> 'k::linorder) \<Rightarrow> 'a list \<Rightarrow> 'a list" where
  "bh_rebuild key xs = fold (\<lambda>i ys. sift_down key ys (length xs) i) (rev [0 ..< length xs div 2]) xs"

definition bh_into_sorted :: "('a \<Rightarrow> 'k::linorder) \<Rightarrow> 'a list \<Rightarrow> 'a list" where
  "bh_into_sorted key xs = fold (\<lambda>n ys. sift_down key (swap ys 0 n) n 0) (rev [1 ..< length xs]) xs"

section \<open>The elements\<close>

lemma swap_length [simp]: "length (swap xs i j) = length xs"
  by (simp add: swap_def)

lemma swap_nth: "k < length xs \<Longrightarrow> i < length xs \<Longrightarrow> j < length xs \<Longrightarrow>
    swap xs i j ! k = (if k = j then xs ! i else if k = i then xs ! j else xs ! k)"
  by (simp add: swap_def nth_list_update)

lemma swap_mset: "i < length xs \<Longrightarrow> j < length xs \<Longrightarrow> mset (swap xs i j) = mset xs"
  by (simp add: swap_def mset_swap)

lemma sift_up_mset: "pos < length xs \<Longrightarrow> mset (sift_up key xs pos) = mset xs"
proof (induction key xs pos rule: sift_up.induct)
  case (1 key xs pos)
  then show ?case
    using bh_parent_less [of pos] by (subst sift_up.simps) (auto simp: swap_mset simp del: bh_parent_less)
qed

lemma sift_down_mset: "pos < end' \<Longrightarrow> end' \<le> length xs \<Longrightarrow> mset (sift_down key xs end' pos) = mset xs"
proof (induction key xs end' pos rule: sift_down.induct)
  case (1 key xs end' pos)
  then show ?case
    using greater_child_less [of pos end' key xs] by (subst sift_down.simps) (auto simp: swap_mset Let_def)
qed

lemma sift_to_bottom_mset:
  "pos < length xs \<Longrightarrow> sift_to_bottom key xs pos = (ys, q) \<Longrightarrow> mset ys = mset xs \<and> q < length xs"
proof (induction key xs pos rule: sift_to_bottom.induct)
  case (1 key xs pos)
  show ?case
  proof (cases "length xs \<le> 2 * pos + 1")
    case True
    then show ?thesis using 1 by (simp add: sift_to_bottom.simps [of key xs pos])
  next
    case False
    let ?c = "greater_child key xs (length xs) pos"
    have c: "?c < length xs" using False by (simp add: greater_child_less)
    have s: "sift_to_bottom key (swap xs pos ?c) ?c = (ys, q)"
      using "1.prems"(2) False by (simp add: sift_to_bottom.simps [of key xs pos] Let_def)
    show ?thesis
      using "1.IH" [OF False refl _ s] c "1.prems"(1) by (simp add: swap_mset)
  qed
qed

lemma length_sifts [simp]:
  "pos < length xs \<Longrightarrow> length (sift_up key xs pos) = length xs"
  "pos < end' \<Longrightarrow> end' \<le> length xs \<Longrightarrow> length (sift_down key xs end' pos) = length xs"
  by (metis sift_up_mset size_mset, metis sift_down_mset size_mset)

lemma bh_push_mset [simp]: "mset (bh_push key x xs) = add_mset x (mset xs)" "set (bh_push key x xs) = insert x (set xs)"
proof -
  show "mset (bh_push key x xs) = add_mset x (mset xs)"
    by (simp add: bh_push_def sift_up_mset)
  then show "set (bh_push key x xs) = insert x (set xs)"
    by (metis set_mset_add_mset_insert set_mset_mset)
qed

lemma bh_push_ne [simp]: "bh_push key x xs \<noteq> []"
  using bh_push_mset(2) [of key x xs] by (metis empty_set insert_not_empty)

section \<open>The heap order\<close>

definition heap_ok :: "('a \<Rightarrow> 'k::linorder) \<Rightarrow> 'a list \<Rightarrow> bool" where
  "heap_ok key xs \<longleftrightarrow> (\<forall>i<length xs. 0 < i \<longrightarrow> key (xs ! i) \<le> key (xs ! bh_parent i))"

text \<open>Ordered but for the edge above a position, or but for the edges around it.\<close>

definition up_ok :: "('a \<Rightarrow> 'k::linorder) \<Rightarrow> 'a list \<Rightarrow> nat \<Rightarrow> bool" where
  "up_ok key xs h \<longleftrightarrow> h < length xs \<and>
     (\<forall>i<length xs. 0 < i \<longrightarrow> i \<noteq> h \<longrightarrow> key (xs ! i) \<le> key (xs ! bh_parent i)) \<and>
     (\<forall>i<length xs. 0 < i \<longrightarrow> bh_parent i = h \<longrightarrow> 0 < h \<longrightarrow> key (xs ! i) \<le> key (xs ! bh_parent h))"

definition hole_ok :: "('a \<Rightarrow> 'k::linorder) \<Rightarrow> 'a list \<Rightarrow> nat \<Rightarrow> bool" where
  "hole_ok key xs h \<longleftrightarrow> h < length xs \<and>
     (\<forall>i<length xs. 0 < i \<longrightarrow> i \<noteq> h \<longrightarrow> bh_parent i \<noteq> h \<longrightarrow> key (xs ! i) \<le> key (xs ! bh_parent i)) \<and>
     (\<forall>i<length xs. 0 < i \<longrightarrow> bh_parent i = h \<longrightarrow> 0 < h \<longrightarrow> key (xs ! i) \<le> key (xs ! bh_parent h))"

lemma heap_root:
  assumes "heap_ok key xs" and "i < length xs"
  shows "key (xs ! i) \<le> key (xs ! 0)"
  using assms(2)
proof (induction i rule: less_induct)
  case (less i)
  show ?case
  proof (cases "i = 0")
    case False
    then have "key (xs ! i) \<le> key (xs ! bh_parent i)"
      using assms(1) less.prems by (simp add: heap_ok_def)
    moreover have "key (xs ! bh_parent i) \<le> key (xs ! 0)"
      using False less.prems bh_parent_less [of i] by (intro less.IH) (auto simp del: bh_parent_less)
    ultimately show ?thesis by (rule order_trans)
  qed simp
qed

lemma heap_ok_Nil [simp]: "heap_ok key []"
  by (simp add: heap_ok_def)

lemma heap_ok_take: "heap_ok key xs \<Longrightarrow> heap_ok key (take n xs)"
  by (auto simp: heap_ok_def) (metis bh_parent_less less_trans nth_take)

lemma up_ok_swap:
  assumes "up_ok key xs h" and h: "0 < h" and lt: "key (xs ! bh_parent h) < key (xs ! h)"
  shows "up_ok key (swap xs h (bh_parent h)) (bh_parent h)"
proof -
  let ?p = "bh_parent h"
  have hl: "h < length xs"
    and ord: "\<And>i. i < length xs \<Longrightarrow> 0 < i \<Longrightarrow> i \<noteq> h \<Longrightarrow> key (xs ! i) \<le> key (xs ! bh_parent i)"
    and sub: "\<And>i. i < length xs \<Longrightarrow> 0 < i \<Longrightarrow> bh_parent i = h \<Longrightarrow> key (xs ! i) \<le> key (xs ! ?p)"
    using assms(1) h by (auto simp: up_ok_def)
  have ph: "?p < h" using h by simp
  have pl: "?p < length xs" using ph hl by simp
  have nth: "\<And>i. i < length xs \<Longrightarrow> swap xs h ?p ! i = (if i = ?p then xs ! h else if i = h then xs ! ?p else xs ! i)"
    using hl pl by (simp add: swap_nth)
  show ?thesis
    unfolding up_ok_def swap_length
  proof (intro conjI allI impI)
    show "?p < length xs" by (rule pl)
  next
    fix i assume i: "i < length xs" "0 < i" "i \<noteq> ?p"
    have pi: "bh_parent i < length xs" by (rule less_trans [OF bh_parent_less [OF i(2)] i(1)])
    have "key (xs ! i) \<le> key (xs ! bh_parent i)" if "i \<noteq> h" using ord i that by simp
    then show "key (swap xs h ?p ! i) \<le> key (swap xs h ?p ! bh_parent i)"
      using i lt sub [of i] ph by (auto simp: nth pi)
  next
    fix i assume i: "i < length xs" "0 < i" "bh_parent i = ?p" "0 < ?p"
    have pp: "bh_parent ?p < ?p" using i by simp
    have up: "key (xs ! ?p) \<le> key (xs ! bh_parent ?p)"
      using ord [OF pl i(4)] ph by simp
    show "key (swap xs h ?p ! i) \<le> key (swap xs h ?p ! bh_parent ?p)"
    proof (cases "i = h")
      case True
      then show ?thesis using up hl pl pp ph by (simp add: nth)
    next
      case False
      then have "key (xs ! i) \<le> key (xs ! bh_parent ?p)" using ord [OF i(1,2)] i(3) up by simp
      then show ?thesis using False i pp ph pl by (auto simp: nth)
    qed
  qed
qed

lemma up_ok_done:
  assumes "up_ok key xs h" and "h = 0 \<or> key (xs ! h) \<le> key (xs ! bh_parent h)"
  shows "heap_ok key xs"
  using assms by (auto simp: up_ok_def heap_ok_def)

lemma sift_up_heap: "up_ok key xs h \<Longrightarrow> heap_ok key (sift_up key xs h)"
proof (induction key xs h rule: sift_up.induct)
  case (1 key xs pos)
  show ?case
  proof (cases "pos = 0 \<or> key (xs ! pos) \<le> key (xs ! bh_parent pos)")
    case True
    then show ?thesis using up_ok_done [OF "1.prems" True] by (auto simp: sift_up.simps [of key xs pos])
  next
    case False
    then show ?thesis
      using "1.IH" up_ok_swap [OF "1.prems"] by (auto simp: sift_up.simps [of key xs pos] not_le)
  qed
qed

lemma bh_push_heap [simp]:
  assumes "heap_ok key xs"
  shows "heap_ok key (bh_push key x xs)"
proof -
  have "up_ok key (xs @ [x]) (length xs)"
    unfolding up_ok_def
  proof (intro conjI allI impI)
    fix i assume i: "i < length (xs @ [x])" "0 < i" "i \<noteq> length xs"
    then have "i < length xs" "bh_parent i < length xs" using bh_parent_less [OF i(2)] by (simp_all del: bh_parent_less)
    then show "key ((xs @ [x]) ! i) \<le> key ((xs @ [x]) ! bh_parent i)"
      using assms i(2) by (simp add: heap_ok_def nth_append)
  next
    fix i assume "i < length (xs @ [x])" "0 < i" "bh_parent i = length xs"
    then show "key ((xs @ [x]) ! i) \<le> key ((xs @ [x]) ! bh_parent (length xs))"
      using bh_parent_less [of i] by (simp del: bh_parent_less)
  qed simp
  then show ?thesis unfolding bh_push_def by (rule sift_up_heap)
qed

lemma bh_parent_nth: "0 < i \<Longrightarrow> i < n \<Longrightarrow> bh_parent i < n"
  using bh_parent_less [of i] by (simp del: bh_parent_less)

text \<open>Both children of a position are no greater than its greater child.\<close>

lemma greater_child_max:
  assumes "0 < i" and "i < length xs" and "bh_parent i = pos"
  shows "key (xs ! i) \<le> key (xs ! greater_child key xs (length xs) pos)"
proof -
  have "i = 2 * pos + 1 \<or> i = 2 * pos + 2" using assms(1,3) unfolding bh_parent_def by linarith
  then show ?thesis using assms(2) by (auto simp: greater_child_def Let_def not_le intro: less_imp_le)
qed

lemma hole_ok_swap:
  assumes ok: "hole_ok key xs h" and "2 * h + 1 < length xs"
  shows "hole_ok key (swap xs h (greater_child key xs (length xs) h)) (greater_child key xs (length xs) h)"
proof -
  let ?c = "greater_child key xs (length xs) h"
  have hl: "h < length xs"
    and ord: "\<And>i. i < length xs \<Longrightarrow> 0 < i \<Longrightarrow> i \<noteq> h \<Longrightarrow> bh_parent i \<noteq> h \<Longrightarrow> key (xs ! i) \<le> key (xs ! bh_parent i)"
    and sub: "\<And>i. i < length xs \<Longrightarrow> 0 < i \<Longrightarrow> bh_parent i = h \<Longrightarrow> 0 < h \<Longrightarrow> key (xs ! i) \<le> key (xs ! bh_parent h)"
    using ok by (auto simp: hole_ok_def)
  have cl: "?c < length xs" using assms(2) by (rule greater_child_less)
  have hc: "h < ?c" "bh_parent ?c = h" by simp_all
  have nth: "\<And>i. i < length xs \<Longrightarrow> swap xs h ?c ! i = (if i = ?c then xs ! h else if i = h then xs ! ?c else xs ! i)"
    using hl cl by (simp add: swap_nth)
  have at_h: "swap xs h ?c ! h = xs ! ?c"
    using hl cl less_imp_neq [OF hc(1)] by (simp add: swap_def)
  have cpos: "0 < ?c" using hc(1) by linarith
  show ?thesis
    unfolding hole_ok_def swap_length
  proof (intro conjI allI impI)
    show "?c < length xs" by (rule cl)
  next
    fix i assume i: "i < length xs" "0 < i" "i \<noteq> ?c" "bh_parent i \<noteq> ?c"
    have pl: "bh_parent i < length xs" using i(1,2) by (metis bh_parent_nth)
    show "key (swap xs h ?c ! i) \<le> key (swap xs h ?c ! bh_parent i)"
    proof (cases "i = h")
      case True
      then have "key (xs ! ?c) \<le> key (xs ! bh_parent h)" using sub [OF cl cpos hc(2)] i(2) by simp
      moreover have "bh_parent h \<noteq> h" "bh_parent h \<noteq> ?c" using bh_parent_less [OF i(2)] True i(4) by (auto simp del: bh_parent_less)
      ultimately show ?thesis using True i(1,3) pl by (simp add: nth)
    next
      case neq: False
      show ?thesis
      proof (cases "bh_parent i = h")
        case True
        moreover have "swap xs h ?c ! i = xs ! i" using i(1,3) neq by (simp add: nth)
        ultimately show ?thesis using greater_child_max [OF i(2,1) True] at_h by simp
      next
        case False
        then show ?thesis using ord [OF i(1,2) neq False] i(1,3,4) neq pl by (simp add: nth)
      qed
    qed
  next
    fix i assume i: "i < length xs" "0 < i" "bh_parent i = ?c" "0 < ?c"
    have ne: "i \<noteq> ?c" "i \<noteq> h" "bh_parent i \<noteq> h"
      using bh_parent_less [OF i(2)] i(3) hc(1) by (auto simp del: bh_parent_less greater_child_gt)
    have "key (xs ! i) \<le> key (xs ! ?c)" using ord [OF i(1,2) ne(2,3)] i(3) by simp
    moreover have "swap xs h ?c ! i = xs ! i" using i(1) ne(1,2) by (simp add: nth)
    ultimately show "key (swap xs h ?c ! i) \<le> key (swap xs h ?c ! bh_parent ?c)"
      using at_h hc(2) by simp
  qed
qed

lemma sift_to_bottom_up_ok:
  "hole_ok key xs pos \<Longrightarrow> sift_to_bottom key xs pos = (ys, q) \<Longrightarrow> up_ok key ys q"
proof (induction key xs pos rule: sift_to_bottom.induct)
  case (1 key xs pos)
  show ?case
  proof (cases "length xs \<le> 2 * pos + 1")
    case True
    then have "ys = xs" "q = pos" using "1.prems"(2) by (simp_all add: sift_to_bottom.simps [of key xs pos])
    moreover have "bh_parent i \<noteq> pos" if "0 < i" "i < length xs" for i
      using True that unfolding bh_parent_def by linarith
    ultimately show ?thesis using "1.prems"(1) by (auto simp: hole_ok_def up_ok_def)
  next
    case False
    let ?c = "greater_child key xs (length xs) pos"
    have s: "sift_to_bottom key (swap xs pos ?c) ?c = (ys, q)"
      using "1.prems"(2) False by (simp add: sift_to_bottom.simps [of key xs pos] Let_def)
    show ?thesis
      using False by (intro "1.IH" [OF False refl _ s] hole_ok_swap [OF "1.prems"(1)]) simp
  qed
qed

lemma heap_replace_root: "heap_ok key (r # rest) \<Longrightarrow> hole_ok key (x # rest) 0"
  unfolding heap_ok_def hole_ok_def by (auto simp: nth_Cons')

lemma bh_pop_cases:
  "bh_pop key [] = None"
  "bh_pop key [x] = Some (x, [])"
  "bh_pop key (r # rest @ [x]) = Some (r, case sift_to_bottom key (x # rest) 0 of (zs, p) \<Rightarrow> sift_up key zs p)"
  by (simp_all add: bh_pop_def)

lemma bh_pop_heap:
  assumes "heap_ok key xs" and "bh_pop key xs = Some (x, ys)"
  shows "heap_ok key ys \<and> mset xs = add_mset x (mset ys) \<and> bh_peek xs = Some x"
proof (cases xs)
  case Nil
  then show ?thesis using assms(2) by (simp add: bh_pop_cases)
next
  case (Cons r rest)
  show ?thesis
  proof (cases rest rule: rev_cases)
    case Nil
    then show ?thesis using assms(2) Cons by (auto simp: bh_pop_cases bh_peek_def)
  next
    case (snoc mid z)
    obtain zs p where s: "sift_to_bottom key (z # mid) 0 = (zs, p)" by force
    have eq: "x = r" "ys = sift_up key zs p" using assms(2) Cons snoc s by (simp_all add: bh_pop_cases)
    have "heap_ok key (take (Suc (length mid)) (r # mid @ [z]))"
      using assms(1) Cons snoc by (metis heap_ok_take)
    then have "hole_ok key (z # mid) 0" by (intro heap_replace_root) simp
    then have up: "up_ok key zs p" using s by (rule sift_to_bottom_up_ok)
    moreover have m: "mset zs = mset (z # mid)" "p < length (z # mid)"
      using sift_to_bottom_mset [OF _ s] by auto
    moreover have "length zs = length (z # mid)" using m(1) by (metis size_mset)
    ultimately show ?thesis
      using sift_up_heap [OF up] m Cons snoc eq sift_up_mset [of p zs key] by (auto simp: bh_peek_def)
  qed
qed

lemma bh_pop_None [simp]: "bh_pop key xs = None \<longleftrightarrow> xs = []"
  by (cases xs rule: rev_cases) (auto simp: bh_pop_def split: list.splits)

section \<open>Rebuilding\<close>

text \<open>Nothing moves when the order already holds, as for a prefix of a heap.\<close>

lemma sift_down_id:
  assumes "heap_ok key xs" and "n \<le> length xs"
  shows "sift_down key xs n pos = xs"
proof (cases "n \<le> 2 * pos + 1")
  case False
  let ?c = "greater_child key xs n pos"
  have "?c < n" using False by (simp add: greater_child_less)
  moreover have "0 < ?c" using greater_child_gt(1) [of pos key xs n] by linarith
  ultimately have "key (xs ! ?c) \<le> key (xs ! pos)"
    using assms greater_child_parent [of key xs n pos] unfolding heap_ok_def by (metis order_less_le_trans)
  then show ?thesis by (simp add: sift_down.simps [of key xs n pos] Let_def)
qed (simp add: sift_down.simps [of key xs n pos] Let_def)

lemma bh_rebuild_id: "heap_ok key xs \<Longrightarrow> bh_rebuild key xs = xs"
proof -
  assume ok: "heap_ok key xs"
  have "fold (\<lambda>i ys. sift_down key ys (length xs) i) is xs = xs" for "is"
    by (induction "is") (simp_all add: sift_down_id [OF ok])
  then show ?thesis by (simp add: bh_rebuild_def)
qed

section \<open>Sorting\<close>

lemma bh_sort_step:
  assumes "Suc n \<le> length ys" and "0 < n"
  shows "mset (sift_down key (swap ys 0 n) n 0) = mset ys"
  using assms sift_down_mset [of 0 n "swap ys 0 n" key] swap_mset [of 0 ys n] by (cases ys) auto

lemma bh_into_sorted_fold:
  "(\<forall>n\<in>set ns. 0 < n \<and> n < length ys) \<Longrightarrow>
     mset (fold (\<lambda>n ys. sift_down key (swap ys 0 n) n 0) ns ys) = mset ys"
proof (induction ns arbitrary: ys)
  case (Cons n ns)
  have m: "mset (sift_down key (swap ys 0 n) n 0) = mset ys"
    using Cons.prems by (intro bh_sort_step) auto
  then have "length (sift_down key (swap ys 0 n) n 0) = length ys" by (metis size_mset)
  then show ?case using Cons.IH [of "sift_down key (swap ys 0 n) n 0"] Cons.prems m by simp
qed simp

lemma bh_into_sorted_mset [simp]: "mset (bh_into_sorted key xs) = mset xs" "set (bh_into_sorted key xs) = set xs"
proof -
  show "mset (bh_into_sorted key xs) = mset xs"
    unfolding bh_into_sorted_def by (rule bh_into_sorted_fold) auto
  then show "set (bh_into_sorted key xs) = set xs" by (metis set_mset_mset)
qed

lemma sift_down_above: "pos < end' \<Longrightarrow> end' \<le> i \<Longrightarrow> i < length xs \<Longrightarrow> sift_down key xs end' pos ! i = xs ! i"
proof (induction key xs end' pos rule: sift_down.induct)
  case (1 key xs end' pos)
  then show ?case
    using greater_child_less [of pos end' key xs] by (subst sift_down.simps) (auto simp: swap_nth Let_def)
qed

lemma bh_into_sorted_last:
  assumes "xs \<noteq> []"
  shows "last (bh_into_sorted key xs) = xs ! 0"
proof -
  let ?f = "\<lambda>n ys. sift_down key (swap ys 0 n) n 0"
  have keep: "fold ?f ns ys ! i = ys ! i"
    if "\<forall>n\<in>set ns. 0 < n \<and> n < i" "i < length ys" for ns ys i
    using that
  proof (induction ns arbitrary: ys)
    case (Cons n ns)
    have "length (?f n ys) = length ys" using Cons.prems by (subst length_sifts(2)) auto
    moreover have "?f n ys ! i = ys ! i"
      using Cons.prems by (subst sift_down_above) (auto simp: swap_def)
    ultimately show ?case using Cons.IH [of "?f n ys"] Cons.prems by simp
  qed simp
  have len: "length (bh_into_sorted key xs) = length xs" by (metis bh_into_sorted_mset(1) size_mset)
  have "bh_into_sorted key xs ! (length xs - 1) = xs ! 0"
  proof (cases "length xs = 1")
    case False
    then obtain m where m: "length xs = Suc m" "0 < m" using assms by (cases "length xs") auto
    have "bh_into_sorted key xs = fold ?f (rev [1 ..< m]) (?f m xs)"
      using m by (simp add: bh_into_sorted_def)
    moreover have "?f m xs ! m = xs ! 0"
      using m by (subst sift_down_above) (auto simp: swap_nth)
    moreover have "length (?f m xs) = length xs" using m by (subst length_sifts(2)) auto
    ultimately show ?thesis using keep [of "rev [1 ..< m]" m "?f m xs"] m by simp
  qed (simp add: bh_into_sorted_def)
  then show ?thesis using len assms by (metis last_conv_nth length_0_conv)
qed

end
