(* ===== verification/Ascending_Heap.thy ===== *)
theory Ascending_Heap
  imports Binary_Heap Milestone_Data
begin

text \<open>
  The heap of \<^verbatim>\<open>Ascending<MilestoneData>\<close>, on the standard library's heap. The syncer and the archiver
  are modelled with a list of milestone data from which the least is taken; the vector that the code
  keeps satisfies the same contract, so both hand out the same milestones in the same order.
\<close>

text \<open>\<^verbatim>\<open>impl Ord for Ascending<MilestoneData>\<close> reverses the order of the indices.\<close>

definition ascending :: "milestone_data \<Rightarrow> int" where
  "ascending md = - uint (ms_index md)"

lemma ascending_le [simp]: "ascending a \<le> ascending b \<longleftrightarrow> ms_index b \<le> ms_index a"
  by (simp add: ascending_def word_le_def)

typedef ascending_heap = "{xs. heap_ok ascending xs}"
  by (rule exI [of _ "[]"]) simp

setup_lifting type_definition_ascending_heap

lift_definition std_push :: "milestone_data \<Rightarrow> ascending_heap \<Rightarrow> ascending_heap" is "bh_push ascending"
  by (rule bh_push_heap)

lift_definition std_pop :: "ascending_heap \<Rightarrow> (milestone_data \<times> ascending_heap) option" is "bh_pop ascending"
  subgoal for xs by (cases "bh_pop ascending xs") (auto simp: bh_pop_cases(1) dest: bh_pop_heap)
  done

lift_definition std_elems :: "ascending_heap \<Rightarrow> milestone_data multiset" is mset .

interpretation std: min_heap std_push std_pop std_elems ms_index
proof unfold_locales
  show "std_elems (std_push x h) = add_mset x (std_elems h)" for x h
    by transfer (simp add: bh_push_mset)
  show "std_pop h = None \<longleftrightarrow> std_elems h = {#}" for h
    by transfer (simp add: bh_pop_None)
  show "std_elems h = add_mset x (std_elems h') \<and> (\<forall>y\<in>#std_elems h'. ms_index x \<le> ms_index y)"
    if "std_pop h = Some (x, h')" for h x h'
    using that
  proof transfer
    fix xs x ys
    assume ok: "heap_ok ascending xs" and pop: "bh_pop ascending xs = Some (x, ys)"
    note p = bh_pop_heap [OF ok pop]
    have "ascending y \<le> ascending x" if "y \<in> set ys" for y
    proof -
      have "y \<in> set xs" using p that by (metis insertCI set_mset_add_mset_insert set_mset_mset)
      moreover have "xs ! 0 = x" using p by (cases xs) (simp_all add: bh_peek_def)
      ultimately show ?thesis using heap_root [OF ok] by (metis in_set_conv_nth)
    qed
    then show "mset xs = add_mset x (mset ys) \<and> (\<forall>y\<in>#mset ys. ms_index x \<le> ms_index y)"
      using p by auto
  qed
qed

text \<open>Emptied, both heaps have handed out the same milestones in the same order.\<close>

lemma same_order:
  assumes "asc.drains xs as []" and "std.drains h bs h'" and "std_elems h' = {#}" and "std_elems h = mset xs"
  shows "map ms_index as = map ms_index bs"
proof -
  have "mset as = mset bs" using asc.drains_sorted [OF assms(1)] std.drains_sorted [OF assms(2)] assms(3, 4) by simp
  then have "mset (map ms_index as) = mset (map ms_index bs)" by simp
  then show ?thesis using asc.drains_sorted [OF assms(1)] std.drains_sorted [OF assms(2)]
    by (metis properties_for_sort sorted_sort_id)
qed

end
