(* ===== verification/History.thy ===== *)
theory History
  imports Binary_Heap "HOL-Library.Sublist"
begin

text \<open>
  The history of configurations (\<^verbatim>\<open>History\<close> and \<^verbatim>\<open>HistoricalConfig\<close> of
  \<^verbatim>\<open>chronicle-common/src/lib.rs\<close>): a heap of records by the second of their creation, the newest of
  which is the configuration of the program. The payload is arbitrary here; \<^verbatim>\<open>Config\<close> is in the
  theory of the configuration. The clock is an argument.
\<close>

section \<open>Operations\<close>

record 'c historical =
  hc_config :: 'c
  hc_created :: u64

record 'c history =
  hs_records :: "'c historical list"
  hs_max :: usize

definition new_history :: "usize \<Rightarrow> 'c history" where
  "new_history m = \<lparr>hs_records = [], hs_max = m\<rparr>"

definition default_history :: "'c history" where
  "default_history = \<lparr>hs_records = [], hs_max = 20\<rparr>"

text \<open>\<^verbatim>\<open>max_records.map(new).unwrap_or_default()\<close> of \<^verbatim>\<open>load\<close>.\<close>

definition fresh_history :: "usize option \<Rightarrow> 'c history" where
  "fresh_history m = (case m of None \<Rightarrow> default_history | Some m \<Rightarrow> new_history m)"

definition history_last :: "'c \<Rightarrow> 'c history \<Rightarrow> 'c historical" where
  "history_last d h = (case bh_peek (hs_records h) of None \<Rightarrow> \<lparr>hc_config = d, hc_created = 0\<rparr> | Some r \<Rightarrow> r)"

definition latest :: "'c \<Rightarrow> 'c history \<Rightarrow> 'c" where
  "latest d h = (case bh_peek (hs_records h) of None \<Rightarrow> d | Some r \<Rightarrow> hc_config r)"

definition truncate :: "'c history \<Rightarrow> 'c history" where
  "truncate h = h\<lparr>hs_records := bh_rebuild hc_created (take (unat (hs_max h)) (hs_records h))\<rparr>"

definition history_add :: "'c \<Rightarrow> u64 \<Rightarrow> 'c history \<Rightarrow> 'c history" where
  "history_add c created h =
     truncate (h\<lparr>hs_records := bh_push hc_created \<lparr>hc_config = c, hc_created = created\<rparr> (hs_records h)\<rparr>)"

text \<open>\<^verbatim>\<open>update\<close>: the record is created now.\<close>

definition history_update :: "u64 \<Rightarrow> 'c \<Rightarrow> 'c history \<Rightarrow> 'c history" where
  "history_update now c h =
     truncate (h\<lparr>hs_records := bh_push hc_created \<lparr>hc_config = c, hc_created = now\<rparr> (hs_records h)\<rparr>)"

definition rollback :: "'c history \<Rightarrow> 'c option \<times> 'c history" where
  "rollback h =
     (case bh_pop hc_created (hs_records h) of
        None \<Rightarrow> (None, h)
      | Some (r, rs) \<Rightarrow> (Some (hc_config r), h\<lparr>hs_records := rs\<rparr>))"

definition history_iter :: "'c history \<Rightarrow> 'c historical list" where
  "history_iter h = hs_records h"

section \<open>The invariant\<close>

definition history_ok :: "'c history \<Rightarrow> bool" where
  "history_ok h \<longleftrightarrow> heap_ok hc_created (hs_records h) \<and> length (hs_records h) \<le> unat (hs_max h)"

lemma update_is_add: "history_update now c h = history_add c now h"
  by (simp add: history_update_def history_add_def)

lemma history_add_records:
  "history_ok h \<Longrightarrow> hs_records (history_add c t h) =
     take (unat (hs_max h)) (bh_push hc_created \<lparr>hc_config = c, hc_created = t\<rparr> (hs_records h))"
  by (simp add: history_add_def truncate_def history_ok_def bh_rebuild_id heap_ok_take)

lemma hs_max_keeps [simp]:
  "hs_max (history_add c t h) = hs_max h" "hs_max (history_update now c h) = hs_max h"
  "hs_max (snd (rollback h)) = hs_max h"
  by (simp_all add: history_add_def history_update_def truncate_def rollback_def split: option.splits)

lemma history_ok_new [simp]: "history_ok (new_history m)" "history_ok default_history"
  by (simp_all add: history_ok_def new_history_def default_history_def)

lemma fresh_history [simp]:
  "history_ok (fresh_history m)" "hs_records (fresh_history m) = []"
  "hs_max (fresh_history m) = (case m of None \<Rightarrow> 20 | Some n \<Rightarrow> n)"
  by (simp_all add: fresh_history_def default_history_def new_history_def history_ok_def split: option.splits)

lemma history_ok_add [simp]: "history_ok h \<Longrightarrow> history_ok (history_add c t h)"
  unfolding history_ok_def [of "history_add c t h"] hs_max_keeps
  by (simp add: history_add_records heap_ok_take) (simp add: history_ok_def heap_ok_take)

lemma history_ok_update [simp]: "history_ok h \<Longrightarrow> history_ok (history_update now c h)"
  by (simp add: update_is_add)

lemma history_ok_rollback [simp]: "history_ok h \<Longrightarrow> history_ok (snd (rollback h))"
proof (cases "bh_pop hc_created (hs_records h)")
  case (Some p)
  obtain r rs where p: "p = (r, rs)" by force
  assume ok: "history_ok h"
  then have "heap_ok hc_created rs" "mset (hs_records h) = add_mset r (mset rs)"
    using bh_pop_heap [of hc_created "hs_records h" r rs] Some p by (simp_all add: history_ok_def)
  then show ?thesis
    using ok Some p by (auto simp: history_ok_def rollback_def dest: arg_cong [where f = size])
qed (simp add: rollback_def bh_pop_cases)

text \<open>The last record is a newest one.\<close>

lemma history_last_newest:
  assumes "history_ok h" and "r \<in> set (hs_records h)"
  shows "hc_created r \<le> hc_created (history_last d h)" "history_last d h \<in> set (hs_records h)"
proof -
  obtain x xs where xs: "hs_records h = x # xs" using assms(2) by (cases "hs_records h") auto
  obtain i where "i < length (hs_records h)" "r = hs_records h ! i" using assms(2) by (metis in_set_conv_nth)
  then show "hc_created r \<le> hc_created (history_last d h)"
    using heap_root [of hc_created "hs_records h" i] assms(1) xs by (simp add: history_ok_def history_last_def bh_peek_def)
  show "history_last d h \<in> set (hs_records h)" by (simp add: xs history_last_def bh_peek_def)
qed

lemma latest_last: "latest d h = hc_config (history_last d h)"
  by (simp add: latest_def history_last_def split: option.splits)

section \<open>A strictly newer record\<close>

text \<open>It rises to the root, and the old root ends just below it.\<close>

lemma sift_up_newest:
  assumes "pos < length xs" and "\<And>i. i < length xs \<Longrightarrow> i \<noteq> pos \<Longrightarrow> key (xs ! i) < key (xs ! pos)"
  shows "sift_up key xs pos ! 0 = xs ! pos \<and>
    (0 < pos \<longrightarrow> (\<exists>j\<in>{1, 2}. j < length xs \<and> sift_up key xs pos ! j = xs ! 0))"
  using assms
proof (induction key xs pos rule: sift_up.induct)
  case (1 key xs pos)
  let ?p = "bh_parent pos" and ?ys = "swap xs pos (bh_parent pos)"
  show ?case
  proof (cases "pos = 0")
    case False
    have p: "?p < pos" "?p < length xs" using False "1.prems"(1) bh_parent_nth by auto
    have lt: "\<not> key (xs ! pos) \<le> key (xs ! ?p)" using "1.prems"(2) [of ?p] p by (simp add: not_le)
    have step: "sift_up key xs pos = sift_up key ?ys ?p"
      using lt False by (simp add: sift_up.simps [of key xs pos])
    have root: "?ys ! ?p = xs ! pos" using p "1.prems"(1) by (simp add: swap_nth)
    have most: "key (?ys ! i) < key (?ys ! ?p)" if "i < length ?ys" "i \<noteq> ?p" for i
      using that "1.prems"(2) [of i] "1.prems"(2) [of ?p] p "1.prems"(1) by (simp add: swap_nth)
    have ih: "sift_up key ?ys ?p ! 0 = ?ys ! ?p \<and>
        (0 < ?p \<longrightarrow> (\<exists>j\<in>{1, 2}. j < length ?ys \<and> sift_up key ?ys ?p ! j = ?ys ! 0))"
      using False lt p most by (intro "1.IH") simp_all
    show ?thesis
    proof (cases "?p = 0")
      case True
      then have "pos \<in> {1, 2}" using False unfolding bh_parent_def by auto
      moreover have "sift_up key ?ys ?p = ?ys" using True by simp
      moreover have "?ys ! pos = xs ! 0" using True p "1.prems"(1) by (simp add: swap_def)
      ultimately show ?thesis using step root True "1.prems"(1) by (metis)
    next
      case p0: False
      have "?ys ! 0 = xs ! 0" using p p0 "1.prems"(1) False by (simp add: swap_def)
      then show ?thesis using ih step root p0 by auto
    qed
  qed simp
qed

lemma bh_push_newest:
  assumes "\<And>x. x \<in> set xs \<Longrightarrow> key x < key y"
  shows "\<exists>zs. bh_push key y xs = y # zs" "xs \<noteq> [] \<Longrightarrow> xs ! 0 \<in> set (take 3 (bh_push key y xs))"
proof -
  have lt: "key ((xs @ [y]) ! i) < key ((xs @ [y]) ! length xs)" if "i < length (xs @ [y])" "i \<noteq> length xs" for i
    using that assms by (auto simp: nth_append)
  have s: "sift_up key (xs @ [y]) (length xs) ! 0 = y"
      "xs \<noteq> [] \<Longrightarrow> \<exists>j\<in>{1, 2}. j < length (xs @ [y]) \<and> sift_up key (xs @ [y]) (length xs) ! j = (xs @ [y]) ! 0"
    using sift_up_newest [of "length xs" "xs @ [y]" key, OF _ lt] by auto
  have len: "length (bh_push key y xs) = Suc (length xs)" by (simp add: bh_push_def)
  then have "bh_push key y xs \<noteq> []" by auto
  then show "\<exists>zs. bh_push key y xs = y # zs"
    using s(1) by (cases "bh_push key y xs") (auto simp: bh_push_def)
  assume ne: "xs \<noteq> []"
  obtain j where "j \<in> {1, 2}" "j < length (xs @ [y])" "sift_up key (xs @ [y]) (length xs) ! j = (xs @ [y]) ! 0"
    using s(2) [OF ne] by blast
  then have j: "j \<in> {1, 2}" "j < Suc (length xs)" "bh_push key y xs ! j = xs ! 0"
    using ne by (simp_all add: bh_push_def nth_append)
  then have "take 3 (bh_push key y xs) ! j = xs ! 0" "j < length (take 3 (bh_push key y xs))"
    using len by auto
  then show "xs ! 0 \<in> set (take 3 (bh_push key y xs))" by (metis nth_mem)
qed

lemma history_add_newest:
  assumes "history_ok h" and "3 \<le> hs_max h" and "\<And>r. r \<in> set (hs_records h) \<Longrightarrow> hc_created r < t"
  shows "history_last d (history_add c t h) = \<lparr>hc_config = c, hc_created = t\<rparr>"
    and "hs_records h \<noteq> [] \<Longrightarrow> history_last d h \<in> set (hs_records (history_add c t h))"
proof -
  let ?r = "\<lparr>hc_config = c, hc_created = t\<rparr>" and ?n = "unat (hs_max h)"
  have n: "3 \<le> ?n" using assms(2) by (simp add: word_le_nat_alt)
  have recs: "hs_records (history_add c t h) = take ?n (bh_push hc_created ?r (hs_records h))"
    by (rule history_add_records [OF assms(1)])
  have new: "\<exists>zs. bh_push hc_created ?r (hs_records h) = ?r # zs"
      "hs_records h \<noteq> [] \<Longrightarrow> hs_records h ! 0 \<in> set (take 3 (bh_push hc_created ?r (hs_records h)))"
    using bh_push_newest [of "hs_records h" hc_created ?r] assms(3) by auto
  show "history_last d (history_add c t h) = ?r"
    using new(1) n by (cases ?n) (auto simp: history_last_def recs bh_peek_def)
  assume ne: "hs_records h \<noteq> []"
  then have "history_last d h = hs_records h ! 0"
    by (cases "hs_records h") (auto simp: history_last_def bh_peek_def)
  moreover have "set (take 3 (bh_push hc_created ?r (hs_records h))) \<subseteq> set (take ?n (bh_push hc_created ?r (hs_records h)))"
    using n by (rule set_take_subset_set_take)
  ultimately show "history_last d h \<in> set (hs_records (history_add c t h))"
    using new(2) [OF ne] recs by auto
qed

lemma history_add_set:
  assumes "history_ok h"
  shows "set (hs_records (history_add c t h)) \<subseteq> insert \<lparr>hc_config = c, hc_created = t\<rparr> (set (hs_records h))"
proof -
  have "set (hs_records (history_add c t h)) \<subseteq> set (bh_push hc_created \<lparr>hc_config = c, hc_created = t\<rparr> (hs_records h))"
    unfolding history_add_records [OF assms] by (rule set_take_subset)
  then show ?thesis by simp
qed

lemma rollback_cases:
  assumes "history_ok h"
  shows "hs_records h = [] \<Longrightarrow> rollback h = (None, h)"
    and "hs_records h \<noteq> [] \<Longrightarrow> fst (rollback h) = Some (latest d h) \<and>
      mset (hs_records h) = add_mset (history_last d h) (mset (hs_records (snd (rollback h))))"
proof -
  show "hs_records h = [] \<Longrightarrow> rollback h = (None, h)" by (simp add: rollback_def bh_pop_cases)
  assume ne: "hs_records h \<noteq> []"
  then obtain r rs where p: "bh_pop hc_created (hs_records h) = Some (r, rs)"
    by (metis bh_pop_None option.exhaust prod.exhaust)
  then have "mset (hs_records h) = add_mset r (mset rs)" "bh_peek (hs_records h) = Some r"
    using bh_pop_heap [of hc_created "hs_records h" r rs] assms by (simp_all add: history_ok_def)
  then show "fst (rollback h) = Some (latest d h) \<and>
      mset (hs_records h) = add_mset (history_last d h) (mset (hs_records (snd (rollback h))))"
    using p by (simp add: rollback_def latest_def history_last_def)
qed

section \<open>The stack\<close>

text \<open>
  The abstraction: the records by the second of their creation, the newest on top. The specification
  pushes and pops, and never drops a record.
\<close>

datatype 'c history_op = UpdateOp u64 'c | AddOp 'c u64 | RollbackOp

fun history_step :: "'c history_op \<Rightarrow> 'c history \<Rightarrow> 'c history" where
  "history_step (UpdateOp now c) h = history_update now c h"
| "history_step (AddOp c t) h = history_add c t h"
| "history_step RollbackOp h = snd (rollback h)"

definition history_run :: "'c history_op list \<Rightarrow> 'c history \<Rightarrow> 'c history" where
  "history_run ops h = fold history_step ops h"

definition stack_of :: "'c history \<Rightarrow> 'c historical list" where
  "stack_of h = rev (sort_key hc_created (hs_records h))"

fun stack_step :: "'c history_op \<Rightarrow> 'c historical list \<Rightarrow> 'c historical list" where
  "stack_step (UpdateOp now c) xs = \<lparr>hc_config = c, hc_created = now\<rparr> # xs"
| "stack_step (AddOp c t) xs = \<lparr>hc_config = c, hc_created = t\<rparr> # xs"
| "stack_step RollbackOp xs = tl xs"

definition stack_run :: "'c history_op list \<Rightarrow> 'c historical list" where
  "stack_run ops = fold stack_step ops []"

text \<open>Every record is created in a later second than those before it; the stack never has more than \<open>n\<close>.\<close>

fun push_second :: "'c history_op \<Rightarrow> u64 option" where
  "push_second (UpdateOp now c) = Some now"
| "push_second (AddOp c t) = Some t"
| "push_second RollbackOp = None"

definition clock_ascends :: "'c history_op list \<Rightarrow> bool" where
  "clock_ascends ops \<longleftrightarrow> sorted_wrt (<) (List.map_filter push_second ops)"

definition stack_fits :: "nat \<Rightarrow> 'c history_op list \<Rightarrow> bool" where
  "stack_fits n ops \<longleftrightarrow> list_all (\<lambda>pre. length (stack_run pre) \<le> n) (prefixes ops)"

lemma map_filter_snoc: "List.map_filter f (xs @ [x]) = List.map_filter f xs @ (case f x of None \<Rightarrow> [] | Some y \<Rightarrow> [y])"
  by (simp add: List.map_filter_def split: option.splits)

lemma runs_snoc [simp]:
  "history_run (ops @ [op]) h = history_step op (history_run ops h)"
  "stack_run (ops @ [op]) = stack_step op (stack_run ops)"
  "stack_fits n (ops @ [op]) \<longleftrightarrow> stack_fits n ops \<and> length (stack_step op (stack_run ops)) \<le> n"
  by (simp_all add: history_run_def stack_run_def stack_fits_def)

definition distinct_seconds :: "'c history \<Rightarrow> bool" where
  "distinct_seconds h \<longleftrightarrow> distinct (map hc_created (hs_records h))"

lemma stack_ofI:
  assumes "mset (hs_records h) = mset xs" and "sorted_wrt (\<lambda>a b. hc_created b < hc_created a) xs"
  shows "stack_of h = xs"
proof -
  have d: "distinct (map hc_created xs)" using assms(2) by (induction xs) auto
  then have "inj_on hc_created (set (hs_records h))" using mset_eq_setD [OF assms(1)] by (simp add: distinct_map)
  moreover have "sorted (map hc_created (rev xs))"
    using assms(2) by (simp add: sorted_wrt_rev sorted_wrt_map rev_map [symmetric]) (rule sorted_wrt_mono_rel, auto)
  ultimately have "sort_key hc_created (hs_records h) = rev xs"
    using assms(1) by (intro sort_key_inj_key_eq) simp_all
  then show ?thesis by (simp add: stack_of_def)
qed

lemma stack_of_simps [simp]:
  "mset (stack_of h) = mset (hs_records h)" "set (stack_of h) = set (hs_records h)"
  "length (stack_of h) = length (hs_records h)"
  by (simp_all add: stack_of_def)

lemma stack_of_desc:
  assumes "distinct_seconds h"
  shows "sorted_wrt (\<lambda>a b. hc_created b < hc_created a) (stack_of h)"
proof -
  let ?s = "sort_key hc_created (hs_records h)"
  have "distinct (map hc_created ?s)"
    using assms mset_eq_imp_distinct_iff [of "map hc_created ?s" "map hc_created (hs_records h)"]
    by (simp add: distinct_seconds_def)
  then have "sorted_wrt (<) (map hc_created ?s)" by (simp add: strict_sorted_iff)
  then show ?thesis by (simp add: stack_of_def sorted_wrt_rev sorted_wrt_map)
qed

lemma seconds_inj:
  "distinct_seconds h \<Longrightarrow> a \<in> set (hs_records h) \<Longrightarrow> b \<in> set (hs_records h) \<Longrightarrow> hc_created a = hc_created b \<Longrightarrow> a = b"
  by (auto simp: distinct_seconds_def distinct_map dest: inj_onD)

text \<open>Reading and rolling back are the top and the rest of the stack.\<close>

lemma stack_top:
  assumes ok: "history_ok h" and d: "distinct_seconds h"
  shows "latest e h = (case stack_of h of [] \<Rightarrow> e | r # _ \<Rightarrow> hc_config r)"
    and "fst (rollback h) = (case stack_of h of [] \<Rightarrow> None | r # _ \<Rightarrow> Some (hc_config r))"
    and "stack_of (snd (rollback h)) = tl (stack_of h)" and "distinct_seconds (snd (rollback h))"
    and "stack_of h = r # xs \<Longrightarrow> history_last e h = r"
proof -
  have "latest e h = (case stack_of h of [] \<Rightarrow> e | r # _ \<Rightarrow> hc_config r) \<and>
    fst (rollback h) = (case stack_of h of [] \<Rightarrow> None | r # _ \<Rightarrow> Some (hc_config r)) \<and>
    stack_of (snd (rollback h)) = tl (stack_of h) \<and> distinct_seconds (snd (rollback h)) \<and>
    (\<forall>r xs. stack_of h = r # xs \<longrightarrow> history_last e h = r)"
  proof (cases "hs_records h = []")
    case True
    then show ?thesis using rollback_cases(1) [OF ok] d by (simp add: stack_of_def latest_def bh_peek_def)
  next
    case False
    let ?l = "history_last e h" and ?h = "snd (rollback h)"
    have roll: "fst (rollback h) = Some (latest e h)" "mset (hs_records h) = add_mset ?l (mset (hs_records ?h))"
      using rollback_cases(2) [OF ok False, of e] by simp_all
    have "mset (map hc_created (hs_records h)) = mset (hc_created ?l # map hc_created (hs_records ?h))" using roll(2) by simp
    then have dl: "distinct (hc_created ?l # map hc_created (hs_records ?h))"
      using d mset_eq_imp_distinct_iff unfolding distinct_seconds_def by blast
    then have d': "distinct_seconds ?h" by (simp add: distinct_seconds_def)
    have below: "hc_created r < hc_created ?l" if "r \<in> set (hs_records ?h)" for r
    proof -
      have "r \<in># mset (hs_records h)" using that roll(2) by simp
      then have "hc_created r \<le> hc_created ?l" using history_last_newest(1) [OF ok] by simp
      moreover have "hc_created r \<noteq> hc_created ?l"
        using dl imageI [OF that, of hc_created] by (metis distinct.simps(2) set_map)
      ultimately show ?thesis by simp
    qed
    have st: "stack_of h = ?l # stack_of ?h"
      by (rule stack_ofI) (use roll(2) below stack_of_desc [OF d'] in simp_all)
    then show ?thesis using roll(1) d' by (simp add: latest_last)
  qed
  then show "latest e h = (case stack_of h of [] \<Rightarrow> e | r # _ \<Rightarrow> hc_config r)"
    "fst (rollback h) = (case stack_of h of [] \<Rightarrow> None | r # _ \<Rightarrow> Some (hc_config r))"
    "stack_of (snd (rollback h)) = tl (stack_of h)" "distinct_seconds (snd (rollback h))"
    "stack_of h = r # xs \<Longrightarrow> history_last e h = r" by blast+
qed

text \<open>Adding a newest record pushes it; in a full history a record below the top is dropped.\<close>

lemma stack_push:
  assumes ok: "history_ok h" and d: "distinct_seconds h" and m: "3 \<le> hs_max h"
    and newer: "\<And>r. r \<in> set (hs_records h) \<Longrightarrow> hc_created r < t"
  shows "\<exists>rest. stack_of (history_add c t h) = \<lparr>hc_config = c, hc_created = t\<rparr> # rest \<and> subseq rest (stack_of h) \<and>
      take 1 rest = take 1 (stack_of h) \<and> length rest = min (length (stack_of h)) (unat (hs_max h) - 1) \<and>
      distinct_seconds (history_add c t h)"
proof -
  let ?r = "\<lparr>hc_config = c, hc_created = t\<rparr>" and ?n = "unat (hs_max h)" and ?u = "history_add c t h"
  let ?new = "hs_records ?u" and ?zs = "bh_push hc_created \<lparr>hc_config = c, hc_created = t\<rparr> (hs_records h)"
  have n: "3 \<le> ?n" using m by (simp add: word_le_nat_alt)
  have recs: "?new = take ?n ?zs" by (rule history_add_records [OF ok])
  have len: "length ?zs = Suc (length (hs_records h))" by (metis bh_push_mset(1) size_add_mset size_mset)
  note last = history_add_newest [OF ok m newer, where c = c]
  have ne: "?new \<noteq> []" using n recs by auto
  have r: "?r \<in> set ?new" using history_last_newest(2) [OF history_ok_add [OF ok]] last(1) ne by (metis last_in_set)
  have notin: "?r \<notin> set (hs_records h)" using newer by force
  have "mset (map hc_created ?zs) = mset (t # map hc_created (hs_records h))" by simp
  then have "distinct (map hc_created ?zs)"
    using d newer mset_eq_imp_distinct_iff unfolding distinct_seconds_def by (metis (no_types, lifting) distinct.simps(2) imageE less_irrefl set_map)
  then have du: "distinct_seconds ?u" by (simp add: distinct_seconds_def recs take_map [symmetric])
  define rest where "rest = filter (\<lambda>x. x \<in> set ?new) (stack_of h)"
  have sub: "set ?new \<subseteq> insert ?r (set (hs_records h))" by (rule history_add_set [OF ok])
  have set: "set (?r # rest) = set ?new" using sub r by (auto simp: rest_def)
  have desc: "sorted_wrt (\<lambda>a b. hc_created b < hc_created a) rest"
    unfolding rest_def by (rule sorted_wrt_filter [OF stack_of_desc [OF d]])
  then have "distinct rest" by (induction rest) auto
  moreover have "?r \<notin> set rest" using notin by (simp add: rest_def)
  moreover have dn: "distinct ?new" using du by (simp add: distinct_seconds_def distinct_map)
  ultimately have ms: "mset ?new = mset (?r # rest)" using set set_eq_iff_mset_eq_distinct [of ?new "?r # rest"] by simp
  have st: "stack_of ?u = ?r # rest"
    by (rule stack_ofI [OF ms]) (use desc newer in \<open>auto simp: rest_def\<close>)
  have "take 1 rest = take 1 (stack_of h)"
  proof (cases "stack_of h")
    case (Cons x xs)
    then have "history_last undefined h = x" using stack_top(5) [OF ok d] by blast
    moreover have "hs_records h \<noteq> []" using Cons by (auto simp: stack_of_def)
    ultimately have "x \<in> set ?new" using last(2) by metis
    then show ?thesis using Cons by (simp add: rest_def)
  qed (simp add: rest_def)
  moreover have "length rest = min (length (stack_of h)) (?n - 1)"
    using arg_cong [OF ms, of size] n by (simp add: recs len)
  ultimately show ?thesis using st du by (auto simp: rest_def)
qed

lemma subseq_tl: "subseq xs ys \<Longrightarrow> subseq (tl xs) (tl ys)"
  by (cases xs; cases ys) (auto split: if_splits dest: subseq_Cons')

lemma history_run_stack:
  assumes "3 \<le> m" and "clock_ascends ops"
  defines "h \<equiv> history_run ops (new_history m)"
  shows "history_ok h" and "hs_max h = m" and "distinct_seconds h"
    and "\<forall>r\<in>set (hs_records h). hc_created r \<in> set (List.map_filter push_second ops)"
    and "subseq (stack_of h) (stack_run ops)" and "stack_fits (unat m) ops \<Longrightarrow> stack_of h = stack_run ops"
proof -
  have "history_ok h \<and> hs_max h = m \<and> distinct_seconds h \<and>
    (\<forall>r\<in>set (hs_records h). hc_created r \<in> set (List.map_filter push_second ops)) \<and>
    subseq (stack_of h) (stack_run ops) \<and> (stack_fits (unat m) ops \<longrightarrow> stack_of h = stack_run ops)"
    using assms(2) unfolding h_def
  proof (induction ops rule: rev_induct)
    case Nil
    show ?case by (simp add: history_run_def stack_run_def new_history_def history_ok_def distinct_seconds_def stack_of_def)
  next
    case (snoc op ops)
    let ?h = "history_run ops (new_history m)"
    have asc: "clock_ascends ops" "push_second op = Some t \<Longrightarrow> x \<in> set (List.map_filter push_second ops) \<Longrightarrow> x < t" for t x
      using snoc.prems by (auto simp: clock_ascends_def map_filter_snoc sorted_wrt_append)
    note IH = snoc.IH [OF asc(1)]
    have push: "history_ok u \<and> hs_max u = m \<and> distinct_seconds u \<and>
        (\<forall>r\<in>set (hs_records u). hc_created r \<in> insert t (set (List.map_filter push_second ops))) \<and>
        subseq (stack_of u) (rec # stack_run ops) \<and>
        (stack_fits (unat m) ops \<and> length (stack_run ops) < unat m \<longrightarrow> stack_of u = rec # stack_run ops)"
      if t: "push_second op = Some t" and u: "u = history_add c t ?h" and r: "rec = \<lparr>hc_config = c, hc_created = t\<rparr>" for c t u rec
    proof -
      have newer: "hc_created r < t" if "r \<in> set (hs_records ?h)" for r using asc(2) [OF t] IH that by blast
      obtain rest where st: "stack_of u = rec # rest" "subseq rest (stack_of ?h)"
        "length rest = min (length (stack_of ?h)) (unat m - 1)" "distinct_seconds u"
        using stack_push [of ?h t c] IH newer assms(1) u r by auto
      have "rest = stack_run ops" if "stack_fits (unat m) ops" "length (stack_run ops) < unat m"
      proof -
        have "stack_of ?h = stack_run ops" "length rest = length (stack_of ?h)" using IH that st(3) by auto
        then show ?thesis using st(2) by (metis subseq_same_length)
      qed
      moreover have "set (hs_records u) \<subseteq> insert rec (set (hs_records ?h))" 
        unfolding u r by (rule history_add_set) (simp add: IH)
      moreover have "history_ok u" "hs_max u = m" using IH u by simp_all
      moreover have "subseq (rec # rest) (rec # stack_run ops)"
        using subseq_order.order_trans [OF st(2)] IH by simp
      moreover have "hc_created x \<in> insert t (set (List.map_filter push_second ops))" if "x \<in> set (hs_records u)" for x
        using calculation(2) that IH r by auto
      ultimately show ?thesis using st(1,4) by simp
    qed
    show ?case
    proof (cases op)
      case (UpdateOp now c)
      then show ?thesis using push [of now _ c, OF _ refl refl] by (simp add: update_is_add map_filter_snoc Suc_le_eq)
    next
      case (AddOp c t)
      then show ?thesis using push [of t _ c, OF _ refl refl] by (simp add: map_filter_snoc Suc_le_eq)
    next
      case RollbackOp
      have "set (hs_records (snd (rollback ?h))) \<subseteq> set (hs_records ?h)"
        using stack_top(3) [of ?h] IH stack_of_simps(2) by (metis list.set_sel(2) subsetI tl_Nil)
      then show ?thesis using IH stack_top(3,4) [of ?h] RollbackOp by (auto simp: map_filter_snoc intro: subseq_tl)
    qed
  qed
  then show "history_ok h" "hs_max h = m" "distinct_seconds h"
    "\<forall>r\<in>set (hs_records h). hc_created r \<in> set (List.map_filter push_second ops)"
    "subseq (stack_of h) (stack_run ops)" "stack_fits (unat m) ops \<Longrightarrow> stack_of h = stack_run ops" by blast+
qed

text \<open>
  C3. With room for at least three records, and when every record is created in a later second than
  those before it, the history of configurations is a stack. The configuration of the program is
  that of the top, rolling back returns it and leaves the rest, and an update pushes. As long as the
  stack has fitted it is exact; in a full history an update drops one of the records, not
  necessarily the oldest but never the one that was on top before, so that the history always is a
  subsequence of the stack and undoing the last update always leads to the record before it.
\<close>

theorem history_refines_stack:
  assumes "3 \<le> m" and "clock_ascends (ops @ [UpdateOp now c])" and "h = history_run ops (new_history m)"
  shows "subseq (stack_of h) (stack_run ops) \<and> length (stack_of h) \<le> unat m \<and>
    (stack_fits (unat m) ops \<longrightarrow> stack_of h = stack_run ops) \<and>
    latest d h = (case stack_of h of [] \<Rightarrow> d | r # _ \<Rightarrow> hc_config r) \<and>
    fst (rollback h) = (case stack_of h of [] \<Rightarrow> None | r # _ \<Rightarrow> Some (hc_config r)) \<and>
    stack_of (snd (rollback h)) = tl (stack_of h) \<and>
    (\<exists>rest. stack_of (history_update now c h) = \<lparr>hc_config = c, hc_created = now\<rparr> # rest \<and>
       stack_of (snd (rollback (history_update now c h))) = rest \<and>
       (if length (stack_of h) < unat m then rest = stack_of h
        else subseq rest (stack_of h) \<and> length rest = unat m - 1 \<and> take 1 rest = take 1 (stack_of h)))"
proof -
  have asc: "clock_ascends ops" and later: "\<And>x. x \<in> set (List.map_filter push_second ops) \<Longrightarrow> x < now"
    using assms(2) by (auto simp: clock_ascends_def map_filter_snoc sorted_wrt_append)
  note run = history_run_stack [OF assms(1) asc, folded assms(3)]
  have m: "3 \<le> unat m" using assms(1) by (simp add: word_le_nat_alt)
  have le: "length (stack_of h) \<le> unat m" using run(1,2) by (simp add: history_ok_def)
  obtain rest where rest: "stack_of (history_update now c h) = \<lparr>hc_config = c, hc_created = now\<rparr> # rest"
    "subseq rest (stack_of h)" "take 1 rest = take 1 (stack_of h)" "length rest = min (length (stack_of h)) (unat m - 1)"
    "distinct_seconds (history_update now c h)"
    using stack_push [OF run(1,3), of now c] assms(1) run(2,4) later by (auto simp: update_is_add)
  have "stack_of (snd (rollback (history_update now c h))) = rest"
    using stack_top(3) [OF _ rest(5)] rest(1) run(1) by simp
  moreover have "rest = stack_of h" if "length (stack_of h) < unat m"
    using rest(2,4) that by (intro subseq_same_length) auto
  moreover have "length rest = unat m - 1" if "\<not> length (stack_of h) < unat m" using rest(4) that le by linarith
  ultimately show ?thesis
    using run(5,6) le rest(1-3) stack_top(1,2,3) [OF run(1,3)] by auto
qed

lemma history_refines_stack_witness:
  "stack_of (history_update 9 (7 :: nat) (history_run [UpdateOp 4 5, AddOp 2 6, RollbackOp] (new_history 3))) =
     [\<lparr>hc_config = 7, hc_created = 9\<rparr>, \<lparr>hc_config = 5, hc_created = 4\<rparr>]"
proof -
  let ?ops = "[UpdateOp 4 (5 :: nat), AddOp 2 6, RollbackOp]"
  let ?h = "history_run ?ops (new_history 3)"
  have f: "clock_ascends (?ops @ [UpdateOp 9 7])" "stack_fits (unat (3 :: usize)) ?ops"
    "stack_run ?ops = [\<lparr>hc_config = 5, hc_created = 4\<rparr>]" by code_simp+
  note T = history_refines_stack [OF order_refl f(1) refl]
  have e: "stack_of ?h = [\<lparr>hc_config = 5, hc_created = 4\<rparr>]" using T f(2,3) by metis
  then have "length (stack_of ?h) < unat (3 :: usize)" by (simp only: e) simp
  then show ?thesis using T e by metis
qed

section \<open>Where the history falls short\<close>

lemma sift_up_root_kept:
  "0 < pos \<Longrightarrow> pos < length xs \<Longrightarrow> key (xs ! pos) \<le> key (xs ! 0) \<Longrightarrow> sift_up key xs pos ! 0 = xs ! 0"
proof (induction key xs pos rule: sift_up.induct)
  case (1 key xs pos)
  let ?p = "bh_parent pos" and ?ys = "swap xs pos (bh_parent pos)"
  show ?case
  proof (cases "key (xs ! pos) \<le> key (xs ! ?p)")
    case False
    then have p0: "0 < ?p" using "1.prems"(3) by (cases "?p = 0") auto
    have p: "?p < pos" "?p < length xs" using "1.prems"(1,2) bh_parent_nth by auto
    have eq: "?ys ! ?p = xs ! pos" "?ys ! 0 = xs ! 0" using p p0 "1.prems"(1,2) by (simp_all add: swap_def)
    have "sift_up key ?ys ?p ! 0 = ?ys ! 0"
      using "1.prems" False p p0 eq by (intro "1.IH") auto
    then show ?thesis using False "1.prems"(1) eq by (simp add: sift_up.simps [of key xs pos])
  qed (simp add: sift_up.simps [of key xs pos])
qed

text \<open>A record that is not newer than the last one does not become the last.\<close>

lemma history_add_older:
  assumes "history_ok h" and "hs_records h \<noteq> []" and "t \<le> hc_created (history_last d h)"
  shows "history_last d (history_add c t h) = history_last d h"
proof -
  obtain x xs where xs: "hs_records h = x # xs" using assms(2) by (cases "hs_records h") auto
  let ?r = "\<lparr>hc_config = c, hc_created = t\<rparr>"
  let ?zs = "bh_push hc_created ?r (x # xs)"
  have "?zs ! 0 = x"
    using sift_up_root_kept [of "length (x # xs)" "x # xs @ [?r]" hc_created] assms(3) xs
    by (simp add: bh_push_def history_last_def bh_peek_def nth_append)
  then obtain zs where "?zs = x # zs" using bh_push_ne [of hc_created ?r "x # xs"] by (cases ?zs) auto
  moreover have "0 < unat (hs_max h)" using assms(1) xs by (simp add: history_ok_def)
  ultimately show ?thesis
    by (cases "unat (hs_max h)") (simp_all add: history_last_def history_add_records [OF assms(1)] xs bh_peek_def)
qed

lemma history_add_ne:
  assumes "history_ok h" and "0 < hs_max h"
  shows "hs_records (history_add c t h) \<noteq> []"
  using assms by (simp add: history_add_records unat_gt_0)

lemma history_add_first:
  assumes "history_ok h" and "0 < hs_max h" and "hs_records h = []"
  shows "hs_records (history_add c t h) = [\<lparr>hc_config = c, hc_created = t\<rparr>]"
  using assms by (simp add: history_add_records bh_push_def take_Cons' unat_gt_0)

text \<open>Two updates in the same second: the second one is not the configuration of the program.\<close>

lemma same_second_update_lost:
  assumes "history_ok h" and "hs_records h \<noteq> []" and "hc_created (history_last d h) = now"
  shows "latest d (history_update now c h) = latest d h"
  using history_add_older [OF assms(1,2), of now d c] assms(3) by (simp add: latest_last update_is_add)

text \<open>
  The record that a full history drops is the one at the end of the vector, not the oldest: of six
  updates of a history with room for four the first two and the last two are left, so a second
  rollback goes from the fifth to the second.
\<close>

lemma history_drops_recent:
  defines "h \<equiv> history_run [UpdateOp 1 1, UpdateOp 2 2, UpdateOp 3 3, UpdateOp 4 4, UpdateOp 5 5, UpdateOp 6 (6 :: nat)] (new_history 4)"
  shows "map hc_created (history_iter h) = [6, 5, 2, 1]" "latest 0 (snd (rollback (snd (rollback h)))) = 2"
  unfolding h_def by code_simp+

end
