(* ===== verification/Config.thy ===== *)
theory Config
  imports History Broker
begin

text \<open>
  The configuration (\<^verbatim>\<open>chronicle-common/src/config/\<close>) and its history (\<^verbatim>\<open>chronicle-common/src/lib.rs\<close>):
  its data and defaults, its verification, and loading, saving and persisting it.

  The parser and printer of RON, URLs, name resolution, the clock, the pattern matching of file
  names and the network are parameters. A file is its text; opening, creating or reading one may
  fail, as an input. Directories are left out. A \<^verbatim>\<open>Url\<close> is its text and a \<^verbatim>\<open>HashSet\<close> the list of its
  elements.
\<close>

section \<open>Data\<close>

datatype socket_addr = SocketAddr "u8 list" u16

datatype thread_count = ThreadCount usize | CoreMultiple usize

record keyspace_config =
  kc_name :: string
  kc_data_centers :: "(string, u8) hmap"

record storage_config =
  sc_keyspaces :: "keyspace_config list"
  sc_listen_address :: socket_addr
  sc_thread_count :: thread_count
  sc_reporter_count :: u8
  sc_local_datacenter :: string
  sc_nodes :: "socket_addr list"
  sc_partition_config :: partition_config

record broker_config =
  bc_websocket_address :: socket_addr
  bc_mqtt_brokers :: "(mqtt_type, string list) hmap"
  bc_mqtt_stream_capacity :: usize
  bc_api_endpoints :: "string list"
  bc_retries_per_endpoint :: usize
  bc_retries_per_query :: usize
  bc_collector_count :: u8
  bc_requester_count :: u8
  bc_request_timeout_secs :: u64
  bc_parallelism :: u8
  bc_sync_range :: "sync_range option"
  bc_complete_gaps_interval_secs :: u64
  bc_logs_dir :: "string option"
  bc_max_log_size :: "u64 option"

text \<open>A RON value as far as alerts look into it.\<close>

datatype ron = RonString string | RonMap "(string \<times> ron) list" | RonOption "ron option" | RonSeq "ron list" | RonOther string

record alert_request =
  ar_url :: string
  ar_json :: "ron option"

record config =
  cf_websocket_address :: socket_addr
  cf_storage_config :: storage_config
  cf_broker_config :: broker_config
  cf_historical_config_path :: string
  cf_alert_requests :: "alert_request list"

section \<open>Defaults\<close>

definition default_keyspace :: keyspace_config where
  "default_keyspace = \<lparr>kc_name = ''permanode'', kc_data_centers = [(''USA'', 2), (''Canada'', 1)]\<rparr>"

definition default_storage :: storage_config where
  "default_storage =
     \<lparr>sc_keyspaces = [default_keyspace], sc_listen_address = SocketAddr [127, 0, 0, 1] 8080,
      sc_thread_count = CoreMultiple 1, sc_reporter_count = 1, sc_local_datacenter = ''datacenter1'',
      sc_nodes = [SocketAddr [127, 0, 0, 1] 9042], sc_partition_config = default_partition_config\<rparr>"

definition default_mqtt_urls :: "string list" where
  "default_mqtt_urls = [''tcp://api.hornet-0.testnet.chrysalis2.com:1883'', ''tcp://api.hornet-1.testnet.chrysalis2.com:1883'']"

definition default_broker :: broker_config where
  "default_broker =
     \<lparr>bc_websocket_address = SocketAddr [127, 0, 0, 1] 9000,
      bc_mqtt_brokers = [(MqttMessages, default_mqtt_urls), (MqttReferenced, default_mqtt_urls)],
      bc_mqtt_stream_capacity = 10000,
      bc_api_endpoints =
        [''https://api.hornet-0.testnet.chrysalis2.com/api/v1'', ''https://api.hornet-1.testnet.chrysalis2.com/api/v1''],
      bc_retries_per_endpoint = 5, bc_retries_per_query = 100, bc_collector_count = 10, bc_requester_count = 10,
      bc_request_timeout_secs = 5, bc_parallelism = 25, bc_sync_range = Some default_sync_range,
      bc_complete_gaps_interval_secs = 60 * 60, bc_logs_dir = Some ''chronicle/logs/'',
      bc_max_log_size = Some (4 * 1024 * 1024 * 1024)\<rparr>"

definition HISTORICAL_CONFIG_PATH :: string where "HISTORICAL_CONFIG_PATH = ''./historical_config''"

definition CONFIG_PATH :: string where "CONFIG_PATH = ''./config.ron''"

definition CURRENT_VERSION :: u32 where "CURRENT_VERSION = 3"

definition default_config :: config where
  "default_config =
     \<lparr>cf_websocket_address = SocketAddr [127, 0, 0, 1] 8081, cf_storage_config = default_storage,
      cf_broker_config = default_broker, cf_historical_config_path = HISTORICAL_CONFIG_PATH, cf_alert_requests = []\<rparr>"

text \<open>Reading addresses: a name resolves to addresses, of which the first is taken.\<close>

definition deserialize_socket_addr :: "(string \<Rightarrow> socket_addr list result) \<Rightarrow> string \<Rightarrow> socket_addr result" where
  "deserialize_socket_addr resolve s =
     rbind (resolve s) (\<lambda>as. case as of [] \<Rightarrow> Inl (Failed ''Invalid socket address'') | a # _ \<Rightarrow> Inr a)"

fun deserialize_socket_addr_collected ::
  "(string \<Rightarrow> socket_addr list result) \<Rightarrow> string list \<Rightarrow> socket_addr list result" where
  "deserialize_socket_addr_collected resolve [] = Inr []"
| "deserialize_socket_addr_collected resolve (s # ss) =
     rbind (deserialize_socket_addr resolve s) (\<lambda>a.
     rbind (deserialize_socket_addr_collected resolve ss) (\<lambda>as. Inr (List.insert a as)))"

section \<open>Verification\<close>

record verify_env =
  ve_mqtt_ok :: "string \<Rightarrow> bool"
  ve_parse_url :: "string \<Rightarrow> string option"
  ve_join :: "string \<Rightarrow> string \<Rightarrow> string option"
  ve_get_status :: "string \<Rightarrow> nat option"

definition verify_storage :: "storage_config \<Rightarrow> unit result" where
  "verify_storage c =
     (if \<exists>k\<in>set (sc_keyspaces c). \<exists>dc\<in>set (kc_data_centers k). snd dc = 0
      then Inl (Failed ''replication_factor must be greater than zero, ensure your config is correct'')
      else if sc_reporter_count c = 0
      then Inl (Failed ''reporter_count must be greater than zero, ensure your config is correct'')
      else if sc_local_datacenter c = []
      then Inl (Failed ''local_datacenter must be non-empty string, ensure your config is correct'')
      else Inr ())"

definition adjust_api_endpoint :: "verify_env \<Rightarrow> string \<Rightarrow> string option" where
  "adjust_api_endpoint env url =
     (if url = [] then None
      else if last url \<noteq> CHR ''/'' then ve_parse_url env (url @ ''/'')
      else Some url)"

definition verify_endpoint :: "verify_env \<Rightarrow> string \<Rightarrow> unit result" where
  "verify_endpoint env url =
     (case ve_join env url ''info'' of
        None \<Rightarrow> Inl (Failed ''Error verifying endpoint'')
      | Some u \<Rightarrow>
          (case ve_get_status env u of
             None \<Rightarrow> Inl (Failed ''Error verifying endpoint'')
           | Some s \<Rightarrow> if 200 \<le> s \<and> s < 300 then Inr () else Inl (Failed ''Error verifying endpoint'')))"

fun verify_endpoints :: "verify_env \<Rightarrow> string list \<Rightarrow> unit result" where
  "verify_endpoints env [] = Inr ()"
| "verify_endpoints env (u # us) = rbind (verify_endpoint env u) (\<lambda>_. verify_endpoints env us)"

definition verify_broker :: "verify_env \<Rightarrow> broker_config \<Rightarrow> broker_config result" where
  "verify_broker env c =
     (if \<exists>(t, urls)\<in>set (bc_mqtt_brokers c). \<exists>u\<in>set urls. \<not> ve_mqtt_ok env u
      then Inl (Failed ''Error verifying mqtt broker'')
      else
        (let c = c\<lparr>bc_api_endpoints := remdups (List.map_filter (adjust_api_endpoint env) (bc_api_endpoints c))\<rparr> in
         rbind (verify_endpoints env (bc_api_endpoints c)) (\<lambda>_.
           let r = (case bc_sync_range c of None \<Rightarrow> default_sync_range | Some r \<Rightarrow> r);
               c = c\<lparr>bc_sync_range := Some r\<rparr>
           in if sr_from r = 0 \<or> sr_to r = 0 then Inl (Failed ''Error verifying sync from/to, zero provided!'')
              else if sr_to r \<le> sr_from r
              then Inl (Failed ''Error verifying sync from/to, greater or equal provided!'')
              else Inr c)))"

definition verify_config :: "verify_env \<Rightarrow> config \<Rightarrow> config result" where
  "verify_config env c =
     rbind (verify_storage (cf_storage_config c)) (\<lambda>_.
     rbind (verify_broker env (cf_broker_config c)) (\<lambda>b. Inr (c\<lparr>cf_broker_config := b\<rparr>)))"

definition try_get_uniform_rf :: "storage_config \<Rightarrow> u8 option" where
  "try_get_uniform_rf c =
     (let rfs = concat (map (\<lambda>k. map snd (kc_data_centers k)) (sc_keyspaces c))
      in if rfs = [] then None else Some (fold min rfs (hd rfs)))"

section \<open>Loading and saving\<close>

record versioned_config =
  vc_version :: u32
  vc_config :: config

definition new_versioned :: "config \<Rightarrow> versioned_config" where
  "new_versioned c = \<lparr>vc_version = CURRENT_VERSION, vc_config = c\<rparr>"

definition default_versioned :: versioned_config where
  "default_versioned = new_versioned default_config"

text \<open>The files by path and the environment variables.\<close>

record world =
  w_files :: "(string, string) hmap"
  w_vars :: "(string, string) hmap"

record config_env =
  ce_open_error :: "string \<Rightarrow> bool"
  ce_create_error :: "string \<Rightarrow> bool"
  ce_version :: "string \<Rightarrow> u32 option"
  ce_parse :: "string \<Rightarrow> versioned_config option"
  ce_print :: "versioned_config \<Rightarrow> string"
  ce_glob :: "world \<Rightarrow> string \<Rightarrow> path option list"
  ce_file_name :: "path \<Rightarrow> string option"

text \<open>The given path, or the one of the environment, or the default.\<close>

definition config_path :: "world \<Rightarrow> string option \<Rightarrow> string" where
  "config_path w p =
     (case p of Some p \<Rightarrow> p | None \<Rightarrow> (case hm_get (w_vars w) ''CONFIG_PATH'' of Some p \<Rightarrow> p | None \<Rightarrow> CONFIG_PATH))"

definition config_paths :: "world \<Rightarrow> string option \<Rightarrow> string list" where
  "config_paths w p =
     List.map_filter id [p, hm_get (w_vars w) ''CONFIG_PATH'', Some CONFIG_PATH]"

definition save_versioned :: "config_env \<Rightarrow> versioned_config \<Rightarrow> string option \<Rightarrow> world \<Rightarrow> world \<times> unit result" where
  "save_versioned env v p w =
     (let p = config_path w p in
      if ce_create_error env p then (w, Inl (Failed ''create''))
      else (w\<lparr>w_files := hm_insert p (ce_print env v) (w_files w)\<rparr>, Inr ()))"

definition save_config :: "config_env \<Rightarrow> config \<Rightarrow> string option \<Rightarrow> world \<Rightarrow> world \<times> unit result" where
  "save_config env c = save_versioned env (new_versioned c)"

definition verify_version :: "u32 \<Rightarrow> unit result" where
  "verify_version v = (if v = CURRENT_VERSION then Inr () else Inl (Failed ''Config file version mismatch!''))"

text \<open>The first of the paths that exists is read; what it holds decides.\<close>

fun first_found :: "config_env \<Rightarrow> world \<Rightarrow> string list \<Rightarrow> string option result" where
  "first_found env w [] = Inr None"
| "first_found env w (p # ps) =
     (if ce_open_error env p then Inl (Failed ''open'')
      else (case hm_get (w_files w) p of None \<Rightarrow> first_found env w ps | Some s \<Rightarrow> Inr (Some s)))"

definition parse_versioned :: "config_env \<Rightarrow> string \<Rightarrow> versioned_config result" where
  "parse_versioned env s =
     (case ce_version env s of
        None \<Rightarrow> Inl (Failed ''parse'')
      | Some v \<Rightarrow> rbind (verify_version v) (\<lambda>_. case ce_parse env s of None \<Rightarrow> Inl (Failed ''parse'') | Some c \<Rightarrow> Inr c))"

definition parse_unchecked :: "config_env \<Rightarrow> string \<Rightarrow> versioned_config result" where
  "parse_unchecked env s = (case ce_parse env s of None \<Rightarrow> Inl (Failed ''parse'') | Some c \<Rightarrow> Inr c)"

text \<open>Without a file the default is saved, and loading fails.\<close>

definition load_with ::
  "(config_env \<Rightarrow> string \<Rightarrow> versioned_config result) \<Rightarrow> config_env \<Rightarrow> string option \<Rightarrow> world \<Rightarrow> world \<times> versioned_config result" where
  "load_with parse env p w =
     (case first_found env w (config_paths w p) of
        Inl e \<Rightarrow> (w, Inl e)
      | Inr (Some s) \<Rightarrow> (w, parse env s)
      | Inr None \<Rightarrow>
          (case save_versioned env default_versioned (Some (config_path w p)) w of
             (w, Inl e) \<Rightarrow> (w, Inl e)
           | (w, Inr _) \<Rightarrow> (w, Inl (Failed ''Config file was not found! Saving a default config file''))))"

definition load_versioned :: "config_env \<Rightarrow> string option \<Rightarrow> world \<Rightarrow> world \<times> versioned_config result" where
  "load_versioned = load_with parse_versioned"

definition load_unchecked :: "config_env \<Rightarrow> string option \<Rightarrow> world \<Rightarrow> world \<times> versioned_config result" where
  "load_unchecked = load_with parse_unchecked"

definition verify_versioned :: "verify_env \<Rightarrow> versioned_config \<Rightarrow> config result" where
  "verify_versioned env v = rbind (verify_version (vc_version v)) (\<lambda>_. verify_config env (vc_config v))"

definition load_config :: "config_env \<Rightarrow> string option \<Rightarrow> world \<Rightarrow> world \<times> config result" where
  "load_config env p w = (case load_versioned env p w of (w, r) \<Rightarrow> (w, rbind r (\<lambda>v. Inr (vc_config v))))"

text \<open>\<^verbatim>\<open>Persist for Config\<close> also sets where the historical ones go.\<close>

definition persist_config :: "config_env \<Rightarrow> config \<Rightarrow> world \<Rightarrow> world \<times> unit result" where
  "persist_config env c w =
     (case save_config env c None w of
        (w, Inl e) \<Rightarrow> (w, Inl e)
      | (w, Inr _) \<Rightarrow> (w\<lparr>w_vars := hm_insert ''HISTORICAL_CONFIG_PATH'' (cf_historical_config_path c) (w_vars w)\<rparr>, Inr ()))"

section \<open>The history of configurations\<close>

fun dec :: "nat \<Rightarrow> string" where
  "dec n = (if n < 10 then [char_of (48 + n)] else dec (n div 10) @ [char_of (48 + n mod 10)])"

declare dec.simps [simp del]

text \<open>\<^verbatim>\<open>str::parse::<u64>\<close>: an optional sign and at least one digit, without overflow.\<close>

fun digits_value :: "nat \<Rightarrow> string \<Rightarrow> nat option" where
  "digits_value n [] = Some n"
| "digits_value n (c # cs) =
     (let d = of_char c in if 48 \<le> d \<and> d \<le> (57 :: nat) then digits_value (n * 10 + (d - 48)) cs else None)"

definition parse_u64 :: "string \<Rightarrow> u64 option" where
  "parse_u64 s =
     (let ds = (case s of c # cs \<Rightarrow> if c = CHR ''+'' then cs else s | [] \<Rightarrow> []) in
      if ds = [] then None
      else (case digits_value 0 ds of None \<Rightarrow> None | Some n \<Rightarrow> if n < 2 ^ 64 then Some (of_nat n) else None))"

definition path_join :: "string \<Rightarrow> string \<Rightarrow> string" where
  "path_join a b =
     (if b \<noteq> [] \<and> hd b = CHR ''/'' then b
      else if a = [] \<or> last a = CHR ''/'' then a @ b else a @ ''/'' @ b)"

definition historical_path :: "world \<Rightarrow> u64 \<Rightarrow> string" where
  "historical_path w t =
     path_join (case hm_get (w_vars w) ''HISTORICAL_CONFIG_PATH'' of Some p \<Rightarrow> p | None \<Rightarrow> HISTORICAL_CONFIG_PATH)
       (dec (unat t) @ ''_config.ron'')"

definition persist_historical :: "config_env \<Rightarrow> config historical \<Rightarrow> world \<Rightarrow> world \<times> unit result" where
  "persist_historical env r w = save_config env (hc_config r) (Some (historical_path w (hc_created r))) w"

fun persist_all :: "config_env \<Rightarrow> config historical list \<Rightarrow> world \<Rightarrow> world \<times> unit result" where
  "persist_all env [] w = (w, Inr ())"
| "persist_all env (r # rs) w =
     (case persist_historical env r w of
        (w, Inl e) \<Rightarrow> (w, Inl e)
      | (w, Inr _) \<Rightarrow> persist_all env rs w)"

text \<open>The newest record is saved as the configuration, the others with the historical ones.\<close>

definition persist_history :: "config_env \<Rightarrow> config history \<Rightarrow> world \<Rightarrow> world \<times> unit result" where
  "persist_history env h w =
     (case rev (bh_into_sorted hc_created (hs_records h)) of
        [] \<Rightarrow> (w, Inr ())
      | r # rs \<Rightarrow>
          (case persist_config env (hc_config r) w of
             (w, Inl e) \<Rightarrow> (w, Inl e)
           | (w, Inr _) \<Rightarrow> persist_all env rs w))"

text \<open>
  A change through \<^verbatim>\<open>get_history_mut\<close>: the handle persists the history when it is dropped and only
  logs an error.
\<close>

definition change_history ::
  "config_env \<Rightarrow> (config history \<Rightarrow> config history) \<Rightarrow> config history \<times> world \<Rightarrow> config history \<times> world" where
  "change_history env f = (\<lambda>(h, w). (f h, fst (persist_history env (f h) w)))"

definition get_config :: "config history \<Rightarrow> config" where
  "get_config h = latest default_config h"

text \<open>The second of a historical file, from its name up to the first underscore.\<close>

definition file_second :: "config_env \<Rightarrow> path \<Rightarrow> u64 option" where
  "file_second env p = Option.bind (ce_file_name env p) (\<lambda>n. parse_u64 (takeWhile (\<lambda>c. c \<noteq> CHR ''_'') n))"

text \<open>Reading one may save the default configuration, as loading does.\<close>

fun load_files :: "config_env \<Rightarrow> path option list \<Rightarrow> config history \<times> world \<Rightarrow> config history \<times> world" where
  "load_files env [] (h, w) = (h, w)"
| "load_files env (None # ps) (h, w) = load_files env ps (h, w)"
| "load_files env (Some p # ps) (h, w) =
     (case load_config env (path_str p) w of
        (w, Inl e) \<Rightarrow> load_files env ps (h, w)
      | (w, Inr c) \<Rightarrow>
          (case file_second env p of
             None \<Rightarrow> load_files env ps (h, w)
           | Some t \<Rightarrow> load_files env ps (history_add c t h, w)))"

definition load_history :: "config_env \<Rightarrow> u64 \<Rightarrow> usize option \<Rightarrow> world \<Rightarrow> (config history \<times> world) result" where
  "load_history env now m w =
     (let h = fresh_history m in
      case load_config env None w of
        (w, Inl e) \<Rightarrow> Inl Panic
      | (w, Inr c) \<Rightarrow>
          Inr (load_files env (ce_glob env w (cf_historical_config_path c @ [CHR ''/'', CHR 0x5C] @ ''d+_config.ron''))
                 (history_update now c h, w)))"

section \<open>Alerts\<close>

fun str_replace :: "string \<Rightarrow> string \<Rightarrow> string \<Rightarrow> string" where
  "str_replace pat by' s =
     (case s of
        [] \<Rightarrow> []
      | c # cs \<Rightarrow>
          (if pat \<noteq> [] \<and> take (length pat) s = pat then by' @ str_replace pat by' (drop (length pat - 1) cs)
           else c # str_replace pat by' cs))"

declare str_replace.simps [simp del]

text \<open>The stack of references visits every value of a map, an option or a sequence once.\<close>

fun fill_json :: "string \<Rightarrow> ron \<Rightarrow> ron" where
  "fill_json msg (RonString s) = RonString (str_replace ''$msg'' msg s)"
| "fill_json msg (RonMap kvs) = RonMap (map (\<lambda>(k, v). (k, fill_json msg v)) kvs)"
| "fill_json msg (RonOption None) = RonOption None"
| "fill_json msg (RonOption (Some v)) = RonOption (Some (fill_json msg v))"
| "fill_json msg (RonSeq vs) = RonSeq (map (fill_json msg) vs)"
| "fill_json msg (RonOther s) = RonOther s"

datatype alert_body = JsonBody ron | TextBody string

text \<open>\<^verbatim>\<open>post\<close> answers a status or fails; the posts are returned with whether all went well.\<close>

fun send_alerts ::
  "(string \<Rightarrow> alert_body \<Rightarrow> nat option) \<Rightarrow> string \<Rightarrow> alert_request list \<Rightarrow> (string \<times> alert_body) list \<times> bool" where
  "send_alerts post msg [] = ([], True)"
| "send_alerts post msg (r # rs) =
     (let (b, ok) =
        (case ar_json r of
           Some j \<Rightarrow>
             (let b = JsonBody (fill_json msg j)
              in (b, case post (ar_url r) b of None \<Rightarrow> False | Some s \<Rightarrow> 200 \<le> s \<and> s < 300))
         | None \<Rightarrow> (TextBody msg, post (ar_url r) (TextBody msg) \<noteq> None));
        (sent, oks) = send_alerts post msg rs
      in ((ar_url r, b) # sent, ok \<and> oks))"

definition send_alert ::
  "(string \<Rightarrow> alert_body \<Rightarrow> nat option) \<Rightarrow> config history \<Rightarrow> string \<Rightarrow> (string \<times> alert_body) list \<times> unit result" where
  "send_alert post h msg =
     (case send_alerts post msg (cf_alert_requests (get_config h)) of
        (sent, ok) \<Rightarrow> (sent, if ok then Inr () else Inl (Failed ''Errors while sending notifications'')))"

section \<open>Verified configurations\<close>

lemma verify_endpoints_iff: "verify_endpoints env us = Inr () \<longleftrightarrow> (\<forall>u\<in>set us. verify_endpoint env u = Inr ())"
  by (induction us) (auto simp: rbind_Inr_iff)

lemma adjusted_endpoint:
  assumes "\<forall>u u'. ve_parse_url env (u @ ''/'') = Some u' \<longrightarrow> u' \<noteq> [] \<and> last u' = CHR ''/''"
    and "adjust_api_endpoint env u = Some u'"
  shows "u' \<noteq> [] \<and> last u' = CHR ''/''"
  using assms by (auto simp: adjust_api_endpoint_def split: if_splits)

lemma adjusted_fixed: "u \<noteq> [] \<Longrightarrow> last u = CHR ''/'' \<Longrightarrow> adjust_api_endpoint env u = Some u"
  by (simp add: adjust_api_endpoint_def)

lemma map_filter_fixed: "(\<forall>x\<in>set xs. f x = Some x) \<Longrightarrow> List.map_filter f xs = xs"
  by (induction xs) (simp_all add: List.map_filter_simps)

lemma set_map_filter_iff: "y \<in> set (List.map_filter f xs) \<longleftrightarrow> (\<exists>x\<in>set xs. f x = Some y)"
  by (induction xs) (auto simp: List.map_filter_simps split: option.splits)

lemma verify_broker_shape:
  assumes "\<forall>u u'. ve_parse_url env (u @ ''/'') = Some u' \<longrightarrow> u' \<noteq> [] \<and> last u' = CHR ''/''"
    and "verify_broker env c = Inr c'"
  shows "\<exists>eps r. c' = c\<lparr>bc_api_endpoints := eps, bc_sync_range := Some r\<rparr> \<and> distinct eps \<and>
    set eps = {u'. \<exists>u\<in>set (bc_api_endpoints c). adjust_api_endpoint env u = Some u'} \<and>
    (\<forall>u\<in>set eps. u \<noteq> [] \<and> last u = CHR ''/'' \<and> verify_endpoint env u = Inr ()) \<and>
    0 < sr_from r \<and> sr_from r < sr_to r \<and>
    r = (case bc_sync_range c of None \<Rightarrow> default_sync_range | Some r \<Rightarrow> r)"
proof -
  let ?eps = "remdups (List.map_filter (adjust_api_endpoint env) (bc_api_endpoints c))"
  let ?r = "case bc_sync_range c of None \<Rightarrow> default_sync_range | Some r \<Rightarrow> r"
  have all: "verify_endpoints env ?eps = Inr ()"
    and eq: "c' = c\<lparr>bc_api_endpoints := ?eps, bc_sync_range := Some ?r\<rparr>"
    and r: "sr_from ?r \<noteq> 0" "\<not> sr_to ?r \<le> sr_from ?r"
    using assms(2) by (auto simp: verify_broker_def rbind_Inr_iff Let_def split: if_splits)
  have "\<forall>u\<in>set ?eps. u \<noteq> [] \<and> last u = CHR ''/'' \<and> verify_endpoint env u = Inr ()"
  proof
    fix u assume u: "u \<in> set ?eps"
    then obtain x where "adjust_api_endpoint env x = Some u" by (auto simp: set_map_filter_iff)
    then show "u \<noteq> [] \<and> last u = CHR ''/'' \<and> verify_endpoint env u = Inr ()"
      using adjusted_endpoint [OF assms(1)] all u by (simp add: verify_endpoints_iff)
  qed
  moreover have "0 < sr_from ?r" "sr_from ?r < sr_to ?r" using r by (simp_all add: word_neq_0_conv not_le)
  moreover have "set ?eps = {u'. \<exists>u\<in>set (bc_api_endpoints c). adjust_api_endpoint env u = Some u'}"
    by (auto simp: set_map_filter_iff)
  ultimately show ?thesis using eq by (intro exI [of _ ?eps] exI [of _ ?r]) simp
qed

lemma verify_broker_fixed:
  assumes "distinct (bc_api_endpoints c)" and "bc_sync_range c = Some r" and "0 < sr_from r" and "sr_from r < sr_to r"
    and "\<forall>u\<in>set (bc_api_endpoints c). u \<noteq> [] \<and> last u = CHR ''/'' \<and> verify_endpoint env u = Inr ()"
    and "\<forall>(t, urls)\<in>set (bc_mqtt_brokers c). \<forall>u\<in>set urls. ve_mqtt_ok env u"
  shows "verify_broker env c = Inr c"
proof -
  have m: "\<not> (\<exists>(t, urls)\<in>set (bc_mqtt_brokers c). \<exists>u\<in>set urls. \<not> ve_mqtt_ok env u)" using assms(6) by fastforce
  have eps: "remdups (List.map_filter (adjust_api_endpoint env) (bc_api_endpoints c)) = bc_api_endpoints c"
    using assms(1,5) adjusted_fixed map_filter_fixed [of "bc_api_endpoints c" "adjust_api_endpoint env"]
    by (simp add: distinct_remdups_id)
  have "sr_to r \<noteq> 0" using assms(3,4) by auto
  moreover have "sr_from r \<noteq> 0" using assms(3) by auto
  moreover have "verify_endpoints env (bc_api_endpoints c) = Inr ()"
    using assms(5) by (simp add: verify_endpoints_iff)
  moreover have "c\<lparr>bc_api_endpoints := bc_api_endpoints c, bc_sync_range := Some r\<rparr> = c" using assms(2) by simp
  ultimately show ?thesis
    using assms(2,4) unfolding verify_broker_def if_not_P [OF m] Let_def eps by (simp add: not_le)
qed

text \<open>
  C12. A verified configuration is the given one with its endpoints adjusted and its sync range made
  explicit: each endpoint that ends in a slash is kept, each other one that is not empty has one appended, if it
  then is a URL, and there are no more; a configured sync range is kept, and a missing one is the
  default. Every endpoint answered, the sync range has a milestone and no milestone 0, every
  replication factor and the number of reporters are positive. Verifying it again changes
  nothing, so a restart does not add it to the history again.
\<close>

theorem verified_config_valid:
  assumes "\<forall>u u'. ve_parse_url env (u @ ''/'') = Some u' \<longrightarrow> u' \<noteq> [] \<and> last u' = CHR ''/''"
    and "verify_config env c = Inr c'"
  shows "(\<exists>eps r. c' = c\<lparr>cf_broker_config := (cf_broker_config c)\<lparr>bc_api_endpoints := eps, bc_sync_range := Some r\<rparr>\<rparr> \<and>
      distinct eps \<and> set eps = {u'. \<exists>u\<in>set (bc_api_endpoints (cf_broker_config c)). u \<noteq> [] \<and>
        (if last u = CHR ''/'' then u' = u else ve_parse_url env (u @ ''/'') = Some u')} \<and>
      r = (case bc_sync_range (cf_broker_config c) of None \<Rightarrow> default_sync_range | Some r \<Rightarrow> r) \<and>
      (\<forall>u\<in>set eps. last u = CHR ''/'' \<and> verify_endpoint env u = Inr ()) \<and> 0 < sr_from r \<and> sr_from r < sr_to r) \<and>
    (\<forall>k\<in>set (sc_keyspaces (cf_storage_config c')). \<forall>dc\<in>set (kc_data_centers k). 0 < snd dc) \<and>
    0 < sc_reporter_count (cf_storage_config c') \<and> sc_local_datacenter (cf_storage_config c') \<noteq> [] \<and>
    verify_config env c' = Inr c'"
proof -
  obtain b where st: "verify_storage (cf_storage_config c) = Inr ()" and b: "verify_broker env (cf_broker_config c) = Inr b"
    and c': "c' = c\<lparr>cf_broker_config := b\<rparr>"
    using assms(2) by (auto simp: verify_config_def rbind_Inr_iff)
  obtain eps r where eq: "b = (cf_broker_config c)\<lparr>bc_api_endpoints := eps, bc_sync_range := Some r\<rparr>"
    and eps: "distinct eps" "\<forall>u\<in>set eps. u \<noteq> [] \<and> last u = CHR ''/'' \<and> verify_endpoint env u = Inr ()"
    and given: "set eps = {u'. \<exists>u\<in>set (bc_api_endpoints (cf_broker_config c)). adjust_api_endpoint env u = Some u'}"
      "r = (case bc_sync_range (cf_broker_config c) of None \<Rightarrow> default_sync_range | Some r \<Rightarrow> r)"
    and r: "0 < sr_from r" "sr_from r < sr_to r"
    using verify_broker_shape [OF assms(1) b] by blast
  have "adjust_api_endpoint env u = Some u' \<longleftrightarrow> u \<noteq> [] \<and>
      (if last u = CHR ''/'' then u' = u else ve_parse_url env (u @ ''/'') = Some u')" for u u'
    by (auto simp: adjust_api_endpoint_def)
  note given(1) [unfolded this]
  moreover have "\<forall>(t, urls)\<in>set (bc_mqtt_brokers b). \<forall>u\<in>set urls. ve_mqtt_ok env u"
    using b eq by (auto simp: verify_broker_def split: if_splits)
  then have "verify_broker env b = Inr b"
    using eps r eq by (intro verify_broker_fixed [where r = r]) simp_all
  then have "verify_config env c' = Inr c'" using st c' by (simp add: verify_config_def)
  moreover have "(\<forall>k\<in>set (sc_keyspaces (cf_storage_config c')). \<forall>dc\<in>set (kc_data_centers k). 0 < snd dc) \<and>
      0 < sc_reporter_count (cf_storage_config c') \<and> sc_local_datacenter (cf_storage_config c') \<noteq> []"
    using st c' by (auto simp: verify_storage_def word_neq_0_conv split: if_splits)
  ultimately show ?thesis using c' eq eps given(2) r by blast
qed

definition plain_verify_env :: verify_env where
  "plain_verify_env = \<lparr>ve_mqtt_ok = (\<lambda>u. True), ve_parse_url = Some, ve_join = (\<lambda>u s. Some (u @ s)), ve_get_status = (\<lambda>u. Some 200)\<rparr>"

lemma verified_config_valid_witness:
  "\<exists>c'. verify_config plain_verify_env default_config = Inr c' \<and> verify_config plain_verify_env c' = Inr c'"
proof -
  have laws: "\<forall>u u'. ve_parse_url plain_verify_env (u @ ''/'') = Some u' \<longrightarrow> u' \<noteq> [] \<and> last u' = CHR ''/''"
    by (simp add: plain_verify_env_def) 
  have "case verify_config plain_verify_env default_config of Inl e \<Rightarrow> False | Inr c' \<Rightarrow> True" by code_simp
  then obtain c' where c': "verify_config plain_verify_env default_config = Inr c'" by (auto split: sum.splits)
  show ?thesis using verified_config_valid [OF laws c'] c' by blast
qed

section \<open>Restarts\<close>

lemma historical_path_suffix: "suffix ''_config.ron'' (historical_path w t)"
proof -
  have "suffix ''_config.ron'' (a @ b @ dec n @ ''_config.ron'')" for a b n by (simp add: suffix_def)
  from this [of _ "[]"] this show ?thesis unfolding historical_path_def path_join_def
    by (simp add: suffix_def)
qed

lemma persist_all_keeps:
  "\<not> suffix ''_config.ron'' p \<Longrightarrow> persist_all env rs w = (w', r) \<Longrightarrow>
     hm_get (w_files w') p = hm_get (w_files w) p \<and> w_vars w' = w_vars w"
proof (induction rs arbitrary: w)
  case (Cons x rs)
  obtain w1 r1 where w1: "persist_historical env x w = (w1, r1)" by force
  have "hm_get (w_files w1) p = hm_get (w_files w) p \<and> w_vars w1 = w_vars w"
    using w1 Cons.prems(1) historical_path_suffix [of w "hc_created x"]
    by (auto simp: persist_historical_def save_config_def save_versioned_def Let_def config_path_def split: if_splits)
  then show ?case using Cons w1 by (cases r1) auto
qed simp

lemma persist_history_saves:
  assumes "hs_records h \<noteq> []" and "persist_history env h w = (w', r)"
    and "\<not> ce_create_error env (config_path w None)" and "\<not> suffix ''_config.ron'' (config_path w None)"
  shows "hm_get (w_files w') (config_path w None) = Some (ce_print env (new_versioned (get_config h)))"
    and "config_path w' None = config_path w None"
    and "hm_get (w_vars w') ''CONFIG_PATH'' = hm_get (w_vars w) ''CONFIG_PATH''"
proof -
  let ?s = "bh_into_sorted hc_created (hs_records h)" and ?p = "config_path w None"
  have ne: "?s \<noteq> []" using assms(1) bh_into_sorted_mset(2) [of hc_created "hs_records h"] by (metis set_empty)
  have "last ?s = hs_records h ! 0" by (rule bh_into_sorted_last [OF assms(1)])
  then have "hc_config (last ?s) = get_config h"
    using assms(1) by (cases "hs_records h") (simp_all add: get_config_def latest_def bh_peek_def)
  moreover obtain rs where "rev ?s = last ?s # rs" using ne by (cases ?s rule: rev_cases) auto
  ultimately obtain x rs where xs: "rev ?s = x # rs" "hc_config x = get_config h" by metis
  let ?w1 = "w\<lparr>w_files := hm_insert ?p (ce_print env (new_versioned (get_config h))) (w_files w),
      w_vars := hm_insert ''HISTORICAL_CONFIG_PATH'' (cf_historical_config_path (get_config h)) (w_vars w)\<rparr>"
  have "persist_config env (get_config h) w = (?w1, Inr ())"
    using assms(3) by (simp add: persist_config_def save_config_def save_versioned_def Let_def)
  then have "persist_all env rs ?w1 = (w', r)" using assms(2) xs by (simp add: persist_history_def)
  note keeps = persist_all_keeps [OF assms(4) this]
  show "hm_get (w_files w') ?p = Some (ce_print env (new_versioned (get_config h)))" using keeps by simp
  show "hm_get (w_vars w') ''CONFIG_PATH'' = hm_get (w_vars w) ''CONFIG_PATH''" using keeps by simp
  then show "config_path w' None = ?p" by (simp add: config_path_def)
qed

lemma load_files_keeps_last:
  assumes "history_ok h" and "hs_records h \<noteq> []" and "0 < hs_max h"
    and "\<forall>p\<in>set ps. \<forall>q t. p = Some q \<longrightarrow> file_second env q = Some t \<longrightarrow> t \<le> hc_created (history_last d h)"
  shows "history_last d (fst (load_files env ps (h, w))) = history_last d h"
  using assms
proof (induction env ps "(h, w)" arbitrary: h w rule: load_files.induct)
  case (3 env p ps h w)
  obtain w1 r where r: "load_config env (path_str p) w = (w1, r)" by force
  show ?case
  proof (cases "\<exists>c t. r = Inr c \<and> file_second env p = Some t")
    case True
    then obtain c t where ct: "r = Inr c" "file_second env p = Some t" by blast
    have last: "history_last d (history_add c t h) = history_last d h"
      using "3.prems" ct by (intro history_add_older) auto
    moreover have "hs_records (history_add c t h) \<noteq> []"
      using "3.prems"(1,3) by (rule history_add_ne)
    ultimately show ?thesis
      using "3.hyps"(3) [OF r [symmetric] ct(1) ct(2)] "3.prems" r ct by auto
  next
    case False
    then show ?thesis
      using "3.hyps"(1,2) [OF r [symmetric]] "3.prems" r by (auto split: sum.splits option.splits)
  qed
qed auto

text \<open>
  C40. When a history is persisted and the program restarts, it has the configuration it had, unless
  the configuration cannot be written or read or a historical file claims to be from the future;
  historical files that cannot be written make no difference.
\<close>

theorem restart_restores_config:
  assumes "ce_version env (ce_print env (new_versioned (get_config h))) = Some CURRENT_VERSION"
    and "ce_parse env (ce_print env (new_versioned (get_config h))) = Some (new_versioned (get_config h))"
    and "hs_records h \<noteq> []" and "persist_history env h w = (w', r)"
    and "\<not> ce_create_error env (config_path w None)" and "\<not> ce_open_error env (config_path w None)"
    and "\<not> suffix ''_config.ron'' (config_path w None)"
    and "\<forall>pat. \<forall>q t. Some q \<in> set (ce_glob env w' pat) \<longrightarrow> file_second env q = Some t \<longrightarrow> t \<le> now"
    and "m = None \<or> (\<exists>n. m = Some n \<and> 0 < n)"
  shows "\<exists>h' w''. load_history env now m w' = Inr (h', w'') \<and> get_config h' = get_config h"
proof -
  let ?p = "config_path w None" and ?c = "get_config h"
  note saved = persist_history_saves [OF assms(3,4,5,7)]
  have "config_paths w' None = ?p # tl (config_paths w' None)"
    using saved(2,3) by (auto simp: config_paths_def config_path_def map_filter_simps split: option.splits)
  then have "first_found env w' (config_paths w' None) = Inr (Some (ce_print env (new_versioned ?c)))"
    using assms(6) saved(1) by (metis first_found.simps(2) option.simps(5))
  then have load: "load_config env None w' = (w', Inr ?c)"
    using assms(1,2) by (simp add: load_config_def load_versioned_def load_with_def parse_versioned_def verify_version_def)
      (simp add: new_versioned_def)
  let ?h1 = "history_add ?c now (fresh_history m)"
  let ?pat = "cf_historical_config_path ?c @ [CHR ''/'', CHR 0x5C] @ ''d+_config.ron''"
  have pos: "0 < hs_max (fresh_history m :: config history)" using assms(9) by (auto split: option.splits)
  then have h1: "history_ok ?h1" "0 < hs_max ?h1" "hs_records ?h1 \<noteq> []"
    using history_add_ne [of "fresh_history m" ?c now] by simp_all
  have "hs_records ?h1 = [\<lparr>hc_config = ?c, hc_created = now\<rparr>]"
    using pos by (intro history_add_first) simp_all
  then have last1: "history_last default_config ?h1 = \<lparr>hc_config = ?c, hc_created = now\<rparr>"
    by (simp add: history_last_def bh_peek_def)
  obtain h' w'' where h': "load_files env (ce_glob env w' ?pat) (?h1, w') = (h', w'')" by force
  have "history_last default_config h' = history_last default_config ?h1"
    using load_files_keeps_last [OF h1(1,3,2), of "ce_glob env w' ?pat" env default_config w'] assms(8) last1 h' by auto
  then have "get_config h' = ?c" using last1 by (simp add: get_config_def latest_last)
  moreover have "load_history env now m w' = Inr (h', w'')" using load h' by (simp add: load_history_def Let_def update_is_add)
  ultimately show ?thesis by blast
qed

text \<open>A printer and parser of the configuration with another log directory.\<close>

definition moved_config :: config where
  "moved_config = default_config\<lparr>cf_broker_config := default_broker\<lparr>bc_logs_dir := Some ''logs''\<rparr>\<rparr>"

definition plain_config_env :: config_env where
  "plain_config_env =
     \<lparr>ce_open_error = (\<lambda>p. False), ce_create_error = (\<lambda>p. False), ce_version = (\<lambda>s. Some 3),
      ce_parse = (\<lambda>s. if s = ''logs'' then Some (new_versioned moved_config) else Some default_versioned),
      ce_print = (\<lambda>v. case bc_logs_dir (cf_broker_config (vc_config v)) of None \<Rightarrow> [] | Some d \<Rightarrow> d),
      ce_glob = (\<lambda>w p. map (\<lambda>(n, s). Some (Path n)) (filter (\<lambda>(n, s). n \<noteq> CONFIG_PATH) (w_files w))),
      ce_file_name = (\<lambda>p. Some ''5_config.ron'')\<rparr>"

definition wit_history :: "config history" where
  "wit_history = history_update 8 moved_config (history_update 5 default_config default_history)"

lemma restart_restores_config_witness:
  "\<exists>h' w. load_history plain_config_env 9 None (fst (persist_history plain_config_env wit_history \<lparr>w_files = [], w_vars = []\<rparr>)) =
      Inr (h', w) \<and> get_config h' = get_config wit_history"
proof -
  have c: "get_config wit_history = moved_config" unfolding wit_history_def by code_simp
  have f: "file_second plain_config_env q = Some t \<Longrightarrow> t \<le> 9" for q t
  proof -
    have "file_second plain_config_env q = Some 5"
      by (simp add: file_second_def plain_config_env_def parse_u64_def)
    then show "file_second plain_config_env q = Some t \<Longrightarrow> t \<le> 9" by simp
  qed
  show ?thesis
  proof (rule restart_restores_config)
    show "hs_records wit_history \<noteq> []" unfolding wit_history_def by code_simp
    show "persist_history plain_config_env wit_history \<lparr>w_files = [], w_vars = []\<rparr> =
        (fst (persist_history plain_config_env wit_history \<lparr>w_files = [], w_vars = []\<rparr>),
         snd (persist_history plain_config_env wit_history \<lparr>w_files = [], w_vars = []\<rparr>))" by simp
  qed (use c f in \<open>auto simp: plain_config_env_def new_versioned_def moved_config_def default_broker_def CURRENT_VERSION_def
         config_path_def CONFIG_PATH_def suffix_def\<close>)
qed

section \<open>Where it falls short\<close>

text \<open>Rolling back the only record leaves the default as the configuration, and nothing is saved.\<close>

lemma rollback_to_default:
  "get_config (snd (rollback (history_update now c (new_history 20)))) = default_config"
  "persist_history env (snd (rollback (history_update now c (new_history 20)))) w = (w, Inr ())"
proof -
  have "hs_records (history_update now c (new_history 20)) = [\<lparr>hc_config = c, hc_created = now\<rparr>]"
    unfolding update_is_add by (rule history_add_first) (simp_all add: new_history_def history_ok_def)
  then have "hs_records (snd (rollback (history_update now c (new_history 20)))) = []"
    by (simp add: rollback_def bh_pop_cases)
  then show "get_config (snd (rollback (history_update now c (new_history 20)))) = default_config"
    "persist_history env (snd (rollback (history_update now c (new_history 20)))) w = (w, Inr ())"
    by (simp_all add: get_config_def latest_def bh_peek_def persist_history_def bh_into_sorted_def)
qed

text \<open>The answer to an alert without JSON is not looked at.\<close>

lemma text_alert_ignores_status:
  "snd (send_alerts (\<lambda>u b. Some 500) msg [\<lparr>ar_url = u, ar_json = None\<rparr>])"
  "\<not> snd (send_alerts (\<lambda>u b. Some 500) msg [\<lparr>ar_url = u, ar_json = Some j\<rparr>])"
  by simp_all

end
