(* ===== verification/Daemon.thy ===== *)
theory Daemon
  imports Config
begin

text \<open>
  The chronicle program (\<^verbatim>\<open>chronicle/src/\<close>): its start, the database it initialises, and the command
  websocket that passes messages on to the broker and to Scylla (\<^verbatim>\<open>websocket/event_loop.rs\<close>), with
  the broker's end of such a connection (\<^verbatim>\<open>chronicle-broker/src/websocket/event_loop.rs\<close>).

  A text is the JSON of an enum as serde writes it: its variant as a tag, around a value. Which values
  are which commands is a parameter, as are connections and their answers.
\<close>

section \<open>Messages\<close>

datatype 'v wire = Tagged string 'v | NoTag

datatype config_command = RollbackCommand

datatype scylla_topology = AddNode socket_addr | RemoveNode socket_addr | BuildRing u8

datatype scylla_through = ScyllaShutdown | ScyllaTopology scylla_topology

datatype broker_through = ThroughShutdown | ThroughTopology broker_topology | ThroughExit

record 'v serde =
  se_config :: "'v \<Rightarrow> config_command option"
  se_scylla :: "'v \<Rightarrow> scylla_through option"
  se_broker :: "'v \<Rightarrow> broker_through option"
  se_other_app :: "'v wire \<Rightarrow> bool"
  se_of_config :: "config_command \<Rightarrow> 'v"
  se_of_scylla :: "scylla_through \<Rightarrow> 'v"
  se_of_broker :: "broker_through \<Rightarrow> 'v option"

text \<open>The variants of \<^verbatim>\<open>SocketMsg\<close>.\<close>

datatype target = GeneralTarget | APITarget | BrokerTarget | ScyllaTarget

fun target_of :: "string \<Rightarrow> target option" where
  "target_of t =
     (if t = ''General'' then Some GeneralTarget else if t = ''API'' then Some APITarget
      else if t = ''Broker'' then Some BrokerTarget else if t = ''Scylla'' then Some ScyllaTarget else None)"

fun to_outgoing :: "target \<Rightarrow> 'v \<Rightarrow> (string + 'v wire) result" where
  "to_outgoing GeneralTarget v = Inr (Inl ''No outgoing message for general commands'')"
| "to_outgoing APITarget v = Inl Panic"
| "to_outgoing BrokerTarget v = Inr (Inr (Tagged ''ChronicleBroker'' v))"
| "to_outgoing ScyllaTarget v = Inr (Inr (Tagged ''Scylla'' v))"

section \<open>The command websocket\<close>

text \<open>What a target answers on a connection, and whether the connection ever ends.\<close>

datatype answer = AnswerText string | AnswerClose "(u16 \<times> string) option" | AnswerOther | AnswerError string

datatype connection = NoConnection | SendFails | Connection "answer list" bool

datatype reply = ReplyText string | ReplyClose "(u16 \<times> string) option"

record 'v daemon =
  dm_history :: "config history"
  dm_world :: world
  dm_sent :: "(socket_addr \<times> 'v wire) list"
  dm_replies :: "reply list"

fun reply_to :: "answer \<Rightarrow> reply list" where
  "reply_to (AnswerText s) = [ReplyText s]"
| "reply_to (AnswerClose c) = [ReplyClose c]"
| "reply_to AnswerOther = []"
| "reply_to (AnswerError s) = [ReplyClose (Some (500, s))]"

definition dm_change :: "config_env \<Rightarrow> (config history \<Rightarrow> config history) \<Rightarrow> 'v daemon \<Rightarrow> 'v daemon" where
  "dm_change ce f d =
     (case change_history ce f (dm_history d, dm_world d) of (h, w) \<Rightarrow> d\<lparr>dm_history := h, dm_world := w\<rparr>)"

definition with_nodes :: "(socket_addr list \<Rightarrow> socket_addr list) \<Rightarrow> config \<Rightarrow> config" where
  "with_nodes f c = c\<lparr>cf_storage_config := (cf_storage_config c)\<lparr>sc_nodes := f (sc_nodes (cf_storage_config c))\<rparr>\<rparr>"

definition record_topology :: "config_env \<Rightarrow> u64 \<Rightarrow> scylla_through \<Rightarrow> 'v daemon \<Rightarrow> 'v daemon" where
  "record_topology ce now t d =
     (let c = get_config (dm_history d); nodes = sc_nodes (cf_storage_config c) in
      case t of
        ScyllaTopology (AddNode a) \<Rightarrow>
          (if a \<in> set nodes then d else dm_change ce (history_update now (with_nodes (\<lambda>ns. ns @ [a]) c)) d)
      | ScyllaTopology (RemoveNode a) \<Rightarrow>
          (if a \<in> set nodes then dm_change ce (history_update now (with_nodes (filter (\<lambda>n. n \<noteq> a)) c)) d else d)
      | _ \<Rightarrow> d)"

definition target_address :: "config \<Rightarrow> target \<Rightarrow> socket_addr result" where
  "target_address c t =
     (case t of
        BrokerTarget \<Rightarrow> Inr (bc_websocket_address (cf_broker_config c))
      | ScyllaTarget \<Rightarrow> Inr (sc_listen_address (cf_storage_config c))
      | _ \<Rightarrow> Inl Panic)"

text \<open>
  One message: whether the handler returns (it waits for answers until the target's connection ends)
  and the state; an error is only logged.
\<close>

definition forward ::
  "'v serde \<Rightarrow> config_env \<Rightarrow> u64 \<Rightarrow> (socket_addr \<Rightarrow> connection) \<Rightarrow> target \<Rightarrow> 'v \<Rightarrow> 'v daemon \<Rightarrow> (bool \<times> 'v daemon) result" where
  "forward se ce now conn t v d =
     rbind (to_outgoing t v) (\<lambda>out.
       case out of
         Inl e \<Rightarrow> Inr (True, d\<lparr>dm_replies := dm_replies d @ [ReplyText e]\<rparr>)
       | Inr wire \<Rightarrow>
           rbind (target_address (get_config (dm_history d)) t) (\<lambda>addr.
             case conn addr of
               NoConnection \<Rightarrow> Inr (True, d)
             | SendFails \<Rightarrow> Inr (True, d)
             | Connection got closes \<Rightarrow>
                 (let d = d\<lparr>dm_sent := dm_sent d @ [(addr, wire)]\<rparr>;
                      d = (case t of
                             ScyllaTarget \<Rightarrow> (case se_scylla se v of None \<Rightarrow> d | Some th \<Rightarrow> record_topology ce now th d)
                           | _ \<Rightarrow> d)
                  in Inr (closes, d\<lparr>dm_replies := dm_replies d @ concat (map reply_to got)\<rparr>))))"

definition handle_socket_message ::
  "'v serde \<Rightarrow> config_env \<Rightarrow> u64 \<Rightarrow> (socket_addr \<Rightarrow> connection) \<Rightarrow> 'v wire option \<Rightarrow> 'v daemon \<Rightarrow> (bool \<times> 'v daemon) result" where
  "handle_socket_message se ce now conn msg d =
     (case msg of
        Some (Tagged tag v) \<Rightarrow>
          (case target_of tag of
             None \<Rightarrow> Inr (True, d)
           | Some t \<Rightarrow>
               (if t = GeneralTarget \<and> se_config se v = Some RollbackCommand
                then Inr (True, dm_change ce (\<lambda>h. snd (rollback h)) d)
                else forward se ce now conn t v d))
      | _ \<Rightarrow> Inr (True, d))"

text \<open>The messages of a connection, each with the time and the connections it finds.\<close>

fun manage_connection ::
  "'v serde \<Rightarrow> config_env \<Rightarrow> (u64 \<times> (socket_addr \<Rightarrow> connection) \<times> 'v wire option) list \<Rightarrow> 'v daemon \<Rightarrow> 'v daemon result" where
  "manage_connection se ce [] d = Inr d"
| "manage_connection se ce ((now, conn, msg) # msgs) d =
     rbind (handle_socket_message se ce now conn msg d) (\<lambda>(closes, d).
       if closes then manage_connection se ce msgs d else Inr d)"

text \<open>The actor of the websocket: its server and its own handle.\<close>

datatype websocket_event = WsShutdown | WsOtherApp

datatype websocket_out = WsShutdownApp | WsAbortServer | WsPassthrough

fun websocket_loop :: "bool \<Rightarrow> websocket_event list \<Rightarrow> websocket_out list" where
  "websocket_loop stopping [] = []"
| "websocket_loop stopping (WsShutdown # es) =
     (if stopping then [] else [WsShutdownApp, WsAbortServer]) @ websocket_loop stopping es"
| "websocket_loop stopping (WsOtherApp # es) = WsPassthrough # websocket_loop stopping es"

section \<open>The broker's end\<close>

datatype 'v socket_in = SocketText "'v wire" | SocketClose | SocketOther

fun broker_event_of :: "broker_through \<Rightarrow> broker_event" where
  "broker_event_of ThroughShutdown = BeShutdown"
| "broker_event_of (ThroughTopology t) = BeTopology t"
| "broker_event_of ThroughExit = BeExitProgram"

definition apps_event :: "'v serde \<Rightarrow> 'v wire \<Rightarrow> broker_event option" where
  "apps_event se w =
     (case w of
        Tagged tag v \<Rightarrow>
          (if tag = ''ChronicleBroker'' then map_option broker_event_of (se_broker se v)
           else if se_other_app se w then Some BeOtherApp else None)
      | NoTag \<Rightarrow> None)"

text \<open>Its events for the broker; a text that is no event ends the actor.\<close>

fun broker_socket :: "'v serde \<Rightarrow> string \<Rightarrow> 'v socket_in list \<Rightarrow> need_status \<times> broker_event list" where
  "broker_socket se n [] = (None, [])"
| "broker_socket se n (SocketText w # ms) =
     (case apps_event se w of
        None \<Rightarrow> (Some NeedAbort, [])
      | Some ev \<Rightarrow> (case broker_socket se n ms of (st, evs) \<Rightarrow> (st, ev # evs)))"
| "broker_socket se n (SocketClose # ms) =
     (case broker_socket se n ms of (st, evs) \<Rightarrow> (st, BeWebsocket \<lparr>sv_name = n, sv_status = SvStopping\<rparr> False # evs))"
| "broker_socket se n (SocketOther # ms) = broker_socket se n ms"

section \<open>The start of the program\<close>

definition worker_threads :: "usize \<Rightarrow> thread_count \<Rightarrow> usize" where
  "worker_threads cpus t = (case t of ThreadCount n \<Rightarrow> n | CoreMultiple n \<Rightarrow> cpus * n)"

text \<open>\<^verbatim>\<open>main\<close> up to the launch of the actors, with the times of the load and of the verification.\<close>

definition daemon_main ::
  "config_env \<Rightarrow> verify_env \<Rightarrow> u64 \<Rightarrow> u64 \<Rightarrow> usize \<Rightarrow> world \<Rightarrow> (usize \<times> config history \<times> world) result" where
  "daemon_main ce ve now now' cpus w =
     rbind (load_history ce now (Some 20) w) (\<lambda>(h, w).
       let c = get_config h; threads = worker_threads cpus (sc_thread_count (cf_storage_config c)) in
       case verify_config ve c of
         Inl e \<Rightarrow> Inl Panic
       | Inr c' \<Rightarrow>
           (case (if c' = c then (h, w) else change_history ce (history_update now' c') (h, w)) of
              (h, w) \<Rightarrow> Inr (threads, h, w)))"

text \<open>The statements of \<^verbatim>\<open>init_database\<close>: a keyspace with its replication, and the tables in order.\<close>

datatype create_stmt = CreateKeyspace string "(string \<times> u8) list" | CreateTable string string

definition create_statements :: "keyspace_config \<Rightarrow> create_stmt list" where
  "create_statements k =
     CreateKeyspace (kc_name k) (kc_data_centers k) # map (\<lambda>(t, _). CreateTable (kc_name k) t) schema"

text \<open>Each is sent once the one before is answered; the first error ends it.\<close>

fun run_statements :: "(create_stmt \<Rightarrow> bool) \<Rightarrow> create_stmt list \<Rightarrow> create_stmt list \<times> unit result" where
  "run_statements ok [] = ([], Inr ())"
| "run_statements ok (s # ss) =
     (if ok s then (case run_statements ok ss of (sent, r) \<Rightarrow> (s # sent, r)) else ([s], Inl (Failed ''worker'')))"

definition init_database :: "(create_stmt \<Rightarrow> bool) \<Rightarrow> config \<Rightarrow> create_stmt list \<times> unit result" where
  "init_database ok c =
     (case sc_keyspaces (cf_storage_config c) of
        [] \<Rightarrow> ([], Inr ())
      | k # _ \<Rightarrow> run_statements ok (create_statements k))"

text \<open>Once Scylla runs: the nodes to add with the uniform replication factor; errors of both are dropped.\<close>

definition after_scylla :: "(create_stmt \<Rightarrow> bool) \<Rightarrow> config \<Rightarrow> (socket_addr list \<times> u8 \<times> create_stmt list) result" where
  "after_scylla ok c =
     (case try_get_uniform_rf (cf_storage_config c) of
        None \<Rightarrow> Inl Panic
      | Some rf \<Rightarrow> Inr (sc_nodes (cf_storage_config c), rf, fst (init_database ok c)))"

section \<open>Changes in one second\<close>

text \<open>Of two nodes that are added in the same second only the first is in the configuration.\<close>

lemma second_node_lost:
  assumes "history_ok (dm_history d)" and "3 \<le> hs_max (dm_history d)"
    and "\<forall>r\<in>set (hs_records (dm_history d)). hc_created r < now"
    and "a \<notin> set (sc_nodes (cf_storage_config (get_config (dm_history d))))" and "b \<noteq> a"
    and "b \<notin> set (sc_nodes (cf_storage_config (get_config (dm_history d))))"
    and d': "d' = record_topology ce now (ScyllaTopology (AddNode b)) (record_topology ce now (ScyllaTopology (AddNode a)) d)"
  shows "a \<in> set (sc_nodes (cf_storage_config (get_config (dm_history d'))))"
    and "b \<notin> set (sc_nodes (cf_storage_config (get_config (dm_history d'))))"
proof -
  let ?h = "dm_history d" and ?c = "get_config (dm_history d)"
  let ?ca = "with_nodes (\<lambda>ns. ns @ [a]) ?c"
  let ?h1 = "history_update now ?ca ?h"
  have d1: "dm_history (record_topology ce now (ScyllaTopology (AddNode a)) d) = ?h1"
    using assms(4) by (simp add: record_topology_def dm_change_def change_history_def Let_def)
  have last1: "history_last default_config ?h1 = \<lparr>hc_config = ?ca, hc_created = now\<rparr>"
    using history_add_newest(1) [OF assms(1,2), of now default_config ?ca] assms(3) by (simp add: update_is_add)
  then have c1: "get_config ?h1 = ?ca" by (simp add: get_config_def latest_last)
  have h1: "history_ok ?h1" "hs_records ?h1 \<noteq> []"
    using assms(1,2) history_add_ne [OF assms(1), of ?ca now] by (auto simp: update_is_add word_le_nat_alt word_less_nat_alt)
  have "b \<notin> set (sc_nodes (cf_storage_config ?ca))" using assms(5,6) by (simp add: with_nodes_def)
  then have "dm_history d' = history_update now (with_nodes (\<lambda>ns. ns @ [b]) ?ca) ?h1"
    unfolding d' by (simp add: record_topology_def [of _ _ _ "record_topology _ _ _ _"] d1 c1 dm_change_def change_history_def Let_def)
  then have "get_config (dm_history d') = ?ca"
    using same_second_update_lost [OF h1, of default_config now] last1 c1 by (simp add: get_config_def)
  then show "a \<in> set (sc_nodes (cf_storage_config (get_config (dm_history d'))))"
    and "b \<notin> set (sc_nodes (cf_storage_config (get_config (dm_history d'))))"
    using assms(5,6) by (simp_all add: with_nodes_def)
qed

text \<open>
  The program starts with a configuration that verification changed only if a second has passed
  since it was loaded.
\<close>

lemma verified_config_used:
  assumes "load_history ce now (Some 20) w = Inr (h, w')" and "verify_config ve (get_config h) = Inr c'"
    and "history_ok h" and "hs_records h \<noteq> []" and "hs_max h = 20" and "c' \<noteq> get_config h"
    and "hc_created (history_last default_config h) = now"
  shows "now < now' \<Longrightarrow> \<exists>t h' w''. daemon_main ce ve now now' cpus w = Inr (t, h', w'') \<and> get_config h' = c'"
    and "\<exists>t h' w''. daemon_main ce ve now now cpus w = Inr (t, h', w'') \<and> get_config h' = get_config h"
proof -
  have run: "\<exists>t w''. daemon_main ce ve now n cpus w = Inr (t, history_update n c' h, w'')" for n
    using assms(1,2,6) by (simp add: daemon_main_def change_history_def Let_def)
  show "\<exists>t h' w''. daemon_main ce ve now now cpus w = Inr (t, h', w'') \<and> get_config h' = get_config h"
    using run [of now] same_second_update_lost [OF assms(3,4,7)] by (auto simp: get_config_def)
  assume lt: "now < now'"
  then have "history_last default_config (history_update now' c' h) = \<lparr>hc_config = c', hc_created = now'\<rparr>"
    using history_add_newest(1) [OF assms(3), of now' default_config c'] history_last_newest(1) [OF assms(3), of _ default_config]
      assms(5,7) by (force simp: update_is_add)
  then show "\<exists>t h' w''. daemon_main ce ve now now' cpus w = Inr (t, h', w'') \<and> get_config h' = c'"
    using run [of now'] by (auto simp: get_config_def latest_last)
qed

section \<open>One connection\<close>

text \<open>
  A message that is passed on holds the connection until its target ends its own: while it does not,
  no later message of the client is handled.
\<close>

lemma forwarding_blocks:
  assumes "target_of tag = Some t" and "t = BrokerTarget \<or> t = ScyllaTarget"
    and "conn (case t of BrokerTarget \<Rightarrow> bc_websocket_address (cf_broker_config (get_config (dm_history d)))
                | _ \<Rightarrow> sc_listen_address (cf_storage_config (get_config (dm_history d)))) = Connection got False"
  shows "manage_connection se ce ((now, conn, Some (Tagged tag v)) # msgs) d =
    manage_connection se ce [(now, conn, Some (Tagged tag v))] d"
  using assms by (auto simp: handle_socket_message_def forward_def target_address_def Let_def split: option.splits)

end
