(* ===== verification/Cli.thy ===== *)
theory Cli
  imports Daemon Merge_Logs
begin

text \<open>
  The command line (\<^verbatim>\<open>chronicle-cli/src/main.rs\<close>): what each command makes of the configuration, the
  messages it sends to a running program, and the merger it runs. Arguments come parsed by clap; the
  connection, addresses and URLs are parameters. Printing and spawning the program are left out.
\<close>

section \<open>Commands\<close>

record cli_env =
  cl_connects :: "socket_addr \<Rightarrow> bool"
  cl_parse_addr :: "string \<Rightarrow> socket_addr option"
  cl_parse_url :: "string \<Rightarrow> string option"

text \<open>The files afterwards, the messages that were sent and the result.\<close>

type_synonym 'v cli = "world \<times> 'v wire list \<times> unit result"

text \<open>\<^verbatim>\<open>VersionedConfig::load(None)?.verify().await?\<close>, with which every command begins.\<close>

definition cli_config :: "config_env \<Rightarrow> verify_env \<Rightarrow> world \<Rightarrow> world \<times> config result" where
  "cli_config ce ve w = (case load_versioned ce None w of (w, r) \<Rightarrow> (w, rbind r (verify_versioned ve)))"

definition with_config :: "config_env \<Rightarrow> verify_env \<Rightarrow> world \<Rightarrow> (config \<Rightarrow> world \<Rightarrow> 'v cli) \<Rightarrow> 'v cli" where
  "with_config ce ve w k =
     (case cli_config ce ve w of (w, Inl e) \<Rightarrow> (w, [], Inl e) | (w, Inr c) \<Rightarrow> k c w)"

text \<open>Over a new connection, up to the first message that cannot be written as JSON.\<close>

fun send_messages :: "'v wire option list \<Rightarrow> world \<Rightarrow> 'v cli" where
  "send_messages [] w = (w, [], Inr ())"
| "send_messages (None # ms) w = (w, [], Inl (Failed ''json''))"
| "send_messages (Some m # ms) w = (case send_messages ms w of (w, sent, r) \<Rightarrow> (w, m # sent, r))"

definition connect_and_send :: "cli_env \<Rightarrow> config \<Rightarrow> 'v wire option list \<Rightarrow> world \<Rightarrow> 'v cli" where
  "connect_and_send env c ms w =
     (if cl_connects env (cf_websocket_address c) then send_messages ms w else (w, [], Inl (Failed ''connect'')))"

definition broker_message :: "'v serde \<Rightarrow> string \<Rightarrow> broker_through \<Rightarrow> 'v wire option" where
  "broker_message se tag th = map_option (Tagged tag) (se_of_broker se th)"

definition cli_stop :: "'v serde \<Rightarrow> cli_env \<Rightarrow> config_env \<Rightarrow> verify_env \<Rightarrow> world \<Rightarrow> 'v cli" where
  "cli_stop se env ce ve w =
     with_config ce ve w (\<lambda>c. connect_and_send env c [broker_message se ''ChronicleBroker'' ThroughExit])"

definition cli_rebuild :: "'v serde \<Rightarrow> cli_env \<Rightarrow> config_env \<Rightarrow> verify_env \<Rightarrow> world \<Rightarrow> 'v cli" where
  "cli_rebuild se env ce ve w =
     with_config ce ve w (\<lambda>c.
       connect_and_send env c [Some (Tagged ''Scylla'' (se_of_scylla se (ScyllaTopology (BuildRing 1))))])"

definition cli_rollback :: "'v serde \<Rightarrow> cli_env \<Rightarrow> config_env \<Rightarrow> verify_env \<Rightarrow> bool \<Rightarrow> world \<Rightarrow> 'v cli" where
  "cli_rollback se env ce ve rollb w =
     with_config ce ve w (\<lambda>c w.
       if rollb then connect_and_send env c [Some (Tagged ''General'' (se_of_config se RollbackCommand))] w
       else (w, [], Inr ()))"

text \<open>Saving panics when it fails.\<close>

definition cli_save :: "config_env \<Rightarrow> config \<Rightarrow> world \<Rightarrow> (config \<Rightarrow> world \<Rightarrow> 'v cli) \<Rightarrow> 'v cli" where
  "cli_save ce c w k =
     (case save_config ce c None w of (w, Inl e) \<Rightarrow> (w, [], Inl Panic) | (w, Inr _) \<Rightarrow> k c w)"

text \<open>An address that is given but cannot be parsed panics.\<close>

definition parse_arg :: "(string \<Rightarrow> 'a option) \<Rightarrow> string option \<Rightarrow> 'a option result" where
  "parse_arg parse s =
     (case s of None \<Rightarrow> Inr None | Some s \<Rightarrow> (case parse s of None \<Rightarrow> Inl Panic | Some a \<Rightarrow> Inr (Some a)))"

definition node_messages :: "'v serde \<Rightarrow> socket_addr option \<Rightarrow> socket_addr option \<Rightarrow> 'v wire option list" where
  "node_messages se add rem =
     (case add of None \<Rightarrow> [] | Some a \<Rightarrow> [Some (Tagged ''Scylla'' (se_of_scylla se (ScyllaTopology (AddNode a))))]) @
     (case rem of None \<Rightarrow> [] | Some a \<Rightarrow> [Some (Tagged ''Scylla'' (se_of_scylla se (ScyllaTopology (RemoveNode a))))])"

definition change_nodes ::
  "config_env \<Rightarrow> socket_addr option \<Rightarrow> (socket_addr \<Rightarrow> socket_addr list \<Rightarrow> socket_addr list) \<Rightarrow>
    config \<Rightarrow> world \<Rightarrow> (config \<Rightarrow> world \<Rightarrow> 'v cli) \<Rightarrow> 'v cli" where
  "change_nodes ce a f c w k = (case a of None \<Rightarrow> k c w | Some a \<Rightarrow> cli_save ce (with_nodes (f a) c) w k)"

text \<open>Listing the nodes of a running program is not implemented.\<close>

definition cli_nodes ::
  "'v serde \<Rightarrow> cli_env \<Rightarrow> config_env \<Rightarrow> verify_env \<Rightarrow> string option \<Rightarrow> string option \<Rightarrow> bool \<Rightarrow> bool \<Rightarrow> world \<Rightarrow> 'v cli" where
  "cli_nodes se env ce ve add rem listed skip w =
     with_config ce ve w (\<lambda>c w.
       case (parse_arg (cl_parse_addr env) add, parse_arg (cl_parse_addr env) rem) of
         (Inr add, Inr rem) \<Rightarrow>
           (if \<not> skip
            then (case connect_and_send env c (node_messages se add rem) w of
                    (w, sent, r) \<Rightarrow> (w, sent, rbind r (\<lambda>_. if listed then Inl Panic else Inr ())))
            else change_nodes ce add (\<lambda>a ns. if a \<in> set ns then ns else ns @ [a]) c w (\<lambda>c w.
                 change_nodes ce rem (\<lambda>a. filter (\<lambda>n. n \<noteq> a)) c w (\<lambda>c w. (w, [], Inr ()))))
       | _ \<Rightarrow> (w, [], Inl Panic))"

datatype brokers_command = AddBrokers "string list option" | RemoveBrokers "string list option" | NoBrokersCommand

text \<open>The messages for the URLs that parse: both feeds of each.\<close>

definition add_messages :: "'v serde \<Rightarrow> string list \<Rightarrow> 'v wire option list" where
  "add_messages se urls =
     concat (map (\<lambda>u. [broker_message se ''ChronicleBroker'' (ThroughTopology (AddMqtt MqttMessages u)),
                       broker_message se ''ChronicleBroker'' (ThroughTopology (AddMqtt MqttReferenced u))]) urls)"

definition remove_messages :: "'v serde \<Rightarrow> string list \<Rightarrow> 'v wire option list" where
  "remove_messages se urls =
     concat (map (\<lambda>u. [broker_message se ''Broker'' (ThroughTopology (RemoveMqtt MqttMessages u)),
                       broker_message se ''Broker'' (ThroughTopology (RemoveMqtt MqttReferenced u))]) urls)"

definition send_built :: "cli_env \<Rightarrow> config \<Rightarrow> 'v wire option list \<Rightarrow> world \<Rightarrow> 'v cli" where
  "send_built env c ms w =
     (if None \<in> set ms then (w, [], Inl (Failed ''json'')) else connect_and_send env c ms w)"

definition change_feeds :: "(string list \<Rightarrow> string list) \<Rightarrow> config \<Rightarrow> config" where
  "change_feeds f c =
     (let b = cf_broker_config c;
          change = (\<lambda>t m. case hm_get m t of None \<Rightarrow> m | Some us \<Rightarrow> hm_insert t (f us) m)
      in c\<lparr>cf_broker_config := b\<lparr>bc_mqtt_brokers := change MqttReferenced (change MqttMessages (bc_mqtt_brokers b))\<rparr>\<rparr>)"

definition cli_brokers ::
  "'v serde \<Rightarrow> cli_env \<Rightarrow> config_env \<Rightarrow> verify_env \<Rightarrow> brokers_command \<Rightarrow> bool \<Rightarrow> bool \<Rightarrow> world \<Rightarrow> 'v cli" where
  "cli_brokers se env ce ve cmd listed skip w =
     with_config ce ve w (\<lambda>c w.
       let urls = List.map_filter (cl_parse_url env);
           (w, sent, r) =
             (case cmd of
                AddBrokers None \<Rightarrow> (w, [], Inl (Failed ''No mqtt addresses received!''))
              | AddBrokers (Some us) \<Rightarrow>
                  (if \<not> skip then send_built env c (add_messages se (urls us)) w
                   else cli_save ce (change_feeds (fold (\<lambda>u us. if u \<in> set us then us else us @ [u]) (urls us)) c) w
                          (\<lambda>c w. (w, [], Inr ())))
              | RemoveBrokers None \<Rightarrow> (w, [], Inl (Failed ''No mqtt addresses received!''))
              | RemoveBrokers (Some us) \<Rightarrow>
                  (if \<not> skip then send_built env c (remove_messages se (urls us)) w
                   else cli_save ce (change_feeds (filter (\<lambda>u. u \<notin> set (urls us))) c) w (\<lambda>c w. (w, [], Inr ())))
              | NoBrokersCommand \<Rightarrow> (w, [], Inr ()))
       in (w, sent, rbind r (\<lambda>_. if listed \<and> \<not> skip then Inl Panic else Inr ())))"

section \<open>Imports\<close>

definition is_digit :: "char \<Rightarrow> bool" where
  "is_digit c \<longleftrightarrow> (48 :: nat) \<le> of_char c \<and> of_char c \<le> (57 :: nat)"

definition parse_u32 :: "string \<Rightarrow> u32 option" where
  "parse_u32 s =
     (if s = [] then None
      else (case digits_value 0 s of None \<Rightarrow> None | Some n \<Rightarrow> if n < 2 ^ 32 then Some (of_nat n) else None))"

text \<open>The first match of \<^verbatim>\<open>(\d+)\D+(\d+)\<close>.\<close>

definition range_captures :: "string \<Rightarrow> (string \<times> string) option" where
  "range_captures s =
     (let s1 = dropWhile (\<lambda>c. \<not> is_digit c) s;
          a = takeWhile is_digit s1;
          b = takeWhile is_digit (dropWhile (\<lambda>c. \<not> is_digit c) (dropWhile is_digit s1))
      in if a = [] \<or> b = [] then None else Some (a, b))"

definition parse_range :: "string option \<Rightarrow> u32_range result" where
  "parse_range s =
     (case s of
        None \<Rightarrow> Inr (Range 1 i32_max)
      | Some s \<Rightarrow>
          (case range_captures s of
             None \<Rightarrow> Inl (Failed ''Malformatted range!'')
           | Some (a, b) \<Rightarrow>
               (case (parse_u32 a, parse_u32 b) of
                  (Some x, Some y) \<Rightarrow> Inr (Range x y)
                | _ \<Rightarrow> Inl (Failed ''number too large''))))"

definition import_path :: "config \<Rightarrow> string option \<Rightarrow> string" where
  "import_path c dir =
     (let d = (case dir of None \<Rightarrow> [] | Some d \<Rightarrow> d) in
      if d \<noteq> [] \<and> hd d = CHR ''/'' then d
      else (case bc_logs_dir (cf_broker_config c) of None \<Rightarrow> d | Some l \<Rightarrow> path_join l d))"

definition cli_import ::
  "'v serde \<Rightarrow> cli_env \<Rightarrow> config_env \<Rightarrow> verify_env \<Rightarrow> string option \<Rightarrow> bool \<Rightarrow> string option \<Rightarrow> bool \<Rightarrow> world \<Rightarrow> 'v cli" where
  "cli_import se env ce ve dir resume rng only_analytics w =
     with_config ce ve w (\<lambda>c w.
       case parse_range rng of
         Inl e \<Rightarrow> (w, [], Inl e)
       | Inr r \<Rightarrow>
           (if cl_parse_url env (case dir of None \<Rightarrow> [] | Some d \<Rightarrow> d) \<noteq> None then (w, [], Inl Panic)
            else connect_and_send env c
                   [broker_message se ''Broker''
                      (ThroughTopology (Import
                         \<lparr>ir_path = Path (import_path c dir), ir_resume = resume, ir_range = Some r,
                          ir_mode = (if only_analytics then Analytics_Mode else All_Mode)\<rparr>))] w))"

text \<open>The answers to an import: the progress bar with the files it counts, until the session is closed.\<close>

datatype session_answer =
    SaProgress u64 u32 u32 u64
  | SaFinish u32 u32
  | SaPathError
  | SaClose
  | SaOther
  | SaDisconnected

record progress =
  pg_length :: u64
  pg_position :: u64
  pg_active :: "(u32 \<times> u32) list"

fun show_session :: "session_answer list \<Rightarrow> progress \<Rightarrow> bool \<times> progress" where
  "show_session [] p = (False, p)"
| "show_session (SaProgress log_size a b bytes # ms) p =
     (if (a, b) \<in> set (pg_active p) then show_session ms (p\<lparr>pg_position := pg_position p + bytes\<rparr>)
      else show_session ms
             (p\<lparr>pg_length := pg_length p + log_size, pg_position := pg_position p + bytes, pg_active := (a, b) # pg_active p\<rparr>))"
| "show_session (SaFinish a b # ms) p = show_session ms (p\<lparr>pg_active := filter (\<lambda>x. x \<noteq> (a, b)) (pg_active p)\<rparr>)"
| "show_session (SaPathError # ms) p = show_session ms p"
| "show_session (SaClose # ms) p = (True, p)"
| "show_session (SaOther # ms) p = show_session ms p"
| "show_session (SaDisconnected # ms) p = (False, p)"

section \<open>The archive's clean-up\<close>

definition validation_level_of :: "string option \<Rightarrow> bool \<Rightarrow> bool \<Rightarrow> bool \<Rightarrow> bool \<Rightarrow> validation_level result" where
  "validation_level_of level basic light full jit =
     (case level of
        Some s \<Rightarrow>
          (if s = ''Basic'' then Inr Basic else if s = ''Light'' then Inr Light else if s = ''Full'' then Inr Full
           else if s = ''JustInTime'' then Inr JustInTime else Inl Panic)
      | None \<Rightarrow> Inr (if basic then Basic else if light then Light else if full then Full else JustInTime))"

definition max_log_size :: "config \<Rightarrow> u64" where
  "max_log_size c = (case bc_max_log_size (cf_broker_config c) of None \<Rightarrow> ucast u32_max | Some n \<Rightarrow> n)"

text \<open>The merger for the flags, or nothing without a log directory.\<close>

definition cli_merger :: "config \<Rightarrow> validation_level \<Rightarrow> bool \<Rightarrow> bool \<Rightarrow> bool \<Rightarrow> merger option" where
  "cli_merger c level no_backup no_exit finalized =
     (case bc_logs_dir (cf_broker_config c) of
        None \<Rightarrow> None
      | Some _ \<Rightarrow>
          Some \<lparr>mg_max = max_log_size c, mg_backup = \<not> no_backup, mg_level = level, mg_exit = \<not> no_exit, mg_finalized = finalized\<rparr>)"

definition cleanup_archive :: "merger option \<Rightarrow> merge_env \<Rightarrow> merge_fs \<Rightarrow> unit merged" where
  "cleanup_archive mg env fs = (case mg of None \<Rightarrow> (Inr (), fs) | Some mg \<Rightarrow> cleanup mg env fs)"

definition validate_archive :: "config \<Rightarrow> merge_env \<Rightarrow> merge_fs \<Rightarrow> log_file_error list merged" where
  "validate_archive c env fs =
     (case bc_logs_dir (cf_broker_config c) of
        None \<Rightarrow> (Inr [], fs)
      | Some _ \<Rightarrow> validate True True env (max_log_size c) fs)"

section \<open>What a running program does with the messages\<close>

text \<open>A client's messages over one connection, and the events that the broker gets from what is passed on.\<close>

definition client_session ::
  "'v serde \<Rightarrow> config_env \<Rightarrow> u64 \<Rightarrow> (socket_addr \<Rightarrow> connection) \<Rightarrow> 'v wire list \<Rightarrow> 'v daemon \<Rightarrow> 'v daemon result" where
  "client_session se ce now conn ms d = manage_connection se ce (map (\<lambda>m. (now, conn, Some m)) ms) d"

definition broker_gets :: "'v serde \<Rightarrow> socket_addr \<Rightarrow> 'v daemon \<Rightarrow> broker_event list" where
  "broker_gets se addr d =
     concat (map (\<lambda>(a, m). if a = addr then snd (broker_socket se [] [SocketText m]) else []) (dm_sent d))"

lemma sent_messages: "send_messages ms w = (w', sent, Inr ()) \<Longrightarrow> w' = w \<and> map Some sent = ms"
proof (induction ms w arbitrary: w' sent rule: send_messages.induct)
  case (3 m ms w)
  then show ?case by (auto split: prod.splits)
qed auto

lemma connected_and_sent:
  "connect_and_send env c ms w = (w', sent, Inr ()) \<Longrightarrow> w' = w \<and> map Some sent = ms"
  by (auto simp: connect_and_send_def dest: sent_messages split: if_splits)

text \<open>A message whose tag is no variant of \<^verbatim>\<open>SocketMsg\<close> is dropped.\<close>

lemma session_drops:
  "\<forall>m\<in>set ms. \<exists>v. m = Tagged ''ChronicleBroker'' v \<Longrightarrow> client_session se ce now conn ms d = Inr d"
proof (induction ms)
  case (Cons m ms)
  then obtain v where "m = Tagged ''ChronicleBroker'' v" by auto
  then show ?case using Cons by (simp add: client_session_def handle_socket_message_def)
qed (simp add: client_session_def)

text \<open>The first message for the broker is passed on, and while its socket stays open it is the only one.\<close>

lemma session_forwards_first:
  assumes "conn (bc_websocket_address (cf_broker_config (get_config (dm_history d)))) = Connection [] False"
  shows "client_session se ce now conn (Tagged ''Broker'' v # ms) d =
    Inr (d\<lparr>dm_sent := dm_sent d @ [(bc_websocket_address (cf_broker_config (get_config (dm_history d))), Tagged ''ChronicleBroker'' v)]\<rparr>)"
  using assms by (simp add: client_session_def handle_socket_message_def forward_def target_address_def)

lemma broker_gets_command:
  assumes "se_broker se v = Some th" and "dm_sent d = []"
  shows "broker_gets se a (d\<lparr>dm_sent := dm_sent d @ [(a, Tagged ''ChronicleBroker'' v)]\<rparr>) = [broker_event_of th]"
  using assms by (simp add: broker_gets_def apps_event_def)

lemma broker_message_Some:
  "Some m = broker_message se tag th \<longleftrightarrow> (\<exists>v. m = Tagged tag v \<and> se_of_broker se th = Some v)"
  "broker_message se tag th = Some m \<longleftrightarrow> (\<exists>v. m = Tagged tag v \<and> se_of_broker se th = Some v)"
  by (cases "se_of_broker se th"; auto simp: broker_message_def)+

lemma remove_messages_Cons:
  "map Some sent = remove_messages se (u # us) \<Longrightarrow>
     \<exists>v ms. sent = Tagged ''Broker'' v # ms \<and> se_of_broker se (ThroughTopology (RemoveMqtt MqttMessages u)) = Some v"
  by (cases sent) (auto simp: remove_messages_def broker_message_Some)

lemma commands_at_broker:
  fixes se :: "'v serde" and d :: "'v daemon"
  assumes serde: "\<forall>t v. se_of_broker se t = Some v \<longrightarrow> se_broker se v = Some t"
    and addr: "addr = bc_websocket_address (cf_broker_config (get_config (dm_history d)))"
    and socket: "conn addr = Connection [] False" and fresh: "dm_sent d = []"
    and cfg: "cli_config ce ve w = (w', Inr c)"
  shows "\<lbrakk>cli_import se env ce ve dir resume rng only_analytics w = (w1, sent, Inr ())\<rbrakk> \<Longrightarrow>
      \<exists>d' r. client_session se ce' now conn sent d = Inr d' \<and> parse_range rng = Inr r \<and>
        broker_gets se addr d' =
          [BeTopology (Import \<lparr>ir_path = Path (import_path c dir), ir_resume = resume, ir_range = Some r,
             ir_mode = (if only_analytics then Analytics_Mode else All_Mode)\<rparr>)]"
    and "\<lbrakk>cli_brokers se env ce ve (RemoveBrokers (Some us)) False False w = (w1, sent, Inr ());
        List.map_filter (cl_parse_url env) us = u # urls\<rbrakk> \<Longrightarrow>
      \<exists>d'. client_session se ce' now conn sent d = Inr d' \<and>
        broker_gets se addr d' = [BeTopology (RemoveMqtt MqttMessages u)]"
    and "\<lbrakk>cli_brokers se env ce ve (AddBrokers (Some us)) False False w = (w1, sent, Inr ()) \<or>
        cli_stop se env ce ve w = (w1, sent, Inr ())\<rbrakk> \<Longrightarrow> client_session se ce' now conn sent d = Inr d"
proof -
  { assume run: "cli_import se env ce ve dir resume rng only_analytics w = (w1, sent, Inr ())"
    obtain r where r: "parse_range rng = Inr r"
      using run cfg by (cases "parse_range rng") (auto simp: cli_import_def with_config_def)
    let ?t = "ThroughTopology (Import \<lparr>ir_path = Path (import_path c dir), ir_resume = resume, ir_range = Some r,
        ir_mode = (if only_analytics then Analytics_Mode else All_Mode)\<rparr>)"
    have "connect_and_send env c [broker_message se ''Broker'' ?t] w' = (w1, sent, Inr ())"
      using run cfg r by (auto simp: cli_import_def with_config_def split: if_splits)
    then have "map Some sent = [broker_message se ''Broker'' ?t]" by (rule connected_and_sent [THEN conjunct2])
    then obtain v where v: "sent = [Tagged ''Broker'' v]" "se_of_broker se ?t = Some v"
      by (auto simp: broker_message_Some)
    then have "se_broker se v = Some ?t" using serde by blast
    then show "\<exists>d' r. client_session se ce' now conn sent d = Inr d' \<and> parse_range rng = Inr r \<and>
        broker_gets se addr d' =
          [BeTopology (Import \<lparr>ir_path = Path (import_path c dir), ir_resume = resume, ir_range = Some r,
             ir_mode = (if only_analytics then Analytics_Mode else All_Mode)\<rparr>)]"
      using session_forwards_first [of conn d se ce' now v "[]"] broker_gets_command [of se v ?t d addr] socket addr fresh r v(1)
      by simp }
  { assume run: "cli_brokers se env ce ve (RemoveBrokers (Some us)) False False w = (w1, sent, Inr ())"
      and urls: "List.map_filter (cl_parse_url env) us = u # urls"
    have "connect_and_send env c (remove_messages se (u # urls)) w' = (w1, sent, Inr ())"
      using run cfg urls by (auto simp: cli_brokers_def with_config_def send_built_def rbind_Inr_iff Let_def split: if_splits prod.splits)
    then have "map Some sent = remove_messages se (u # urls)" by (rule connected_and_sent [THEN conjunct2])
    then obtain v ms where v: "sent = Tagged ''Broker'' v # ms"
        "se_of_broker se (ThroughTopology (RemoveMqtt MqttMessages u)) = Some v"
      using remove_messages_Cons by blast
    then have "se_broker se v = Some (ThroughTopology (RemoveMqtt MqttMessages u))" using serde by blast
    then show "\<exists>d'. client_session se ce' now conn sent d = Inr d' \<and>
        broker_gets se addr d' = [BeTopology (RemoveMqtt MqttMessages u)]"
      using session_forwards_first [of conn d se ce' now v ms] broker_gets_command [of se v _ d addr] socket addr fresh v(1)
      by simp }
  { assume "cli_brokers se env ce ve (AddBrokers (Some us)) False False w = (w1, sent, Inr ()) \<or>
        cli_stop se env ce ve w = (w1, sent, Inr ())"
    then obtain ms where ms: "connect_and_send env c ms w' = (w1, sent, Inr ())"
      and tags: "\<forall>m\<in>set ms. \<forall>x. m = Some x \<longrightarrow> (\<exists>v. x = Tagged ''ChronicleBroker'' v)"
    proof (elim disjE, goal_cases)
      case 1
      let ?ms = "add_messages se (List.map_filter (cl_parse_url env) us)"
      have "connect_and_send env c ?ms w' = (w1, sent, Inr ())"
        using 1(2) cfg by (auto simp: cli_brokers_def with_config_def send_built_def rbind_Inr_iff Let_def split: if_splits prod.splits)
      then show ?case by (rule 1(1)) (auto simp: add_messages_def broker_message_Some)
    next
      case 2
      then have "connect_and_send env c [broker_message se ''ChronicleBroker'' ThroughExit] w' = (w1, sent, Inr ())"
        using cfg by (auto simp: cli_stop_def with_config_def)
      then show ?case by (rule 2(1)) (auto simp: broker_message_Some)
    qed
    have sent: "map Some sent = ms" by (rule connected_and_sent [OF ms, THEN conjunct2])
    have "\<forall>m\<in>set sent. \<exists>v. m = Tagged ''ChronicleBroker'' v"
      using tags unfolding sent [symmetric] by auto
    then show "client_session se ce' now conn sent d = Inr d" by (rule session_drops) }
qed

text \<open>
  C35. What the broker of a running program gets of the commands, over a socket that the broker keeps
  open. An import arrives as asked for. Of the feed sources to remove only the messages feed of the
  first one does. Neither a stop nor a feed source to add arrives at all: they are sent with the
  broker's tag, which the program's own websocket does not know.
\<close>

theorem commands_reach_broker:
  fixes se :: "'v serde" and d :: "'v daemon"
  assumes "\<forall>t v. se_of_broker se t = Some v \<longrightarrow> se_broker se v = Some t"
    and "addr = bc_websocket_address (cf_broker_config (get_config (dm_history d)))"
    and "conn addr = Connection [] False" and "dm_sent d = []"
    and "cli_config ce ve w = (w', Inr c)"
  shows "(cli_import se env ce ve dir resume rng only_analytics w = (w1, sent, Inr ()) \<longrightarrow>
      (\<exists>d' r. client_session se ce' now conn sent d = Inr d' \<and> parse_range rng = Inr r \<and>
        broker_gets se addr d' =
          [BeTopology (Import \<lparr>ir_path = Path (import_path c dir), ir_resume = resume, ir_range = Some r,
             ir_mode = (if only_analytics then Analytics_Mode else All_Mode)\<rparr>)])) \<and>
    (cli_brokers se env ce ve (RemoveBrokers (Some us)) False False w = (w1, sent, Inr ()) \<and>
        List.map_filter (cl_parse_url env) us = u # urls \<longrightarrow>
      (\<exists>d'. client_session se ce' now conn sent d = Inr d' \<and>
        broker_gets se addr d' = [BeTopology (RemoveMqtt MqttMessages u)])) \<and>
    (cli_brokers se env ce ve (AddBrokers (Some us)) False False w = (w1, sent, Inr ()) \<or>
        cli_stop se env ce ve w = (w1, sent, Inr ()) \<longrightarrow> client_session se ce' now conn sent d = Inr d)"
  using commands_at_broker [where conn = conn and addr = addr, OF assms] by (intro conjI impI) blast+

text \<open>Values that are the broker's commands themselves.\<close>

definition plain_serde :: "broker_through serde" where
  "plain_serde =
     \<lparr>se_config = (\<lambda>v. None), se_scylla = (\<lambda>v. None), se_broker = Some, se_other_app = (\<lambda>w. False),
      se_of_config = (\<lambda>c. ThroughExit), se_of_scylla = (\<lambda>c. ThroughExit), se_of_broker = Some\<rparr>"

definition plain_cli_env :: cli_env where
  "plain_cli_env = \<lparr>cl_connects = (\<lambda>a. True), cl_parse_addr = (\<lambda>s. None), cl_parse_url = (\<lambda>s. if s = [] then None else Some s)\<rparr>"

definition plain_daemon :: "broker_through daemon" where
  "plain_daemon = \<lparr>dm_history = wit_history, dm_world = \<lparr>w_files = [], w_vars = []\<rparr>, dm_sent = [], dm_replies = []\<rparr>"

definition plain_world :: world where
  "plain_world = \<lparr>w_files = [(CONFIG_PATH, ''logs'')], w_vars = []\<rparr>"

lemma commands_reach_broker_witness:
  "\<exists>sent d'. cli_brokers plain_serde plain_cli_env plain_config_env plain_verify_env (RemoveBrokers (Some [''a'', ''b'']))
       False False plain_world = (plain_world, sent, Inr ()) \<and> length sent = 4 \<and>
     client_session plain_serde plain_config_env 9 (\<lambda>a. Connection [] False) sent plain_daemon = Inr d' \<and>
     broker_gets plain_serde (bc_websocket_address (cf_broker_config (get_config (dm_history plain_daemon)))) d' =
       [BeTopology (RemoveMqtt MqttMessages ''a'')]"
proof -
  let ?sent = "map (\<lambda>(t, u). Tagged ''Broker'' (ThroughTopology (RemoveMqtt t u)))
      [(MqttMessages, ''a''), (MqttReferenced, ''a''), (MqttMessages, ''b''), (MqttReferenced, ''b'')]"
  have "case snd (cli_config plain_config_env plain_verify_env plain_world) of Inl e \<Rightarrow> False | Inr c \<Rightarrow> True"
    by code_simp
  then obtain c where "snd (cli_config plain_config_env plain_verify_env plain_world) = Inr c"
    by (auto split: sum.splits)
  moreover have w: "fst (cli_config plain_config_env plain_verify_env plain_world) = plain_world" by code_simp
  ultimately have c: "cli_config plain_config_env plain_verify_env plain_world = (plain_world, Inr c)"
    by (metis prod.collapse)
  have run: "cli_brokers plain_serde plain_cli_env plain_config_env plain_verify_env (RemoveBrokers (Some [''a'', ''b'']))
      False False plain_world = (plain_world, ?sent, Inr ())"
    using c by (simp add: cli_brokers_def with_config_def plain_cli_env_def List.map_filter_simps send_built_def
        connect_and_send_def remove_messages_def broker_message_def plain_serde_def)
  have urls: "List.map_filter (cl_parse_url plain_cli_env) [''a'', ''b''] = ''a'' # [''b'']"
    by (simp add: plain_cli_env_def List.map_filter_simps)
  have "\<forall>t v. se_of_broker plain_serde t = Some v \<longrightarrow> se_broker plain_serde v = Some t" by (simp add: plain_serde_def)
  moreover have "dm_sent plain_daemon = []" by (simp add: plain_daemon_def)
  ultimately have "\<exists>d'. client_session plain_serde plain_config_env 9 (\<lambda>a. Connection [] False) ?sent plain_daemon = Inr d' \<and>
      broker_gets plain_serde (bc_websocket_address (cf_broker_config (get_config (dm_history plain_daemon)))) d' =
        [BeTopology (RemoveMqtt MqttMessages ''a'')]"
    using commands_reach_broker [where conn = "\<lambda>a. Connection [] False" and se = plain_serde and d = plain_daemon,
        OF _ refl _ _ c] run urls by blast
  then show ?thesis using run by (intro exI [of _ ?sent]) auto
qed

end
