(* ===== verification/Spec2Isabelle.thy ===== *)
theory Spec2Isabelle
  imports Sync_Archive Transaction_Rows Codecs Api_App Merge_Logs Archive_Import Ascending_Heap Cli
begin

text \<open>
  A verification development of chronicle.rs, the permanode of the IOTA tangle.

  \<^bold>\<open>The program.\<close> Chronicle keeps the messages of the tangle in a Scylla database. Its broker
  (\<^verbatim>\<open>chronicle-broker\<close>) is a set of actors. \<^verbatim>\<open>MQTT\<close> feeds hand new messages and metadata to the
  collectors, each of which owns the message ids of its partition. Solidifiers own the milestones of
  theirs: they ask the collectors for every message below a milestone, and when all are there and
  written they insert the analytic row and the sync row and pass the milestone on. The syncer reads
  from the sync table which milestones are missing and asks the solidifiers for them in order. The
  archiver appends complete milestones to log files; an importer reads such files back into the
  database, and a merger joins them. Requesters ask the nodes over HTTP for what the feeds did not
  deliver. \<^verbatim>\<open>chronicle-storage\<close> holds the statements and codecs of the rows, \<^verbatim>\<open>chronicle-api\<close> answers
  queries from them, \<^verbatim>\<open>chronicle-common\<close> holds the configuration and its history, \<^verbatim>\<open>chronicle\<close> starts
  everything and takes commands over a websocket, and \<^verbatim>\<open>chronicle-cli\<close> sends them.

  \<^bold>\<open>How code becomes definitions.\<close> An actor's state is a record and every arm of its event loop a
  function on it; a loop over the channel is a fold over a list of events. Messages to other actors,
  statements sent to the database and files written are values collected in the state. A fallible
  function returns a \<^typ>\<open>failure\<close> or a value, where \<^const>\<open>Panic\<close> stands for \<^verbatim>\<open>unwrap\<close>, \<^verbatim>\<open>expect\<close>, indexing
  out of bounds and explicit panics, so that every early return is a branch. Machine integers are words of their width
  and wrap as the release build does. Hash maps are association lists without
  duplicate keys, whose order is not relied on. Third-party code (the driver, the \<^verbatim>\<open>bee\<close> codecs,
  hashes, clients, JSON, RON, clocks and random choices) is a field of an environment record, an
  argument of what uses it; what a property needs of it is a named hypothesis.

  \<^bold>\<open>The theories.\<close>

  \<^item> \<^verbatim>\<open>Chronicle_Prelude\<close>: words, half-open ranges, hash maps, results, and their rewrite rules
  (\<^verbatim>\<open>range_simps\<close>, \<^verbatim>\<open>hm_simps\<close>).

  \<^item> \<^verbatim>\<open>Sync_Data\<close>, \<^verbatim>\<open>Analytics_Data\<close> (\<^verbatim>\<open>chronicle-broker/src/types.rs\<close> and the page decoders of
  \<^verbatim>\<open>select.rs\<close>): fetching the sync and analytics tables page by page and sorting the milestones into
  completed, unlogged and missing ranges. C1 and C4 compare the loops with the set of milestones and
  with sums that do not wrap; C36 is about handing out work, over the locale \<^verbatim>\<open>work_source\<close>, which the
  syncer's two sources of work interpret.

  \<^item> \<^verbatim>\<open>Tangle_Types\<close>, \<^verbatim>\<open>Milestone_Data\<close>: messages, and the messages of one milestone (C5); the locale
  \<^verbatim>\<open>min_heap\<close> is the contract of the heap of milestones that the syncer and the archiver keep, which
  \<^verbatim>\<open>Ascending_Heap\<close> interprets again with the standard library's heap.

  \<^item> \<^verbatim>\<open>Archiver\<close> (\<^verbatim>\<open>archiver/\<close>): log files over a file system that may fail. The invariant
  \<^verbatim>\<open>files_inv\<close> gives C6, C7 and C8. What C6 asks of the syncer is needed: \<^verbatim>\<open>resent_in_progress_duplicated\<close>.

  \<^item> \<^verbatim>\<open>Syncer\<close> (\<^verbatim>\<open>syncer/\<close>): C9 counts requests against answers, C10 and C11 are about order.
  \<^verbatim>\<open>Sync_Archive\<close> composes it with the archiver: over all ranges the syncer sends in ascending order, so
  under any interleaving with the incoming milestones each is written once (C24).

  \<^item> \<^verbatim>\<open>Solidifier\<close> (\<^verbatim>\<open>solidifier/\<close>): one invariant of events and replies, from which follow that what
  is delivered is solid (C13), that a sync row is justified (C14) and that every request is answered
  once (C15). The solidifier counts reports of persisted messages and does not compare ids, so C14 says
  that there are as many as the milestone has messages, and all of them if only these are reported.

  \<^item> \<^verbatim>\<open>Requester\<close> (\<^verbatim>\<open>requester/\<close>): the retry loop is proved once in the locale \<^verbatim>\<open>retrying\<close> and
  interpreted for messages and for milestones (C16, C17). Responses are unrestricted: those that
  cannot be converted make the requester panic, and C16 says when.

  \<^item> \<^verbatim>\<open>Storage_Rows\<close>, \<^verbatim>\<open>Selects\<close>, \<^verbatim>\<open>Codecs\<close>, \<^verbatim>\<open>Transaction_Rows\<close> (\<^verbatim>\<open>chronicle-storage/src/access/\<close>):
  every statement with its bound values, checked against the schema and the partition key (C19, C20);
  reading back what was written, row by row (C26, C27; the server is a parameter with the behaviour that
  CQL documents, among it the signed order of \<^verbatim>\<open>int\<close> columns), for the packed column of transaction data over the
  locale \<^verbatim>\<open>codec\<close> (C25), and from the collector to the decoder of the API (C28).

  \<^item> \<^verbatim>\<open>Collector\<close> (\<^verbatim>\<open>collector/\<close>): rows inserted and deleted (C21), routing to the owners (C22), and
  what answers a request (C23). \<^verbatim>\<open>Cql_Workers\<close> (\<^verbatim>\<open>solidifier/mod.rs\<close>): the retrying workers; C37
  gives the bound on their answers.

  \<^item> \<^verbatim>\<open>Api_Paging\<close>, \<^verbatim>\<open>Api_Listener\<close> (\<^verbatim>\<open>listener/rocket_event_loop.rs\<close>): the walk over the partitions of
  a key (C29, C30, C31) and the endpoints (C32). \<^verbatim>\<open>Api_App\<close>: the application actor and how answers
  and errors leave the web server.

  \<^item> \<^verbatim>\<open>Merge_Logs\<close> (\<^verbatim>\<open>merge.rs\<close>): the merger over a directory of names bound to inodes, as a
  refinement of the archive, a map from milestones to lines (C33), with the limit on sizes (C34).

  \<^item> \<^verbatim>\<open>Importer\<close>, \<^verbatim>\<open>Importer_Run\<close> (\<^verbatim>\<open>importer/\<close>): the handlers (C38), and the importer with its workers as
  a step relation, with an invariant by rule induction (C39). It assumes one line per milestone, positive
  parallelism, statements that can be built again and well-formed frames; \<^verbatim>\<open>crash_reasons\<close> lists the
  messages on which the importer panics. \<^verbatim>\<open>Archive_Import\<close>: a second invariant
  accounts for every line of the file; with the archiver's it gives C2, from milestone data through
  a log file to the rows of the database.

  \<^item> \<^verbatim>\<open>Broker\<close> (\<^verbatim>\<open>application/\<close>): the topology and the importers' share of the parallelism (C18).
  \<^verbatim>\<open>Lifecycle\<close>: the feeds and what the children report when they start and stop.

  \<^item> \<^verbatim>\<open>Binary_Heap\<close>, \<^verbatim>\<open>History\<close>, \<^verbatim>\<open>Config\<close> (\<^verbatim>\<open>chronicle-common/src/\<close>): the standard library's heap, on
  whose internal order the history of configurations relies, the history as a stack that loses records below its top when it is full (C3),
  verification (C12), and the round trip over the file system (C40).

  \<^item> \<^verbatim>\<open>Daemon\<close>, \<^verbatim>\<open>Cli\<close> (\<^verbatim>\<open>chronicle/src/\<close>, \<^verbatim>\<open>chronicle-cli/src/\<close>, \<^verbatim>\<open>chronicle-broker/src/websocket/\<close>):
  the commands, from the command line over the program's websocket to the broker (C35).

  \<^bold>\<open>Bounds and fuel.\<close> Recursion over lists of events, rows, lines and replies is structural or has a measure, so no
  function is partial. The request loop of the syncer runs over its free slots, the retry loop of the
  requester over its retries. The walk of \<^verbatim>\<open>Api_Paging\<close> takes fuel, as it may run forever: C29 gives
  a measure that bounds it for distinct partitions, C31 shows that no fuel is enough otherwise.
  Ranges end below the largest \<^verbatim>\<open>u32\<close> where a property says so, because \<^verbatim>\<open>lf_to + 1\<close> wraps.

  \<^bold>\<open>Lemmas beside the properties\<close> show behaviour that is hardly meant, each at the function it is
  about; among them \<^verbatim>\<open>empty_page_ends_fetch\<close>, \<^verbatim>\<open>unreachable_first_milestone_panics\<close>, \<^verbatim>\<open>repeated_ask_is_closed\<close>,
  \<^verbatim>\<open>no_endpoints_no_requests\<close>, \<^verbatim>\<open>malformed_message_panics\<close>, \<^verbatim>\<open>persisted_only_counted\<close>,
  \<^verbatim>\<open>large_end_finds_nothing\<close>, \<^verbatim>\<open>unreferenced_message_panics\<close>, \<^verbatim>\<open>lost_row_goes_on\<close>, \<^verbatim>\<open>pending_imports_stall\<close>, \<^verbatim>\<open>same_second_update_lost\<close>,
  \<^verbatim>\<open>history_drops_recent\<close>, \<^verbatim>\<open>basic_merge_loses_logs\<close>, \<^verbatim>\<open>unknown_path_is_500\<close> and \<^verbatim>\<open>forwarding_blocks\<close>.

  \<^bold>\<open>Not modelled.\<close> The starters of the actors and the wiring of channels (calls of the
  third-party actor framework), two hooks that only pass on a status, metrics, the filter, which is a
  stub behind a feature that is off, the keyspace trait of the driver, the headers and log lines of the
  web server, the command that spawns the program, whatever is only logged or printed, and the
  integration tests.
\<close>

end
